(* ===== verification/Rust_Prelude.thy ===== *)
theory Rust_Prelude
  imports Main "HOL-Library.Word"
begin

unbundle bit_operations_syntax

text \<open>
  What the components of the emulator share: the machine integer types, the checked and
  saturating operations of Rust's integers, little-endian byte access, and the ordered map
  (\<^verbatim>\<open>BTreeMap\<close>) of the Rust standard library as a sorted association list. Plain \<open>+\<close>, \<open>-\<close>, \<open>*\<close> on
  words wrap, as Rust's integers do in the release profile of the workspace
  (\<^verbatim>\<open>Cargo.toml\<close> leaves \<^verbatim>\<open>overflow-checks\<close> off there).
\<close>

named_theorems unat_simps \<open>moving word arithmetic to natural numbers\<close>
named_theorems btree_simps \<open>operations of the ordered map\<close>

type_synonym u8 = "8 word"
type_synonym u16 = "16 word"
type_synonym u32 = "32 word"
type_synonym u64 = "64 word"

type_synonym 'a result = "string + 'a"

abbreviation Err :: "string \<Rightarrow> 'a result" where "Err \<equiv> Inl"
abbreviation Ok :: "'a \<Rightarrow> 'a result" where "Ok \<equiv> Inr"

section \<open>Checked and saturating arithmetic\<close>

definition checked_add :: "'a::len word \<Rightarrow> 'a word \<Rightarrow> 'a word option" where
  "checked_add a b = (if unat a + unat b < 2 ^ LENGTH('a) then Some (a + b) else None)"

definition saturating_add :: "'a::len word \<Rightarrow> 'a word \<Rightarrow> 'a word" where
  "saturating_add a b = (if unat a + unat b < 2 ^ LENGTH('a) then a + b else - 1)"

definition saturating_sub :: "'a::len word \<Rightarrow> 'a word \<Rightarrow> 'a word" where
  "saturating_sub a b = (if b \<le> a then a - b else 0)"

definition checked_next_multiple_of :: "'a::len word \<Rightarrow> 'a word \<Rightarrow> 'a word option" where
  "checked_next_multiple_of a m =
     (if m = 0 then None
      else if a mod m = 0 then Some a else checked_add a (m - a mod m))"

lemma checked_add_Some [simp]:
  "checked_add a b = Some c \<longleftrightarrow> unat a + unat b < 2 ^ LENGTH('a) \<and> c = a + b"
  for a b :: "'a::len word"
  by (auto simp: checked_add_def)

lemma checked_add_None [simp]:
  "checked_add a b = None \<longleftrightarrow> 2 ^ LENGTH('a) \<le> unat a + unat b"
  for a b :: "'a::len word"
  by (auto simp: checked_add_def)

lemma unat_add_nowrap [unat_simps]:
  "unat a + unat b < 2 ^ LENGTH('a) \<Longrightarrow> unat (a + b) = unat a + unat b"
  for a b :: "'a::len word"
  by (simp add: unat_word_ariths)

lemma unat_sub_le [unat_simps]:
  "b \<le> a \<Longrightarrow> unat (a - b) = unat a - unat b"
  for a b :: "'a::len word"
  by (simp add: unat_sub word_le_nat_alt)

lemma unat_saturating_add [unat_simps]:
  "unat (saturating_add a b) = min (unat a + unat b) (2 ^ LENGTH('a) - 1)"
  for a b :: "'a::len word"
  by (auto simp: saturating_add_def unat_add_nowrap unsigned_minus_1_eq_mask mask_eq_exp_minus_1)

lemma unat_lt_2p: "unat a < 2 ^ LENGTH('a)" for a :: "'a::len word"
  by (rule unsigned_less)

lemma unat_of_nat_small [unat_simps]:
  "n < 2 ^ LENGTH('a) \<Longrightarrow> unat (of_nat n :: 'a::len word) = n"
  by (simp add: unsigned_of_nat take_bit_nat_eq_self)

lemma u64_bound: "unat (a :: u64) < 18446744073709551616"
  using unat_lt_2p[of a] by simp

lemma u32_bound: "unat (a :: u32) < 4294967296"
  using unat_lt_2p[of a] by simp

text \<open>Rounding up to a power of two: \<open>(c + (al - 1)) & !(al - 1)\<close>.\<close>

definition align_up :: "u64 \<Rightarrow> u64 \<Rightarrow> u64" where
  "align_up c al = (c + (al - 1)) AND NOT (al - 1)"

lemma and_not_mask_unat:
  "unat (x AND NOT (mask k)) = unat x div 2 ^ k * 2 ^ k" for x :: "'a::len word"
proof -
  have "x AND NOT (mask k) = push_bit k (drop_bit k x)"
    by (rule bit_word_eqI) (auto simp: bit_simps)
  moreover have "unat (push_bit k (drop_bit k x)) = unat x div 2 ^ k * 2 ^ k"
  proof -
    have "unat x div 2 ^ k * 2 ^ k < 2 ^ LENGTH('a)"
      by (rule le_less_trans[OF _ unat_lt_2p[of x]]) (simp add: div_mult_mod_eq)
    then show ?thesis
      by (simp only: unsigned_push_bit_eq unsigned_drop_bit_eq)
        (simp add: take_bit_eq_mod push_bit_eq_mult drop_bit_eq_div)
  qed
  ultimately show ?thesis by simp
qed

lemma align_up_unat:
  assumes al: "unat al = 2 ^ k" and nowrap: "unat c + unat al \<le> 2 ^ 64"
  shows "unat (align_up c al) = (unat c + unat al - 1) div unat al * unat al"
proof -
  have k: "k < 64"
  proof (rule ccontr)
    assume "\<not> k < 64"
    then have "(2::nat) ^ 64 \<le> 2 ^ k" by (intro power_increasing) auto
    then show False using al unat_lt_2p[of al] by simp
  qed
  have al_eq: "al = 2 ^ k"
    using arg_cong[OF al, of "of_nat :: nat \<Rightarrow> u64"] by simp
  have m: "al - 1 = mask k"
    by (simp add: al_eq mask_eq_exp_minus_1)
  have one: "unat (al - 1) = unat al - 1"
    using al by (intro unat_minus_one) auto
  have "unat (c + (al - 1)) = unat c + (unat al - 1)"
    using nowrap al by (subst unat_add_nowrap) (auto simp: one)
  then show ?thesis
    unfolding align_up_def m[symmetric] using and_not_mask_unat[of "c + (al - 1)" k] al
    by (simp add: m)
qed

lemma round_up_bounds:
  fixes c al :: nat
  assumes "0 < al"
  shows "c \<le> (c + al - 1) div al * al" and "(c + al - 1) div al * al < c + al"
    and "al dvd (c + al - 1) div al * al"
proof -
  have e: "(c + al - 1) div al * al + (c + al - 1) mod al = c + al - 1"
    by (rule div_mult_mod_eq)
  have "(c + al - 1) mod al < al" using assms by simp
  with e assms show "c \<le> (c + al - 1) div al * al" "(c + al - 1) div al * al < c + al"
    by linarith+
qed simp

text \<open>
  \<^verbatim>\<open>next_multiple_of\<close> of the release profile, where the addition wraps, and what it and its checked
  form give when they do not.
\<close>

definition next_multiple_of :: "'a::len word \<Rightarrow> 'a word \<Rightarrow> 'a word" where
  "next_multiple_of a m = (if a mod m = 0 then a else a + (m - a mod m))"

lemma round_up_step:
  fixes a m :: nat
  assumes "0 < m"
  shows "m dvd (if a mod m = 0 then a else a + (m - a mod m))"
    and "a \<le> (if a mod m = 0 then a else a + (m - a mod m))"
    and "(if a mod m = 0 then a else a + (m - a mod m)) < a + m"
proof -
  have lt: "a mod m < m" using assms by simp
  have "m * (a div m) + a mod m = a" by simp
  then have "a + (m - a mod m) = m * (a div m) + m" using lt by linarith
  then have "a + (m - a mod m) = m * (a div m + 1)" by simp
  then show "m dvd (if a mod m = 0 then a else a + (m - a mod m))" by (auto simp: mod_eq_0_iff_dvd)
  show "a \<le> (if a mod m = 0 then a else a + (m - a mod m))"
    "(if a mod m = 0 then a else a + (m - a mod m)) < a + m"
    using assms lt by auto
qed

lemma next_multiple_of_unat:
  fixes a m :: "'a::len word"
  assumes m: "m \<noteq> 0" and fits: "unat a < unat m \<or> unat a + unat m < 2 ^ LENGTH('a)"
  shows "unat m dvd unat (next_multiple_of a m)" and "unat a \<le> unat (next_multiple_of a m)"
    and "unat (next_multiple_of a m) < unat a + unat m"
proof -
  have m0: "0 < unat m" using m by (simp add: unat_gt_0)
  have md: "unat (a mod m) = unat a mod unat m" by (simp add: unat_mod)
  have z: "a mod m = 0 \<longleftrightarrow> unat a mod unat m = 0" by (metis md unat_eq_zero)
  have lt: "unat a mod unat m < unat m" using m0 by simp
  have sub: "unat (m - a mod m) = unat m - unat a mod unat m"
    using lt md by (subst unat_sub_le) (auto simp: word_le_nat_alt)
  have nowrap: "unat a + (unat m - unat a mod unat m) < 2 ^ LENGTH('a)"
    using fits
  proof
    assume "unat a < unat m"
    then show ?thesis using unat_lt_2p[of m] by simp
  next
    assume "unat a + unat m < 2 ^ LENGTH('a)"
    then show ?thesis by (rule le_less_trans[rotated]) simp
  qed
  have "unat (next_multiple_of a m)
      = (if unat a mod unat m = 0 then unat a else unat a + (unat m - unat a mod unat m))"
    using nowrap by (simp add: next_multiple_of_def z sub unat_add_nowrap)
  then show "unat m dvd unat (next_multiple_of a m)" "unat a \<le> unat (next_multiple_of a m)"
    "unat (next_multiple_of a m) < unat a + unat m"
    using round_up_step[OF m0, of "unat a"] by simp_all
qed

lemma checked_next_multiple_of_unat:
  fixes a m r :: "'a::len word"
  assumes "checked_next_multiple_of a m = Some r"
  shows "unat m dvd unat r" and "unat a \<le> unat r" and "unat r < unat a + unat m"
proof -
  have m0: "0 < unat m" using assms by (auto simp: checked_next_multiple_of_def unat_gt_0 split: if_splits)
  have md: "unat (a mod m) = unat a mod unat m" by (simp add: unat_mod)
  have z: "a mod m = 0 \<longleftrightarrow> unat a mod unat m = 0" by (metis md unat_eq_zero)
  have lt: "unat a mod unat m < unat m" using m0 by simp
  have sub: "unat (m - a mod m) = unat m - unat a mod unat m"
    using lt md by (subst unat_sub_le) (auto simp: word_le_nat_alt)
  have "unat r = (if unat a mod unat m = 0 then unat a else unat a + (unat m - unat a mod unat m))"
    using assms by (auto simp: checked_next_multiple_of_def z sub unat_add_nowrap split: if_splits)
  then show "unat m dvd unat r" "unat a \<le> unat r" "unat r < unat a + unat m"
    using round_up_step[OF m0, of "unat a"] by simp_all
qed

section \<open>Ordered maps\<close>

text \<open>
  A \<^verbatim>\<open>BTreeMap\<close> is its list of entries in key order. \<open>bt_range_le\<close> is \<^verbatim>\<open>range(..=k)\<close>,
  \<open>bt_range_lt\<close> is \<^verbatim>\<open>range(..k)\<close>, \<open>bt_range_from\<close> is \<^verbatim>\<open>range(k..)\<close>, each iterated in key order;
  \<open>bt_last_le\<close> is \<^verbatim>\<open>range(..=k).next_back()\<close>.
\<close>

type_synonym ('k, 'v) btree = "('k \<times> 'v) list"

definition bt_wf :: "('k::linorder, 'v) btree \<Rightarrow> bool" where
  "bt_wf m \<longleftrightarrow> sorted_wrt (<) (map fst m)"

abbreviation bt_get :: "('k, 'v) btree \<Rightarrow> 'k \<Rightarrow> 'v option" where
  "bt_get m k \<equiv> map_of m k"

fun bt_insert :: "'k::linorder \<Rightarrow> 'v \<Rightarrow> ('k, 'v) btree \<Rightarrow> ('k, 'v) btree" where
  "bt_insert k v [] = [(k, v)]"
| "bt_insert k v ((k', v') # m) =
     (if k < k' then (k, v) # (k', v') # m
      else if k = k' then (k, v) # m
      else (k', v') # bt_insert k v m)"

definition bt_remove :: "'k \<Rightarrow> ('k, 'v) btree \<Rightarrow> ('k, 'v) btree" where
  "bt_remove k m = filter (\<lambda>(k', _). k' \<noteq> k) m"

definition bt_values :: "('k, 'v) btree \<Rightarrow> 'v list" where
  "bt_values m = map snd m"

definition bt_range_le :: "('k::linorder, 'v) btree \<Rightarrow> 'k \<Rightarrow> ('k \<times> 'v) list" where
  "bt_range_le m k = filter (\<lambda>(k', _). k' \<le> k) m"

definition bt_range_lt :: "('k::linorder, 'v) btree \<Rightarrow> 'k \<Rightarrow> ('k \<times> 'v) list" where
  "bt_range_lt m k = filter (\<lambda>(k', _). k' < k) m"

definition bt_range_from :: "('k::linorder, 'v) btree \<Rightarrow> 'k \<Rightarrow> ('k \<times> 'v) list" where
  "bt_range_from m k = filter (\<lambda>(k', _). k \<le> k') m"

definition last_opt :: "'a list \<Rightarrow> 'a option" where
  "last_opt xs = (if xs = [] then None else Some (last xs))"

definition hd_opt :: "'a list \<Rightarrow> 'a option" where
  "hd_opt xs = (case xs of [] \<Rightarrow> None | x # _ \<Rightarrow> Some x)"

definition bt_last_le :: "('k::linorder, 'v) btree \<Rightarrow> 'k \<Rightarrow> ('k \<times> 'v) option" where
  "bt_last_le m k = last_opt (bt_range_le m k)"

lemma bt_wf_Nil [simp]: "bt_wf []"
  by (simp add: bt_wf_def)

lemma bt_wf_Cons [simp]:
  "bt_wf ((k, v) # m) \<longleftrightarrow> (\<forall>k' \<in> fst ` set m. k < k') \<and> bt_wf m"
  by (auto simp: bt_wf_def)

lemma bt_wf_distinct: "bt_wf m \<Longrightarrow> distinct (map fst m)"
  by (simp add: bt_wf_def strict_sorted_iff)

lemma bt_wf_filter: "bt_wf m \<Longrightarrow> bt_wf (filter P m)"
  by (induction m) auto

lemma bt_get_iff_mem: "bt_wf m \<Longrightarrow> bt_get m k = Some v \<longleftrightarrow> (k, v) \<in> set m"
  by (simp add: bt_wf_distinct)

lemma bt_keys_unique: "bt_wf m \<Longrightarrow> (k, v) \<in> set m \<Longrightarrow> (k, v') \<in> set m \<Longrightarrow> v = v'"
  by (metis bt_get_iff_mem option.inject)

lemma bt_remove_set [btree_simps]: "set (bt_remove k m) = {(k', v) \<in> set m. k' \<noteq> k}"
  by (auto simp: bt_remove_def)

lemma bt_remove_wf: "bt_wf m \<Longrightarrow> bt_wf (bt_remove k m)"
  by (simp add: bt_remove_def bt_wf_filter)

lemma bt_remove_get [btree_simps]: "bt_get (bt_remove k m) = (bt_get m)(k := None)"
  by (induction m) (auto simp: bt_remove_def fun_eq_iff)

lemma bt_insert_get [btree_simps]: "bt_get (bt_insert k v m) = (bt_get m)(k \<mapsto> v)"
  by (induction k v m rule: bt_insert.induct) (auto simp: fun_eq_iff)

lemma bt_insert_set [btree_simps]:
  "bt_wf m \<Longrightarrow> set (bt_insert k v m) = insert (k, v) {(k', v') \<in> set m. k' \<noteq> k}"
  by (induction k v m rule: bt_insert.induct) (auto split: if_splits)

lemma bt_insert_wf: "bt_wf m \<Longrightarrow> bt_wf (bt_insert k v m)"
  by (induction k v m rule: bt_insert.induct) (auto simp: btree_simps)

lemma last_opt_filter_sorted:
  assumes "bt_wf m" and "last_opt (filter (\<lambda>(k', _). P k') m) = Some (k, v)"
  shows "(k, v) \<in> set m" and "P k" and "\<And>k' v'. (k', v') \<in> set m \<Longrightarrow> P k' \<Longrightarrow> k' \<le> k"
proof -
  let ?f = "filter (\<lambda>(k', _). P k') m"
  have ne: "?f \<noteq> []" and l: "last ?f = (k, v)"
    using assms(2) by (auto simp: last_opt_def split: if_splits)
  then have mem: "(k, v) \<in> set ?f" by (metis last_in_set)
  then show "(k, v) \<in> set m" "P k" by auto
  fix k' v' assume "(k', v') \<in> set m" and "P k'"
  then have mem': "(k', v') \<in> set ?f" by auto
  obtain ys where ys: "?f = ys @ [(k, v)]" using ne l by (metis append_butlast_last_id)
  have "bt_wf (ys @ [(k, v)])" using assms(1) bt_wf_filter ys by metis
  then have "\<forall>x \<in> fst ` set ys. x < k"
    by (auto simp: bt_wf_def sorted_wrt_append)
  moreover have "(k', v') \<in> set ys \<or> (k', v') = (k, v)"
    using mem' unfolding ys by auto
  ultimately show "k' \<le> k" by force
qed

lemma bt_last_le_Some:
  assumes "bt_wf m" and "bt_last_le m x = Some (k, v)"
  shows "(k, v) \<in> set m" and "k \<le> x" and "\<And>k' v'. (k', v') \<in> set m \<Longrightarrow> k' \<le> x \<Longrightarrow> k' \<le> k"
proof -
  have f: "last_opt (filter (\<lambda>(k', _). k' \<le> x) m) = Some (k, v)"
    using assms(2) by (simp add: bt_last_le_def bt_range_le_def)
  note last = last_opt_filter_sorted[where P = "\<lambda>k'. k' \<le> x", OF assms(1) f]
  show "(k, v) \<in> set m" by (rule last(1))
  show "k \<le> x" by (rule last(2))
  show "\<And>k' v'. (k', v') \<in> set m \<Longrightarrow> k' \<le> x \<Longrightarrow> k' \<le> k" by (rule last(3))
qed

lemma bt_last_le_None: "bt_last_le m x = None \<longleftrightarrow> (\<forall>(k, v) \<in> set m. x < k)"
  for x :: "'k::linorder"
  by (auto simp: bt_last_le_def bt_range_le_def last_opt_def filter_empty_conv not_le
      case_prod_beta)

text \<open>The contract the components rely on, and that the sorted list keeps it.\<close>

locale ordered_map =
  fixes get :: "'m \<Rightarrow> 'k::linorder \<Rightarrow> 'v option"
    and ins :: "'k \<Rightarrow> 'v \<Rightarrow> 'm \<Rightarrow> 'm"
    and rem :: "'k \<Rightarrow> 'm \<Rightarrow> 'm"
    and entries :: "'m \<Rightarrow> ('k \<times> 'v) list"
    and wf :: "'m \<Rightarrow> bool"
  assumes get_ins: "wf m \<Longrightarrow> get (ins k v m) = (get m)(k \<mapsto> v)"
    and get_rem: "wf m \<Longrightarrow> get (rem k m) = (get m)(k := None)"
    and wf_ins: "wf m \<Longrightarrow> wf (ins k v m)"
    and wf_rem: "wf m \<Longrightarrow> wf (rem k m)"
    and entries_get: "wf m \<Longrightarrow> (k, v) \<in> set (entries m) \<longleftrightarrow> get m k = Some v"
    and entries_sorted: "wf m \<Longrightarrow> sorted_wrt (<) (map fst (entries m))"
begin

lemma get_rem_ins: "wf m \<Longrightarrow> get m k = None \<Longrightarrow> get (rem k (ins k v m)) = get m"
  by (auto simp: get_rem get_ins wf_ins)

lemma entries_ins_new:
  "wf m \<Longrightarrow> get m k = None \<Longrightarrow> set (entries (ins k v m)) = insert (k, v) (set (entries m))"
  by (auto simp: entries_get wf_ins get_ins split: if_splits)

lemma entries_rem: "wf m \<Longrightarrow> set (entries (rem k m)) = {(k', v) \<in> set (entries m). k' \<noteq> k}"
  by (auto simp: entries_get wf_rem get_rem split: if_splits)

end

interpretation btree: ordered_map bt_get bt_insert bt_remove "\<lambda>m. m" bt_wf
  by unfold_locales
    (auto simp: btree_simps bt_insert_wf bt_remove_wf bt_get_iff_mem bt_wf_def[symmetric]
      simp del: map_of_eq_Some_iff)

section \<open>Little-endian bytes\<close>

definition le_u16 :: "u8 \<Rightarrow> u8 \<Rightarrow> u16" where
  "le_u16 b0 b1 = ucast b0 OR push_bit 8 (ucast b1)"

definition le_u32 :: "u8 \<Rightarrow> u8 \<Rightarrow> u8 \<Rightarrow> u8 \<Rightarrow> u32" where
  "le_u32 b0 b1 b2 b3 =
     ucast b0 OR push_bit 8 (ucast b1) OR push_bit 16 (ucast b2) OR push_bit 24 (ucast b3)"

fun le_nat :: "u8 list \<Rightarrow> nat" where
  "le_nat [] = 0"
| "le_nat (b # bs) = unat b + 256 * le_nat bs"

text \<open>\<^verbatim>\<open>u64::from_le_bytes\<close> of an eight-byte slice, \<^verbatim>\<open>u32::to_le_bytes\<close>.\<close>

definition le_u64 :: "u8 list \<Rightarrow> u64" where
  "le_u64 bs = of_nat (le_nat bs)"

definition u32_bytes :: "u32 \<Rightarrow> u8 list" where
  "u32_bytes w = [ucast w, ucast (drop_bit 8 w), ucast (drop_bit 16 w), ucast (drop_bit 24 w)]"

text \<open>A Rust slice \<^verbatim>\<open>xs[a..b]\<close>, for bounds the code has checked.\<close>

definition slice :: "nat \<Rightarrow> nat \<Rightarrow> 'a list \<Rightarrow> 'a list" where
  "slice a b xs = take (b - a) (drop a xs)"

lemma length_slice [simp]: "a \<le> b \<Longrightarrow> b \<le> length xs \<Longrightarrow> length (slice a b xs) = b - a"
  by (simp add: slice_def)

lemma nth_slice: "i < b - a \<Longrightarrow> b \<le> length xs \<Longrightarrow> slice a b xs ! i = xs ! (a + i)"
  by (simp add: slice_def)

lemma u32_le_bytes_roundtrip [simp]:
  "le_u32 (ucast w) (ucast (drop_bit 8 w)) (ucast (drop_bit 16 w)) (ucast (drop_bit 24 w)) = w"
proof (rule bit_word_eqI)
  fix n assume "n < LENGTH(32)"
  then have "n < 32" "24 \<le> n \<Longrightarrow> 24 + (n - 24) = n" "16 \<le> n \<Longrightarrow> 16 + (n - 16) = n"
    "8 \<le> n \<Longrightarrow> 8 + (n - 8) = n"
    by simp_all
  then show "bit (le_u32 (ucast w) (ucast (drop_bit 8 w)) (ucast (drop_bit 16 w))
      (ucast (drop_bit 24 w))) n = bit w n"
    by (cases "n < 8"; cases "n < 16"; cases "n < 24") (auto simp: le_u32_def bit_simps)
qed

end
