(* ===== verification/Guest_Memory.thy ===== *)
theory Guest_Memory
  imports Rust_Prelude
begin

unbundle bit_operations_syntax

text \<open>
  The guest memory manager: \<^verbatim>\<open>crates/memory/src/vm_backend.rs\<close> (the VMA table over the
  pre-mapped arena), the trait and the VMA type of \<^verbatim>\<open>crates/core/src/memory.rs\<close>, and the arena
  constants of \<^verbatim>\<open>crates/cpu/src/guest_vm.rs\<close>. The bytes of the arena belong to the x86 engine
  (\<^verbatim>\<open>x86jit_core::Vm\<close>, a dependency) and the page discard to the host (\<^verbatim>\<open>madvise\<close>), so both are the
  parameter \<open>ram_ops\<close>; what the manager relies on is the locale \<open>guest_ram\<close>.
\<close>

section \<open>The trait's data\<close>

text \<open>\<^verbatim>\<open>MemoryProtection\<close> is a bit set over a \<^verbatim>\<open>u32\<close>.\<close>

type_synonym memory_protection = u32

definition PROT_READ :: memory_protection where "PROT_READ = 1"
definition PROT_WRITE :: memory_protection where "PROT_WRITE = 2"
definition PROT_EXEC :: memory_protection where "PROT_EXEC = 4"

text \<open>\<^verbatim>\<open>impl From<u32>\<close>: ELF segment flags (X 1, W 2, R 4) to protection bits (R 1, W 2, X 4).\<close>

definition prot_from_elf :: "u32 \<Rightarrow> memory_protection" where
  "prot_from_elf f =
     (if f AND 4 \<noteq> 0 then PROT_READ else 0) OR
     (if f AND 2 \<noteq> 0 then PROT_WRITE else 0) OR
     (if f AND 1 \<noteq> 0 then PROT_EXEC else 0)"

record vma =
  vma_start :: u64
  vma_end :: u64
  vma_size :: u64
  vma_protection :: memory_protection
  vma_name :: string

definition vma_contains :: "vma \<Rightarrow> u64 \<Rightarrow> bool" where
  "vma_contains v addr \<longleftrightarrow> vma_start v \<le> addr \<and> addr < vma_end v"

definition GUEST_BASE :: u64 where "GUEST_BASE = 0x10000"
definition GADGET_ADDR :: u64 where "GADGET_ADDR = 0x30000"
definition DIRECT_MEMORY_POOL_BASE :: u64 where "DIRECT_MEMORY_POOL_BASE = 0x900000000"
definition DIRECT_MEMORY_POOL_SIZE :: u64 where "DIRECT_MEMORY_POOL_SIZE = 0x140000000"
definition HEAP_BASE :: u64 where "HEAP_BASE = 0x400000000"
definition PAGE :: u64 where "PAGE = 0x1000"

abbreviation pool_end :: u64 where
  "pool_end \<equiv> DIRECT_MEMORY_POOL_BASE + DIRECT_MEMORY_POOL_SIZE"

section \<open>The engine's memory, as a parameter\<close>

record 'ram ram_ops =
  ram_write :: "'ram \<Rightarrow> u64 \<Rightarrow> u8 list \<Rightarrow> 'ram option"
  ram_read :: "'ram \<Rightarrow> u64 \<Rightarrow> nat \<Rightarrow> u8 list option"
  ram_dontneed :: "'ram \<Rightarrow> u64 \<Rightarrow> u64 \<Rightarrow> 'ram"

record 'ram guest_vm =
  gv_ram :: 'ram
  gv_span :: u64

record 'ram vmm =
  vmm_vm :: "'ram guest_vm"
  allocations :: "(u64, vma) btree"
  heap_cursor :: u64
  ever_mapped :: "(u64, u64) btree"

definition vmm_new :: "'ram guest_vm \<Rightarrow> 'ram vmm" where
  "vmm_new vm =
     \<lparr> vmm_vm = vm,
       allocations = [(GADGET_ADDR,
         \<lparr> vma_start = GADGET_ADDR, vma_end = GADGET_ADDR + 0x1000, vma_size = 0x1000,
           vma_protection = PROT_READ OR PROT_EXEC, vma_name = ''hlt_gadget'' \<rparr>)],
       heap_cursor = HEAP_BASE,
       ever_mapped = [(GADGET_ADDR, GADGET_ADDR + 0x1000)] \<rparr>"

section \<open>The set of ranges that were ever mapped\<close>

fun mapped_parts_walk :: "(u64 \<times> u64) list \<Rightarrow> u64 \<Rightarrow> u64 \<Rightarrow> (u64 \<times> u64) list" where
  "mapped_parts_walk [] start e = []"
| "mapped_parts_walk ((s, t) # xs) start e =
     (if e \<le> s then []
      else (let lo = max s start; hi = min t e in
        (if lo < hi then (lo, hi) # mapped_parts_walk xs start e
         else mapped_parts_walk xs start e)))"

definition previously_mapped_parts :: "(u64, u64) btree \<Rightarrow> u64 \<Rightarrow> u64 \<Rightarrow> (u64 \<times> u64) list" where
  "previously_mapped_parts em start e =
     (let first = (case bt_last_le em start of
                     Some (s, t) \<Rightarrow> if start < t then s else start
                   | None \<Rightarrow> start)
      in mapped_parts_walk (bt_range_from em first) start e)"

fun absorb :: "u64 list \<Rightarrow> (u64, u64) btree \<times> u64 \<times> u64 \<Rightarrow> (u64, u64) btree \<times> u64 \<times> u64" where
  "absorb [] st = st"
| "absorb (s # ss) (em, lo, hi) =
     absorb ss (case bt_get em s of
                  Some t \<Rightarrow> (bt_remove s em, min lo s, max hi t)
                | None \<Rightarrow> (em, lo, hi))"

definition note_ever_mapped :: "(u64, u64) btree \<Rightarrow> u64 \<Rightarrow> u64 \<Rightarrow> (u64, u64) btree" where
  "note_ever_mapped em start e =
     (let overlapping = map fst (filter (\<lambda>(_, t). start \<le> t) (bt_range_le em e));
          (em', lo, hi) = absorb overlapping (em, start, e)
      in bt_insert lo hi em')"

section \<open>Zero filling\<close>

definition ZERO_CHUNK :: nat where "ZERO_CHUNK = 2 ^ 20"

text \<open>The copy loop of \<^verbatim>\<open>zero_range\<close>; on a failed write the chunks before it stay written.\<close>

function zero_loop :: "'ram ram_ops \<Rightarrow> 'ram \<Rightarrow> u64 \<Rightarrow> nat \<Rightarrow> nat \<Rightarrow> 'ram \<times> unit result" where
  "zero_loop ops r start tot dn =
     (if dn < tot then
        (let n = min (tot - dn) ZERO_CHUNK in
         case ram_write ops r (start + of_nat dn) (replicate n 0) of
           None \<Rightarrow> (r, Err ''zero-fill of fresh map failed'')
         | Some r' \<Rightarrow> zero_loop ops r' start tot (dn + n))
      else (r, Ok ()))"
  by pat_completeness auto
termination
  by (relation "measure (\<lambda>(ops, r, start, tot, dn). tot - dn)") (auto simp: ZERO_CHUNK_def)

declare zero_loop.simps [simp del]

definition zero_range :: "'ram ram_ops \<Rightarrow> 'ram \<Rightarrow> u64 \<Rightarrow> u64 \<Rightarrow> 'ram \<times> unit result" where
  "zero_range ops r start e = zero_loop ops r start (unat (e - start)) 0"

fun zero_parts :: "'ram ram_ops \<Rightarrow> 'ram \<Rightarrow> (u64 \<times> u64) list \<Rightarrow> 'ram \<times> unit result" where
  "zero_parts ops r [] = (r, Ok ())"
| "zero_parts ops r ((zs, ze) # ps) =
     (case zero_range ops r zs ze of
        (r', Inl err) \<Rightarrow> (r', Inl err)
      | (r', Inr _) \<Rightarrow> zero_parts ops r' ps)"

section \<open>Placement and mapping\<close>

definition containing_vma :: "(u64, vma) btree \<Rightarrow> u64 \<Rightarrow> vma option" where
  "containing_vma al addr =
     (case bt_last_le al addr of
        Some (_, v) \<Rightarrow> if vma_contains v addr then Some v else None
      | None \<Rightarrow> None)"

definition is_memory_free :: "(u64, vma) btree \<Rightarrow> u64 \<Rightarrow> u64 \<Rightarrow> bool" where
  "is_memory_free al addr sz =
     (let e = addr + sz in
      list_all (\<lambda>v. \<not> (addr < vma_end v \<and> vma_start v < e)) (bt_values al))"

text \<open>
  The search loop of \<^verbatim>\<open>find_free_region_aligned\<close>: the chosen base and the new heap cursor, or
  \<open>None\<close> where the loop does not end.
\<close>

partial_function (option) find_free_loop ::
  "(u64, vma) btree \<Rightarrow> u64 \<Rightarrow> u64 \<Rightarrow> u64 \<Rightarrow> (u64 \<times> u64) option" where
  "find_free_loop al sz align cursor =
     (let addr = align_up cursor align; e = addr + sz in
      if addr < pool_end \<and> DIRECT_MEMORY_POOL_BASE < e then find_free_loop al sz align pool_end
      else if is_memory_free al addr sz then Some (addr, addr + sz)
      else find_free_loop al sz align (cursor + align))"

definition find_free_region_aligned ::
  "'ram vmm \<Rightarrow> u64 \<Rightarrow> u64 \<Rightarrow> ('ram vmm \<times> u64) option" where
  "find_free_region_aligned s sz align =
     (case find_free_loop (allocations s) sz (max align 0x4000) (heap_cursor s) of
        None \<Rightarrow> None
      | Some (addr, cur) \<Rightarrow> Some (s\<lparr>heap_cursor := cur\<rparr>, addr))"

abbreviation vmm_span :: "'ram vmm \<Rightarrow> u64" where
  "vmm_span s \<equiv> gv_span (vmm_vm s)"

abbreviation vmm_ram :: "'ram vmm \<Rightarrow> 'ram" where
  "vmm_ram s \<equiv> gv_ram (vmm_vm s)"

definition set_ram :: "'ram \<Rightarrow> 'ram vmm \<Rightarrow> 'ram vmm" where
  "set_ram r s = s\<lparr>vmm_vm := (vmm_vm s)\<lparr>gv_ram := r\<rparr>\<rparr>"

text \<open>The tail of \<^verbatim>\<open>map_aligned\<close>, once the base is chosen: zero the used parts, record, insert.\<close>

definition map_commit ::
  "'ram ram_ops \<Rightarrow> 'ram vmm \<Rightarrow> u64 \<Rightarrow> u64 \<Rightarrow> memory_protection \<Rightarrow> string option \<Rightarrow>
   'ram vmm \<times> u64 result" where
  "map_commit ops s addr sz prot name =
     (let map_end = addr + sz in
      case zero_parts ops (vmm_ram s) (previously_mapped_parts (ever_mapped s) addr map_end) of
        (r, Inl err) \<Rightarrow> (set_ram r s, Inl err)
      | (r, Inr _) \<Rightarrow>
          (let v = \<lparr> vma_start = addr, vma_end = addr + sz, vma_size = sz,
                     vma_protection = prot,
                     vma_name = (case name of Some n \<Rightarrow> n | None \<Rightarrow> ''dynamic_alloc'') \<rparr>
           in ((set_ram r s)\<lparr> ever_mapped := note_ever_mapped (ever_mapped s) addr map_end,
                              allocations := bt_insert addr v (allocations s) \<rparr>,
               Ok addr)))"

definition map_aligned ::
  "'ram ram_ops \<Rightarrow> 'ram vmm \<Rightarrow> u64 \<Rightarrow> u64 \<Rightarrow> u64 \<Rightarrow> memory_protection \<Rightarrow> string option \<Rightarrow>
   ('ram vmm \<times> u64 result) option" where
  "map_aligned ops s addr sz align prot name =
     (if sz = 0 then Some (s, Err ''zero-length map'')
      else if addr = 0 then
        (if saturating_sub (vmm_span s) GUEST_BASE < sz
         then Some (s, Err ''map beyond arena span'')
         else case find_free_region_aligned s sz align of
           None \<Rightarrow> None
         | Some (s', a) \<Rightarrow>
             (case checked_add a sz of
                None \<Rightarrow> Some (s', Err ''map size overflow'')
              | Some e \<Rightarrow>
                  if vmm_span s' < e then Some (s', Err ''map beyond arena span'')
                  else Some (map_commit ops s' a sz prot name)))
      else if addr < GUEST_BASE then Some (s, Err ''map below guest_base'')
      else case checked_add addr sz of
             None \<Rightarrow> Some (s, Err ''map size overflow'')
           | Some e \<Rightarrow>
               if vmm_span s < e then Some (s, Err ''map beyond arena span'')
               else if \<not> is_memory_free (allocations s) addr sz
               then Some (s, Err ''Memory collision'')
               else Some (map_commit ops s addr sz prot name))"

definition vmm_map ::
  "'ram ram_ops \<Rightarrow> 'ram vmm \<Rightarrow> u64 \<Rightarrow> u64 \<Rightarrow> memory_protection \<Rightarrow> string option \<Rightarrow>
   ('ram vmm \<times> u64 result) option" where
  "vmm_map ops s addr sz prot name = map_aligned ops s addr sz 0 prot name"

section \<open>Unmapping, protection, queries\<close>

definition in_direct_memory_pool :: "u64 \<Rightarrow> u64 \<Rightarrow> bool" where
  "in_direct_memory_pool start e \<longleftrightarrow> start < pool_end \<and> DIRECT_MEMORY_POOL_BASE < e"

text \<open>The ranges \<^verbatim>\<open>unmap\<close> hands to \<^verbatim>\<open>madvise\<close>, in order.\<close>

definition unmap_discards :: "u64 \<Rightarrow> u64 \<Rightarrow> (u64 \<times> u64) list" where
  "unmap_discards addr sz =
     (let start = addr;
          e = saturating_add addr sz;
          aligned_start = (case checked_next_multiple_of start PAGE of Some a \<Rightarrow> a | None \<Rightarrow> - 1);
          aligned_end = e AND NOT (PAGE - 1)
      in if \<not> in_direct_memory_pool start e \<and> aligned_start < aligned_end
         then filter (\<lambda>(a, b). a < b)
                [(aligned_start, min aligned_end GADGET_ADDR),
                 (max aligned_start (GADGET_ADDR + PAGE), aligned_end)]
         else [])"

fun discard_all :: "'ram ram_ops \<Rightarrow> 'ram \<Rightarrow> (u64 \<times> u64) list \<Rightarrow> 'ram" where
  "discard_all ops r [] = r"
| "discard_all ops r ((a, b) # xs) = discard_all ops (ram_dontneed ops r a b) xs"

definition unmap_evicted :: "(u64, vma) btree \<Rightarrow> u64 \<Rightarrow> u64 \<Rightarrow> u64 list" where
  "unmap_evicted al start e =
     map fst (filter (\<lambda>(key, v). key \<noteq> GADGET_ADDR \<and> start \<le> vma_start v \<and> vma_end v \<le> e)
       (bt_range_lt al e))"

definition unmap :: "'ram ram_ops \<Rightarrow> 'ram vmm \<Rightarrow> u64 \<Rightarrow> u64 \<Rightarrow> 'ram vmm \<times> unit result" where
  "unmap ops s addr sz =
     (let e = saturating_add addr sz;
          s1 = set_ram (discard_all ops (vmm_ram s) (unmap_discards addr sz)) s
      in if in_direct_memory_pool addr e then (s1, Ok ())
         else (s1\<lparr>allocations := fold bt_remove (unmap_evicted (allocations s) addr e)
                                    (allocations s)\<rparr>, Ok ()))"

definition protect :: "'ram vmm \<Rightarrow> u64 \<Rightarrow> u64 \<Rightarrow> memory_protection \<Rightarrow> 'ram vmm \<times> unit result" where
  "protect s addr sz prot =
     (case bt_get (allocations s) addr of
        Some v \<Rightarrow>
          (if vma_size v = sz
           then (s\<lparr>allocations := map (\<lambda>(k, w). if k = addr then (k, w\<lparr>vma_protection := prot\<rparr>)
                                              else (k, w)) (allocations s)\<rparr>, Ok ())
           else (s, Ok ()))
      | None \<Rightarrow> (s, Ok ()))"

definition get_host_ptr :: "'ram vmm \<Rightarrow> u64 \<Rightarrow> u64 option" where
  "get_host_ptr s addr = (if GUEST_BASE \<le> addr \<and> addr < vmm_span s then Some addr else None)"

definition query_region :: "(u64, vma) btree \<Rightarrow> u64 \<Rightarrow> bool \<Rightarrow> vma option" where
  "query_region al addr find_next =
     (case containing_vma al addr of
        Some v \<Rightarrow> Some v
      | None \<Rightarrow> if find_next then map_option snd (hd_opt (bt_range_from al addr)) else None)"

section \<open>Reads and writes\<close>

definition write_bytes :: "'ram ram_ops \<Rightarrow> 'ram vmm \<Rightarrow> u64 \<Rightarrow> u8 list \<Rightarrow> 'ram vmm \<times> unit result" where
  "write_bytes ops s addr data =
     (case ram_write ops (vmm_ram s) addr data of
        Some r \<Rightarrow> (set_ram r s, Ok ())
      | None \<Rightarrow> (s, Err ''guest write_bytes failed''))"

definition read_bytes :: "'ram ram_ops \<Rightarrow> 'ram vmm \<Rightarrow> u64 \<Rightarrow> u64 \<Rightarrow> u8 list result" where
  "read_bytes ops s addr sz =
     (case ram_read ops (vmm_ram s) addr (unat sz) of
        Some bs \<Rightarrow> Ok bs
      | None \<Rightarrow> Err ''guest read_bytes failed'')"

text \<open>The walk over adjacent regions shared by the ranged read and the ranged write.\<close>

function ranged_walk :: "(u64, vma) btree \<Rightarrow> u64 \<Rightarrow> u64 \<Rightarrow> bool" where
  "ranged_walk al covered e =
     (if covered < e then
        (case containing_vma al covered of
           None \<Rightarrow> False
         | Some v \<Rightarrow> ranged_walk al (vma_end v) e)
      else True)"
  by pat_completeness auto
termination
proof (relation "measure (\<lambda>(al, covered, e). unat e - unat covered)", goal_cases)
  case (2 al covered e v)
  then have "covered < vma_end v"
    by (auto simp: containing_vma_def vma_contains_def split: option.splits if_splits)
  with 2(1) show ?case
    by (auto simp: word_less_nat_alt)
qed simp

declare ranged_walk.simps [simp del]

definition read_bytes_ranged :: "'ram ram_ops \<Rightarrow> 'ram vmm \<Rightarrow> u64 \<Rightarrow> u64 \<Rightarrow> u8 list result" where
  "read_bytes_ranged ops s addr sz =
     (if sz = 0 then Ok []
      else case checked_add addr sz of
             None \<Rightarrow> Err ''read range overflows the address space''
           | Some e \<Rightarrow>
               if ranged_walk (allocations s) addr e then read_bytes ops s addr sz
               else Err ''read range enters unmapped memory (gap or past the last mapping)'')"

definition write_bytes_ranged ::
  "'ram ram_ops \<Rightarrow> 'ram vmm \<Rightarrow> u64 \<Rightarrow> u8 list \<Rightarrow> 'ram vmm \<times> unit result" where
  "write_bytes_ranged ops s addr data =
     (if data = [] then (s, Ok ())
      else case checked_add addr (of_nat (length data)) of
             None \<Rightarrow> (s, Err ''write range overflows the address space'')
           | Some e \<Rightarrow>
               if ranged_walk (allocations s) addr e then write_bytes ops s addr data
               else (s, Err ''write range enters unmapped memory (gap or past the last mapping)''))"

definition zero_memory :: "'ram ram_ops \<Rightarrow> 'ram vmm \<Rightarrow> u64 \<Rightarrow> u64 \<Rightarrow> 'ram vmm \<times> unit result" where
  "zero_memory ops s addr sz =
     (case ram_write ops (vmm_ram s) addr (replicate (unat sz) 0) of
        Some r \<Rightarrow> (set_ram r s, Ok ())
      | None \<Rightarrow> (s, Err ''guest zero_memory failed''))"

section \<open>The ever-mapped intervals as a set of addresses\<close>

definition cov :: "(u64 \<times> u64) list \<Rightarrow> u64 set" where
  "cov em = (\<Union>(s, t) \<in> set em. {s..<t})"

definition em_wf :: "(u64, u64) btree \<Rightarrow> bool" where
  "em_wf em \<longleftrightarrow> bt_wf em \<and> (\<forall>(s, t) \<in> set em. s < t) \<and>
     (\<forall>(s, t) \<in> set em. \<forall>(s', t') \<in> set em. s < s' \<longrightarrow> t < s')"

lemma em_wfD:
  assumes "em_wf em"
  shows "bt_wf em" and "(s, t) \<in> set em \<Longrightarrow> s < t"
    and "(s, t) \<in> set em \<Longrightarrow> (s', t') \<in> set em \<Longrightarrow> s < s' \<Longrightarrow> t < s'"
  using assms by (auto simp: em_wf_def)

lemma cov_Nil [simp]: "cov [] = {}"
  by (simp add: cov_def)

lemma cov_Cons [simp]: "cov ((s, t) # xs) = {s..<t} \<union> cov xs"
  by (simp add: cov_def)

lemma mapped_parts_walk_cov:
  "bt_wf xs \<Longrightarrow> cov (mapped_parts_walk xs start e) = cov xs \<inter> {start..<e}"
proof (induction xs start e rule: mapped_parts_walk.induct)
  case (1 start e)
  then show ?case by simp
next
  case (2 s t xs start e)
  show ?case
  proof (cases "e \<le> s")
    case True
    then have "\<forall>(s', t') \<in> set ((s, t) # xs). e \<le> s'" using "2.prems" by fastforce
    then have "cov ((s, t) # xs) \<inter> {start..<e} = {}" by (fastforce simp: cov_def)
    then show ?thesis using True by simp
  next
    case False
    with 2 have IH: "cov (mapped_parts_walk xs start e) = cov xs \<inter> {start..<e}"
      by (cases "max s start < min t e") auto
    have "{s..<t} \<inter> {start..<e} = {max s start..<min t e}"
      by (rule Int_atLeastLessThan)
    moreover have "cov (mapped_parts_walk ((s, t) # xs) start e) =
        {max s start..<min t e} \<union> cov (mapped_parts_walk xs start e)"
      using False by (cases "max s start < min t e")
        (auto simp: Let_def simp del: max_less_iff_conj min_less_iff_conj)
    ultimately show ?thesis
      by (simp only: IH cov_Cons Int_Un_distrib2)
  qed
qed

lemma mapped_parts_walk_within:
  "(a, b) \<in> set (mapped_parts_walk xs start e) \<Longrightarrow> start \<le> a \<and> a < b \<and> b \<le> e"
  by (induction xs start e rule: mapped_parts_walk.induct) (auto simp: Let_def split: if_splits)

lemma previously_mapped_parts_within:
  "(a, b) \<in> set (previously_mapped_parts em start e) \<Longrightarrow> start \<le> a \<and> a < b \<and> b \<le> e"
  by (auto simp: previously_mapped_parts_def Let_def dest: mapped_parts_walk_within)

lemma previously_mapped_parts_cov:
  assumes em: "em_wf em"
  shows "cov (previously_mapped_parts em start e) = cov em \<inter> {start..<e}"
proof -
  define first where "first = (case bt_last_le em start of
      Some (s, t) \<Rightarrow> if start < t then s else start | None \<Rightarrow> start)"
  note wf = em_wfD[OF em]
  have below: "t \<le> start" if st: "(s, t) \<in> set em" "s < first" for s t
  proof (cases "bt_last_le em start")
    case None
    then have "start < s" using st(1) unfolding bt_last_le_None by blast
    then show ?thesis using st(2) None by (simp add: first_def)
  next
    case (Some p)
    obtain s0 t0 where p: "p = (s0, t0)" by (cases p)
    note last = bt_last_le_Some[OF wf(1) Some[unfolded p]]
    have f: "first = (if start < t0 then s0 else start)" using Some p by (simp add: first_def)
    then have "s \<le> start" using st(2) last(2) by (auto split: if_splits)
    then have "s \<le> s0" using last(3) st(1) by blast
    then show ?thesis
    proof (cases "s = s0")
      case True
      then have "t = t0" using bt_keys_unique[OF wf(1)] st(1) last(1) by blast
      then show ?thesis using st(2) f True by (auto split: if_splits)
    next
      case False
      then have "t < s0" using wf(3)[OF st(1) last(1)] \<open>s \<le> s0\<close> by auto
      then show ?thesis using last(2) by auto
    qed
  qed
  have "cov (bt_range_from em first) \<inter> {start..<e} = cov em \<inter> {start..<e}"
    using below by (auto simp: cov_def bt_range_from_def not_le) force
  moreover have "bt_wf (bt_range_from em first)"
    unfolding bt_range_from_def using wf(1) by (rule bt_wf_filter)
  ultimately show ?thesis
    by (simp add: previously_mapped_parts_def first_def[symmetric] mapped_parts_walk_cov)
qed

lemma absorb_spec:
  assumes "bt_wf em" and "distinct ss" and "set ss \<subseteq> fst ` set em"
    and "lo \<le> start" and "start \<le> e" and "e \<le> hi"
    and "\<And>s t. (s, t) \<in> set em \<Longrightarrow> s \<in> set ss \<Longrightarrow> s \<le> e \<and> start \<le> t"
    and "absorb ss (em, lo, hi) = (em', lo', hi')"
  shows "bt_wf em' \<and> set em' = {(k, t) \<in> set em. k \<notin> set ss} \<and> lo' \<le> lo \<and> hi \<le> hi' \<and>
    {lo'..<hi'} = {lo..<hi} \<union> (\<Union>(s, t) \<in> {(k, t) \<in> set em. k \<in> set ss}. {s..<t}) \<and>
    (lo' = lo \<or> lo' \<in> set ss) \<and> (hi' = hi \<or> (\<exists>s \<in> set ss. (s, hi') \<in> set em))"
  using assms
proof (induction ss arbitrary: em lo hi)
  case Nil
  then show ?case by auto
next
  case (Cons s ss)
  obtain t where st: "(s, t) \<in> set em" using Cons.prems(3) by auto
  then have get: "bt_get em s = Some t" using bt_get_iff_mem[OF Cons.prems(1)] by simp
  have touch: "s \<le> e" "start \<le> t" using Cons.prems(7)[OF st] by auto
  have uniq: "t' = t" if "(s, t') \<in> set em" for t'
    using bt_keys_unique[OF Cons.prems(1) that st] by simp
  let ?em = "bt_remove s em"
  have "absorb ss (?em, min lo s, max hi t) = (em', lo', hi')"
    using Cons.prems(8) get by simp
  moreover have "set ss \<subseteq> fst ` set ?em"
    using Cons.prems(2,3) by (force simp: btree_simps)
  ultimately have IH: "bt_wf em' \<and> set em' = {(k, t) \<in> set ?em. k \<notin> set ss} \<and>
      lo' \<le> min lo s \<and> max hi t \<le> hi' \<and>
      {lo'..<hi'} = {min lo s..<max hi t} \<union>
        (\<Union>(s, t) \<in> {(k, t) \<in> set ?em. k \<in> set ss}. {s..<t}) \<and>
      (lo' = min lo s \<or> lo' \<in> set ss) \<and>
      (hi' = max hi t \<or> (\<exists>s \<in> set ss. (s, hi') \<in> set ?em))"
    using Cons.prems by (intro Cons.IH) (auto simp: btree_simps bt_remove_wf min_le_iff_disj le_max_iff_disj)
  have join: "{min lo s..<max hi t} = {lo..<hi} \<union> {s..<t}"
    using touch Cons.prems(4,5,6) by (auto simp: min_def max_def)
  have rest: "{(k, t) \<in> set em. k \<in> set (s # ss)} =
      insert (s, t) {(k, t) \<in> set ?em. k \<in> set ss}"
    using st Cons.prems(2) by (auto simp: btree_simps dest: uniq)
  have keep: "{(k, t) \<in> set ?em. k \<notin> set ss} = {(k, t) \<in> set em. k \<notin> set (s # ss)}"
    by (auto simp: btree_simps)
  show ?case
    using IH join st unfolding rest keep
    by (auto simp: btree_simps min_def max_def split: if_splits)
qed

lemma note_ever_mapped_spec:
  assumes em: "em_wf em" and ne: "start < e"
  shows "em_wf (note_ever_mapped em start e)"
    and "cov (note_ever_mapped em start e) = cov em \<union> {start..<e}"
proof -
  note wf = em_wfD[OF em]
  define ss where "ss = map fst (filter (\<lambda>(_, t). start \<le> t) (bt_range_le em e))"
  have ss_iff: "s \<in> set ss \<longleftrightarrow> s \<le> e \<and> start \<le> t" if st: "(s, t) \<in> set em" for s t
  proof
    assume "s \<in> set ss"
    then obtain t' where "(s, t') \<in> set em" "s \<le> e" "start \<le> t'"
      by (auto simp: ss_def bt_range_le_def)
    then show "s \<le> e \<and> start \<le> t" using bt_keys_unique[OF wf(1) st] by blast
  qed (use st in \<open>force simp: ss_def bt_range_le_def\<close>)
  have ss_sub: "set ss \<subseteq> fst ` set em" by (auto simp: ss_def bt_range_le_def)
  have "bt_wf (filter (\<lambda>(_, t). start \<le> t) (bt_range_le em e))"
    unfolding bt_range_le_def using wf(1) by (intro bt_wf_filter)
  then have dist: "distinct ss" unfolding ss_def by (rule bt_wf_distinct)
  obtain em' lo hi where ab: "absorb ss (em, start, e) = (em', lo, hi)"
    by (cases "absorb ss (em, start, e)")
  have note_eq: "note_ever_mapped em start e = bt_insert lo hi em'"
    using ab by (simp add: note_ever_mapped_def ss_def)
  have A: "bt_wf em'" "set em' = {(k, t) \<in> set em. k \<notin> set ss}" "lo \<le> start" "e \<le> hi"
    "{lo..<hi} = {start..<e} \<union> (\<Union>(s, t) \<in> {(k, t) \<in> set em. k \<in> set ss}. {s..<t})"
    "lo = start \<or> lo \<in> set ss" "hi = e \<or> (\<exists>s \<in> set ss. (s, hi) \<in> set em)"
    using absorb_spec[OF wf(1) dist ss_sub, of start start e e em' lo hi] ss_iff ab ne by auto
  have above: "hi < s" if "(s, t) \<in> set em'" "e < s" for s t
  proof (cases "hi = e")
    case False
    then obtain s1 where s1: "s1 \<in> set ss" "(s1, hi) \<in> set em" using A(7) by blast
    then have "s1 < s" using ss_iff[OF s1(2)] that(2) by auto
    then show ?thesis using wf(3)[OF s1(2)] that(1) A(2) by auto
  qed (use that in simp)
  have below: "t < lo" if "(s, t) \<in> set em'" "t < start" for s t
  proof -
    have st: "(s, t) \<in> set em" using that A(2) by auto
    show ?thesis
    proof (cases "lo = start")
      case True
      then show ?thesis using that by simp
    next
      case False
      then obtain t1 where l: "(lo, t1) \<in> set em" "start \<le> t1" using A(6) ss_sub ss_iff by force
      have "s \<noteq> lo" using bt_keys_unique[OF wf(1) st, of t1] l that by auto
      moreover have "\<not> lo < s" using wf(3)[OF l(1) st] wf(2)[OF st] l(2) that(2) by auto
      ultimately show ?thesis using wf(3)[OF st l(1)] by auto
    qed
  qed
  have sep: "e < s \<or> t < start" if "(s, t) \<in> set em'" for s t
    using that A(2) ss_iff by (auto simp: not_le)
  have lohi: "lo < hi" using A(3,4) ne by simp
  have lt: "s < t" if "(s, t) \<in> set em'" for s t using that A(2) wf(2) by auto
  have right: "hi < s" if st: "(s, t) \<in> set em'" and "lo < s" for s t
    using sep[OF st] above[OF st] less_trans[OF lt[OF st] below[OF st]] \<open>lo < s\<close> by (meson less_asym)
  have left: "t < lo" if st: "(s, t) \<in> set em'" and "s \<le> lo" for s t
    using sep[OF st] below[OF st] \<open>s \<le> lo\<close> A(3) ne by auto
  have "s \<noteq> lo" if st: "(s, t) \<in> set em'" for s t
    using left[OF st] lt[OF st] by auto
  then have ins: "set (bt_insert lo hi em') = insert (lo, hi) (set em')"
    using A(1) by (auto simp: btree_simps)
  have old: "t < s'" if "(s, t) \<in> set em'" "(s', t') \<in> set em'" "s < s'" for s t s' t'
    using that A(2) wf(3) by auto
  show "em_wf (note_ever_mapped em start e)"
    unfolding em_wf_def note_eq ins
    using lohi lt right left old A(1) by (auto simp: bt_insert_wf)
  show "cov (note_ever_mapped em start e) = cov em \<union> {start..<e}"
  proof -
    let ?abs = "{(k, t) \<in> set em. k \<in> set ss}"
    have split: "set em = set em' \<union> ?abs" using A(2) by auto
    have "cov em = cov em' \<union> (\<Union>(s, t) \<in> ?abs. {s..<t})"
      unfolding cov_def by (subst split) (rule UN_Un)
    moreover have "cov (bt_insert lo hi em') = {lo..<hi} \<union> cov em'"
      by (simp add: cov_def ins)
    ultimately show ?thesis
      unfolding note_eq A(5) by blast
  qed
qed

section \<open>What the manager relies on of the arena\<close>

text \<open>
  \<open>byte_at r x\<close> is the byte at guest address \<open>x\<close>. Inside \<open>[GUEST_BASE, span)\<close> writes and reads
  succeed, a write changes exactly its range, and a discarded page range reads as zero.
\<close>

locale guest_ram =
  fixes ops :: "'ram ram_ops"
    and byte_at :: "'ram \<Rightarrow> u64 \<Rightarrow> u8"
    and span :: u64
  assumes write_ok:
      "GUEST_BASE \<le> a \<Longrightarrow> unat a + length bs \<le> unat span \<Longrightarrow> \<exists>r'. ram_write ops r a bs = Some r'"
    and write_byte:
      "ram_write ops r a bs = Some r' \<Longrightarrow>
       byte_at r' x = (if unat a \<le> unat x \<and> unat x < unat a + length bs
                       then bs ! (unat x - unat a) else byte_at r x)"
    and read_ok:
      "GUEST_BASE \<le> a \<Longrightarrow> unat a + n \<le> unat span \<Longrightarrow>
       ram_read ops r a n = Some (map (\<lambda>i. byte_at r (a + of_nat i)) [0..<n])"
    and discard_byte:
      "GUEST_BASE \<le> a \<Longrightarrow> b \<le> span \<Longrightarrow>
       byte_at (ram_dontneed ops r a b) x = (if a \<le> x \<and> x < b then 0 else byte_at r x)"
begin

lemma zero_loop_bytes:
  "GUEST_BASE \<le> start \<Longrightarrow> unat start + tot \<le> unat span \<Longrightarrow>
   \<exists>r'. zero_loop ops r start tot dn = (r', Ok ()) \<and>
     (\<forall>x. byte_at r' x = (if unat start + dn \<le> unat x \<and> unat x < unat start + tot
                           then 0 else byte_at r x))"
proof (induction "tot - dn" arbitrary: r dn rule: less_induct)
  case less
  show ?case
  proof (cases "dn < tot")
    case False
    then show ?thesis by (auto simp: zero_loop.simps)
  next
    case True
    define n where "n = min (tot - dn) ZERO_CHUNK"
    have n: "0 < n" "dn + n \<le> tot" using True by (auto simp: n_def ZERO_CHUNK_def)
    have dn64: "dn < 2 ^ 64" using True less.prems(2) u64_bound[of span] by simp
    have a: "unat (start + of_nat dn) = unat start + dn"
      using less.prems(2) True u64_bound[of span] dn64
      by (subst unat_add_nowrap) (auto simp: unat_of_nat_small)
    have "GUEST_BASE \<le> start + of_nat dn"
      using less.prems(1) by (simp add: word_le_nat_alt a)
    then obtain r1 where r1: "ram_write ops r (start + of_nat dn) (replicate n 0) = Some r1"
      using write_ok[of "start + of_nat dn" "replicate n 0" r] less.prems(2) n a by auto
    obtain r' where r': "zero_loop ops r1 start tot (dn + n) = (r', Ok ())"
      and b: "\<forall>x. byte_at r' x = (if unat start + (dn + n) \<le> unat x \<and> unat x < unat start + tot
                                    then 0 else byte_at r1 x)"
      using less.hyps[of "dn + n" r1, OF diff_less_mono2] less.prems n True by auto
    have "zero_loop ops r start tot dn = (r', Ok ())"
      using True r1 r' by (subst zero_loop.simps) (simp add: n_def[symmetric] Let_def)
    moreover have "byte_at r' x = (if unat start + dn \<le> unat x \<and> unat x < unat start + tot
        then 0 else byte_at r x)" for x
      using b write_byte[OF r1, of x] n by (auto simp: a)
    ultimately show ?thesis by blast
  qed
qed

lemma zero_range_bytes:
  assumes "GUEST_BASE \<le> start" and "start \<le> e" and "e \<le> span"
  shows "\<exists>r'. zero_range ops r start e = (r', Ok ()) \<and>
     (\<forall>x. byte_at r' x = (if x \<in> {start..<e} then 0 else byte_at r x))"
proof -
  have d: "unat start + unat (e - start) = unat e"
    using assms(2) by (simp add: unat_sub_le word_le_nat_alt)
  then obtain r' where "zero_loop ops r start (unat (e - start)) 0 = (r', Ok ())"
    and "\<forall>x. byte_at r' x = (if unat start + 0 \<le> unat x \<and> unat x < unat e
                               then 0 else byte_at r x)"
    using zero_loop_bytes[of start "unat (e - start)" r 0] assms by (auto simp: word_le_nat_alt)
  then show ?thesis
    by (auto simp: zero_range_def word_le_nat_alt word_less_nat_alt)
qed

lemma zero_parts_bytes:
  assumes "\<And>a b. (a, b) \<in> set ps \<Longrightarrow> GUEST_BASE \<le> a \<and> a \<le> b \<and> b \<le> span"
  shows "\<exists>r'. zero_parts ops r ps = (r', Ok ()) \<and>
     (\<forall>x. byte_at r' x = (if x \<in> cov ps then 0 else byte_at r x))"
  using assms
proof (induction ps arbitrary: r)
  case Nil
  then show ?case by simp
next
  case (Cons p ps)
  obtain a b where p: "p = (a, b)" by (cases p)
  then obtain r1 where r1: "zero_range ops r a b = (r1, Ok ())"
    and b1: "\<forall>x. byte_at r1 x = (if x \<in> {a..<b} then 0 else byte_at r x)"
    using zero_range_bytes[of a b r] Cons.prems[of a b] by auto
  obtain r' where "zero_parts ops r1 ps = (r', Ok ())"
    and "\<forall>x. byte_at r' x = (if x \<in> cov ps then 0 else byte_at r1 x)"
    using Cons.IH[of r1] Cons.prems by auto
  then show ?case using r1 b1 p by auto
qed

lemma read_byte:
  assumes "GUEST_BASE \<le> a" and "unat a + unat n \<le> unat span"
  shows "read_bytes ops s a n = Ok (map (\<lambda>i. byte_at (vmm_ram s) (a + of_nat i)) [0..<unat n])"
  using read_ok[OF assms, of "vmm_ram s"] by (simp add: read_bytes_def)

end

text \<open>The flat arena: bytes as a function of the address.\<close>

definition flat_ops :: "u64 \<Rightarrow> (u64 \<Rightarrow> u8) ram_ops" where
  "flat_ops span =
     \<lparr> ram_write = (\<lambda>r a bs. if GUEST_BASE \<le> a \<and> unat a + length bs \<le> unat span
          then Some (\<lambda>x. if unat a \<le> unat x \<and> unat x < unat a + length bs
                         then bs ! (unat x - unat a) else r x)
          else None),
       ram_read = (\<lambda>r a n. if GUEST_BASE \<le> a \<and> unat a + n \<le> unat span
          then Some (map (\<lambda>i. r (a + of_nat i)) [0..<n]) else None),
       ram_dontneed = (\<lambda>r a b x. if a \<le> x \<and> x < b then 0 else r x) \<rparr>"

interpretation flat: guest_ram "flat_ops span" "\<lambda>r x. r x" span
  by unfold_locales (auto simp: flat_ops_def split: if_splits)

section \<open>The invariant of the VMA table\<close>

definition vma_ok :: "u64 \<Rightarrow> u64 \<Rightarrow> vma \<Rightarrow> bool" where
  "vma_ok span k v \<longleftrightarrow> vma_start v = k \<and> vma_size v \<noteq> 0 \<and>
     unat k + unat (vma_size v) < 2 ^ 64 \<and> vma_end v = k + vma_size v \<and>
     GUEST_BASE \<le> k \<and> vma_end v \<le> span"

definition backed :: "(u64, vma) btree \<Rightarrow> u64 set" where
  "backed al = (\<Union>(k, v) \<in> set al. {vma_start v..<vma_end v})"

definition vmas_disjoint :: "(u64, vma) btree \<Rightarrow> bool" where
  "vmas_disjoint al \<longleftrightarrow>
     (\<forall>(k, v) \<in> set al. \<forall>(k', v') \<in> set al. k < k' \<longrightarrow> vma_end v \<le> k')"

definition vmm_inv :: "'ram vmm \<Rightarrow> bool" where
  "vmm_inv s \<longleftrightarrow>
     bt_wf (allocations s) \<and>
     (\<forall>(k, v) \<in> set (allocations s). vma_ok (vmm_span s) k v) \<and>
     vmas_disjoint (allocations s) \<and>
     (\<exists>v. (GADGET_ADDR, v) \<in> set (allocations s) \<and> vma_end v = GADGET_ADDR + 0x1000) \<and>
     em_wf (ever_mapped s) \<and> backed (allocations s) \<subseteq> cov (ever_mapped s) \<and>
     GUEST_BASE \<le> heap_cursor s"

lemma vma_ok_bounds:
  assumes "vma_ok span k v"
  shows "vma_start v = k" and "k < vma_end v" and "GUEST_BASE \<le> k" and "vma_end v \<le> span"
    and "unat (vma_end v) = unat k + unat (vma_size v)"
  using assms
  by (auto simp: vma_ok_def word_less_nat_alt unat_add_nowrap unat_gt_0[symmetric] simp del: unat_gt_0)

lemma vmm_invD:
  assumes "vmm_inv s"
  shows "bt_wf (allocations s)"
    and "(k, v) \<in> set (allocations s) \<Longrightarrow> vma_ok (vmm_span s) k v"
    and "(k, v) \<in> set (allocations s) \<Longrightarrow> (k', v') \<in> set (allocations s) \<Longrightarrow> k < k' \<Longrightarrow>
         vma_end v \<le> k'"
    and "\<exists>v. (GADGET_ADDR, v) \<in> set (allocations s) \<and> vma_end v = GADGET_ADDR + 0x1000"
    and "em_wf (ever_mapped s)" and "backed (allocations s) \<subseteq> cov (ever_mapped s)"
    and "GUEST_BASE \<le> heap_cursor s"
  using assms by (auto simp: vmm_inv_def vmas_disjoint_def)

lemma vmm_new_inv:
  assumes "GADGET_ADDR + 0x1000 \<le> gv_span vm"
  shows "vmm_inv (vmm_new vm)"
  using assms
  by (auto simp: vmm_inv_def vmm_new_def vma_ok_def vmas_disjoint_def em_wf_def backed_def cov_def
      GADGET_ADDR_def GUEST_BASE_def HEAP_BASE_def)

lemma intervals_meet:
  fixes a b c d :: u64
  assumes "a < b" and "c < d"
  shows "(a < d \<and> c < b) \<longleftrightarrow> {a..<b} \<inter> {c..<d} \<noteq> {}"
proof
  assume "a < d \<and> c < b"
  then have "max a c \<in> {a..<b} \<inter> {c..<d}" using assms by (auto simp: max_def)
  then show "{a..<b} \<inter> {c..<d} \<noteq> {}" by blast
qed (force dest: le_less_trans)

lemma is_memory_free_iff:
  assumes ok: "\<forall>(k, v) \<in> set al. vma_ok span k v"
    and sz: "sz \<noteq> 0" and nowrap: "unat addr + unat sz < 2 ^ 64"
  shows "is_memory_free al addr sz \<longleftrightarrow> {addr..<addr + sz} \<inter> backed al = {}"
proof -
  have lt: "addr < addr + sz"
    using sz nowrap by (simp add: word_less_nat_alt unat_add_nowrap unat_gt_0)
  have "(addr < vma_end v \<and> vma_start v < addr + sz) \<longleftrightarrow>
      {addr..<addr + sz} \<inter> {vma_start v..<vma_end v} \<noteq> {}" if "(k, v) \<in> set al" for k v
    using intervals_meet[OF lt, of "vma_start v" "vma_end v"] vma_ok_bounds[of span k v] ok that by auto
  then have "is_memory_free al addr sz \<longleftrightarrow>
      (\<forall>(k, v) \<in> set al. {addr..<addr + sz} \<inter> {vma_start v..<vma_end v} = {})"
    by (fastforce simp: is_memory_free_def Let_def list_all_iff bt_values_def)
  also have "\<dots> \<longleftrightarrow> {addr..<addr + sz} \<inter> backed al = {}"
    by (simp only: backed_def case_prod_beta) blast
  finally show ?thesis .
qed

section \<open>The free-region search\<close>

text \<open>
  \<open>m\<close> bounds every region and the pool; while the cursor and \<open>m\<close>, plus the alignment steps and the
  size, stay below \<open>2^64\<close>, the search ends, with an aligned base at or above the cursor that meets
  neither a live region nor the direct-memory pool.
\<close>

lemma pool_end_unat [simp]: "unat pool_end = 0xA40000000" "pool_end = 0xA40000000"
  by (simp_all add: DIRECT_MEMORY_POOL_BASE_def DIRECT_MEMORY_POOL_SIZE_def)

lemma find_free_loop_spec:
  assumes al: "unat align = 2 ^ k"
    and ends: "\<And>key v. (key, v) \<in> set al \<Longrightarrow> unat (vma_end v) \<le> m" and pool: "0xA40000000 \<le> m"
    and "m + 2 * unat align + unat sz < 2 ^ 64" and "unat cursor + unat align + unat sz < 2 ^ 64"
  shows "\<exists>addr. find_free_loop al sz align cursor = Some (addr, addr + sz) \<and>
     cursor \<le> addr \<and> unat align dvd unat addr \<and> is_memory_free al addr sz \<and>
     \<not> (addr < pool_end \<and> DIRECT_MEMORY_POOL_BASE < addr + sz) \<and>
     unat addr + unat sz < 2 ^ 64"
  using assms(5)
proof (induction "m + unat align - unat cursor" arbitrary: cursor rule: less_induct)
  case less
  define addr where "addr = align_up cursor align"
  have pos: "0 < unat align" using al by simp
  have a: "unat addr = (unat cursor + unat align - 1) div unat align * unat align"
    unfolding addr_def using al less.prems by (intro align_up_unat) auto
  note ru = round_up_bounds[OF pos, of "unat cursor", folded a]
  have ge: "cursor \<le> addr" using ru(1) by (simp add: word_le_nat_alt)
  note unfold = find_free_loop.simps[of al sz align cursor]
  consider (pool) "addr < pool_end \<and> DIRECT_MEMORY_POOL_BASE < addr + sz"
    | (free) "\<not> (addr < pool_end \<and> DIRECT_MEMORY_POOL_BASE < addr + sz)" "is_memory_free al addr sz"
    | (busy) "\<not> (addr < pool_end \<and> DIRECT_MEMORY_POOL_BASE < addr + sz)" "\<not> is_memory_free al addr sz"
    by blast
  then show ?case
  proof cases
    case pool
    then have "unat addr < 0xA40000000" by (simp add: word_less_nat_alt)
    then have lt: "unat cursor < 0xA40000000" using ru(1) by simp
    then obtain a' where a': "find_free_loop al sz align pool_end = Some (a', a' + sz) \<and>
       pool_end \<le> a' \<and> unat align dvd unat a' \<and> is_memory_free al a' sz \<and>
       \<not> (a' < pool_end \<and> DIRECT_MEMORY_POOL_BASE < a' + sz) \<and> unat a' + unat sz < 2 ^ 64"
      using less.hyps[of pool_end, OF diff_less_mono2] assms(3,4) pos by auto
    have "find_free_loop al sz align cursor = find_free_loop al sz align pool_end"
      using pool by (subst unfold) (simp add: addr_def[symmetric] Let_def)
    moreover have "cursor \<le> a'" using lt a' by (simp add: word_le_nat_alt)
    ultimately show ?thesis using a' by (intro exI[of _ a']) simp
  next
    case free
    then have "find_free_loop al sz align cursor = Some (addr, addr + sz)"
      by (subst unfold) (auto simp: addr_def[symmetric] Let_def)
    then show ?thesis using free ge ru less.prems by auto
  next
    case busy
    then obtain key v where kv: "(key, v) \<in> set al" "addr < vma_end v"
      by (auto simp: is_memory_free_def Let_def list_all_iff bt_values_def)
    then have lt: "unat cursor < m"
      using ends[OF kv(1)] ru(1) by (simp add: word_less_nat_alt)
    have c': "unat (cursor + align) = unat cursor + unat align"
      using less.prems by (intro unat_add_nowrap) simp
    obtain a' where a': "find_free_loop al sz align (cursor + align) = Some (a', a' + sz) \<and>
       cursor + align \<le> a' \<and> unat align dvd unat a' \<and> is_memory_free al a' sz \<and>
       \<not> (a' < pool_end \<and> DIRECT_MEMORY_POOL_BASE < a' + sz) \<and> unat a' + unat sz < 2 ^ 64"
      using less.hyps[of "cursor + align", OF diff_less_mono2] lt assms(4) pos by (auto simp: c')
    have "find_free_loop al sz align cursor = find_free_loop al sz align (cursor + align)"
      using busy by (subst unfold) (auto simp: addr_def[symmetric] Let_def)
    moreover have "cursor \<le> a'" using a' by (simp add: word_le_nat_alt c')
    ultimately show ?thesis using a' by (intro exI[of _ a']) simp
  qed
qed

section \<open>Mapping keeps the invariant and hands out zeroed memory\<close>

lemma set_ram_simps [simp]:
  "allocations (set_ram r s) = allocations s" "ever_mapped (set_ram r s) = ever_mapped s"
  "heap_cursor (set_ram r s) = heap_cursor s" "vmm_span (set_ram r s) = vmm_span s"
  "vmm_ram (set_ram r s) = r"
  by (simp_all add: set_ram_def)

text \<open>The invariant does not look at the bytes.\<close>

lemma vmm_inv_set_ram [simp]: "vmm_inv (set_ram r s) \<longleftrightarrow> vmm_inv s"
  by (simp add: vmm_inv_def)

lemma backed_insert_new:
  assumes "bt_wf al" and "\<And>v'. (k, v') \<notin> set al"
  shows "backed (bt_insert k v al) = {vma_start v..<vma_end v} \<union> backed al"
    and "set (bt_insert k v al) = insert (k, v) (set al)"
proof -
  show *: "set (bt_insert k v al) = insert (k, v) (set al)"
    using assms by (auto simp: btree_simps)
  show "backed (bt_insert k v al) = {vma_start v..<vma_end v} \<union> backed al"
    by (simp add: backed_def *)
qed

lemma backed_iff:
  "x \<in> backed al \<longleftrightarrow> (\<exists>k v. (k, v) \<in> set al \<and> vma_start v \<le> x \<and> x < vma_end v)"
  unfolding backed_def by (simp add: Bex_def case_prod_beta)

lemma in_backed: "(k, v) \<in> set al \<Longrightarrow> vma_start v \<le> x \<Longrightarrow> x < vma_end v \<Longrightarrow> x \<in> backed al"
  by (force simp: backed_def)

lemma disjoint_below_or_above:
  fixes a b c d :: u64
  assumes "{a..<b} \<inter> {c..<d} = {}" and "a < b" and "c < d"
  shows "b \<le> c \<or> d \<le> a"
  using intervals_meet[OF assms(2,3)] assms(1) by auto

lemma map_commit_inv:
  assumes inv: "vmm_inv s" and sz: "sz \<noteq> 0" and nowrap: "unat addr + unat sz < 2 ^ 64"
    and base: "GUEST_BASE \<le> addr" and top: "addr + sz \<le> vmm_span s"
    and free: "is_memory_free (allocations s) addr sz"
  shows "vmm_inv (fst (map_commit ops s addr sz prot name))"
proof -
  note I = vmm_invD[OF inv]
  have lt: "addr < addr + sz"
    using sz nowrap by (simp add: word_less_nat_alt unat_add_nowrap unat_gt_0)
  have disj: "{addr..<addr + sz} \<inter> backed (allocations s) = {}"
    using is_memory_free_iff[of "allocations s" "vmm_span s" sz addr] I(2) sz nowrap free by auto
  have apart: "addr + sz \<le> k \<or> vma_end v \<le> addr" if kv: "(k, v) \<in> set (allocations s)" for k v
  proof -
    note ok = vma_ok_bounds[OF I(2)[OF kv]]
    have "{k..<vma_end v} \<subseteq> backed (allocations s)" using kv ok(1) by (force simp: backed_def)
    then show ?thesis using disjoint_below_or_above[OF _ lt ok(2)] disj by blast
  qed
  have new: "(addr, v') \<notin> set (allocations s)" for v'
  proof
    assume kv: "(addr, v') \<in> set (allocations s)"
    then show False using apart[OF kv] vma_ok_bounds(2)[OF I(2)[OF kv]] lt by auto
  qed
  define v where "v = \<lparr> vma_start = addr, vma_end = addr + sz, vma_size = sz, vma_protection = prot,
      vma_name = (case name of Some n \<Rightarrow> n | None \<Rightarrow> ''dynamic_alloc'') \<rparr>"
  obtain r res where z: "zero_parts ops (vmm_ram s)
      (previously_mapped_parts (ever_mapped s) addr (addr + sz)) = (r, res)" by force
  show ?thesis
  proof (cases res)
    case (Inl err)
    then show ?thesis using inv z by (simp add: map_commit_def Let_def)
  next
    case (Inr u)
    define s' where "s' = (set_ram r s)\<lparr> ever_mapped := note_ever_mapped (ever_mapped s) addr (addr + sz),
      allocations := bt_insert addr v (allocations s) \<rparr>"
    have res: "fst (map_commit ops s addr sz prot name) = s'"
      using z Inr by (simp add: map_commit_def s'_def v_def Let_def)
    have ins: "set (allocations s') = insert (addr, v) (set (allocations s))"
      and bck: "backed (allocations s') = {addr..<addr + sz} \<union> backed (allocations s)"
      using backed_insert_new[OF I(1) new, of v] by (simp_all add: s'_def v_def)
    have vok: "vma_ok (vmm_span s) addr v"
      using sz nowrap base top by (simp add: vma_ok_def v_def)
    have "vmas_disjoint (allocations s')"
      unfolding vmas_disjoint_def ins using apart I(3) lt vma_ok_bounds(2)[OF I(2)]
      by (auto simp: v_def) (meson leD le_less_trans less_le_trans less_trans)+
    moreover have "bt_wf (allocations s')" using I(1) by (simp add: s'_def bt_insert_wf)
    moreover have "\<forall>(k, w) \<in> set (allocations s'). vma_ok (vmm_span s') k w"
      using ins vok I(2) by (auto simp: s'_def)
    moreover have "\<exists>w. (GADGET_ADDR, w) \<in> set (allocations s') \<and> vma_end w = GADGET_ADDR + 0x1000"
      using I(4) ins by auto
    moreover have "em_wf (ever_mapped s')" "backed (allocations s') \<subseteq> cov (ever_mapped s')"
      using note_ever_mapped_spec[OF I(5) lt] I(6) unfolding bck by (auto simp: s'_def)
    ultimately show ?thesis
      unfolding res vmm_inv_def using I(7) by (simp add: s'_def)
  qed
qed

text \<open>
  The room the placement search needs: a power-of-two step, and no wrap of the cursor or of the
  highest region plus two steps and the size. The arena of the program spans \<open>2^36\<close>
  bytes, so only a guest asking for an absurd size or alignment leaves it.
\<close>

definition search_room :: "'ram vmm \<Rightarrow> u64 \<Rightarrow> u64 \<Rightarrow> nat \<Rightarrow> bool" where
  "search_room s sz align k \<longleftrightarrow>
     unat (max align 0x4000) = 2 ^ k \<and>
     max (unat (vmm_span s)) 0xA40000000 + 2 * 2 ^ k + unat sz < 2 ^ 64 \<and>
     unat (heap_cursor s) + 2 ^ k + unat sz < 2 ^ 64"

lemma find_free_region_aligned_spec:
  assumes inv: "vmm_inv s" and room: "search_room s sz align k"
  shows "\<exists>addr. find_free_region_aligned s sz align = Some (s\<lparr>heap_cursor := addr + sz\<rparr>, addr) \<and>
     heap_cursor s \<le> addr \<and> 2 ^ k dvd unat addr \<and> is_memory_free (allocations s) addr sz \<and>
     \<not> in_direct_memory_pool addr (addr + sz) \<and> unat addr + unat sz < 2 ^ 64"
proof -
  have ends: "unat (vma_end v) \<le> max (unat (vmm_span s)) 0xA40000000"
    if "(key, v) \<in> set (allocations s)" for key v
    using vma_ok_bounds(4)[OF vmm_invD(2)[OF inv that]] by (simp add: word_le_nat_alt)
  have "unat (max align 0x4000) = 2 ^ k" using room by (simp add: search_room_def)
  from find_free_loop_spec[OF this ends, where sz = sz and cursor = "heap_cursor s"] room this
  show ?thesis
    by (fastforce simp: search_room_def find_free_region_aligned_def in_direct_memory_pool_def)
qed

lemma vmm_inv_cursor:
  "vmm_inv s \<Longrightarrow> GUEST_BASE \<le> c \<Longrightarrow> vmm_inv (s\<lparr>heap_cursor := c\<rparr>)"
  by (simp add: vmm_inv_def)

lemma map_aligned_inv:
  assumes inv: "vmm_inv s" and room: "addr = 0 \<Longrightarrow> search_room s sz align k"
  shows "\<exists>s' res. map_aligned ops s addr sz align prot name = Some (s', res) \<and> vmm_inv s' \<and>
     vmm_span s' = vmm_span s"
proof -
  have commit: "\<exists>s' res. map_commit ops s1 a sz prot name = (s', res) \<and> vmm_inv s' \<and>
      vmm_span s' = vmm_span s1"
    if "vmm_inv s1" "sz \<noteq> 0" "unat a + unat sz < 2 ^ 64" "GUEST_BASE \<le> a" "a + sz \<le> vmm_span s1"
      "is_memory_free (allocations s1) a sz" for s1 :: "'a vmm" and a
    using map_commit_inv[OF that, of ops prot name]
    by (cases "map_commit ops s1 a sz prot name")
      (auto simp: map_commit_def Let_def split: prod.splits sum.splits)
  show ?thesis
  proof (cases "sz = 0 \<or> addr \<noteq> 0")
    case True
    then show ?thesis
      using inv commit[OF inv] by (auto simp: map_aligned_def not_less split: option.splits)
  next
    case False
    then obtain a where a: "find_free_region_aligned s sz align = Some (s\<lparr>heap_cursor := a + sz\<rparr>, a)"
      "heap_cursor s \<le> a" "is_memory_free (allocations s) a sz" "unat a + unat sz < 2 ^ 64"
      using find_free_region_aligned_spec[OF inv room] by auto
    have base: "GUEST_BASE \<le> a" using a(2) vmm_invD(7)[OF inv] by simp
    then have "GUEST_BASE \<le> a + sz" using a(4) by (simp add: word_le_nat_alt unat_add_nowrap)
    then have inv': "vmm_inv (s\<lparr>heap_cursor := a + sz\<rparr>)" by (rule vmm_inv_cursor[OF inv])
    show ?thesis
      using False a base inv inv' commit[OF inv', of a]
      by (auto simp: map_aligned_def not_less split: option.splits)
  qed
qed

section \<open>The bytes behind a mapping\<close>

text \<open>Arena bytes that no mapping ever covered are zero: the arena starts as fresh anonymous memory.\<close>

definition virgin_zero :: "('ram \<Rightarrow> u64 \<Rightarrow> u8) \<Rightarrow> 'ram vmm \<Rightarrow> bool" where
  "virgin_zero byte_at s \<longleftrightarrow>
     (\<forall>x \<in> {GUEST_BASE..<vmm_span s} - cov (ever_mapped s). byte_at (vmm_ram s) x = 0)"

context guest_ram
begin

lemma map_commit_bytes:
  assumes inv: "vmm_inv s" and span: "vmm_span s = span" and virgin: "virgin_zero byte_at s"
    and lt: "addr < addr + sz" and base: "GUEST_BASE \<le> addr" and top: "addr + sz \<le> span"
  shows "\<exists>s'. map_commit ops s addr sz prot name = (s', Ok addr) \<and> virgin_zero byte_at s' \<and>
     (\<forall>x. byte_at (vmm_ram s') x = (if x \<in> {addr..<addr + sz} then 0 else byte_at (vmm_ram s) x)) \<and>
     allocations s' = bt_insert addr
       \<lparr> vma_start = addr, vma_end = addr + sz, vma_size = sz, vma_protection = prot,
         vma_name = (case name of Some n \<Rightarrow> n | None \<Rightarrow> ''dynamic_alloc'') \<rparr> (allocations s)"
proof -
  let ?ps = "previously_mapped_parts (ever_mapped s) addr (addr + sz)"
  note em = vmm_invD(5)[OF inv]
  have "GUEST_BASE \<le> a \<and> a \<le> b \<and> b \<le> span" if "(a, b) \<in> set ?ps" for a b
    using previously_mapped_parts_within[OF that] base top by auto
  then obtain r' where z: "zero_parts ops (vmm_ram s) ?ps = (r', Ok ())"
    and b: "\<And>x. byte_at r' x = (if x \<in> cov ?ps then 0 else byte_at (vmm_ram s) x)"
    using zero_parts_bytes[of ?ps "vmm_ram s"] by blast
  have b': "byte_at r' x = (if x \<in> {addr..<addr + sz} then 0 else byte_at (vmm_ram s) x)" for x
  proof -
    have "byte_at (vmm_ram s) x = 0" if "x \<in> {addr..<addr + sz}" "x \<notin> cov (ever_mapped s)"
      using that virgin order_trans[OF base] less_le_trans[OF _ top] by (simp add: virgin_zero_def span)
    then show ?thesis
      using b[of x] previously_mapped_parts_cov[OF em, of addr "addr + sz"] by auto
  qed
  show ?thesis
    using z b' virgin note_ever_mapped_spec(2)[OF em lt]
    by (auto simp: map_commit_def Let_def virgin_zero_def)
qed

lemma discard_all_bytes:
  assumes "\<And>a b. (a, b) \<in> set ds \<Longrightarrow> GUEST_BASE \<le> a \<and> b \<le> span"
  shows "byte_at (discard_all ops r ds) x = (if x \<in> cov ds then 0 else byte_at r x)"
  using assms
proof (induction ds arbitrary: r)
  case (Cons d ds)
  obtain a b where d: "d = (a, b)" by (cases d)
  have "byte_at (discard_all ops (ram_dontneed ops r a b) ds) x =
      (if x \<in> cov ds then 0 else byte_at (ram_dontneed ops r a b) x)"
    using Cons.prems by (intro Cons.IH) auto
  then show ?case using Cons.prems[of a b] by (simp add: d discard_byte)
qed simp

end

section \<open>Which pages an unmap drops\<close>

lemma page_floor: "a \<le> x div n * n \<longleftrightarrow> (a + n - 1) div n * n \<le> x" if "0 < n" for a n x :: nat
proof
  assume "a \<le> x div n * n"
  then have "(a + n - 1) div n \<le> (x div n * n + n - 1) div n" by (intro div_le_mono) simp
  also have "\<dots> = x div n" using that
    by (metis Nat.add_diff_assoc One_nat_def Suc_leI Suc_pred add.commute diff_less div_less div_mult_self3
        less_numeral_extra(3) add_cancel_right_left zero_less_one)
  finally show "(a + n - 1) div n * n \<le> x"
    by (metis div_times_less_eq_dividend mult_le_mono1 order_trans)
next
  assume "(a + n - 1) div n * n \<le> x"
  then have "(a + n - 1) div n \<le> x div n" using that by (simp add: less_eq_div_iff_mult_less_eq)
  then have "(a + n - 1) div n * n \<le> x div n * n" by simp
  then show "a \<le> x div n * n" using round_up_bounds(1)[OF that, of a] by linarith
qed

lemma page_ceil: "(x div n + 1) * n \<le> e \<longleftrightarrow> x < e div n * n" if "0 < n" for e n x :: nat
  using that by (metis Suc_eq_plus1 Suc_le_eq div_less_iff_less_mult less_eq_div_iff_mult_less_eq)

lemma round_up_cases:
  "(c + n - 1) div n * n = (if c mod n = 0 then c else c + (n - c mod n))" if "0 < n" for c n :: nat
proof -
  define q r where "q = c div n" and "r = c mod n"
  have c: "c = q * n + r" and r: "r < n" using that by (simp_all add: q_def r_def)
  have "(c + n - 1) div n = q + (r + n - 1) div n"
    using that unfolding c by (metis Nat.add_diff_assoc One_nat_def Suc_leI add.assoc
        div_mult_self3 less_numeral_extra(3) not_gr_zero trans_le_add2)
  moreover have "(r + n - 1) div n = (if r = 0 then 0 else 1)"
    using r by (auto simp: div_nat_eqI)
  ultimately show ?thesis
    using r unfolding r_def[symmetric] by (auto simp: c add_mult_distrib)
qed

lemma next_page_unat:
  "unat (case checked_next_multiple_of a PAGE of Some b \<Rightarrow> b | None \<Rightarrow> - 1) =
   min ((unat a + 4096 - 1) div 4096 * 4096) (2 ^ 64 - 1)"
proof -
  have m: "unat (a mod PAGE) = unat a mod 4096" by (simp add: PAGE_def unat_mod_distrib)
  have up: "(unat a + 4096 - 1) div 4096 * 4096 =
      (if unat a mod 4096 = 0 then unat a else unat a + (4096 - unat a mod 4096))"
    by (rule round_up_cases) simp
  have d: "unat (PAGE - a mod PAGE) = 4096 - unat a mod 4096"
    using m by (subst unat_sub_le) (auto simp: word_le_nat_alt PAGE_def)
  have z: "a mod PAGE = 0 \<longleftrightarrow> unat a mod 4096 = 0"
    by (metis m unat_eq_zero)
  show ?thesis
  proof (cases "unat a mod 4096 = 0")
    case True
    then show ?thesis
      using u64_bound[of a] unfolding up checked_next_multiple_of_def z by (simp add: PAGE_def)
  next
    case False
    define q where "q = unat a mod 4096"
    have "checked_next_multiple_of a PAGE = checked_add a (PAGE - a mod PAGE)"
      using False z by (simp add: checked_next_multiple_of_def PAGE_def)
    moreover have "unat (a + (PAGE - a mod PAGE)) = unat a + (4096 - q)"
      if "unat a + (4096 - q) < 2 ^ 64"
      using that by (subst unat_add_nowrap) (simp_all add: d q_def)
    ultimately show ?thesis
      using False unfolding up
      by (simp add: checked_add_def d unsigned_minus_1_eq_mask mask_eq_exp_minus_1 q_def[symmetric])
  qed
qed

lemma page_start_unat: "unat (a AND NOT (PAGE - 1)) = unat a div 4096 * 4096"
  using and_not_mask_unat[of a 12] by (simp add: PAGE_def mask_eq_exp_minus_1)

lemma unmap_discards_cov:
  fixes addr sz x :: u64
  defines "pg \<equiv> unat x div 4096"
  shows "x \<in> cov (unmap_discards addr sz) \<longleftrightarrow>
     \<not> in_direct_memory_pool addr (saturating_add addr sz) \<and>
     unat addr \<le> pg * 4096 \<and> (pg + 1) * 4096 \<le> unat (saturating_add addr sz) \<and> pg \<noteq> 0x30"
proof -
  define S where "S = (case checked_next_multiple_of addr PAGE of Some a \<Rightarrow> a | None \<Rightarrow> - 1)"
  define e where "e = saturating_add addr sz"
  define E where "E = e AND NOT (PAGE - 1)"
  have "x \<in> cov (unmap_discards addr sz) \<longleftrightarrow> \<not> in_direct_memory_pool addr e \<and>
      S \<le> x \<and> x < E \<and> (x < GADGET_ADDR \<or> GADGET_ADDR + PAGE \<le> x)"
    by (auto simp: unmap_discards_def Let_def S_def[symmetric] e_def[symmetric] E_def[symmetric])
  moreover have "x < E \<longleftrightarrow> (pg + 1) * 4096 \<le> unat e"
    using page_ceil[of 4096 "unat x" "unat e"]
    by (simp add: word_less_nat_alt E_def page_start_unat pg_def)
  moreover have "S \<le> x \<longleftrightarrow> unat addr \<le> pg * 4096" if "x < E"
  proof -
    have "unat x < 2 ^ 64 - 1" using that u64_bound[of E] by (simp add: word_less_nat_alt)
    then show ?thesis
      unfolding pg_def page_floor[of 4096 "unat addr" "unat x", simplified]
      by (simp add: word_le_nat_alt S_def next_page_unat min_le_iff_disj)
  qed
  moreover have "(x < GADGET_ADDR \<or> GADGET_ADDR + PAGE \<le> x) \<longleftrightarrow> pg \<noteq> 0x30"
  proof -
    have "unat x = pg * 4096 + unat x mod 4096" "unat x mod 4096 < 4096" by (simp_all add: pg_def)
    then show ?thesis
      by (simp add: word_less_nat_alt word_le_nat_alt GADGET_ADDR_def PAGE_def) linarith
  qed
  ultimately show ?thesis unfolding e_def by blast
qed

lemma fold_bt_remove_set: "set (fold bt_remove ks al) = {(k, v) \<in> set al. k \<notin> set ks}"
  by (induction ks arbitrary: al) (auto simp: btree_simps)

lemma fold_bt_remove_wf: "bt_wf al \<Longrightarrow> bt_wf (fold bt_remove ks al)"
  by (induction ks arbitrary: al) (auto simp: bt_remove_wf)

definition evicts :: "u64 \<Rightarrow> u64 \<Rightarrow> u64 \<Rightarrow> vma \<Rightarrow> bool" where
  "evicts addr sz k v \<longleftrightarrow> \<not> in_direct_memory_pool addr (saturating_add addr sz) \<and> k \<noteq> GADGET_ADDR \<and>
     addr \<le> vma_start v \<and> vma_end v \<le> saturating_add addr sz"

lemma unmap_allocations:
  assumes inv: "vmm_inv s"
  shows "set (allocations (fst (unmap ops s addr sz))) =
     {(k, v) \<in> set (allocations s). \<not> evicts addr sz k v}"
proof -
  let ?e = "saturating_add addr sz"
  have "k \<in> set (unmap_evicted (allocations s) addr ?e) \<longleftrightarrow>
      k \<noteq> GADGET_ADDR \<and> addr \<le> vma_start v \<and> vma_end v \<le> ?e"
    if kv: "(k, v) \<in> set (allocations s)" for k v
  proof -
    have "k < ?e" if "vma_end v \<le> ?e"
      using vma_ok_bounds(2)[OF vmm_invD(2)[OF inv kv]] that by simp
    moreover have "k \<in> set (unmap_evicted (allocations s) addr ?e) \<longleftrightarrow>
        (\<exists>w. (k, w) \<in> set (allocations s) \<and> k < ?e \<and> k \<noteq> GADGET_ADDR \<and> addr \<le> vma_start w \<and>
          vma_end w \<le> ?e)"
      by (force simp: unmap_evicted_def bt_range_lt_def)
    ultimately show ?thesis
      using kv by (blast dest: bt_keys_unique[OF vmm_invD(1)[OF inv] _ kv])
  qed
  then show ?thesis
    by (auto simp: unmap_def Let_def fold_bt_remove_set evicts_def)
qed

lemma vmm_inv_subset:
  assumes inv: "vmm_inv s" and wf: "bt_wf (allocations s')"
    and sub: "set (allocations s') \<subseteq> set (allocations s)"
    and gad: "\<And>v. (GADGET_ADDR, v) \<in> set (allocations s) \<Longrightarrow> (GADGET_ADDR, v) \<in> set (allocations s')"
    and same: "vmm_span s' = vmm_span s" "ever_mapped s' = ever_mapped s" "heap_cursor s' = heap_cursor s"
  shows "vmm_inv s'"
proof -
  have "backed (allocations s') \<subseteq> backed (allocations s)"
    unfolding backed_def using sub by (rule UN_mono) simp
  moreover have "\<forall>(k, v) \<in> set (allocations s'). vma_ok (vmm_span s') k v"
    using vmm_invD(2)[OF inv] sub same(1) by auto
  moreover have "vmas_disjoint (allocations s')"
    unfolding vmas_disjoint_def using vmm_invD(3)[OF inv] sub by blast
  moreover have "\<exists>v. (GADGET_ADDR, v) \<in> set (allocations s') \<and> vma_end v = GADGET_ADDR + 0x1000"
    using vmm_invD(4)[OF inv] gad by blast
  ultimately show ?thesis
    unfolding vmm_inv_def using wf vmm_invD(5,6,7)[OF inv] same by simp
qed

lemma unmap_frame:
  "vmm_span (fst (unmap ops s addr sz)) = vmm_span s" "ever_mapped (fst (unmap ops s addr sz)) = ever_mapped s"
  "heap_cursor (fst (unmap ops s addr sz)) = heap_cursor s"
  "vmm_ram (fst (unmap ops s addr sz)) = discard_all ops (vmm_ram s) (unmap_discards addr sz)"
  by (simp_all add: unmap_def Let_def)

lemma unmap_inv:
  assumes inv: "vmm_inv s"
  shows "vmm_inv (fst (unmap ops s addr sz))"
proof (rule vmm_inv_subset[OF inv])
  show "bt_wf (allocations (fst (unmap ops s addr sz)))"
    using vmm_invD(1)[OF inv] by (simp add: unmap_def Let_def fold_bt_remove_wf)
qed (auto simp: unmap_allocations[OF inv] unmap_frame evicts_def)

section \<open>Lookups and ranged access\<close>

lemma containing_vma_Some:
  assumes inv: "vmm_inv s"
  shows "containing_vma (allocations s) x = Some v \<longleftrightarrow>
     (\<exists>k. (k, v) \<in> set (allocations s) \<and> vma_start v \<le> x \<and> x < vma_end v)"
proof
  assume "containing_vma (allocations s) x = Some v"
  then obtain k where l: "bt_last_le (allocations s) x = Some (k, v)" and "vma_contains v x"
    by (auto simp: containing_vma_def split: option.splits if_splits)
  then show "\<exists>k. (k, v) \<in> set (allocations s) \<and> vma_start v \<le> x \<and> x < vma_end v"
    using bt_last_le_Some(1)[OF vmm_invD(1)[OF inv] l] by (auto simp: vma_contains_def)
next
  assume "\<exists>k. (k, v) \<in> set (allocations s) \<and> vma_start v \<le> x \<and> x < vma_end v"
  then obtain k where kv: "(k, v) \<in> set (allocations s)" and x: "vma_start v \<le> x" "x < vma_end v"
    by blast
  have k: "vma_start v = k" using vma_ok_bounds(1)[OF vmm_invD(2)[OF inv kv]] .
  then obtain k' v' where l: "bt_last_le (allocations s) x = Some (k', v')"
    using kv x bt_last_le_None[of "allocations s" x] by fastforce
  note last = bt_last_le_Some[OF vmm_invD(1)[OF inv] l]
  have "k \<le> k'" using last(3)[OF kv] x k by simp
  moreover have "\<not> k < k'" using vmm_invD(3)[OF inv kv last(1)] last(2) x by auto
  ultimately have "k' = k" by simp
  then have "v' = v" using bt_keys_unique[OF vmm_invD(1)[OF inv], of k] last(1) kv by blast
  then show "containing_vma (allocations s) x = Some v"
    using l x by (simp add: containing_vma_def vma_contains_def)
qed

lemma containing_vma_None:
  assumes inv: "vmm_inv s"
  shows "containing_vma (allocations s) x = None \<longleftrightarrow> x \<notin> backed (allocations s)"
proof -
  have "x \<in> backed (allocations s) \<longleftrightarrow> (\<exists>v. containing_vma (allocations s) x = Some v)"
    unfolding containing_vma_Some[OF inv] by (auto simp: backed_def intro!: bexI)
  then show ?thesis by (cases "containing_vma (allocations s) x") auto
qed

lemma ranged_walk_iff:
  assumes inv: "vmm_inv s"
  shows "ranged_walk (allocations s) c e \<longleftrightarrow> {c..<e} \<subseteq> backed (allocations s)"
proof (induction "unat e - unat c" arbitrary: c rule: less_induct)
  case less
  show ?case
  proof (cases "c < e")
    case False
    then show ?thesis by (simp add: ranged_walk.simps[of _ c])
  next
    case True
    show ?thesis
    proof (cases "containing_vma (allocations s) c")
      case None
      then show ?thesis
        using True containing_vma_None[OF inv, of c] by (subst ranged_walk.simps) auto
    next
      case (Some v)
      then obtain k where kv: "(k, v) \<in> set (allocations s)" "vma_start v \<le> c" "c < vma_end v"
        using containing_vma_Some[OF inv] by blast
      have "{c..<vma_end v} \<subseteq> backed (allocations s)"
        using kv in_backed[OF kv(1)] by auto
      moreover have "{c..<e} \<subseteq> {c..<vma_end v} \<union> {vma_end v..<e}" "{vma_end v..<e} \<subseteq> {c..<e}"
        using kv(3) by (auto simp: not_less)
      ultimately have "{c..<e} \<subseteq> backed (allocations s) \<longleftrightarrow> {vma_end v..<e} \<subseteq> backed (allocations s)"
        by blast
      moreover have "ranged_walk (allocations s) (vma_end v) e \<longleftrightarrow> {vma_end v..<e} \<subseteq> backed (allocations s)"
        using kv(3) True by (intro less.hyps diff_less_mono2) (auto simp: word_less_nat_alt)
      ultimately show ?thesis
        unfolding ranged_walk.simps[of _ c] using True Some by simp
    qed
  qed
qed

lemma backed_in_arena:
  assumes inv: "vmm_inv s" and "x \<in> backed (allocations s)"
  shows "GUEST_BASE \<le> x" and "x < vmm_span s"
proof -
  obtain k v where "(k, v) \<in> set (allocations s)" "vma_start v \<le> x" "x < vma_end v"
    using assms(2) by (auto simp: backed_def)
  then show "GUEST_BASE \<le> x" "x < vmm_span s"
    using vma_ok_bounds[OF vmm_invD(2)[OF inv]] by fastforce+
qed

lemma range_in_arena:
  assumes inv: "vmm_inv s" and "{a..<e} \<subseteq> backed (allocations s)" and "a < e"
  shows "GUEST_BASE \<le> a" and "e \<le> vmm_span s"
proof -
  show "GUEST_BASE \<le> a" using backed_in_arena[OF inv, of a] assms by auto
  have "e \<noteq> 0" using \<open>a < e\<close> by auto
  then have e1: "unat (e - 1) = unat e - 1" by (rule unat_minus_one)
  then have e: "e - 1 < e" "a \<le> e - 1" "unat (e - 1) = unat e - 1"
    using \<open>a < e\<close> by (auto simp: word_less_nat_alt word_le_nat_alt)
  then have "e - 1 < vmm_span s" using backed_in_arena(2)[OF inv, of "e - 1"] assms by auto
  then show "e \<le> vmm_span s" using e(3) \<open>a < e\<close> by (simp add: word_less_nat_alt word_le_nat_alt)
qed

lemma protect_inv:
  assumes inv: "vmm_inv s"
  shows "vmm_inv (fst (protect s addr sz prot))"
proof -
  let ?f = "\<lambda>(k, w). if k = addr then (k, w\<lparr>vma_protection := prot\<rparr>) else (k, w)"
  define al where "al = map ?f (allocations s)"
  have keys: "map fst al = map fst (allocations s)" by (auto simp: al_def case_prod_beta)
  have orig: "\<exists>w'. (k, w') \<in> set (allocations s) \<and> vma_start w' = vma_start w \<and>
      vma_end w' = vma_end w \<and> vma_size w' = vma_size w" if "(k, w) \<in> set al" for k w
    using that by (auto simp: al_def split: if_splits)
  have fwd: "\<exists>w'. (k, w') \<in> set al \<and> vma_start w' = vma_start w \<and> vma_end w' = vma_end w"
    if "(k, w) \<in> set (allocations s)" for k w
    using that by (cases "k = addr") (force simp: al_def)+
  have "bt_wf al" using vmm_invD(1)[OF inv] unfolding bt_wf_def keys .
  moreover have "\<forall>(k, v) \<in> set al. vma_ok (vmm_span s) k v"
    using vmm_invD(2)[OF inv] orig by (fastforce simp: vma_ok_def)
  moreover have "vmas_disjoint al"
  proof -
    have "vma_end w \<le> k'" if "(k, w) \<in> set al" "(k', w') \<in> set al" "k < k'" for k w k' w'
      using orig[OF that(1)] orig[OF that(2)] vmm_invD(3)[OF inv] that(3) by metis
    then show ?thesis unfolding vmas_disjoint_def by blast
  qed
  moreover have "\<exists>v. (GADGET_ADDR, v) \<in> set al \<and> vma_end v = GADGET_ADDR + 0x1000"
    using vmm_invD(4)[OF inv] fwd by (metis (no_types, lifting))
  moreover have "backed al \<subseteq> cov (ever_mapped s)"
  proof -
    have "x \<in> backed (allocations s)" if "x \<in> backed al" for x
      using that orig unfolding backed_iff by metis
    then show ?thesis using vmm_invD(6)[OF inv] by blast
  qed
  ultimately have "vmm_inv (s\<lparr>allocations := al\<rparr>)"
    using vmm_invD(5,7)[OF inv] by (simp add: vmm_inv_def)
  then show ?thesis using inv by (auto simp: protect_def al_def split: option.splits)
qed

section \<open>A successful map\<close>

lemma map_commit_Ok: "map_commit ops s a sz prot name = (s', Ok b) \<Longrightarrow> b = a"
  by (auto simp: map_commit_def Let_def split: prod.splits sum.splits)

lemma map_aligned_OkD:
  assumes inv: "vmm_inv s" and room: "addr = 0 \<Longrightarrow> search_room s sz align k"
    and mapped: "map_aligned ops s addr sz align prot name = Some (s', Ok a)"
  shows "\<exists>c. GUEST_BASE \<le> c \<and> map_commit ops (s\<lparr>heap_cursor := c\<rparr>) a sz prot name = (s', Ok a) \<and>
     is_memory_free (allocations s) a sz \<and> sz \<noteq> 0 \<and> unat a + unat sz < 2 ^ 64 \<and> GUEST_BASE \<le> a \<and>
     a + sz \<le> vmm_span s \<and> (addr \<noteq> 0 \<longrightarrow> a = addr) \<and>
     (addr = 0 \<longrightarrow> 2 ^ k dvd unat a \<and> \<not> in_direct_memory_pool a (a + sz))"
proof (cases "addr = 0")
  case False
  then show ?thesis
    using mapped vmm_invD(7)[OF inv]
    by (intro exI[of _ "heap_cursor s"])
      (auto simp: map_aligned_def not_less dest: map_commit_Ok split: if_splits option.splits)
next
  case True
  then have sz: "sz \<noteq> 0" using mapped by (auto simp: map_aligned_def)
  obtain b where b: "find_free_region_aligned s sz align = Some (s\<lparr>heap_cursor := b + sz\<rparr>, b)"
    "heap_cursor s \<le> b" "2 ^ k dvd unat b" "is_memory_free (allocations s) b sz"
    "\<not> in_direct_memory_pool b (b + sz)" "unat b + unat sz < 2 ^ 64"
    using find_free_region_aligned_spec[OF inv room] True by blast
  then have com: "map_commit ops (s\<lparr>heap_cursor := b + sz\<rparr>) b sz prot name = (s', Ok a)"
    and top: "b + sz \<le> vmm_span s"
    using mapped True sz by (auto simp: map_aligned_def not_less split: if_splits option.splits)
  have "GUEST_BASE \<le> b" using b(2) vmm_invD(7)[OF inv] by simp
  moreover from this have "GUEST_BASE \<le> b + sz" using b(6) by (simp add: word_le_nat_alt unat_add_nowrap)
  ultimately show ?thesis
    using b com top sz True map_commit_Ok[OF com] by (intro exI[of _ "b + sz"]) simp
qed

lemma map_aligned_effect:
  assumes ram: "guest_ram ops byte_at (vmm_span s)"
    and inv: "vmm_inv s" and virgin: "virgin_zero byte_at s"
    and room: "addr = 0 \<Longrightarrow> search_room s sz align k"
    and mapped: "map_aligned ops s addr sz align prot name = Some (s', Ok a)"
  shows "\<forall>x. byte_at (vmm_ram s') x = (if x \<in> {a..<a + sz} then 0 else byte_at (vmm_ram s) x)"
    and "{a..<a + sz} \<inter> backed (allocations s) = {}" and "a < a + sz"
    and "backed (allocations s') = backed (allocations s) \<union> {a..<a + sz}"
    and "virgin_zero byte_at s'"
proof -
  obtain c where c: "GUEST_BASE \<le> c" "map_commit ops (s\<lparr>heap_cursor := c\<rparr>) a sz prot name = (s', Ok a)"
    "is_memory_free (allocations s) a sz" "sz \<noteq> 0" "unat a + unat sz < 2 ^ 64" "GUEST_BASE \<le> a"
    "a + sz \<le> vmm_span s"
    using map_aligned_OkD[OF inv room mapped] by blast
  let ?s = "s\<lparr>heap_cursor := c\<rparr>"
  show lt: "a < a + sz"
    using c(4,5) by (simp add: word_less_nat_alt unat_add_nowrap unat_gt_0)
  have inv': "vmm_inv ?s" using inv c(1) by (rule vmm_inv_cursor)
  have virgin': "virgin_zero byte_at ?s" using virgin by (simp add: virgin_zero_def)
  show free: "{a..<a + sz} \<inter> backed (allocations s) = {}"
    using is_memory_free_iff[of "allocations s" "vmm_span s" sz a] vmm_invD(2)[OF inv] c(3,4,5) by auto
  have new: "(a, v) \<notin> set (allocations s)" for v
    using free lt in_backed[of a v "allocations s" a] vma_ok_bounds(1,2)[OF vmm_invD(2)[OF inv, of a v]]
    by auto
  from guest_ram.map_commit_bytes[OF ram inv' _ virgin' lt c(6), of prot name] c(2,7)
  show "\<forall>x. byte_at (vmm_ram s') x = (if x \<in> {a..<a + sz} then 0 else byte_at (vmm_ram s) x)"
    and "virgin_zero byte_at s'"
    and "backed (allocations s') = backed (allocations s) \<union> {a..<a + sz}"
    using backed_insert_new(1)[OF vmm_invD(1)[OF inv] new] by (auto simp: Un_commute)
qed

section \<open>Ranged access\<close>

lemma read_bytes_ranged_Ok:
  assumes ram: "guest_ram ops byte_at (vmm_span s)" and inv: "vmm_inv s"
    and sz: "sz \<noteq> 0" and nowrap: "unat a + unat sz < 2 ^ 64"
    and sub: "{a..<a + sz} \<subseteq> backed (allocations s)"
  shows "read_bytes_ranged ops s a sz =
    Ok (map (\<lambda>i. byte_at (vmm_ram s) (a + of_nat i)) [0..<unat sz])"
proof -
  have lt: "a < a + sz" using sz nowrap by (simp add: word_less_nat_alt unat_add_nowrap unat_gt_0)
  note arena = range_in_arena[OF inv sub lt]
  have "unat a + unat sz \<le> unat (vmm_span s)"
    using arena(2) nowrap by (simp add: word_le_nat_alt unat_add_nowrap)
  then show ?thesis
    using sz nowrap sub guest_ram.read_byte[OF ram arena(1), of sz s]
    by (simp add: read_bytes_ranged_def checked_add_def ranged_walk_iff[OF inv])
qed

lemma write_bytes_ranged_effect:
  assumes ram: "guest_ram ops byte_at (vmm_span s)" and inv: "vmm_inv s"
    and len: "length data < 2 ^ 64"
  shows "write_bytes_ranged ops s a data = (s', Ok ()) \<Longrightarrow>
     {x. unat a \<le> unat x \<and> unat x < unat a + length data} \<subseteq> backed (allocations s) \<and>
     (\<exists>r. s' = set_ram r s) \<and>
     (\<forall>x. byte_at (vmm_ram s') x =
        (if unat a \<le> unat x \<and> unat x < unat a + length data then data ! (unat x - unat a)
         else byte_at (vmm_ram s) x))"
    and "write_bytes_ranged ops s a data = (s', Inl err) \<Longrightarrow> s' = s"
proof -
  assume w: "write_bytes_ranged ops s a data = (s', Ok ())"
  show "{x. unat a \<le> unat x \<and> unat x < unat a + length data} \<subseteq> backed (allocations s) \<and>
     (\<exists>r. s' = set_ram r s) \<and>
     (\<forall>x. byte_at (vmm_ram s') x =
        (if unat a \<le> unat x \<and> unat x < unat a + length data then data ! (unat x - unat a)
         else byte_at (vmm_ram s) x))"
  proof (cases "data = []")
    case True
    have "set_ram (vmm_ram s) s = s" by (simp add: set_ram_def)
    with True w show ?thesis by (auto simp: write_bytes_ranged_def intro: exI[of _ "vmm_ram s"])
  next
    case False
    let ?n = "of_nat (length data) :: u64"
    have n: "unat ?n = length data" using len by (simp add: unat_of_nat_small)
    from w False obtain r where nw: "unat a + unat ?n < 2 ^ 64"
      and sub: "{a..<a + ?n} \<subseteq> backed (allocations s)"
      and r: "ram_write ops (vmm_ram s) a data = Some r" "s' = set_ram r s"
      by (auto simp: write_bytes_ranged_def write_bytes_def checked_add_def ranged_walk_iff[OF inv]
          split: if_splits option.splits)
    have "{x. unat a \<le> unat x \<and> unat x < unat a + length data} = {a..<a + ?n}"
      using nw n by (auto simp: word_le_nat_alt word_less_nat_alt unat_add_nowrap)
    then show ?thesis using sub r guest_ram.write_byte[OF ram r(1)] by auto
  qed
next
  assume "write_bytes_ranged ops s a data = (s', Inl err)"
  then show "s' = s"
    by (auto simp: write_bytes_ranged_def write_bytes_def split: if_splits option.splits)
qed

section \<open>Reachable states\<close>

text \<open>One call of the manager's interface on its state.\<close>

inductive vmm_step :: "'ram ram_ops \<Rightarrow> 'ram vmm \<Rightarrow> 'ram vmm \<Rightarrow> bool" for ops where
  step_map: "map_aligned ops s addr sz align prot name = Some (s', res) \<Longrightarrow>
     (addr = 0 \<Longrightarrow> search_room s sz align k) \<Longrightarrow> vmm_step ops s s'"
| step_unmap: "unmap ops s addr sz = (s', res) \<Longrightarrow> vmm_step ops s s'"
| step_protect: "protect s addr sz prot = (s', res) \<Longrightarrow> vmm_step ops s s'"
| step_find: "find_free_region_aligned s sz align = Some (s', a) \<Longrightarrow> search_room s sz align k \<Longrightarrow>
     vmm_step ops s s'"
| step_write: "write_bytes ops s addr data = (s', res) \<Longrightarrow> vmm_step ops s s'"
| step_write_ranged: "write_bytes_ranged ops s addr data = (s', res) \<Longrightarrow> vmm_step ops s s'"
| step_zero: "zero_memory ops s addr sz = (s', res) \<Longrightarrow> vmm_step ops s s'"

inductive vmm_reachable :: "'ram ram_ops \<Rightarrow> 'ram guest_vm \<Rightarrow> 'ram vmm \<Rightarrow> bool" for ops vm where
  reach_new: "vmm_reachable ops vm (vmm_new vm)"
| reach_step: "vmm_reachable ops vm s \<Longrightarrow> vmm_step ops s s' \<Longrightarrow> vmm_reachable ops vm s'"

lemma vmm_step_inv:
  assumes "vmm_step ops s s'" and inv: "vmm_inv s"
  shows "vmm_inv s'"
  using assms
proof cases
  case (step_map addr sz align prot name res k)
  then show ?thesis using map_aligned_inv[OF inv, of addr sz align k ops prot name] by auto
next
  case (step_unmap addr sz res)
  then show ?thesis using unmap_inv[OF inv, of ops addr sz] by simp
next
  case (step_protect addr sz prot res)
  then show ?thesis using protect_inv[OF inv, of addr sz prot] by simp
next
  case (step_find sz align a k)
  obtain b where "find_free_region_aligned s sz align = Some (s\<lparr>heap_cursor := b + sz\<rparr>, b)"
    "heap_cursor s \<le> b" "unat b + unat sz < 2 ^ 64"
    using find_free_region_aligned_spec[OF inv step_find(2)] by blast
  moreover from this have "GUEST_BASE \<le> b + sz"
    using vmm_invD(7)[OF inv] by (simp add: word_le_nat_alt unat_add_nowrap)
  ultimately show ?thesis using step_find(1) vmm_inv_cursor[OF inv] by auto
qed (use inv in \<open>auto simp: write_bytes_def write_bytes_ranged_def zero_memory_def
      split: if_splits option.splits\<close>)

lemma unmap_keeps_virgin:
  assumes ram: "guest_ram ops byte_at (vmm_span s)"
    and arena: "unat addr + unat sz \<le> unat (vmm_span s)" "GUEST_BASE \<le> addr"
  shows "byte_at (vmm_ram (fst (unmap ops s addr sz))) x =
     (if x \<in> cov (unmap_discards addr sz) then 0 else byte_at (vmm_ram s) x)"
proof -
  have e: "saturating_add addr sz \<le> vmm_span s"
    using arena(1) by (simp add: word_le_nat_alt unat_saturating_add)
  have "addr \<le> a \<and> b \<le> saturating_add addr sz" if "(a, b) \<in> set (unmap_discards addr sz)" for a b
  proof -
    define S where "S = (case checked_next_multiple_of addr PAGE of Some a \<Rightarrow> a | None \<Rightarrow> - 1)"
    have "unat addr \<le> unat S"
      using next_page_unat[of addr, folded S_def] round_up_bounds(1)[of 4096 "unat addr"] u64_bound[of addr]
      by simp
    then have "addr \<le> S" by (simp add: word_le_nat_alt)
    moreover have "e AND NOT (PAGE - 1) \<le> e" for e
      by (simp add: word_le_nat_alt page_start_unat)
    ultimately show ?thesis
      using that by (auto simp: unmap_discards_def Let_def S_def[symmetric] min_le_iff_disj le_max_iff_disj
          split: if_splits intro: order_trans)
  qed
  then show ?thesis
    unfolding unmap_frame using guest_ram.discard_all_bytes[OF ram] arena(2) e by (meson order_trans)
qed

section \<open>Properties\<close>

definition small_vm :: "(u64 \<Rightarrow> u8) vmm" where
  "small_vm = vmm_new \<lparr> gv_ram = (\<lambda>_. 0), gv_span = 0x500000000 \<rparr>"

lemmas small_vm_simps = small_vm_def vmm_new_def

lemma small_vm_ok:
  "vmm_inv small_vm" "virgin_zero (\<lambda>r x. r x) small_vm" "vmm_span small_vm = 0x500000000"
proof -
  show "vmm_inv small_vm" unfolding small_vm_def by (rule vmm_new_inv) (simp add: GADGET_ADDR_def)
qed (simp_all add: small_vm_simps virgin_zero_def)

lemma small_vm_room: "search_room small_vm 0x4000 0 14"
  by (simp add: search_room_def small_vm_simps HEAP_BASE_def)

lemma small_vm_map:
  "\<exists>s'. map_aligned (flat_ops 0x500000000) small_vm 0x40000 0x4000 0 PROT_READ None = Some (s', Ok 0x40000)"
  by (simp add: map_aligned_def small_vm_simps GUEST_BASE_def GADGET_ADDR_def checked_add_def is_memory_free_def
      bt_values_def map_commit_def previously_mapped_parts_def bt_last_le_def bt_range_le_def last_opt_def
      bt_range_from_def)

text \<open>
  Every map request, whatever its base, size, alignment and outcome, keeps the invariant of the
  region table: regions lie in the arena, do not overlap, the gadget page stays tracked, and every
  mapped byte is recorded as used. The request always returns: the placement search ends.
\<close>

theorem map_aligned_keeps_inv:
  assumes "vmm_inv s" and "addr = 0 \<Longrightarrow> search_room s sz align k"
  shows "\<exists>s' res. map_aligned ops s addr sz align prot name = Some (s', res) \<and> vmm_inv s'"
  using map_aligned_inv[OF assms] by blast

theorem map_aligned_keeps_inv_witness:
  "vmm_inv small_vm \<and> search_room small_vm 0x4000 0 14 \<and>
   (\<exists>s' res. map_aligned (flat_ops 0x500000000) small_vm 0 0x4000 0 PROT_READ None = Some (s', res) \<and>
     vmm_inv s')"
  using map_aligned_keeps_inv[OF small_vm_ok(1) small_vm_room] small_vm_ok(1) small_vm_room by simp



text \<open>
  The allocate-anywhere search ends and its base is at or above the heap cursor, aligned to the
  requested step, free of every live region and outside the direct-memory pool; the cursor moves to
  the end of the region handed out.
\<close>

theorem find_free_region_aligned_places:
  assumes "vmm_inv s" and "search_room s sz align k" and "sz \<noteq> 0"
  shows "\<exists>a. find_free_region_aligned s sz align = Some (s\<lparr>heap_cursor := a + sz\<rparr>, a) \<and>
     heap_cursor s \<le> a \<and> unat (max align 0x4000) dvd unat a \<and>
     {a..<a + sz} \<inter> backed (allocations s) = {} \<and>
     \<not> in_direct_memory_pool a (a + sz) \<and> unat (a + sz) = unat a + unat sz"
proof -
  obtain a where a: "find_free_region_aligned s sz align = Some (s\<lparr>heap_cursor := a + sz\<rparr>, a)"
    "heap_cursor s \<le> a" "2 ^ k dvd unat a" "is_memory_free (allocations s) a sz"
    "\<not> in_direct_memory_pool a (a + sz)" "unat a + unat sz < 2 ^ 64"
    using find_free_region_aligned_spec[OF assms(1,2)] by blast
  have "{a..<a + sz} \<inter> backed (allocations s) = {}"
    using is_memory_free_iff[of "allocations s" "vmm_span s" sz a] vmm_invD(2)[OF assms(1)] a(4,6) assms(3)
    by auto
  then show ?thesis using a assms(2) by (auto simp: search_room_def unat_add_nowrap)
qed

theorem find_free_region_aligned_places_witness:
  "\<exists>a. find_free_region_aligned small_vm 0x4000 0 = Some (small_vm\<lparr>heap_cursor := a + 0x4000\<rparr>, a) \<and>
     HEAP_BASE \<le> a \<and> 0x4000 dvd unat a"
  using find_free_region_aligned_places[OF small_vm_ok(1) small_vm_room]
  by (auto simp: small_vm_simps)

text \<open>
  An unmap keeps the invariant and drops exactly the regions that lie wholly inside the range,
  never the gadget page, and nothing at all when the range touches the direct-memory pool; every
  other region stays as it was. It always succeeds.
\<close>

theorem unmap_drops_contained_regions:
  assumes "vmm_inv s"
  shows "vmm_inv (fst (unmap ops s addr sz)) \<and> snd (unmap ops s addr sz) = Ok () \<and>
     set (allocations (fst (unmap ops s addr sz))) =
       {(k, v) \<in> set (allocations s).
          in_direct_memory_pool addr (saturating_add addr sz) \<or> k = GADGET_ADDR \<or>
          \<not> (addr \<le> vma_start v \<and> vma_end v \<le> saturating_add addr sz)}"
  unfolding unmap_allocations[OF assms]
  using unmap_inv[OF assms] by (auto simp: evicts_def unmap_def Let_def)

theorem unmap_drops_contained_regions_witness:
  "vmm_inv small_vm \<and> vmm_inv (fst (unmap (flat_ops 0x500000000) small_vm 0x20000 0x40000)) \<and>
   snd (unmap (flat_ops 0x500000000) small_vm 0x20000 0x40000) = Ok ()"
  using unmap_drops_contained_regions[OF small_vm_ok(1)] small_vm_ok(1) by blast

text \<open>
  C2. An unmap inside the arena zeroes exactly the pages that lie wholly inside its range, except
  the gadget page, and no page at all when the range touches the direct-memory pool. Every other
  byte keeps its value, so the partial pages at the edges belong to their neighbours still.
\<close>

theorem unmap_discards_whole_pages:
  assumes ram: "guest_ram ops byte_at (vmm_span s)"
    and arena: "GUEST_BASE \<le> addr" "unat addr + unat sz \<le> unat (vmm_span s)"
  shows "byte_at (vmm_ram (fst (unmap ops s addr sz))) x =
     (let page = unat x div 4096 in
      if \<not> in_direct_memory_pool addr (addr + sz) \<and> page \<noteq> unat GADGET_ADDR div 4096 \<and>
         unat addr \<le> page * 4096 \<and> (page + 1) * 4096 \<le> unat addr + unat sz
      then 0 else byte_at (vmm_ram s) x)"
proof -
  have "unat addr + unat sz < 2 ^ 64" using arena(2) u64_bound[of "vmm_span s"] by simp
  then have "saturating_add addr sz = addr + sz" "unat (addr + sz) = unat addr + unat sz"
    by (simp_all add: saturating_add_def unat_add_nowrap)
  then show ?thesis
    unfolding unmap_keeps_virgin[OF ram arena(2,1)] unmap_discards_cov by (auto simp: Let_def GADGET_ADDR_def)
qed

theorem unmap_discards_whole_pages_witness:
  "vmm_ram (fst (unmap (flat_ops 0x500000000) (set_ram (\<lambda>_. 7) small_vm) 0x20800 0x20000)) 0x21000 = 0 \<and>
   vmm_ram (fst (unmap (flat_ops 0x500000000) (set_ram (\<lambda>_. 7) small_vm) 0x20800 0x20000)) 0x30000 = 7"
proof -
  have ram: "guest_ram (flat_ops 0x500000000) (\<lambda>r x. r x) (vmm_span (set_ram (\<lambda>_. 7) small_vm))"
    unfolding set_ram_simps small_vm_ok(3) by (rule flat.guest_ram_axioms)
  note w = unmap_discards_whole_pages[OF ram, of "0x20800" "0x20000"]
  show ?thesis
    using w[of "0x21000"] w[of "0x30000"]
    by (simp add: GUEST_BASE_def small_vm_ok(3) in_direct_memory_pool_def GADGET_ADDR_def
        DIRECT_MEMORY_POOL_BASE_def Let_def)
qed

text \<open>
  C3. A ranged read returns the bytes exactly when every address of the range is mapped, across any
  number of adjacent regions; a range that wraps the address space, or that meets a hole anywhere,
  is an error, and the empty read succeeds.
\<close>

theorem read_bytes_ranged_iff_mapped:
  assumes ram: "guest_ram ops byte_at (vmm_span s)" and inv: "vmm_inv s"
  shows "read_bytes_ranged ops s a sz =
     (if sz = 0 then Ok []
      else if 2 ^ 64 \<le> unat a + unat sz then Err ''read range overflows the address space''
      else if {a..<a + sz} \<subseteq> backed (allocations s)
      then Ok (map (\<lambda>i. byte_at (vmm_ram s) (a + of_nat i)) [0..<unat sz])
      else Err ''read range enters unmapped memory (gap or past the last mapping)'')"
  using read_bytes_ranged_Ok[OF ram inv, of sz a]
  by (auto simp: read_bytes_ranged_def checked_add_def ranged_walk_iff[OF inv] split: option.splits)

theorem read_bytes_ranged_iff_mapped_witness:
  "read_bytes_ranged (flat_ops 0x500000000) small_vm 0x30FFE 2 = Ok [0, 0] \<and>
   read_bytes_ranged (flat_ops 0x500000000) small_vm 0x30FFE 3 =
     Err ''read range enters unmapped memory (gap or past the last mapping)''"
proof -
  have ram: "guest_ram (flat_ops 0x500000000) (\<lambda>r x. r x) (vmm_span small_vm)"
    unfolding small_vm_ok(3) by (rule flat.guest_ram_axioms)
  have "\<not> {0x30FFE..<0x31001::u64} \<subseteq> {0x30000..<0x31000}"
    by (simp add: subset_iff) (rule exI[of _ "0x31000"], simp)
  then show ?thesis
    unfolding read_bytes_ranged_iff_mapped[OF ram small_vm_ok(1)]
    by (auto simp: small_vm_simps backed_def GADGET_ADDR_def upt_rec)
qed

text \<open>
  C4. A ranged write that succeeds wrote its data over mapped addresses only and left every other
  byte and the region table alone; one that fails changed nothing.
\<close>

theorem write_bytes_ranged_stays_mapped:
  assumes ram: "guest_ram ops byte_at (vmm_span s)" and inv: "vmm_inv s"
    and len: "length data < 2 ^ 64" and run: "write_bytes_ranged ops s a data = (s', res)"
  shows "case res of
       Inl _ \<Rightarrow> s' = s
     | Inr _ \<Rightarrow> {x. unat a \<le> unat x \<and> unat x < unat a + length data} \<subseteq> backed (allocations s) \<and>
         allocations s' = allocations s \<and>
         (\<forall>x. byte_at (vmm_ram s') x =
            (if unat a \<le> unat x \<and> unat x < unat a + length data then data ! (unat x - unat a)
             else byte_at (vmm_ram s) x))"
proof (cases res)
  case (Inl err)
  then show ?thesis using write_bytes_ranged_effect(2)[OF ram inv len] run by simp
next
  case (Inr u)
  then show ?thesis using write_bytes_ranged_effect(1)[OF ram inv len, of a s'] run by auto
qed

theorem write_bytes_ranged_stays_mapped_witness:
  "\<exists>s'. write_bytes_ranged (flat_ops 0x500000000) small_vm 0x30FFF [9] = (s', Ok ()) \<and> vmm_ram s' 0x30FFF = 9"
proof -
  have ram: "guest_ram (flat_ops 0x500000000) (\<lambda>r x. r x) (vmm_span small_vm)"
    unfolding small_vm_ok(3) by (rule flat.guest_ram_axioms)
  have "{0x30FFF..<0x31000::u64} \<subseteq> backed (allocations small_vm)"
    by (auto simp: small_vm_simps backed_def GADGET_ADDR_def intro: order_trans)
  then obtain s' where "write_bytes_ranged (flat_ops 0x500000000) small_vm 0x30FFF [9] = (s', Ok ())"
    by (auto simp: write_bytes_ranged_def write_bytes_def checked_add_def ranged_walk_iff[OF small_vm_ok(1)]
        flat_ops_def GUEST_BASE_def small_vm_ok(3))
  then show ?thesis
    using write_bytes_ranged_stays_mapped[OF ram small_vm_ok(1), of "[9]" "0x30FFF"] by auto
qed



section \<open>Where the code promises more than it does\<close>

text \<open>
  Once the heap cursor has passed the end of the arena, every allocate-anywhere request fails,
  whatever its size and whatever is free, and the cursor stays past the end: the search never looks
  below it. A single request that is too large for the rest of the arena puts the cursor there,
  since the search stores the cursor before the caller checks the span.
\<close>

theorem exhausted_cursor_stays_exhausted:
  assumes inv: "vmm_inv s" and room: "search_room s sz align k" and past: "vmm_span s < heap_cursor s"
  shows "\<exists>s' err. map_aligned ops s 0 sz align prot name = Some (s', Inl err) \<and>
     allocations s' = allocations s \<and> vmm_span s' < heap_cursor s'"
proof (cases "sz = 0 \<or> saturating_sub (vmm_span s) GUEST_BASE < sz")
  case True
  then show ?thesis using past by (auto simp: map_aligned_def)
next
  case False
  obtain a where a: "find_free_region_aligned s sz align = Some (s\<lparr>heap_cursor := a + sz\<rparr>, a)"
    "heap_cursor s \<le> a" "unat a + unat sz < 2 ^ 64"
    using find_free_region_aligned_spec[OF inv room] by blast
  then have "vmm_span s < a + sz"
    using past by (simp add: word_less_nat_alt word_le_nat_alt unat_add_nowrap)
  then show ?thesis using False a by (auto simp: map_aligned_def split: option.splits)
qed

theorem exhausted_cursor_stays_exhausted_witness:
  "\<exists>s' err. map_aligned (flat_ops 0x500000000) (small_vm\<lparr>heap_cursor := 0x500004000\<rparr>) 0 0x4000 0 PROT_READ None
       = Some (s', Inl err) \<and> vmm_span s' < heap_cursor s'"
proof -
  let ?s = "small_vm\<lparr>heap_cursor := 0x500004000\<rparr>"
  have "vmm_inv ?s" using small_vm_ok(1) by (rule vmm_inv_cursor) (simp add: GUEST_BASE_def)
  moreover have "search_room ?s 0x4000 0 14" by (simp add: search_room_def small_vm_simps)
  moreover have "vmm_span ?s < heap_cursor ?s" by (simp add: small_vm_simps)
  ultimately show ?thesis using exhausted_cursor_stays_exhausted[of ?s] by blast
qed

text \<open>The request that gets it there: 20 GiB on an arena of 20 GiB, of which the heap has 4 left.\<close>

lemma oversized_request_exhausts:
  "\<exists>s'. map_aligned ops small_vm 0 0x400000000 0 PROT_READ None = Some (s', Err ''map beyond arena span'') \<and>
     vmm_span s' < heap_cursor s'"
proof -
  have "find_free_loop (allocations small_vm) 0x400000000 0x4000 HEAP_BASE = Some (HEAP_BASE, HEAP_BASE + 0x400000000)"
    by (subst find_free_loop.simps)
      (simp add: align_up_def HEAP_BASE_def is_memory_free_def small_vm_simps bt_values_def GADGET_ADDR_def
        DIRECT_MEMORY_POOL_BASE_def)
  then show ?thesis
    by (simp add: map_aligned_def find_free_region_aligned_def small_vm_simps saturating_sub_def GUEST_BASE_def
        checked_add_def HEAP_BASE_def)
qed

text \<open>An unmap hands ranges outside the arena to the host: only the gadget page and the pool are spared.\<close>

lemma unmap_discards_outside_arena:
  "unmap_discards 0x7F0000000000 0x2000 = [(0x7F0000000000, 0x7F0000002000)]"
  by (simp add: unmap_discards_def saturating_add_def checked_next_multiple_of_def PAGE_def
      in_direct_memory_pool_def GADGET_ADDR_def)

end
