(* ===== verification/Sync_Manager.thy ===== *)
theory Sync_Manager
  imports Rust_Prelude
begin

text \<open>
  The guest synchronisation primitives (\<^verbatim>\<open>kernel/src/sync.rs\<close>). An \<^verbatim>\<open>Arc<HostMutex>\<close> is a reference
  into a store of mutex objects, so that an address that is destroyed and reused names a new object
  while threads still hold the old one. Every critical section of the code, under the lock of the
  map or of the object's state, is one function here; a call that blocks is a sequence of them, and
  the interleavings of all threads are the step relation at the end. The counters wrap at 32 bits.
\<close>

section \<open>Objects\<close>

datatype mutex_type = Normal | ErrorCheck | Recursive

record host_mutex =
  owner :: "u32 option"
  locks :: u32
  mtype :: mutex_type

definition host_mutex_new :: "mutex_type \<Rightarrow> host_mutex" where
  "host_mutex_new mt = \<lparr> owner = None, locks = 0, mtype = mt \<rparr>"

record sync_state =
  mutexes :: "u64 \<rightharpoonup> nat"
  mheap :: "nat \<Rightarrow> host_mutex"
  next_mutex :: nat
  condvars :: "u64 \<rightharpoonup> nat"
  next_cond :: nat
  rwlocks :: "u64 set"

definition sync_new :: sync_state where
  "sync_new = \<lparr> mutexes = Map.empty, mheap = (\<lambda>_. host_mutex_new Normal), next_mutex = 0,
     condvars = Map.empty, next_cond = 0, rwlocks = {} \<rparr>"

definition EPERM :: int where "EPERM = 1"
definition EDEADLK :: int where "EDEADLK = 11"
definition EBUSY :: int where "EBUSY = 16"
definition EINVAL :: int where "EINVAL = 22"
definition ETIMEDOUT :: int where "ETIMEDOUT = 60"

lemmas errno_defs = EPERM_def EDEADLK_def EBUSY_def EINVAL_def ETIMEDOUT_def

section \<open>Critical sections of one mutex object\<close>

datatype lock_result = Acquired host_mutex | Fails int | Blocks

text \<open>One pass of the loop of \<^verbatim>\<open>mutex_lock\<close> and \<^verbatim>\<open>mutex_timedlock\<close>.\<close>

definition lock_attempt :: "host_mutex \<Rightarrow> u32 \<Rightarrow> lock_result" where
  "lock_attempt hm tid =
     (case owner hm of
        Some ow \<Rightarrow>
          (if ow = tid then
             (case mtype hm of
                ErrorCheck \<Rightarrow> Fails EDEADLK
              | Recursive \<Rightarrow> Acquired (hm\<lparr>locks := locks hm + 1\<rparr>)
              | Normal \<Rightarrow> Acquired (hm\<lparr>locks := locks hm + 1\<rparr>))
           else Blocks)
      | None \<Rightarrow> Acquired (hm\<lparr>owner := Some tid, locks := 1\<rparr>))"

text \<open>\<open>contended\<close>: the state lock itself was busy, so \<^verbatim>\<open>try_lock\<close> failed.\<close>

definition trylock_attempt :: "host_mutex \<Rightarrow> u32 \<Rightarrow> bool \<Rightarrow> lock_result" where
  "trylock_attempt hm tid contended =
     (if contended then Fails EBUSY
      else case owner hm of
        Some ow \<Rightarrow>
          (if ow = tid then
             (if mtype hm = Recursive then Acquired (hm\<lparr>locks := locks hm + 1\<rparr>) else Fails EBUSY)
           else Fails EBUSY)
      | None \<Rightarrow> Acquired (hm\<lparr>owner := Some tid, locks := 1\<rparr>))"

text \<open>The new object, the return code, and whether the waiters are notified.\<close>

definition unlock_attempt :: "host_mutex \<Rightarrow> u32 \<Rightarrow> host_mutex \<times> int \<times> bool" where
  "unlock_attempt hm tid =
     (case owner hm of
        Some ow \<Rightarrow>
          (if ow \<noteq> tid then (hm, EPERM, False)
           else let n = locks hm - 1 in
             if n = 0 then (hm\<lparr>owner := None, locks := 0\<rparr>, 0, True)
             else (hm\<lparr>locks := n\<rparr>, 0, False))
      | None \<Rightarrow> (hm, EPERM, False))"

text \<open>The release half of \<^verbatim>\<open>cond_wait\<close> and \<^verbatim>\<open>cond_timedwait\<close>: the freed object and the saved depth.\<close>

definition cond_release :: "host_mutex \<Rightarrow> u32 \<Rightarrow> (host_mutex \<times> u32) option" where
  "cond_release hm tid =
     (case owner hm of
        Some ow \<Rightarrow> (if ow \<noteq> tid then None else Some (hm\<lparr>owner := None, locks := 0\<rparr>, locks hm))
      | None \<Rightarrow> None)"

text \<open>One pass of the loop that takes the mutex back; \<open>None\<close> waits again.\<close>

definition relock_attempt :: "host_mutex \<Rightarrow> u32 \<Rightarrow> u32 \<Rightarrow> host_mutex option" where
  "relock_attempt hm tid saved =
     (case owner hm of None \<Rightarrow> Some (hm\<lparr>owner := Some tid, locks := saved\<rparr>) | Some _ \<Rightarrow> None)"

section \<open>Critical sections of the maps\<close>

text \<open>The state, the return code, and the object whose waiters are notified.\<close>

definition mutex_init :: "sync_state \<Rightarrow> u64 \<Rightarrow> mutex_type \<Rightarrow> sync_state \<times> int \<times> nat option" where
  "mutex_init s addr mt =
     (case mutexes s addr of
        Some m \<Rightarrow>
          (if owner (mheap s m) \<noteq> None \<or> locks (mheap s m) > 0 then (s, EBUSY, None)
           else (s\<lparr>mheap := (mheap s)(m := (mheap s m)\<lparr>owner := None, locks := 0, mtype := mt\<rparr>)\<rparr>, 0, Some m))
      | None \<Rightarrow>
          (s\<lparr>mutexes := (mutexes s)(addr \<mapsto> next_mutex s),
             mheap := (mheap s)(next_mutex s := host_mutex_new mt),
             next_mutex := next_mutex s + 1\<rparr>, 0, None))"

definition mutex_destroy :: "sync_state \<Rightarrow> u64 \<Rightarrow> sync_state \<times> int" where
  "mutex_destroy s addr =
     (case mutexes s addr of
        Some _ \<Rightarrow> (s\<lparr>mutexes := (mutexes s)(addr := None)\<rparr>, 0)
      | None \<Rightarrow> (s, EINVAL))"

text \<open>The lookup of \<^verbatim>\<open>mutex_lock\<close>, with its lazy creation.\<close>

definition lookup_or_create :: "sync_state \<Rightarrow> u64 \<Rightarrow> sync_state \<times> nat" where
  "lookup_or_create s addr =
     (case mutexes s addr of
        Some m \<Rightarrow> (s, m)
      | None \<Rightarrow>
          (s\<lparr>mutexes := (mutexes s)(addr \<mapsto> next_mutex s),
             mheap := (mheap s)(next_mutex s := host_mutex_new Normal),
             next_mutex := next_mutex s + 1\<rparr>, next_mutex s))"

definition cond_init :: "sync_state \<Rightarrow> u64 \<Rightarrow> sync_state \<times> int" where
  "cond_init s addr =
     (case condvars s addr of
        Some _ \<Rightarrow> (s, EBUSY)
      | None \<Rightarrow> (s\<lparr>condvars := (condvars s)(addr \<mapsto> next_cond s), next_cond := next_cond s + 1\<rparr>, 0))"

definition cond_destroy :: "sync_state \<Rightarrow> u64 \<Rightarrow> sync_state \<times> int" where
  "cond_destroy s addr =
     (case condvars s addr of
        Some _ \<Rightarrow> (s\<lparr>condvars := (condvars s)(addr := None)\<rparr>, 0)
      | None \<Rightarrow> (s, EINVAL))"

definition rwlock_init :: "sync_state \<Rightarrow> u64 \<Rightarrow> sync_state \<times> int" where
  "rwlock_init s addr = (if addr \<in> rwlocks s then (s, EBUSY) else (s\<lparr>rwlocks := insert addr (rwlocks s)\<rparr>, 0))"

definition rwlock_destroy :: "sync_state \<Rightarrow> u64 \<Rightarrow> sync_state \<times> int" where
  "rwlock_destroy s addr = (if addr \<in> rwlocks s then (s\<lparr>rwlocks := rwlocks s - {addr}\<rparr>, 0) else (s, EINVAL))"

definition set_obj :: "nat \<Rightarrow> host_mutex \<Rightarrow> sync_state \<Rightarrow> sync_state" where
  "set_obj m hm s = s\<lparr>mheap := (mheap s)(m := hm)\<rparr>"

section \<open>Threads\<close>

text \<open>
  Where a thread is: outside a call, in the lock loop (\<open>timed\<close> for \<^verbatim>\<open>mutex_timedlock\<close>), asleep on a
  condition variable, or taking the mutex back after it. A parked thread sleeps on the object's own
  condition variable until it is notified, times out or wakes spuriously.
\<close>

datatype tctl =
    Idle
  | Locking (lk_timed: bool) (lk_ref: nat) (lk_parked: bool)
  | CondAsleep (ca_cond: nat) (ca_ref: nat) (ca_saved: u32) (ca_timed: bool)
  | Relocking (rl_ref: nat) (rl_saved: u32) (rl_ret: int) (rl_parked: bool)

record system =
  sync :: sync_state
  ctl :: "u32 \<Rightarrow> tctl"
  held :: "u32 \<Rightarrow> nat \<Rightarrow> nat"

text \<open>\<open>held\<close> is history only: how often a thread has been told it acquired an object, less its releases.\<close>

definition wake_one :: "nat \<Rightarrow> tctl \<Rightarrow> tctl" where
  "wake_one m c =
     (case c of
        Locking tm m' p \<Rightarrow> if m' = m then Locking tm m' False else c
      | Relocking m' sv r p \<Rightarrow> if m' = m then Relocking m' sv r False else c
      | _ \<Rightarrow> c)"

definition notify_all :: "nat \<Rightarrow> (u32 \<Rightarrow> tctl) \<Rightarrow> u32 \<Rightarrow> tctl" where
  "notify_all m ct = (\<lambda>t. wake_one m (ct t))"

definition wake_cond :: "nat \<Rightarrow> tctl \<Rightarrow> tctl" where
  "wake_cond c k = (case k of CondAsleep c' m sv tm \<Rightarrow> if c' = c then Relocking m sv 0 False else k | _ \<Rightarrow> k)"

definition bump :: "u32 \<Rightarrow> nat \<Rightarrow> nat \<Rightarrow> (u32 \<Rightarrow> nat \<Rightarrow> nat) \<Rightarrow> u32 \<Rightarrow> nat \<Rightarrow> nat" where
  "bump t m n h = h(t := (h t)(m := n))"

text \<open>Room for one more nested acquisition: the 32-bit depth does not wrap.\<close>

definition nest_room :: "host_mutex \<Rightarrow> u32 \<Rightarrow> bool" where
  "nest_room hm t \<longleftrightarrow> owner hm \<noteq> Some t \<or> locks hm \<noteq> - 1"

inductive sync_step :: "system \<Rightarrow> system \<Rightarrow> bool" where
  init_ok: "\<lbrakk>ctl \<sigma> t = Idle; mutex_init (sync \<sigma>) addr mt = (s', code, n)\<rbrakk> \<Longrightarrow>
     sync_step \<sigma> (\<sigma>\<lparr>sync := s', ctl := (case n of Some m \<Rightarrow> notify_all m (ctl \<sigma>) | None \<Rightarrow> ctl \<sigma>)\<rparr>)"
| destroy: "\<lbrakk>ctl \<sigma> t = Idle; mutex_destroy (sync \<sigma>) addr = (s', code)\<rbrakk> \<Longrightarrow> sync_step \<sigma> (\<sigma>\<lparr>sync := s'\<rparr>)"
| lock_enter: "\<lbrakk>ctl \<sigma> t = Idle; lookup_or_create (sync \<sigma>) addr = (s', m)\<rbrakk> \<Longrightarrow>
     sync_step \<sigma> (\<sigma>\<lparr>sync := s', ctl := (ctl \<sigma>)(t := Locking False m False)\<rparr>)"
| timedlock_enter: "\<lbrakk>ctl \<sigma> t = Idle; mutexes (sync \<sigma>) addr = Some m\<rbrakk> \<Longrightarrow>
     sync_step \<sigma> (\<sigma>\<lparr>ctl := (ctl \<sigma>)(t := Locking True m False)\<rparr>)"
| lock_acquire: "\<lbrakk>ctl \<sigma> t = Locking tm m False; nest_room (mheap (sync \<sigma>) m) t;
      lock_attempt (mheap (sync \<sigma>) m) t = Acquired hm\<rbrakk> \<Longrightarrow>
     sync_step \<sigma> (\<sigma>\<lparr>sync := set_obj m hm (sync \<sigma>), ctl := (ctl \<sigma>)(t := Idle),
       held := bump t m (held \<sigma> t m + 1) (held \<sigma>)\<rparr>)"
| lock_fail: "\<lbrakk>ctl \<sigma> t = Locking tm m False; lock_attempt (mheap (sync \<sigma>) m) t = Fails code\<rbrakk> \<Longrightarrow>
     sync_step \<sigma> (\<sigma>\<lparr>ctl := (ctl \<sigma>)(t := Idle)\<rparr>)"
| lock_park: "\<lbrakk>ctl \<sigma> t = Locking tm m False; lock_attempt (mheap (sync \<sigma>) m) t = Blocks\<rbrakk> \<Longrightarrow>
     sync_step \<sigma> (\<sigma>\<lparr>ctl := (ctl \<sigma>)(t := Locking tm m True)\<rparr>)"
| lock_wakeup: "ctl \<sigma> t = Locking tm m True \<Longrightarrow>
     sync_step \<sigma> (\<sigma>\<lparr>ctl := (ctl \<sigma>)(t := Locking tm m False)\<rparr>)"
| lock_timeout: "ctl \<sigma> t = Locking True m True \<Longrightarrow> sync_step \<sigma> (\<sigma>\<lparr>ctl := (ctl \<sigma>)(t := Idle)\<rparr>)"
| lock_timeout_now: "\<lbrakk>ctl \<sigma> t = Locking True m False; lock_attempt (mheap (sync \<sigma>) m) t = Blocks\<rbrakk> \<Longrightarrow>
     sync_step \<sigma> (\<sigma>\<lparr>ctl := (ctl \<sigma>)(t := Idle)\<rparr>)"
| trylock_acquire: "\<lbrakk>ctl \<sigma> t = Idle; mutexes (sync \<sigma>) addr = Some m; nest_room (mheap (sync \<sigma>) m) t;
      trylock_attempt (mheap (sync \<sigma>) m) t contended = Acquired hm\<rbrakk> \<Longrightarrow>
     sync_step \<sigma> (\<sigma>\<lparr>sync := set_obj m hm (sync \<sigma>), held := bump t m (held \<sigma> t m + 1) (held \<sigma>)\<rparr>)"
| unlock: "\<lbrakk>ctl \<sigma> t = Idle; mutexes (sync \<sigma>) addr = Some m;
      unlock_attempt (mheap (sync \<sigma>) m) t = (hm, code, n)\<rbrakk> \<Longrightarrow>
     sync_step \<sigma> (\<sigma>\<lparr>sync := set_obj m hm (sync \<sigma>), ctl := (if n then notify_all m (ctl \<sigma>) else ctl \<sigma>),
       held := (if code = 0 then bump t m (held \<sigma> t m - 1) (held \<sigma>) else held \<sigma>)\<rparr>)"
| cond_map: "\<lbrakk>ctl \<sigma> t = Idle; cond_init (sync \<sigma>) addr = (s', code) \<or> cond_destroy (sync \<sigma>) addr = (s', code)\<rbrakk> \<Longrightarrow>
     sync_step \<sigma> (\<sigma>\<lparr>sync := s'\<rparr>)"
| cond_wait: "\<lbrakk>ctl \<sigma> t = Idle; condvars (sync \<sigma>) ca = Some c; mutexes (sync \<sigma>) ma = Some m;
      cond_release (mheap (sync \<sigma>) m) t = Some (hm, saved)\<rbrakk> \<Longrightarrow>
     sync_step \<sigma> (\<sigma>\<lparr>sync := set_obj m hm (sync \<sigma>),
       ctl := (notify_all m (ctl \<sigma>))(t := CondAsleep c m saved tm), held := bump t m 0 (held \<sigma>)\<rparr>)"
| cond_signal: "\<lbrakk>ctl \<sigma> t = Idle; condvars (sync \<sigma>) ca = Some c; ctl \<sigma> u = CondAsleep c m saved tm\<rbrakk> \<Longrightarrow>
     sync_step \<sigma> (\<sigma>\<lparr>ctl := (ctl \<sigma>)(u := Relocking m saved 0 False)\<rparr>)"
| cond_broadcast: "\<lbrakk>ctl \<sigma> t = Idle; condvars (sync \<sigma>) ca = Some c\<rbrakk> \<Longrightarrow>
     sync_step \<sigma> (\<sigma>\<lparr>ctl := (\<lambda>u. wake_cond c (ctl \<sigma> u))\<rparr>)"
| cond_wakeup: "\<lbrakk>ctl \<sigma> t = CondAsleep c m saved tm; ret = 0 \<or> tm \<and> ret = ETIMEDOUT\<rbrakk> \<Longrightarrow>
     sync_step \<sigma> (\<sigma>\<lparr>ctl := (ctl \<sigma>)(t := Relocking m saved ret False)\<rparr>)"
| relock: "\<lbrakk>ctl \<sigma> t = Relocking m saved ret False; relock_attempt (mheap (sync \<sigma>) m) t saved = Some hm\<rbrakk> \<Longrightarrow>
     sync_step \<sigma> (\<sigma>\<lparr>sync := set_obj m hm (sync \<sigma>), ctl := (ctl \<sigma>)(t := Idle),
       held := bump t m (unat saved) (held \<sigma>)\<rparr>)"
| relock_park: "\<lbrakk>ctl \<sigma> t = Relocking m saved ret False; relock_attempt (mheap (sync \<sigma>) m) t saved = None\<rbrakk> \<Longrightarrow>
     sync_step \<sigma> (\<sigma>\<lparr>ctl := (ctl \<sigma>)(t := Relocking m saved ret True)\<rparr>)"
| relock_wakeup: "ctl \<sigma> t = Relocking m saved ret True \<Longrightarrow>
     sync_step \<sigma> (\<sigma>\<lparr>ctl := (ctl \<sigma>)(t := Relocking m saved ret False)\<rparr>)"

definition system_new :: system where
  "system_new = \<lparr> sync = sync_new, ctl = (\<lambda>_. Idle), held = (\<lambda>_ _. 0) \<rparr>"

inductive reachable :: "system \<Rightarrow> bool" where
  start: "reachable system_new"
| more: "reachable \<sigma> \<Longrightarrow> sync_step \<sigma> \<sigma>' \<Longrightarrow> reachable \<sigma>'"

section \<open>The invariant\<close>

text \<open>
  One object and the history of who holds it: a free object is held by nobody at depth 0; an owned
  one is held by its owner alone, as deep as the counter says.
\<close>

definition obj_ok :: "host_mutex \<Rightarrow> (u32 \<Rightarrow> nat) \<Rightarrow> bool" where
  "obj_ok hm h \<longleftrightarrow> (case owner hm of
       None \<Rightarrow> locks hm = 0 \<and> (\<forall>t. h t = 0)
     | Some ow \<Rightarrow> 0 < h ow \<and> h ow < 2 ^ 32 \<and> locks hm = of_nat (h ow) \<and> (\<forall>t. t \<noteq> ow \<longrightarrow> h t = 0))"

text \<open>A parked thread waits for an object that somebody owns: no wakeup was lost.\<close>

definition ctl_ok :: "sync_state \<Rightarrow> tctl \<Rightarrow> bool" where
  "ctl_ok s c \<longleftrightarrow> (case c of
       Idle \<Rightarrow> True
     | Locking tm m p \<Rightarrow> m < next_mutex s \<and> (p \<longrightarrow> owner (mheap s m) \<noteq> None)
     | CondAsleep cv m sv tm \<Rightarrow> m < next_mutex s \<and> sv \<noteq> 0
     | Relocking m sv r p \<Rightarrow> m < next_mutex s \<and> sv \<noteq> 0 \<and> (p \<longrightarrow> owner (mheap s m) \<noteq> None))"

definition sys_inv :: "system \<Rightarrow> bool" where
  "sys_inv \<sigma> \<longleftrightarrow>
     (\<forall>m. obj_ok (mheap (sync \<sigma>) m) (\<lambda>t. held \<sigma> t m)) \<and>
     (\<forall>m. next_mutex (sync \<sigma>) \<le> m \<longrightarrow> owner (mheap (sync \<sigma>) m) = None) \<and>
     (\<forall>a m. mutexes (sync \<sigma>) a = Some m \<longrightarrow> m < next_mutex (sync \<sigma>)) \<and>
     (\<forall>t. ctl_ok (sync \<sigma>) (ctl \<sigma> t))"

lemma sys_invD:
  assumes "sys_inv \<sigma>"
  shows "obj_ok (mheap (sync \<sigma>) m) (\<lambda>t. held \<sigma> t m)"
    and "next_mutex (sync \<sigma>) \<le> m \<Longrightarrow> owner (mheap (sync \<sigma>) m) = None"
    and "mutexes (sync \<sigma>) a = Some m \<Longrightarrow> m < next_mutex (sync \<sigma>)"
    and "ctl_ok (sync \<sigma>) (ctl \<sigma> t)"
  using assms by (auto simp: sys_inv_def)

lemma set_obj_simps [simp]:
  "mutexes (set_obj m hm s) = mutexes s" "mheap (set_obj m hm s) = (mheap s)(m := hm)"
  "next_mutex (set_obj m hm s) = next_mutex s" "next_cond (set_obj m hm s) = next_cond s" "condvars (set_obj m hm s) = condvars s"
  by (simp_all add: set_obj_def)

lemma ctl_ok_owned: "ctl_ok s c \<Longrightarrow> owner hm \<noteq> None \<Longrightarrow> ctl_ok (set_obj m hm s) c"
  by (auto simp: ctl_ok_def split: tctl.splits)

lemma ctl_ok_woken: "ctl_ok s c \<Longrightarrow> ctl_ok (set_obj m hm s) (wake_one m c)"
  by (auto simp: ctl_ok_def wake_one_def split: tctl.splits)

lemma inv_maps:
  assumes "sys_inv \<sigma>" and "mheap s' = mheap (sync \<sigma>)" and "next_mutex s' = next_mutex (sync \<sigma>)"
    and "\<And>a m. mutexes s' a = Some m \<Longrightarrow> mutexes (sync \<sigma>) a = Some m"
  shows "sys_inv (\<sigma>\<lparr>sync := s'\<rparr>)"
proof -
  have "ctl_ok s' = ctl_ok (sync \<sigma>)" using assms(2,3) by (intro ext) (simp add: ctl_ok_def split: tctl.split)
  moreover have "m < next_mutex (sync \<sigma>)" if "mutexes s' a = Some m" for a m
    using assms(4)[OF that] sys_invD(3)[OF assms(1)] by blast
  ultimately show ?thesis using assms by (simp add: sys_inv_def)
qed

lemma inv_ctl:
  "sys_inv \<sigma> \<Longrightarrow> (\<And>t. ctl_ok (sync \<sigma>) (ct t)) \<Longrightarrow> sys_inv (\<sigma>\<lparr>ctl := ct\<rparr>)"
  by (simp add: sys_inv_def)

lemma inv_ctl_upd: "sys_inv \<sigma> \<Longrightarrow> ctl_ok (sync \<sigma>) k \<Longrightarrow> sys_inv (\<sigma>\<lparr>ctl := (ctl \<sigma>)(t := k)\<rparr>)"
  by (rule inv_ctl) (auto dest: sys_invD(4))

lemma inv_obj:
  assumes inv: "sys_inv \<sigma>" and m: "m < next_mutex (sync \<sigma>)"
    and ok: "obj_ok hm ((\<lambda>u. held \<sigma> u m)(t := n))"
    and ct: "\<And>u. ctl_ok (set_obj m hm (sync \<sigma>)) (ct u)"
  shows "sys_inv (\<sigma>\<lparr>sync := set_obj m hm (sync \<sigma>), ctl := ct, held := bump t m n (held \<sigma>)\<rparr>)"
proof -
  have "obj_ok (((mheap (sync \<sigma>))(m := hm)) k) (\<lambda>u. bump t m n (held \<sigma>) u k)" for k
  proof (cases "k = m")
    case True
    have "(\<lambda>u. bump t m n (held \<sigma>) u m) = (\<lambda>u. held \<sigma> u m)(t := n)" by (auto simp: bump_def)
    with True ok show ?thesis by simp
  next
    case False
    then have "(\<lambda>u. bump t m n (held \<sigma>) u k) = (\<lambda>u. held \<sigma> u k)" by (auto simp: bump_def)
    with False show ?thesis using sys_invD(1)[OF inv] by simp
  qed
  then show ?thesis
    using inv m ct by (auto simp: sys_inv_def)
qed

section \<open>What each critical section keeps\<close>

lemma of_nat_u32_minus_1: "n < 2 ^ 32 \<Longrightarrow> (of_nat n :: u32) = - 1 \<longleftrightarrow> n = 2 ^ 32 - 1"
proof
  assume n: "n < 2 ^ 32" and "(of_nat n :: u32) = - 1"
  then have "unat (of_nat n :: u32) = unat (- 1 :: u32)" by simp
  then show "n = 2 ^ 32 - 1"
    using n by (simp add: unat_of_nat_small unsigned_minus_1_eq_mask mask_eq_exp_minus_1)
qed simp

lemma acquired_ok:
  assumes ok: "obj_ok hm0 h" and room: "nest_room hm0 t"
    and acq: "lock_attempt hm0 t = Acquired hm \<or> trylock_attempt hm0 t b = Acquired hm"
  shows "obj_ok hm (h(t := h t + 1))" and "owner hm = Some t"
proof -
  have eq: "hm = (if owner hm0 = None then hm0\<lparr>owner := Some t, locks := 1\<rparr> else hm0\<lparr>locks := locks hm0 + 1\<rparr>)"
    and ow: "owner hm0 = None \<or> owner hm0 = Some t"
    using acq by (auto simp: lock_attempt_def trylock_attempt_def split: option.splits if_splits mutex_type.splits)
  show "owner hm = Some t" using eq ow by auto
  show "obj_ok hm (h(t := h t + 1))"
  proof (cases "owner hm0")
    case None
    then show ?thesis using ok eq by (simp add: obj_ok_def)
  next
    case (Some u)
    then have "u = t" using ow by simp
    then have "h t < 2 ^ 32" "locks hm0 = of_nat (h t)" "locks hm0 \<noteq> - 1"
      using ok room Some by (auto simp: obj_ok_def nest_room_def)
    then have "h t + 1 < 2 ^ 32" using of_nat_u32_minus_1[of "h t"] by auto
    then show ?thesis using ok eq Some \<open>u = t\<close> by (auto simp: obj_ok_def add.commute)
  qed
qed

lemma unlock_ok:
  assumes ok: "obj_ok hm0 h" and un: "unlock_attempt hm0 t = (hm, code, n)"
  shows "obj_ok hm (if code = 0 then h(t := h t - 1) else h)"
    and "n \<longleftrightarrow> owner hm0 = Some t \<and> h t = 1"
    and "\<not> n \<Longrightarrow> owner hm = owner hm0"
proof -
  have one: "locks hm0 - 1 = 0 \<longleftrightarrow> h t = 1" and pred: "locks hm0 - 1 = of_nat (h t - 1)"
    if "owner hm0 = Some t"
  proof -
    have h: "0 < h t" "h t < 2 ^ 32" "locks hm0 = of_nat (h t)" using ok that by (auto simp: obj_ok_def)
    then show p: "locks hm0 - 1 = of_nat (h t - 1)" by (simp add: of_nat_diff)
    have "unat (of_nat (h t - 1) :: u32) = h t - 1" using h by (intro unat_of_nat_small) simp
    then show "locks hm0 - 1 = 0 \<longleftrightarrow> h t = 1" unfolding p using h(1) by (metis unat_eq_zero
          Suc_pred diff_Suc_1 One_nat_def unat_0)
  qed
  show "n \<longleftrightarrow> owner hm0 = Some t \<and> h t = 1"
    using un one by (auto simp: unlock_attempt_def Let_def errno_defs split: option.splits if_splits)
  show "\<not> n \<Longrightarrow> owner hm = owner hm0"
    using un by (auto simp: unlock_attempt_def Let_def split: option.splits if_splits)
  show "obj_ok hm (if code = 0 then h(t := h t - 1) else h)"
  proof (cases "owner hm0 = Some t")
    case False
    then have "hm = hm0" "code \<noteq> 0"
      using un by (auto simp: unlock_attempt_def errno_defs split: option.splits if_splits)
    then show ?thesis using ok by simp
  next
    case True
    have h: "0 < h t" "h t < 2 ^ 32" "\<forall>u. u \<noteq> t \<longrightarrow> h u = 0" using ok True by (auto simp: obj_ok_def)
    have un': "hm = (if h t = 1 then hm0\<lparr>owner := None, locks := 0\<rparr> else hm0\<lparr>locks := of_nat (h t - 1)\<rparr>)"
      "code = 0"
      using un True one[OF True] pred[OF True]
      by (auto simp: unlock_attempt_def Let_def errno_defs split: if_splits)
    show ?thesis using h True unfolding un' by (auto simp: obj_ok_def)
  qed
qed

lemma held_same: "bump t m (h t m) h = h"
  by (auto simp: bump_def)

lemma inv_alloc:
  assumes inv: "sys_inv \<sigma>" and k: "ctl_ok (sync \<sigma>) k \<or> k = Locking False (next_mutex (sync \<sigma>)) False"
  defines "s \<equiv> sync \<sigma>"
  shows "sys_inv (\<sigma>\<lparr>sync := s\<lparr>mutexes := (mutexes s)(addr \<mapsto> next_mutex s),
      mheap := (mheap s)(next_mutex s := host_mutex_new mt), next_mutex := next_mutex s + 1\<rparr>,
      ctl := (ctl \<sigma>)(t := k)\<rparr>)"
proof -
  let ?n = "next_mutex s"
  have "owner (mheap s ?n) = None" using sys_invD(2)[OF inv] by (simp add: s_def)
  then have free: "\<forall>u. held \<sigma> u ?n = 0" using sys_invD(1)[OF inv, of ?n] by (simp add: obj_ok_def s_def)
  have "obj_ok (((mheap s)(?n := host_mutex_new mt)) m) (\<lambda>u. held \<sigma> u m)" for m
    using sys_invD(1)[OF inv, of m] free by (simp add: s_def obj_ok_def host_mutex_new_def)
  moreover have "ctl_ok (s\<lparr>mutexes := (mutexes s)(addr \<mapsto> ?n), mheap := (mheap s)(?n := host_mutex_new mt),
      next_mutex := ?n + 1\<rparr>) c" if "ctl_ok s c \<or> c = Locking False ?n False" for c
    using that by (auto simp: ctl_ok_def split: tctl.splits)
  moreover have "m < ?n + 1" if "((mutexes s)(addr \<mapsto> ?n)) a = Some m" for a m
    using that sys_invD(3)[OF inv, of a m] by (auto simp: s_def split: if_splits)
  ultimately show ?thesis
    using sys_invD(2,4)[OF inv] k by (auto simp: sys_inv_def s_def host_mutex_new_def)
qed

lemma inv_init:
  assumes inv: "sys_inv \<sigma>" and i: "mutex_init (sync \<sigma>) addr mt = (s', code, n)"
  shows "sys_inv (\<sigma>\<lparr>sync := s', ctl := (case n of Some m \<Rightarrow> notify_all m (ctl \<sigma>) | None \<Rightarrow> ctl \<sigma>)\<rparr>)"
proof (cases "mutexes (sync \<sigma>) addr")
  case None
  then show ?thesis
    using i inv_alloc[OF inv, where k = "ctl \<sigma> undefined" and t = undefined and addr = addr and mt = mt] sys_invD(4)[OF inv]
    by (auto simp: mutex_init_def)
next
  case (Some m)
  let ?hm = "mheap (sync \<sigma>) m"
  show ?thesis
  proof (cases "owner ?hm \<noteq> None \<or> locks ?hm > 0")
    case True
    then show ?thesis using i Some inv by (auto simp: mutex_init_def)
  next
    case False
    let ?new = "?hm\<lparr>owner := None, locks := 0, mtype := mt\<rparr>"
    have res: "s' = set_obj m ?new (sync \<sigma>)" "n = Some m"
      using i Some False by (auto simp: mutex_init_def set_obj_def)
    have "obj_ok ?new ((\<lambda>u. held \<sigma> u m)(undefined := held \<sigma> undefined m))"
      using sys_invD(1)[OF inv, of m] False by (simp add: obj_ok_def)
    from inv_obj[OF inv sys_invD(3)[OF inv Some] this, where ct = "notify_all m (ctl \<sigma>)"]
    show ?thesis
      unfolding res by (simp add: held_same notify_all_def ctl_ok_woken sys_invD(4)[OF inv])
  qed
qed

lemma ctl_ref:
  assumes "sys_inv \<sigma>"
  shows "ctl \<sigma> t = Locking tm m p \<Longrightarrow> m < next_mutex (sync \<sigma>)"
    and "ctl \<sigma> t = CondAsleep c m sv tm' \<Longrightarrow> m < next_mutex (sync \<sigma>) \<and> sv \<noteq> 0"
    and "ctl \<sigma> t = Relocking m sv r p \<Longrightarrow> m < next_mutex (sync \<sigma>) \<and> sv \<noteq> 0"
  using sys_invD(4)[OF assms, of t] by (auto simp: ctl_ok_def)

lemma inv_acquire:
  assumes inv: "sys_inv \<sigma>" and m: "m < next_mutex (sync \<sigma>)" and room: "nest_room (mheap (sync \<sigma>) m) t"
    and acq: "lock_attempt (mheap (sync \<sigma>) m) t = Acquired hm \<or>
       trylock_attempt (mheap (sync \<sigma>) m) t b = Acquired hm"
    and ct: "\<And>u. ctl_ok (sync \<sigma>) (ct u)"
  shows "sys_inv (\<sigma>\<lparr>sync := set_obj m hm (sync \<sigma>), ctl := ct, held := bump t m (held \<sigma> t m + 1) (held \<sigma>)\<rparr>)"
  using inv m acquired_ok[OF sys_invD(1)[OF inv, of m] room acq] ct
  by (intro inv_obj) (auto intro: ctl_ok_owned)

lemma inv_unlock:
  assumes inv: "sys_inv \<sigma>" and m: "m < next_mutex (sync \<sigma>)"
    and un: "unlock_attempt (mheap (sync \<sigma>) m) t = (hm, code, n)"
  shows "sys_inv (\<sigma>\<lparr>sync := set_obj m hm (sync \<sigma>), ctl := (if n then notify_all m (ctl \<sigma>) else ctl \<sigma>),
       held := (if code = 0 then bump t m (held \<sigma> t m - 1) (held \<sigma>) else held \<sigma>)\<rparr>)"
proof -
  note u = unlock_ok[OF sys_invD(1)[OF inv, of m] un]
  have ct: "ctl_ok (set_obj m hm (sync \<sigma>)) ((if n then notify_all m (ctl \<sigma>) else ctl \<sigma>) u)" for u
  proof (cases n)
    case True
    then show ?thesis using sys_invD(4)[OF inv, of u] by (simp add: notify_all_def ctl_ok_woken)
  next
    case False
    then show ?thesis using u(3) sys_invD(4)[OF inv, of u] by (auto simp: ctl_ok_def split: tctl.splits)
  qed
  have "obj_ok hm ((\<lambda>u. held \<sigma> u m)(t := (if code = 0 then held \<sigma> t m - 1 else held \<sigma> t m)))"
    using u(1) by (auto split: if_splits simp: fun_upd_idem)
  from inv_obj[OF inv m this, where ct = "if n then notify_all m (ctl \<sigma>) else ctl \<sigma>", OF ct]
  show ?thesis by (auto simp: held_same)
qed

lemma inv_cond_wait:
  assumes inv: "sys_inv \<sigma>" and m: "m < next_mutex (sync \<sigma>)"
    and rel: "cond_release (mheap (sync \<sigma>) m) t = Some (hm, saved)"
  shows "sys_inv (\<sigma>\<lparr>sync := set_obj m hm (sync \<sigma>),
       ctl := (notify_all m (ctl \<sigma>))(t := CondAsleep c m saved tm), held := bump t m 0 (held \<sigma>)\<rparr>)"
    and "unat saved = held \<sigma> t m"
proof -
  let ?hm = "mheap (sync \<sigma>) m"
  have ow: "owner ?hm = Some t" and hm: "hm = ?hm\<lparr>owner := None, locks := 0\<rparr>" and sv: "saved = locks ?hm"
    using rel by (auto simp: cond_release_def split: option.splits if_splits)
  have ok: "0 < held \<sigma> t m" "held \<sigma> t m < 2 ^ 32" "saved = of_nat (held \<sigma> t m)"
    "\<And>u. u \<noteq> t \<Longrightarrow> held \<sigma> u m = 0"
    using sys_invD(1)[OF inv, of m] ow sv by (auto simp: obj_ok_def)
  show un: "unat saved = held \<sigma> t m" using ok by (simp add: unat_of_nat_small)
  have "saved \<noteq> 0" using un ok(1) by auto
  then have ct: "ctl_ok (set_obj m hm (sync \<sigma>)) (((notify_all m (ctl \<sigma>))(t := CondAsleep c m saved tm)) u)" for u
    using m sys_invD(4)[OF inv, of u] by (simp add: notify_all_def ctl_ok_woken) (simp add: ctl_ok_def)
  have "obj_ok hm ((\<lambda>u. held \<sigma> u m)(t := 0))" using ok(4) by (auto simp: hm obj_ok_def)
  from inv_obj[OF inv m this ct]
  show "sys_inv (\<sigma>\<lparr>sync := set_obj m hm (sync \<sigma>),
       ctl := (notify_all m (ctl \<sigma>))(t := CondAsleep c m saved tm), held := bump t m 0 (held \<sigma>)\<rparr>)" .
qed

lemma inv_relock:
  assumes inv: "sys_inv \<sigma>" and m: "m < next_mutex (sync \<sigma>)" and sv: "saved \<noteq> 0"
    and rel: "relock_attempt (mheap (sync \<sigma>) m) t saved = Some hm"
  shows "sys_inv (\<sigma>\<lparr>sync := set_obj m hm (sync \<sigma>), ctl := (ctl \<sigma>)(t := Idle),
       held := bump t m (unat saved) (held \<sigma>)\<rparr>)"
proof -
  have hm: "owner (mheap (sync \<sigma>) m) = None" "hm = (mheap (sync \<sigma>) m)\<lparr>owner := Some t, locks := saved\<rparr>"
    using rel by (auto simp: relock_attempt_def split: option.splits)
  have "obj_ok hm ((\<lambda>u. held \<sigma> u m)(t := unat saved))"
    using sys_invD(1)[OF inv, of m] hm sv u32_bound[of saved] by (simp add: obj_ok_def unat_gt_0)
  moreover have "ctl_ok (set_obj m hm (sync \<sigma>)) (((ctl \<sigma>)(t := Idle)) u)" for u
    using sys_invD(4)[OF inv, of u] hm by (auto intro: ctl_ok_owned) (simp add: ctl_ok_def)
  ultimately show ?thesis by (rule inv_obj[OF inv m])
qed

lemma sync_step_inv: "sync_step \<sigma> \<sigma>' \<Longrightarrow> sys_inv \<sigma> \<Longrightarrow> sys_inv \<sigma>'"
proof (induction rule: sync_step.induct)
  case (init_ok \<sigma> t addr mt s' code n)
  then show ?case using inv_init by blast
next
  case (destroy \<sigma> t addr s' code)
  then show ?case by (intro inv_maps) (auto simp: mutex_destroy_def split: option.splits if_splits)
next
  case (lock_enter \<sigma> t addr s' m)
  then show ?case
    using inv_alloc[OF lock_enter.prems, where t = t and addr = addr and mt = Normal and
        k = "Locking False (next_mutex (sync \<sigma>)) False"]
      inv_ctl_upd[OF lock_enter.prems, of "Locking False m False" t] sys_invD(3)[OF lock_enter.prems, of addr m]
    by (auto simp: lookup_or_create_def ctl_ok_def split: option.splits)
next
  case (timedlock_enter \<sigma> t addr m)
  then show ?case by (intro inv_ctl_upd) (auto simp: ctl_ok_def dest: sys_invD(3))
next
  case (lock_acquire \<sigma> t tm m hm)
  then show ?case
    by (intro inv_acquire) (auto intro: ctl_ref sys_invD(4) simp: ctl_ok_def[of _ Idle])
next
  case (lock_fail \<sigma> t tm m code)
  then show ?case by (intro inv_ctl_upd) (auto simp: ctl_ok_def)
next
  case (lock_park \<sigma> t tm m)
  then show ?case
    by (intro inv_ctl_upd) (auto simp: ctl_ok_def lock_attempt_def dest: ctl_ref split: option.splits)
next
  case (lock_wakeup \<sigma> t tm m)
  then show ?case by (intro inv_ctl_upd) (auto simp: ctl_ok_def dest: ctl_ref)
next
  case (trylock_acquire \<sigma> t addr m contended hm)
  note inv = trylock_acquire.prems and h = trylock_acquire.hyps
  show ?case
    using inv_acquire[OF inv sys_invD(3)[OF inv h(2)] h(3) disjI2[OF h(4)], where ct = "ctl \<sigma>", OF sys_invD(4)[OF inv]]
    by simp
next
  case (unlock \<sigma> t addr m hm code n)
  then show ?case using inv_unlock sys_invD(3) by blast
next
  case (cond_map \<sigma> t addr s' code)
  then show ?case by (intro inv_maps) (auto simp: cond_init_def cond_destroy_def split: option.splits)
next
  case (cond_wait \<sigma> t ca c ma m hm saved tm)
  then show ?case using inv_cond_wait(1) sys_invD(3) by blast
next
  case (cond_signal \<sigma> t ca c u m saved tm)
  then show ?case by (intro inv_ctl_upd) (auto simp: ctl_ok_def dest: ctl_ref)
next
  case (cond_broadcast \<sigma> t ca c)
  have "ctl_ok (sync \<sigma>) (wake_cond c (ctl \<sigma> u))" for u
    using sys_invD(4)[OF cond_broadcast.prems, of u] by (auto simp: wake_cond_def ctl_ok_def split: tctl.splits)
  then show ?case by (intro inv_ctl[OF cond_broadcast.prems])
next
  case (cond_wakeup \<sigma> t c m saved tm ret)
  then show ?case by (intro inv_ctl_upd) (auto simp: ctl_ok_def dest: ctl_ref)
next
  case (relock \<sigma> t m saved ret hm)
  then show ?case using inv_relock ctl_ref(3) by blast
next
  case (relock_park \<sigma> t m saved ret)
  then show ?case
    by (intro inv_ctl_upd) (auto simp: ctl_ok_def relock_attempt_def dest: ctl_ref split: option.splits)
next
  case (relock_wakeup \<sigma> t m saved ret)
  then show ?case by (intro inv_ctl_upd) (auto simp: ctl_ok_def dest: ctl_ref)
qed (auto intro!: inv_ctl_upd simp: ctl_ok_def)

lemma reachable_inv: "reachable \<sigma> \<Longrightarrow> sys_inv \<sigma>"
proof (induction rule: reachable.induct)
  case start
  then show ?case
    by (simp add: sys_inv_def system_new_def sync_new_def obj_ok_def host_mutex_new_def ctl_ok_def)
qed (rule sync_step_inv)

text \<open>A thread that waits on a condition variable has given the mutex up.\<close>

fun cond_ref :: "tctl \<Rightarrow> nat option" where
  "cond_ref (CondAsleep c m sv tm) = Some m"
| "cond_ref (Relocking m sv r p) = Some m"
| "cond_ref _ = None"

definition asleep_free :: "system \<Rightarrow> bool" where
  "asleep_free \<sigma> \<longleftrightarrow> (\<forall>t m. cond_ref (ctl \<sigma> t) = Some m \<longrightarrow> held \<sigma> t m = 0)"

lemma cond_ref_wake [simp]:
  "cond_ref (wake_one m c) = cond_ref c" "cond_ref (wake_cond v c) = cond_ref c"
  "cond_ref (notify_all m ct t) = cond_ref (ct t)"
  by (auto simp: wake_one_def wake_cond_def notify_all_def split: tctl.splits)

lemma sync_step_asleep: "sync_step \<sigma> \<sigma>' \<Longrightarrow> asleep_free \<sigma> \<Longrightarrow> asleep_free \<sigma>'"
  by (induction rule: sync_step.induct)
    (auto simp: asleep_free_def bump_def split: if_splits option.splits)

lemma reachable_asleep: "reachable \<sigma> \<Longrightarrow> asleep_free \<sigma>"
proof (induction rule: reachable.induct)
  case start
  then show ?case by (simp add: asleep_free_def system_new_def)
qed (rule sync_step_asleep)

section \<open>Orphaned objects\<close>

definition orphan_of :: "system \<Rightarrow> nat \<Rightarrow> u32 \<Rightarrow> bool" where
  "orphan_of \<sigma> m t \<longleftrightarrow> m < next_mutex (sync \<sigma>) \<and> (\<forall>a. mutexes (sync \<sigma>) a \<noteq> Some m) \<and>
     owner (mheap (sync \<sigma>) m) = Some t"

lemma orphan_step: "sync_step \<sigma> \<sigma>' \<Longrightarrow> orphan_of \<sigma> m t \<Longrightarrow> orphan_of \<sigma>' m t"
proof (induction rule: sync_step.induct)
  case (init_ok \<sigma> u addr mt s' code n)
  then show ?case by (auto simp: mutex_init_def orphan_of_def split: option.splits if_splits)
next
  case (destroy \<sigma> u addr s' code)
  then show ?case by (auto simp: mutex_destroy_def orphan_of_def split: option.splits if_splits)
next
  case (lock_enter \<sigma> u addr s' k)
  then show ?case by (auto simp: lookup_or_create_def orphan_of_def split: option.splits if_splits)
next
  case (lock_acquire \<sigma> u tm k hm)
  then show ?case
    by (auto simp: orphan_of_def lock_attempt_def split: option.splits if_splits mutex_type.splits)
next
  case (cond_map \<sigma> u addr s' code)
  then show ?case by (auto simp: cond_init_def cond_destroy_def orphan_of_def split: option.splits)
next
  case (relock \<sigma> u k saved ret hm)
  then show ?case by (auto simp: orphan_of_def relock_attempt_def split: option.splits)
qed (auto simp: orphan_of_def)

lemma orphan_run: "sync_step\<^sup>*\<^sup>* \<sigma> \<sigma>' \<Longrightarrow> orphan_of \<sigma> m t \<Longrightarrow> orphan_of \<sigma>' m t"
  by (induction rule: rtranclp_induct) (auto intro: orphan_step)

section \<open>Properties\<close>

text \<open>A run: thread 1 locks the mutex at 0x100.\<close>

definition sys_locking :: system where
  "sys_locking = system_new\<lparr>sync := fst (lookup_or_create sync_new 0x100),
     ctl := (\<lambda>_. Idle)(1 := Locking False 0 False)\<rparr>"

definition hm_by :: "u32 \<Rightarrow> host_mutex" where
  "hm_by t = \<lparr> owner = Some t, locks = 1, mtype = Normal \<rparr>"

definition sys_locked :: system where
  "sys_locked = sys_locking\<lparr>sync := set_obj 0 (hm_by 1) (sync sys_locking), ctl := (\<lambda>_. Idle),
     held := bump 1 0 1 (\<lambda>_ _. 0)\<rparr>"

lemmas run_defs = sys_locking_def system_new_def sync_new_def lookup_or_create_def host_mutex_new_def

lemma sys_locking_reachable: "reachable sys_locking"
proof (rule more[OF start])
  have "sync_step system_new (system_new\<lparr>sync := fst (lookup_or_create sync_new 0x100),
      ctl := (ctl system_new)(1 := Locking False 0 False)\<rparr>)"
    by (rule lock_enter[where addr = "0x100"]) (simp_all add: run_defs)
  then show "sync_step system_new sys_locking" by (simp add: sys_locking_def system_new_def)
qed

lemma sys_locked_reachable: "reachable sys_locked"
proof (rule more[OF sys_locking_reachable])
  have "sync_step sys_locking (sys_locking\<lparr>sync := set_obj 0 (hm_by 1) (sync sys_locking),
      ctl := (ctl sys_locking)(1 := Idle), held := bump 1 0 (held sys_locking 1 0 + 1) (held sys_locking)\<rparr>)"
    by (rule lock_acquire[where tm = False]) (simp_all add: run_defs nest_room_def lock_attempt_def hm_by_def)
  moreover have "(ctl sys_locking)(1 := Idle) = (\<lambda>_. Idle)" by (auto simp: run_defs)
  ultimately show "sync_step sys_locking sys_locked"
    by (simp add: sys_locked_def) (simp add: run_defs)
qed

text \<open>
  C6. Mutual exclusion under every interleaving of any number of threads, recursive locking,
  trylock, timed locking, condition waits, re-initialisation and destruction included: at most one
  thread at a time has acquired a mutex object, the object names it as its owner, and its counter is
  the depth of its nested acquisitions.
\<close>

theorem mutual_exclusion:
  assumes "reachable \<sigma>" and "0 < held \<sigma> t m"
  shows "owner (mheap (sync \<sigma>) m) = Some t \<and> unat (locks (mheap (sync \<sigma>) m)) = held \<sigma> t m \<and>
     (\<forall>u. 0 < held \<sigma> u m \<longrightarrow> u = t)"
proof -
  have ok: "obj_ok (mheap (sync \<sigma>) m) (\<lambda>t. held \<sigma> t m)"
    using sys_invD(1)[OF reachable_inv[OF assms(1)]] .
  then obtain ow where ow: "owner (mheap (sync \<sigma>) m) = Some ow"
    using assms(2) by (cases "owner (mheap (sync \<sigma>) m)") (auto simp: obj_ok_def)
  then have "ow = t" using ok assms(2) by (force simp: obj_ok_def)
  then show ?thesis using ok ow by (auto simp: obj_ok_def unat_of_nat_small)
qed

theorem mutual_exclusion_witness:
  "reachable sys_locked \<and> 0 < held sys_locked 1 0 \<and> owner (mheap (sync sys_locked) 0) = Some 1"
  using mutual_exclusion[OF sys_locked_reachable, of 1 0] sys_locked_reachable
  by (simp add: sys_locked_def bump_def)

text \<open>
  C7. No wakeup is lost: whenever a mutex object is free, no thread is asleep waiting for it, neither
  in the lock call nor on its way back from a condition variable, and the next attempt of every such
  thread succeeds.
\<close>

theorem free_mutex_strands_no_waiter:
  assumes "reachable \<sigma>" and "owner (mheap (sync \<sigma>) m) = None"
  shows "(case ctl \<sigma> t of
       Locking tm m' parked \<Rightarrow> m' = m \<longrightarrow> \<not> parked \<and> (\<exists>hm. lock_attempt (mheap (sync \<sigma>) m) t = Acquired hm)
     | Relocking m' saved ret parked \<Rightarrow> m' = m \<longrightarrow>
         \<not> parked \<and> (\<exists>hm. relock_attempt (mheap (sync \<sigma>) m) t saved = Some hm)
     | _ \<Rightarrow> True)"
  using sys_invD(4)[OF reachable_inv[OF assms(1)], of t] assms(2)
  by (auto simp: ctl_ok_def lock_attempt_def relock_attempt_def split: tctl.splits)

theorem free_mutex_strands_no_waiter_witness:
  "reachable sys_locking \<and> ctl sys_locking 1 = Locking False 0 False \<and>
   (\<exists>hm. lock_attempt (mheap (sync sys_locking) 0) 1 = Acquired hm)"
  using free_mutex_strands_no_waiter[OF sys_locking_reachable, of 0 1] sys_locking_reachable
  by (simp add: run_defs)

text \<open>
  A condition wait gives the mutex up completely, whatever its recursion depth, while it waits,
  and comes back owning it at the depth it had: between the two, the thread holds nothing.
\<close>

theorem cond_wait_restores_depth:
  assumes r: "reachable \<sigma>"
    and rel: "cond_release (mheap (sync \<sigma>) m) t = Some (hm, saved)"
    and r': "reachable \<sigma>'" and at: "ctl \<sigma>' t = Relocking m saved ret False"
    and again: "relock_attempt (mheap (sync \<sigma>') m) t saved = Some hm'"
  shows "owner hm = None \<and> unat saved = held \<sigma> t m \<and> 0 < held \<sigma> t m \<and> held \<sigma>' t m = 0 \<and>
     owner hm' = Some t \<and> unat (locks hm') = held \<sigma> t m"
proof -
  have "owner (mheap (sync \<sigma>) m) = Some t" "owner hm = None"
    using rel by (auto simp: cond_release_def split: option.splits if_splits)
  moreover have m: "m < next_mutex (sync \<sigma>)"
    using sys_invD(2)[OF reachable_inv[OF r], of m] calculation(1) by (force simp: not_le[symmetric])
  moreover have "unat saved = held \<sigma> t m" using inv_cond_wait(2)[OF reachable_inv[OF r] m rel] .
  moreover have "0 < held \<sigma> t m"
    using sys_invD(1)[OF reachable_inv[OF r], of m] calculation(1) by (simp add: obj_ok_def)
  moreover have "held \<sigma>' t m = 0" using reachable_asleep[OF r'] at by (simp add: asleep_free_def)
  moreover have "owner hm' = Some t" "locks hm' = saved"
    using again by (auto simp: relock_attempt_def split: option.splits)
  ultimately show ?thesis by simp
qed

definition sys_cond :: system where
  "sys_cond = sys_locked\<lparr>sync := fst (cond_init (sync sys_locked) 0x200)\<rparr>"

definition sys_waiting :: system where
  "sys_waiting = sys_cond\<lparr>sync := set_obj 0 (host_mutex_new Normal) (sync sys_cond),
     ctl := (\<lambda>_. Idle)(1 := CondAsleep 0 0 1 False), held := bump 1 0 0 (held sys_cond)\<rparr>"

definition sys_woken :: system where
  "sys_woken = sys_waiting\<lparr>ctl := (ctl sys_waiting)(1 := Relocking 0 1 0 False)\<rparr>"

lemma sys_cond_reachable: "reachable sys_cond"
proof (rule more[OF sys_locked_reachable])
  show "sync_step sys_locked sys_cond"
    unfolding sys_cond_def
    by (rule cond_map[of _ 2 "0x200" _ "snd (cond_init (sync sys_locked) 0x200)"]) (simp_all add: sys_locked_def)
qed

lemma sys_cond_release: "cond_release (mheap (sync sys_cond) 0) 1 = Some (host_mutex_new Normal, 1)"
  by (simp add: sys_cond_def sys_locked_def run_defs cond_init_def cond_release_def hm_by_def)

lemma sys_waiting_reachable: "reachable sys_waiting"
proof (rule more[OF sys_cond_reachable])
  have "sync_step sys_cond (sys_cond\<lparr>sync := set_obj 0 (host_mutex_new Normal) (sync sys_cond),
      ctl := (notify_all 0 (ctl sys_cond))(1 := CondAsleep 0 0 1 False), held := bump 1 0 0 (held sys_cond)\<rparr>)"
    by (rule cond_wait[where ca = "0x200" and ma = "0x100", OF _ _ _ sys_cond_release])
      (simp_all add: sys_cond_def sys_locked_def run_defs cond_init_def)
  moreover have "notify_all 0 (ctl sys_cond) = (\<lambda>_. Idle)"
    by (simp add: notify_all_def wake_one_def sys_cond_def sys_locked_def)
  ultimately show "sync_step sys_cond sys_waiting" by (simp add: sys_waiting_def)
qed

lemma sys_woken_reachable: "reachable sys_woken"
  unfolding sys_woken_def
  by (rule more[OF sys_waiting_reachable cond_wakeup[where c = 0 and tm = False]]) (simp_all add: sys_waiting_def)

theorem cond_wait_restores_depth_witness:
  "\<exists>hm'. relock_attempt (mheap (sync sys_woken) 0) 1 1 = Some hm' \<and> owner hm' = Some 1 \<and>
     unat (locks hm') = held sys_cond 1 0"
proof -
  obtain hm' where b: "relock_attempt (mheap (sync sys_woken) 0) 1 1 = Some hm'"
    by (auto simp: relock_attempt_def sys_woken_def sys_waiting_def host_mutex_new_def)
  have "ctl sys_woken 1 = Relocking 0 1 0 False" by (simp add: sys_woken_def)
  then show ?thesis
    using cond_wait_restores_depth[OF sys_cond_reachable sys_cond_release sys_woken_reachable _ b] b by blast
qed

text \<open>
  Return codes and effects of the non-blocking calls on one object, for every owner and type:
  locking a free mutex takes it; relocking counts up, except that an error-checking mutex reports
  EDEADLK; another thread's mutex blocks the lock call and makes trylock report EBUSY; only the owner
  can unlock, anyone else gets EPERM and changes nothing.
\<close>

theorem mutex_calls_by_type:
  "lock_attempt hm t =
     (if owner hm = None then Acquired (hm\<lparr>owner := Some t, locks := 1\<rparr>)
      else if owner hm \<noteq> Some t then Blocks
      else if mtype hm = ErrorCheck then Fails 11
      else Acquired (hm\<lparr>locks := locks hm + 1\<rparr>)) \<and>
   trylock_attempt hm t False =
     (if owner hm = None then Acquired (hm\<lparr>owner := Some t, locks := 1\<rparr>)
      else if owner hm = Some t \<and> mtype hm = Recursive then Acquired (hm\<lparr>locks := locks hm + 1\<rparr>)
      else Fails 16) \<and>
   unlock_attempt hm t =
     (if owner hm \<noteq> Some t then (hm, 1, False)
      else if locks hm = 1 then (hm\<lparr>owner := None, locks := 0\<rparr>, 0, True)
      else (hm\<lparr>locks := locks hm - 1\<rparr>, 0, False))"
  by (auto simp: lock_attempt_def trylock_attempt_def unlock_attempt_def errno_defs Let_def
      split: option.splits mutex_type.splits)

text \<open>
  Re-initialising an address that is known never swaps its object: a held mutex is refused with
  EBUSY and left as it is; a free one is reset in place, and its waiters are notified. An unknown
  address gets a fresh, free object that no thread refers to yet.
\<close>

theorem mutex_init_in_place:
  assumes r: "reachable \<sigma>" and i: "mutex_init (sync \<sigma>) addr mt = (s', code, n)"
  shows "case mutexes (sync \<sigma>) addr of
       Some m \<Rightarrow> mutexes s' = mutexes (sync \<sigma>) \<and>
         (if \<exists>t. 0 < held \<sigma> t m then code = 16 \<and> s' = sync \<sigma>
          else code = 0 \<and> n = Some m \<and> mheap s' m = host_mutex_new mt)
     | None \<Rightarrow> code = 0 \<and> (\<exists>m. mutexes s' addr = Some m \<and> mheap s' m = host_mutex_new mt \<and>
         (\<forall>t. held \<sigma> t m = 0) \<and> (\<forall>a. mutexes (sync \<sigma>) a \<noteq> Some m))"
proof (cases "mutexes (sync \<sigma>) addr")
  case None
  let ?m = "next_mutex (sync \<sigma>)"
  have "owner (mheap (sync \<sigma>) ?m) = None" using sys_invD(2)[OF reachable_inv[OF r]] by simp
  then have "\<forall>t. held \<sigma> t ?m = 0" using sys_invD(1)[OF reachable_inv[OF r], of ?m] by (simp add: obj_ok_def)
  moreover have "mutexes (sync \<sigma>) a \<noteq> Some ?m" for a using sys_invD(3)[OF reachable_inv[OF r], of a ?m] by auto
  ultimately show ?thesis using i None by (auto simp: mutex_init_def intro!: exI[of _ ?m])
next
  case (Some m)
  note ok = sys_invD(1)[OF reachable_inv[OF r], of m]
  have "owner (mheap (sync \<sigma>) m) \<noteq> None \<or> locks (mheap (sync \<sigma>) m) > 0 \<longleftrightarrow> (\<exists>t. 0 < held \<sigma> t m)"
    using ok by (cases "owner (mheap (sync \<sigma>) m)") (auto simp: obj_ok_def)
  then show ?thesis
    using i Some by (auto simp: mutex_init_def host_mutex_new_def EBUSY_def split: if_splits)
qed

theorem mutex_init_in_place_witness:
  "\<exists>s' code n. mutex_init (sync sys_locked) 0x100 Recursive = (s', code, n) \<and> code = 16 \<and> s' = sync sys_locked"
proof -
  obtain s' code n where i: "mutex_init (sync sys_locked) 0x100 Recursive = (s', code, n)" by (metis prod_cases3)
  moreover have "mutexes (sync sys_locked) 0x100 = Some 0" "0 < held sys_locked 1 0"
    by (simp_all add: sys_locked_def run_defs bump_def)
  moreover from this have "\<exists>t. 0 < held sys_locked t 0" by blast
  ultimately show ?thesis using mutex_init_in_place[OF sys_locked_reachable i] by simp
qed

text \<open>
  Destroying a held mutex is not refused, and it leaves an object that no call can ever release:
  once no address names an owned object, it stays owned by the same thread in every continuation, so
  a thread that waits for it waits for ever, while the address, locked again, hands a second thread a
  fresh mutex.
\<close>

theorem destroyed_held_mutex_is_never_released:
  assumes "sync_step\<^sup>*\<^sup>* \<sigma> \<sigma>'" and "m < next_mutex (sync \<sigma>)"
    and "\<forall>a. mutexes (sync \<sigma>) a \<noteq> Some m" and "owner (mheap (sync \<sigma>) m) = Some t"
  shows "(\<forall>a. mutexes (sync \<sigma>') a \<noteq> Some m) \<and> owner (mheap (sync \<sigma>') m) = Some t"
  using orphan_run[OF assms(1), of m t] assms(2-) by (simp add: orphan_of_def)

definition sys_orphan :: system where
  "sys_orphan = sys_locked\<lparr>sync := fst (mutex_destroy (sync sys_locked) 0x100)\<rparr>"

lemma sys_orphan_reachable: "reachable sys_orphan"
proof (rule more[OF sys_locked_reachable])
  show "sync_step sys_locked sys_orphan"
    unfolding sys_orphan_def
    by (rule destroy[of _ 2 "0x100" _ "snd (mutex_destroy (sync sys_locked) 0x100)"])
      (simp_all add: sys_locked_def)
qed

definition sys_relocked :: system where
  "sys_relocked = sys_orphan\<lparr>sync := fst (lookup_or_create (sync sys_orphan) 0x100),
     ctl := (ctl sys_orphan)(2 := Locking False 1 False)\<rparr>"

lemma sys_relocked_step: "sync_step sys_orphan sys_relocked"
  unfolding sys_relocked_def
  by (rule lock_enter[where addr = "0x100"])
    (simp_all add: sys_orphan_def sys_locked_def run_defs mutex_destroy_def)

theorem destroyed_held_mutex_is_never_released_witness:
  "reachable sys_orphan \<and> snd (mutex_destroy (sync sys_locked) 0x100) = 0 \<and> 0 < held sys_orphan 1 0 \<and>
   sync_step sys_orphan sys_relocked \<and> mutexes (sync sys_relocked) 0x100 = Some 1 \<and>
   owner (mheap (sync sys_relocked) 0) = Some 1"
proof -
  have o: "\<forall>a. mutexes (sync sys_orphan) a \<noteq> Some 0" "owner (mheap (sync sys_orphan) 0) = Some 1"
    "0 < next_mutex (sync sys_orphan)"
    by (simp_all add: sys_orphan_def sys_locked_def run_defs mutex_destroy_def hm_by_def)
  have "owner (mheap (sync sys_relocked) 0) = Some 1"
    using destroyed_held_mutex_is_never_released[OF r_into_rtranclp[of sync_step, OF sys_relocked_step] o(3,1,2)] by blast
  moreover have "snd (mutex_destroy (sync sys_locked) 0x100) = 0" "0 < held sys_orphan 1 0"
    "mutexes (sync sys_relocked) 0x100 = Some 1"
    by (simp_all add: sys_relocked_def sys_orphan_def sys_locked_def run_defs mutex_destroy_def bump_def)
  ultimately show ?thesis using sys_orphan_reachable sys_relocked_step by blast
qed

end
