(* ===== verification/Pm4.thy ===== *)
theory Pm4
  imports Rust_Prelude
begin

unbundle bit_operations_syntax

text \<open>
  The PM4 command stream: opcodes and register windows (\<^verbatim>\<open>gnm/src/pm4/opcodes.rs\<close>), the header
  walk (\<^verbatim>\<open>decode.rs\<close>) and the builders of the shader-set and draw packets (\<^verbatim>\<open>emit.rs\<close>). A body
  that borrows the command buffer in the code is the list of its dwords here.
\<close>

section \<open>Opcodes and registers\<close>

definition IT_NOP :: u8 where "IT_NOP = 0x10"
definition IT_CLEAR_STATE :: u8 where "IT_CLEAR_STATE = 0x12"
definition IT_INDEX_BUFFER_SIZE :: u8 where "IT_INDEX_BUFFER_SIZE = 0x13"
definition IT_DISPATCH_DIRECT :: u8 where "IT_DISPATCH_DIRECT = 0x15"
definition IT_DISPATCH_INDIRECT :: u8 where "IT_DISPATCH_INDIRECT = 0x16"
definition IT_INDEX_BASE :: u8 where "IT_INDEX_BASE = 0x26"
definition IT_DRAW_INDEX_2 :: u8 where "IT_DRAW_INDEX_2 = 0x27"
definition IT_CONTEXT_CONTROL :: u8 where "IT_CONTEXT_CONTROL = 0x28"
definition IT_INDEX_TYPE :: u8 where "IT_INDEX_TYPE = 0x2A"
definition IT_DRAW_INDEX_AUTO :: u8 where "IT_DRAW_INDEX_AUTO = 0x2D"
definition IT_NUM_INSTANCES :: u8 where "IT_NUM_INSTANCES = 0x2F"
definition IT_DRAW_INDEX_OFFSET_2 :: u8 where "IT_DRAW_INDEX_OFFSET_2 = 0x35"
definition IT_WRITE_DATA :: u8 where "IT_WRITE_DATA = 0x37"
definition IT_WAIT_REG_MEM :: u8 where "IT_WAIT_REG_MEM = 0x3C"
definition IT_INDIRECT_BUFFER :: u8 where "IT_INDIRECT_BUFFER = 0x3F"
definition IT_PFP_SYNC_ME :: u8 where "IT_PFP_SYNC_ME = 0x42"
definition IT_EVENT_WRITE :: u8 where "IT_EVENT_WRITE = 0x46"
definition IT_EVENT_WRITE_EOP :: u8 where "IT_EVENT_WRITE_EOP = 0x47"
definition IT_EVENT_WRITE_EOS :: u8 where "IT_EVENT_WRITE_EOS = 0x48"
definition IT_DMA_DATA :: u8 where "IT_DMA_DATA = 0x50"
definition IT_ACQUIRE_MEM :: u8 where "IT_ACQUIRE_MEM = 0x58"
definition IT_SET_CONFIG_REG :: u8 where "IT_SET_CONFIG_REG = 0x68"
definition IT_SET_CONTEXT_REG :: u8 where "IT_SET_CONTEXT_REG = 0x69"
definition IT_SET_SH_REG :: u8 where "IT_SET_SH_REG = 0x76"
definition IT_SET_UCONFIG_REG :: u8 where "IT_SET_UCONFIG_REG = 0x79"

lemmas opcode_defs = IT_NOP_def IT_CLEAR_STATE_def IT_INDEX_BUFFER_SIZE_def IT_DISPATCH_DIRECT_def
  IT_DISPATCH_INDIRECT_def IT_INDEX_BASE_def IT_DRAW_INDEX_2_def IT_CONTEXT_CONTROL_def
  IT_INDEX_TYPE_def IT_DRAW_INDEX_AUTO_def IT_NUM_INSTANCES_def IT_DRAW_INDEX_OFFSET_2_def
  IT_WRITE_DATA_def IT_WAIT_REG_MEM_def IT_INDIRECT_BUFFER_def IT_PFP_SYNC_ME_def
  IT_EVENT_WRITE_def IT_EVENT_WRITE_EOP_def IT_EVENT_WRITE_EOS_def IT_DMA_DATA_def
  IT_ACQUIRE_MEM_def IT_SET_CONFIG_REG_def IT_SET_CONTEXT_REG_def IT_SET_SH_REG_def
  IT_SET_UCONFIG_REG_def

definition CONFIG_BASE :: u32 where "CONFIG_BASE = 0x2000"
definition CONTEXT_BASE :: u32 where "CONTEXT_BASE = 0xA000"
definition SH_BASE :: u32 where "SH_BASE = 0x2C00"
definition UCONFIG_BASE :: u32 where "UCONFIG_BASE = 0xC000"

lemmas base_defs = CONFIG_BASE_def CONTEXT_BASE_def SH_BASE_def UCONFIG_BASE_def

definition SPI_SHADER_PGM_LO_PS :: u32 where "SPI_SHADER_PGM_LO_PS = SH_BASE + 0x08"
definition SPI_SHADER_PGM_HI_PS :: u32 where "SPI_SHADER_PGM_HI_PS = SH_BASE + 0x09"
definition SPI_SHADER_PGM_RSRC1_PS :: u32 where "SPI_SHADER_PGM_RSRC1_PS = SH_BASE + 0x0A"
definition SPI_SHADER_PGM_RSRC2_PS :: u32 where "SPI_SHADER_PGM_RSRC2_PS = SH_BASE + 0x0B"
definition SPI_SHADER_PGM_LO_VS :: u32 where "SPI_SHADER_PGM_LO_VS = SH_BASE + 0x48"
definition SPI_SHADER_PGM_HI_VS :: u32 where "SPI_SHADER_PGM_HI_VS = SH_BASE + 0x49"
definition SPI_SHADER_PGM_RSRC1_VS :: u32 where "SPI_SHADER_PGM_RSRC1_VS = SH_BASE + 0x4A"
definition SPI_SHADER_PGM_RSRC2_VS :: u32 where "SPI_SHADER_PGM_RSRC2_VS = SH_BASE + 0x4B"
definition SPI_SHADER_USER_DATA_PS_0 :: u32 where "SPI_SHADER_USER_DATA_PS_0 = SH_BASE + 0x0C"
definition SPI_SHADER_USER_DATA_VS_0 :: u32 where "SPI_SHADER_USER_DATA_VS_0 = SH_BASE + 0x4C"

definition SPI_VS_OUT_CONFIG :: u32 where "SPI_VS_OUT_CONFIG = CONTEXT_BASE + 0x1B1"
definition SPI_PS_INPUT_ENA :: u32 where "SPI_PS_INPUT_ENA = CONTEXT_BASE + 0x1B3"
definition SPI_PS_INPUT_ADDR :: u32 where "SPI_PS_INPUT_ADDR = CONTEXT_BASE + 0x1B4"
definition SPI_PS_IN_CONTROL :: u32 where "SPI_PS_IN_CONTROL = CONTEXT_BASE + 0x1B6"
definition SPI_BARYC_CNTL :: u32 where "SPI_BARYC_CNTL = CONTEXT_BASE + 0x1B8"
definition SPI_SHADER_POS_FORMAT :: u32 where "SPI_SHADER_POS_FORMAT = CONTEXT_BASE + 0x1C3"
definition SPI_SHADER_Z_FORMAT :: u32 where "SPI_SHADER_Z_FORMAT = CONTEXT_BASE + 0x1C4"
definition SPI_SHADER_COL_FORMAT :: u32 where "SPI_SHADER_COL_FORMAT = CONTEXT_BASE + 0x1C5"
definition SPI_PS_INPUT_CNTL_0 :: u32 where "SPI_PS_INPUT_CNTL_0 = CONTEXT_BASE + 0x191"
definition CB_SHADER_MASK :: u32 where "CB_SHADER_MASK = CONTEXT_BASE + 0x08F"
definition DB_SHADER_CONTROL :: u32 where "DB_SHADER_CONTROL = CONTEXT_BASE + 0x203"
definition PA_CL_VS_OUT_CNTL :: u32 where "PA_CL_VS_OUT_CNTL = CONTEXT_BASE + 0x207"

lemmas reg_defs = SPI_SHADER_PGM_LO_PS_def SPI_SHADER_PGM_HI_PS_def SPI_SHADER_PGM_RSRC1_PS_def
  SPI_SHADER_PGM_RSRC2_PS_def SPI_SHADER_PGM_LO_VS_def SPI_SHADER_PGM_HI_VS_def
  SPI_SHADER_PGM_RSRC1_VS_def SPI_SHADER_PGM_RSRC2_VS_def SPI_SHADER_USER_DATA_PS_0_def
  SPI_SHADER_USER_DATA_VS_0_def SPI_VS_OUT_CONFIG_def SPI_PS_INPUT_ENA_def SPI_PS_INPUT_ADDR_def
  SPI_PS_IN_CONTROL_def SPI_BARYC_CNTL_def SPI_SHADER_POS_FORMAT_def SPI_SHADER_Z_FORMAT_def
  SPI_SHADER_COL_FORMAT_def SPI_PS_INPUT_CNTL_0_def CB_SHADER_MASK_def DB_SHADER_CONTROL_def
  PA_CL_VS_OUT_CNTL_def

definition num_vgprs :: "u32 \<Rightarrow> u32" where
  "num_vgprs rsrc1 = ((rsrc1 AND 0x3F) + 1) * 4"

definition num_sgprs :: "u32 \<Rightarrow> u32" where
  "num_sgprs rsrc1 = ((drop_bit 6 rsrc1 AND 0xF) + 1) * 8"

definition num_user_sgprs :: "u32 \<Rightarrow> u32" where
  "num_user_sgprs rsrc2 = drop_bit 1 rsrc2 AND 0x1F"

text \<open>\<open>body_len - 1\<close> is a subtraction of a 64-bit \<^verbatim>\<open>usize\<close>, truncated to 32 bits.\<close>

definition t3_header :: "u8 \<Rightarrow> nat \<Rightarrow> u32" where
  "t3_header opcode body_len =
     (let count = (ucast ((of_nat body_len :: u64) - 1) :: u32) AND 0x3FFF in
      push_bit 30 3 OR push_bit 16 count OR push_bit 8 (ucast opcode))"

definition set_reg_base :: "u8 \<Rightarrow> u32 option" where
  "set_reg_base opcode =
     (if opcode = IT_SET_CONFIG_REG then Some CONFIG_BASE
      else if opcode = IT_SET_CONTEXT_REG then Some CONTEXT_BASE
      else if opcode = IT_SET_SH_REG then Some SH_BASE
      else if opcode = IT_SET_UCONFIG_REG then Some UCONFIG_BASE
      else None)"

section \<open>The header walk\<close>

datatype pm4_type = HType0 | HType1 | HType2 | HType3

datatype pm4_packet =
    Type3 (pkt_opcode: u8) (pkt_count: u16) (pkt_body: "u32 list")
  | Type0 (pkt_base: u16) (pkt_count: u16) (pkt_body: "u32 list")
  | Type2
  | Truncated (pkt_header: u32)

definition header_type :: "u32 \<Rightarrow> pm4_type" where
  "header_type header =
     (let t = drop_bit 30 header in
      if t = 0 then HType0 else if t = 1 then HType1 else if t = 2 then HType2 else HType3)"

record decoder =
  dec_words :: "u32 list"
  dec_pos :: nat
  dec_done :: bool

definition decoder_new :: "u32 list \<Rightarrow> decoder" where
  "decoder_new ws = \<lparr> dec_words = ws, dec_pos = 0, dec_done = False \<rparr>"

definition decoder_next :: "decoder \<Rightarrow> (pm4_packet \<times> decoder) option" where
  "decoder_next d =
     (if dec_done d \<or> length (dec_words d) \<le> dec_pos d then None
      else
        let header = dec_words d ! dec_pos d; body_start = dec_pos d + 1 in
        case header_type header of
          HType2 \<Rightarrow> Some (Type2, d\<lparr>dec_pos := body_start\<rparr>)
        | HType1 \<Rightarrow> Some (Truncated header, d\<lparr>dec_done := True\<rparr>)
        | ty \<Rightarrow>
            (let count = (ucast (drop_bit 16 header AND 0x3FFF) :: u16);
                 body_len = unat count + 1;
                 body_end = body_start + body_len
             in if body_end \<le> length (dec_words d)
                then let body = slice body_start body_end (dec_words d);
                         d' = d\<lparr>dec_pos := body_end\<rparr>
                     in if ty = HType3
                        then Some (Type3 (ucast (drop_bit 8 header AND 0xFF)) (of_nat body_len) body, d')
                        else Some (Type0 (ucast (header AND 0xFFFF)) (of_nat body_len) body, d')
                else Some (Truncated header, d\<lparr>dec_done := True\<rparr>)))"

text \<open>Draining the iterator: what a \<^verbatim>\<open>for\<close> loop or \<^verbatim>\<open>collect\<close> over it sees.\<close>

definition dec_left :: "decoder \<Rightarrow> nat" where
  "dec_left d = (if dec_done d then 0 else Suc (length (dec_words d)) - dec_pos d)"

lemma decoder_next_decreases:
  "decoder_next d = Some (p, d') \<Longrightarrow> dec_left d' < dec_left d"
  by (auto simp: decoder_next_def dec_left_def Let_def split: if_splits pm4_type.splits)

function drain :: "decoder \<Rightarrow> pm4_packet list" where
  "drain d = (case decoder_next d of None \<Rightarrow> [] | Some (p, d') \<Rightarrow> p # drain d')"
  by pat_completeness auto
termination
  by (relation "measure dec_left") (auto simp: decoder_next_decreases)

declare drain.simps [simp del]

definition pm4_decode :: "u32 list \<Rightarrow> pm4_packet list" where
  "pm4_decode ws = drain (decoder_new ws)"

fun dwords_of_bytes :: "u8 list \<Rightarrow> u32 list" where
  "dwords_of_bytes (b0 # b1 # b2 # b3 # bs) = le_u32 b0 b1 b2 b3 # dwords_of_bytes bs"
| "dwords_of_bytes _ = []"

definition decode_bytes :: "u8 list \<Rightarrow> pm4_packet list" where
  "decode_bytes bytes = pm4_decode (dwords_of_bytes bytes)"

section \<open>The builders\<close>

definition SET_VS_SHADER_DWORDS :: nat where "SET_VS_SHADER_DWORDS = 29"
definition SET_PS_SHADER_DWORDS :: nat where "SET_PS_SHADER_DWORDS = 40"
definition NOP_DATA_BLOCK :: nat where "NOP_DATA_BLOCK = 11"
definition TYPE2_NOP :: u32 where "TYPE2_NOP = push_bit 30 2"
definition MAX_NOP_FILL_DWORDS :: nat where "MAX_NOP_FILL_DWORDS = 1 + (0x3FFF + 1)"

definition pad_to_reserved :: "u32 list \<Rightarrow> u32 \<Rightarrow> u32 list" where
  "pad_to_reserved packet reserved =
     (let res = unat reserved in
      if res \<le> length packet then packet
      else let gap = res - length packet in
        if MAX_NOP_FILL_DWORDS < gap then packet
        else if gap = 1 then packet @ [TYPE2_NOP]
        else packet @ t3_header IT_NOP (gap - 1) # replicate (gap - 1) 0)"

text \<open>\<^verbatim>\<open>RegRun\<close>: the window base, the offset relative to it, and the one or two values written.\<close>

record reg_run =
  run_bank :: u32
  run_offset :: u32
  run_data :: "u32 list"
  run_len :: nat

definition run_values :: "reg_run \<Rightarrow> u32 list" where
  "run_values rr = take (run_len rr) (run_data rr)"

definition run :: "u32 \<Rightarrow> u32 \<Rightarrow> u32 list \<Rightarrow> nat \<Rightarrow> reg_run" where
  "run bank abs_index values len =
     \<lparr> run_bank = bank, run_offset = abs_index - bank, run_data = values, run_len = len \<rparr>"

definition run1 :: "u32 \<Rightarrow> u32 \<Rightarrow> u32 \<Rightarrow> reg_run" where
  "run1 bank abs_index v0 = run bank abs_index [v0, 0] 1"

definition run2 :: "u32 \<Rightarrow> u32 \<Rightarrow> u32 \<Rightarrow> u32 \<Rightarrow> reg_run" where
  "run2 bank abs_index v0 v1 = run bank abs_index [v0, v1] 2"

definition reg_at :: "u32 list \<Rightarrow> nat \<Rightarrow> u32" where
  "reg_at regs i = (if i < length regs then regs ! i else 0)"

definition shader_pgm_lohi :: "u32 list \<Rightarrow> nat \<Rightarrow> nat \<Rightarrow> u32 \<times> u32" where
  "shader_pgm_lohi regs lo_field hi_field = (reg_at regs lo_field, 0)"

definition run_dwords :: "reg_run \<Rightarrow> nat" where
  "run_dwords rr = 2 + length (run_values rr)"

text \<open>\<open>None\<close> is the \<^verbatim>\<open>unreachable!\<close> for a run that targets neither bank.\<close>

definition run_opcode :: "u32 \<Rightarrow> u8 option" where
  "run_opcode bank = (if bank = SH_BASE then Some IT_SET_SH_REG
     else if bank = CONTEXT_BASE then Some IT_SET_CONTEXT_REG else None)"

fun emit_runs :: "reg_run list \<Rightarrow> u32 list option" where
  "emit_runs [] = Some []"
| "emit_runs (rr # rs) =
     (case run_opcode (run_bank rr) of
        None \<Rightarrow> None
      | Some opc \<Rightarrow> map_option
          (\<lambda>out. t3_header opc (1 + length (run_values rr)) # run_offset rr # run_values rr @ out)
          (emit_runs rs))"

definition emit_shader_set :: "reg_run list \<Rightarrow> u32 list option" where
  "emit_shader_set runs =
     (let total_dwords = sum_list (map run_dwords runs) + 1 + NOP_DATA_BLOCK in
      map_option (\<lambda>out. let o1 = out @ [t3_header IT_NOP NOP_DATA_BLOCK]
                        in take total_dwords o1 @ replicate (total_dwords - length o1) 0)
        (emit_runs runs))"

definition vs_runs :: "u32 list \<Rightarrow> reg_run list" where
  "vs_runs vs_regs =
     (let (lo, hi) = shader_pgm_lohi vs_regs 0 1 in
      [run2 SH_BASE SPI_SHADER_PGM_LO_VS lo hi,
       run2 SH_BASE SPI_SHADER_PGM_RSRC1_VS (reg_at vs_regs 2) (reg_at vs_regs 3),
       run1 CONTEXT_BASE PA_CL_VS_OUT_CNTL (reg_at vs_regs 6),
       run1 CONTEXT_BASE SPI_VS_OUT_CONFIG (reg_at vs_regs 4),
       run1 CONTEXT_BASE SPI_SHADER_POS_FORMAT (reg_at vs_regs 5)])"

definition set_vs_shader :: "u32 list \<Rightarrow> u32 list option" where
  "set_vs_shader vs_regs = emit_shader_set (vs_runs vs_regs)"

definition ps_runs :: "u32 list \<Rightarrow> reg_run list" where
  "ps_runs ps_regs =
     (let (lo, hi) = shader_pgm_lohi ps_regs 0 1 in
      [run2 SH_BASE SPI_SHADER_PGM_LO_PS lo hi,
       run2 SH_BASE SPI_SHADER_PGM_RSRC1_PS (reg_at ps_regs 2) (reg_at ps_regs 3),
       run2 CONTEXT_BASE SPI_SHADER_Z_FORMAT (reg_at ps_regs 4) (reg_at ps_regs 5),
       run2 CONTEXT_BASE SPI_PS_INPUT_ENA (reg_at ps_regs 6) (reg_at ps_regs 7),
       run1 CONTEXT_BASE SPI_PS_IN_CONTROL (reg_at ps_regs 8),
       run1 CONTEXT_BASE SPI_BARYC_CNTL (reg_at ps_regs 9),
       run1 CONTEXT_BASE DB_SHADER_CONTROL (reg_at ps_regs 10),
       run1 CONTEXT_BASE CB_SHADER_MASK (reg_at ps_regs 11)])"

definition set_ps_shader :: "u32 list \<Rightarrow> u32 list option" where
  "set_ps_shader ps_regs = emit_shader_set (ps_runs ps_regs)"

definition draw_index_auto :: "u32 \<Rightarrow> u32 list" where
  "draw_index_auto index_count = [t3_header IT_DRAW_INDEX_AUTO 2, index_count, 0]"

definition draw_index_offset :: "u32 \<Rightarrow> u32 \<Rightarrow> u32 list" where
  "draw_index_offset index_offset index_count =
     [t3_header IT_DRAW_INDEX_OFFSET_2 4, saturating_add index_offset index_count,
      index_offset, index_count, 0]"

section \<open>Header fields\<close>

lemma count_field:
  assumes "1 \<le> n" and "n \<le> 0x4000"
  shows "(ucast ((of_nat n :: u64) - 1) :: u32) AND 0x3FFF = of_nat (n - 1)"
proof -
  obtain k where k: "n = Suc k" using assms(1) by (cases n) auto
  have "(ucast ((of_nat n :: u64) - 1) :: u32) = of_nat k"
    using assms(2) by (simp add: k unsigned_of_nat take_bit_nat_eq_self)
  moreover have "(of_nat k :: u32) AND mask 14 = of_nat k"
    using assms(2) unfolding take_bit_eq_mask[symmetric]
    by (simp add: k take_bit_of_nat take_bit_nat_eq_self)
  ultimately show ?thesis by (simp add: k mask_eq_exp_minus_1)
qed

lemma bit_bounded: "unat x < 2 ^ k \<Longrightarrow> bit x i \<Longrightarrow> i < k" for x :: "'a::len word"
proof (rule ccontr)
  assume "unat x < 2 ^ k" "bit x i" "\<not> i < k"
  then have "unat x div 2 ^ i = 0"
    by (metis div_less le_less_trans less_le_trans linorder_not_less one_le_numeral power_increasing)
  moreover have "bit (unat x) i" using \<open>bit x i\<close> by (simp add: bit_unsigned_iff)
  ultimately show False by (simp add: bit_iff_odd)
qed

lemma hi_field_shift:
  fixes c x :: u32
  assumes "unat c < 0x4000" and "unat x < 0x10000"
  shows "drop_bit 30 (push_bit 30 t OR push_bit 16 c OR x) = drop_bit 30 (push_bit 30 t)"
    and "drop_bit 16 (push_bit 30 t OR push_bit 16 c OR x) AND 0x3FFF = c"
    and "(push_bit 30 t OR push_bit 16 c OR x) AND 0xFFFF = x"
proof -
  have c: "bit c i \<Longrightarrow> i < 14" and x: "bit x i \<Longrightarrow> i < 16" for i
    using bit_bounded[of c 14 i] bit_bounded[of x 16 i] assms by auto
  have m: "(0x3FFF :: u32) = mask 14" "(0xFFFF :: u32) = mask 16"
    by (simp_all add: mask_eq_exp_minus_1)
  show "drop_bit 30 (push_bit 30 t OR push_bit 16 c OR x) = drop_bit 30 (push_bit 30 t)"
    by (rule bit_word_eqI) (auto simp: bit_simps dest: c x)
  show "drop_bit 16 (push_bit 30 t OR push_bit 16 c OR x) AND 0x3FFF = c"
    unfolding m by (rule bit_word_eqI) (auto simp: bit_simps dest: c x)
  show "(push_bit 30 t OR push_bit 16 c OR x) AND 0xFFFF = x"
    unfolding m by (rule bit_word_eqI) (auto simp: bit_simps dest: c x)
qed

lemma op_field:
  "(ucast (drop_bit 8 (push_bit 30 t OR push_bit 16 c OR push_bit 8 (ucast opc)) AND (0xFF :: u32)) :: u8) = opc"
proof -
  have m: "(0xFF :: u32) = mask 8" by (simp add: mask_eq_exp_minus_1)
  show ?thesis unfolding m by (rule bit_word_eqI) (auto simp: bit_simps)
qed

text \<open>The dwords a packet came from, for the packets whose count agrees with their body.\<close>

definition pkt_wf :: "pm4_packet \<Rightarrow> bool" where
  "pkt_wf p \<longleftrightarrow> (case p of
       Type3 _ c body \<Rightarrow> 1 \<le> length body \<and> length body \<le> 0x4000 \<and> c = of_nat (length body)
     | Type0 _ c body \<Rightarrow> 1 \<le> length body \<and> length body \<le> 0x4000 \<and> c = of_nat (length body)
     | Type2 \<Rightarrow> True
     | Truncated _ \<Rightarrow> False)"

definition pkt_dwords :: "pm4_packet \<Rightarrow> u32 list" where
  "pkt_dwords p = (case p of
       Type3 opc _ body \<Rightarrow> t3_header opc (length body) # body
     | Type0 base _ body \<Rightarrow> (push_bit 16 (of_nat (length body - 1)) OR ucast base) # body
     | Type2 \<Rightarrow> [TYPE2_NOP]
     | Truncated h \<Rightarrow> [h])"

lemma t3_header_fields:
  assumes "1 \<le> n" and "n \<le> 0x4000"
  shows "header_type (t3_header opc n) = HType3"
    and "unat (ucast (drop_bit 16 (t3_header opc n) AND 0x3FFF) :: u16) = n - 1"
    and "ucast (drop_bit 8 (t3_header opc n) AND 0xFF) = opc"
proof -
  obtain k where k: "n = Suc k" using assms(1) by (cases n) auto
  define x :: u32 where "x = push_bit 8 (ucast opc)"
  have xb: "bit x i \<Longrightarrow> 8 \<le> i \<and> i < 16" for i
    using bit_imp_le_length[of opc "i - 8"] by (auto simp: x_def bit_simps)
  have "take_bit 16 x = x" by (rule bit_word_eqI) (auto simp: bit_simps dest: xb)
  then have x: "unat x < 0x10000"
    using unsigned_take_bit_eq[of 16 x, where ?'a = nat] take_bit_nat_less_exp[of 16 "unat x"] by simp
  have h: "t3_header opc n = push_bit 30 3 OR push_bit 16 (of_nat k) OR x"
    using count_field[OF assms] by (simp add: k t3_header_def x_def Let_def)
  have c: "unat (of_nat k :: u32) = k"
    using assms by (intro unat_of_nat_small) (simp add: k)
  note f = hi_field_shift[of "of_nat k" x 3, folded h]
  show "header_type (t3_header opc n) = HType3"
    using f(1) c assms(2) x by (simp add: k header_type_def)
  show "unat (ucast (drop_bit 16 (t3_header opc n) AND 0x3FFF) :: u16) = n - 1"
    using f(2) c assms(2) x by (simp add: k unsigned_of_nat take_bit_nat_eq_self)
  show "ucast (drop_bit 8 (t3_header opc n) AND 0xFF) = opc"
    unfolding h x_def by (rule op_field)
qed

lemma t0_header_fields:
  fixes base :: u16
  assumes "1 \<le> n" and "n \<le> 0x4000"
  defines "h \<equiv> push_bit 16 (of_nat (n - 1)) OR ucast base :: u32"
  shows "header_type h = HType0"
    and "unat (ucast (drop_bit 16 h AND 0x3FFF) :: u16) = n - 1"
    and "ucast (h AND 0xFFFF) = base"
proof -
  obtain k where k: "n = Suc k" using assms(1) by (cases n) auto
  define x :: u32 where "x = ucast base"
  have x: "unat x < 0x10000" using unat_lt_2p[of base] by (simp add: x_def unsigned_ucast_eq take_bit_nat_eq_self)
  have h: "h = push_bit 30 0 OR push_bit 16 (of_nat k) OR x" by (simp add: h_def k x_def)
  have c: "unat (of_nat k :: u32) = k"
    using assms by (intro unat_of_nat_small) (simp add: k)
  note f = hi_field_shift[of "of_nat k" x 0, folded h]
  show "header_type h = HType0"
    using f(1) c assms(2) x by (simp add: k header_type_def)
  show "unat (ucast (drop_bit 16 h AND 0x3FFF) :: u16) = n - 1"
    using f(2) c assms(2) x by (simp add: k unsigned_of_nat take_bit_nat_eq_self)
  show "ucast (h AND 0xFFFF) = base"
  proof -
    have "ucast (ucast base :: u32) = base" by (rule bit_word_eqI) (simp add: bit_simps)
    then show ?thesis using f(3) c assms(2) x by (simp add: k x_def)
  qed
qed

lemma pkt_dwords_ne: "pkt_dwords p \<noteq> []"
  by (cases p) (auto simp: pkt_dwords_def)

lemma decoder_next_pkt:
  assumes "pkt_wf p"
  shows "decoder_next \<lparr> dec_words = pre @ pkt_dwords p @ rest, dec_pos = length pre, dec_done = False \<rparr> =
    Some (p, \<lparr> dec_words = pre @ pkt_dwords p @ rest, dec_pos = length pre + length (pkt_dwords p),
               dec_done = False \<rparr>)"
proof (cases p)
  case (Type3 opc c body)
  moreover obtain k where "length body = Suc k"
    using assms Type3 by (cases "length body") (auto simp: pkt_wf_def)
  ultimately show ?thesis
    using assms t3_header_fields[of "length body" opc]
    by (simp add: pkt_wf_def pkt_dwords_def decoder_next_def Let_def slice_def nth_append)
next
  case (Type0 base c body)
  moreover obtain k where "length body = Suc k"
    using assms Type0 by (cases "length body") (auto simp: pkt_wf_def)
  ultimately show ?thesis
    using assms t0_header_fields[of "length body" base]
    by (simp add: pkt_wf_def pkt_dwords_def decoder_next_def Let_def slice_def nth_append)
next
  case Type2
  have "header_type TYPE2_NOP = HType2" by (simp add: header_type_def TYPE2_NOP_def)
  then show ?thesis using Type2 by (simp add: pkt_dwords_def decoder_next_def Let_def)
next
  case (Truncated h)
  then show ?thesis using assms by (simp add: pkt_wf_def)
qed

text \<open>The walk from a position sees only the dwords from there on.\<close>

lemma decoder_next_shift:
  "decoder_next \<lparr> dec_words = ws, dec_pos = i + j, dec_done = b \<rparr> =
   map_option (\<lambda>(p, d). (p, \<lparr> dec_words = ws, dec_pos = i + dec_pos d, dec_done = dec_done d \<rparr>))
     (decoder_next \<lparr> dec_words = drop i ws, dec_pos = j, dec_done = b \<rparr>)"
  if "i \<le> length ws"
  using that
  by (auto simp: decoder_next_def Let_def slice_def add.assoc split: pm4_type.splits)
    (simp_all add: add.commute)

lemma drain_shift:
  "i \<le> length ws \<Longrightarrow> drain \<lparr> dec_words = ws, dec_pos = i + dec_pos d, dec_done = dec_done d \<rparr> = drain d"
  if "dec_words d = drop i ws"
  using that
proof (induction d rule: drain.induct)
  case (1 d)
  have d: "d = \<lparr> dec_words = drop i ws, dec_pos = dec_pos d, dec_done = dec_done d \<rparr>"
    using "1.prems" by simp
  note shift = decoder_next_shift[OF "1.prems"(1), of "dec_pos d" "dec_done d", folded d]
  show ?case
  proof (cases "decoder_next d")
    case None
    then show ?thesis using shift by (simp add: drain.simps)
  next
    case (Some pd)
    obtain p d' where pd: "pd = (p, d')" by (cases pd)
    have "dec_words d' = dec_words d"
      using Some pd by (auto simp: decoder_next_def Let_def split: if_splits pm4_type.splits)
    then show ?thesis
      using "1.IH"[OF Some pd[symmetric]] "1.prems" shift Some pd
      by (subst (1 2) drain.simps) simp
  qed
qed

lemma drain_at:
  "i \<le> length ws \<Longrightarrow> drain \<lparr> dec_words = ws, dec_pos = i, dec_done = False \<rparr> = pm4_decode (drop i ws)"
  using drain_shift[of "decoder_new (drop i ws)" i ws] by (simp add: pm4_decode_def decoder_new_def)

lemma pm4_decode_pkt: "pkt_wf p \<Longrightarrow> pm4_decode (pkt_dwords p @ rest) = p # pm4_decode rest"
  using decoder_next_pkt[of p "[]" rest]
  by (simp add: pm4_decode_def decoder_new_def drain.simps[of "\<lparr> dec_words = _, dec_pos = 0, dec_done = False \<rparr>"]
      drain_at)

lemma pm4_decode_Nil: "pm4_decode [] = []"
  by (simp add: pm4_decode_def decoder_new_def drain.simps decoder_next_def)

section \<open>Self-delimiting streams\<close>

locale framed_stream =
  fixes enc :: "'p \<Rightarrow> 'w list"
    and wf :: "'p \<Rightarrow> bool"
    and dec :: "'w list \<Rightarrow> 'p list"
  assumes dec_Nil: "dec [] = []"
    and dec_step: "wf p \<Longrightarrow> dec (enc p @ rest) = p # dec rest"
begin

lemma dec_concat: "(\<And>p. p \<in> set ps \<Longrightarrow> wf p) \<Longrightarrow> dec (concat (map enc ps) @ rest) = ps @ dec rest"
  by (induction ps) (auto simp: dec_step)

lemma dec_enc: "(\<And>p. p \<in> set ps \<Longrightarrow> wf p) \<Longrightarrow> dec (concat (map enc ps)) = ps"
  using dec_concat[of ps "[]"] by (simp add: dec_Nil)

text \<open>A stream of well-formed packets parses in one way only.\<close>

lemma enc_unique:
  assumes "\<And>p. p \<in> set ps \<Longrightarrow> wf p" and "\<And>p. p \<in> set qs \<Longrightarrow> wf p"
    and same: "concat (map enc ps) = concat (map enc qs)"
  shows "ps = qs"
proof -
  have "ps = dec (concat (map enc ps))" using assms(1) by (rule dec_enc[symmetric])
  also have "\<dots> = qs" unfolding same using assms(2) by (rule dec_enc)
  finally show ?thesis .
qed

end

interpretation pm4: framed_stream pkt_dwords pkt_wf pm4_decode
  by unfold_locales (simp_all add: pm4_decode_Nil pm4_decode_pkt)

section \<open>The walk of any buffer\<close>

lemma pm4_decode_Cons:
  "pm4_decode (h # t) =
     (let n = unat (ucast (drop_bit 16 h AND 0x3FFF) :: u16) + 1 in
      case header_type h of
        HType2 \<Rightarrow> Type2 # pm4_decode t
      | HType1 \<Rightarrow> [Truncated h]
      | HType3 \<Rightarrow> (if n \<le> length t
          then Type3 (ucast (drop_bit 8 h AND 0xFF)) (of_nat n) (take n t) # pm4_decode (drop n t)
          else [Truncated h])
      | HType0 \<Rightarrow> (if n \<le> length t
          then Type0 (ucast (h AND 0xFFFF)) (of_nat n) (take n t) # pm4_decode (drop n t)
          else [Truncated h]))"
proof -
  have stop: "drain \<lparr> dec_words = h # t, dec_pos = 0, dec_done = True \<rparr> = []"
    by (simp add: drain.simps decoder_next_def)
  note at = drain_at[of _ "h # t"]
  show ?thesis
    unfolding pm4_decode_def[of "h # t"] decoder_new_def
    by (subst drain.simps)
      (auto simp: decoder_next_def Let_def slice_def stop at split: pm4_type.splits)
qed

lemma count_bound: "unat (ucast (drop_bit 16 h AND (0x3FFF :: u32)) :: u16) < 0x4000"
proof -
  have "drop_bit 16 h AND (0x3FFF :: u32) = take_bit 14 (drop_bit 16 h)"
    by (simp add: take_bit_eq_mask mask_eq_exp_minus_1)
  moreover have "unat (ucast (take_bit 14 x :: u32) :: u16) < 2 ^ 14" for x
    using take_bit_nat_less_exp[of 14 "unat x"] by (simp add: unsigned_ucast_eq unsigned_take_bit_eq)
  ultimately show ?thesis by simp
qed

text \<open>What a packet says of the chunk of dwords it was read from.\<close>

definition reads_chunk :: "pm4_packet \<Rightarrow> u32 list \<Rightarrow> bool" where
  "reads_chunk p c \<longleftrightarrow> pkt_wf p \<and> (case (p, c) of
       (Type3 opc _ body, h # t) \<Rightarrow> header_type h = HType3 \<and> opc = ucast (drop_bit 8 h AND 0xFF) \<and> t = body
     | (Type0 base _ body, h # t) \<Rightarrow> header_type h = HType0 \<and> base = ucast (h AND 0xFFFF) \<and> t = body
     | (Type2, [h]) \<Rightarrow> header_type h = HType2
     | _ \<Rightarrow> False)"

lemma pm4_decode_chunks:
  "\<exists>ps cs tail. ws = concat cs @ tail \<and> list_all2 reads_chunk ps cs \<and>
     (tail = [] \<and> pm4_decode ws = ps \<or>
      (\<exists>h t. tail = h # t \<and> pm4_decode ws = ps @ [Truncated h]))"
proof (induction "length ws" arbitrary: ws rule: less_induct)
  case less
  have extend: ?case if c: "reads_chunk p c" "ws = c @ rest" "pm4_decode ws = p # pm4_decode rest"
    for p c rest
  proof -
    have "c \<noteq> []" using c(1) by (auto simp: reads_chunk_def split: pm4_packet.splits)
    then obtain ps cs tail where ih: "rest = concat cs @ tail" "list_all2 reads_chunk ps cs"
      "tail = [] \<and> pm4_decode rest = ps \<or> (\<exists>h t. tail = h # t \<and> pm4_decode rest = ps @ [Truncated h])"
      using less[of rest] c(2) by auto
    show ?thesis
      using ih c by (intro exI[of _ "p # ps"] exI[of _ "c # cs"] exI[of _ tail]) auto
  qed
  have stop: ?case if "ws = h # t" "pm4_decode ws = [Truncated h]" for h t
    using that by (intro exI[of _ "[]"] exI[of _ ws]) simp
  show ?case
  proof (cases ws)
    case Nil
    then show ?thesis by (intro exI[of _ "[]"]) (simp add: pm4_decode_Nil)
  next
    case (Cons h t)
    define n where "n = unat (ucast (drop_bit 16 h AND 0x3FFF) :: u16) + 1"
    have n: "1 \<le> n" "n \<le> 0x4000" using count_bound[of h] by (auto simp: n_def)
    note eq = pm4_decode_Cons[of h t, folded n_def, simplified Let_def]
    show ?thesis
    proof (cases "header_type h")
      case HType1
      then show ?thesis using stop[OF Cons] eq Cons by simp
    next
      case HType2
      then show ?thesis using extend[of Type2 "[h]" t] eq Cons by (simp add: reads_chunk_def pkt_wf_def)
    next
      case HType0
      then show ?thesis
        using extend[of "Type0 (ucast (h AND 0xFFFF)) (of_nat n) (take n t)" "h # take n t" "drop n t"]
          stop[OF Cons] eq Cons n by (cases "n \<le> length t") (simp_all add: reads_chunk_def pkt_wf_def)
    next
      case HType3
      then show ?thesis
        using extend[of "Type3 (ucast (drop_bit 8 h AND 0xFF)) (of_nat n) (take n t)" "h # take n t" "drop n t"]
          stop[OF Cons] eq Cons n by (cases "n \<le> length t") (simp_all add: reads_chunk_def pkt_wf_def)
    qed
  qed
qed

section \<open>What the builders emit\<close>

definition run_packet :: "reg_run \<Rightarrow> pm4_packet" where
  "run_packet rr = Type3 (the (run_opcode (run_bank rr))) (of_nat (1 + length (run_values rr)))
     (run_offset rr # run_values rr)"

definition nop_packet :: "nat \<Rightarrow> pm4_packet" where
  "nop_packet n = Type3 IT_NOP (of_nat n) (replicate n 0)"

definition run_ok :: "reg_run \<Rightarrow> bool" where
  "run_ok rr \<longleftrightarrow> run_opcode (run_bank rr) \<noteq> None \<and> length (run_values rr) \<le> 2"

lemma nop_packet_wf: "1 \<le> n \<Longrightarrow> n \<le> 0x4000 \<Longrightarrow> pkt_wf (nop_packet n)"
  by (simp add: pkt_wf_def nop_packet_def)

lemma run_packet_wf: "run_ok rr \<Longrightarrow> pkt_wf (run_packet rr)"
  by (simp add: pkt_wf_def run_packet_def run_ok_def)

lemma run_packet_dwords:
  "pkt_dwords (run_packet rr) = t3_header (the (run_opcode (run_bank rr))) (1 + length (run_values rr))
     # run_offset rr # run_values rr"
  by (simp add: run_packet_def pkt_dwords_def)

lemma emit_runs_packets:
  "(\<And>rr. rr \<in> set rs \<Longrightarrow> run_ok rr) \<Longrightarrow>
   emit_runs rs = Some (concat (map pkt_dwords (map run_packet rs)))"
proof (induction rs)
  case (Cons rr rs)
  moreover obtain opc where "run_opcode (run_bank rr) = Some opc"
    using Cons.prems[of rr] by (auto simp: run_ok_def)
  ultimately show ?case by (simp add: run_packet_dwords)
qed simp

lemma emit_runs_length:
  "emit_runs rs = Some out \<Longrightarrow> length out = sum_list (map run_dwords rs)"
  by (induction rs arbitrary: out) (auto simp: run_dwords_def split: option.splits)

lemma emit_shader_set_packets:
  assumes "\<And>rr. rr \<in> set rs \<Longrightarrow> run_ok rr"
  shows "emit_shader_set rs =
    Some (concat (map pkt_dwords (map run_packet rs @ [nop_packet NOP_DATA_BLOCK])))"
proof -
  note e = emit_runs_packets[OF assms]
  show ?thesis
    using e emit_runs_length[OF e]
    by (simp add: emit_shader_set_def Let_def nop_packet_def pkt_dwords_def NOP_DATA_BLOCK_def)
qed

lemma emit_shader_set_decode:
  assumes ok: "\<And>rr. rr \<in> set rs \<Longrightarrow> run_ok rr"
  shows "\<exists>out. emit_shader_set rs = Some out \<and> length out = sum_list (map run_dwords rs) + 12 \<and>
     pm4_decode (out @ rest) = map run_packet rs @ nop_packet 11 # pm4_decode rest"
proof -
  let ?ps = "map run_packet rs @ [nop_packet NOP_DATA_BLOCK]"
  have "pkt_wf p" if "p \<in> set ?ps" for p
    using that ok by (auto intro: run_packet_wf nop_packet_wf simp: NOP_DATA_BLOCK_def)
  then have "pm4_decode (concat (map pkt_dwords ?ps) @ rest) = ?ps @ pm4_decode rest"
    by (rule pm4.dec_concat)
  moreover have "length (concat (map pkt_dwords (map run_packet rs))) = sum_list (map run_dwords rs)"
    using emit_runs_length[OF emit_runs_packets[OF ok]] .
  ultimately show ?thesis
    using emit_shader_set_packets[OF ok]
    by (simp add: NOP_DATA_BLOCK_def nop_packet_def pkt_dwords_def)
qed

lemmas run_simps = run1_def run2_def run_def run_values_def run_dwords_def run_ok_def run_opcode_def
  run_packet_def shader_pgm_lohi_def

lemma vs_runs_ok: "rr \<in> set (vs_runs regs) \<Longrightarrow> run_ok rr"
  by (auto simp: vs_runs_def run_simps)

lemma ps_runs_ok: "rr \<in> set (ps_runs regs) \<Longrightarrow> run_ok rr"
  by (auto simp: ps_runs_def run_simps)

lemma dwords_of_bytes_le:
  "length tail < 4 \<Longrightarrow> dwords_of_bytes (concat (map u32_bytes ws) @ tail) = ws"
proof (induction ws)
  case Nil
  then show ?case by (cases tail rule: dwords_of_bytes.cases) auto
qed (simp add: u32_bytes_def)

section \<open>Properties\<close>


text \<open>
  C9. The walk inverts the packet format: a buffer that is the concatenation of the dwords of
  well-formed packets decodes to exactly those packets, whatever follows decodes as if it stood
  alone, and no other list of packets has the same dwords.
\<close>

theorem pm4_decode_roundtrip:
  assumes "\<And>p. p \<in> set ps \<Longrightarrow> pkt_wf p"
  shows "pm4_decode (concat (map pkt_dwords ps) @ rest) = ps @ pm4_decode rest \<and>
     (\<forall>qs. (\<forall>q \<in> set qs. pkt_wf q) \<and> concat (map pkt_dwords qs) = concat (map pkt_dwords ps) \<longrightarrow> qs = ps)"
  using pm4.dec_concat[OF assms, of ps] pm4.enc_unique[OF _ assms] by blast

theorem pm4_decode_roundtrip_witness:
  "pm4_decode (concat (map pkt_dwords [Type3 IT_NOP 2 [7, 9], Type2]) @ [0x40000000]) =
     [Type3 IT_NOP 2 [7, 9], Type2, Truncated 0x40000000]"
proof -
  have "pkt_wf p" if "p \<in> set [Type3 IT_NOP 2 [7, 9], Type2]" for p
    using that by (auto simp: pkt_wf_def)
  moreover have "pm4_decode [0x40000000] = [Truncated 0x40000000]"
    by (simp add: pm4_decode_Cons header_type_def)
  ultimately show ?thesis
    using pm4_decode_roundtrip[of "[Type3 IT_NOP 2 [7, 9], Type2]" "[0x40000000]"] by simp
qed

text \<open>
  For every register block, a short one included, the vertex builder emits the documented 29
  dwords, and the walk reads them back as two SH and three CONTEXT register runs with the block's
  fields, the high program address forced to zero, then the 11-dword NOP, and continues exactly at
  whatever follows. The pixel builder does the same with 40 dwords.
\<close>

theorem shader_set_streams:
  "(\<exists>out. set_vs_shader vs = Some out \<and> length out = SET_VS_SHADER_DWORDS \<and>
     pm4_decode (out @ rest) =
       [Type3 IT_SET_SH_REG 3 [0x48, reg_at vs 0, 0],
        Type3 IT_SET_SH_REG 3 [0x4A, reg_at vs 2, reg_at vs 3],
        Type3 IT_SET_CONTEXT_REG 2 [0x207, reg_at vs 6],
        Type3 IT_SET_CONTEXT_REG 2 [0x1B1, reg_at vs 4],
        Type3 IT_SET_CONTEXT_REG 2 [0x1C3, reg_at vs 5],
        nop_packet 11] @ pm4_decode rest) \<and>
   (\<exists>out. set_ps_shader ps = Some out \<and> length out = SET_PS_SHADER_DWORDS \<and>
     pm4_decode (out @ rest) =
       [Type3 IT_SET_SH_REG 3 [0x08, reg_at ps 0, 0],
        Type3 IT_SET_SH_REG 3 [0x0A, reg_at ps 2, reg_at ps 3],
        Type3 IT_SET_CONTEXT_REG 3 [0x1C4, reg_at ps 4, reg_at ps 5],
        Type3 IT_SET_CONTEXT_REG 3 [0x1B3, reg_at ps 6, reg_at ps 7],
        Type3 IT_SET_CONTEXT_REG 2 [0x1B6, reg_at ps 8],
        Type3 IT_SET_CONTEXT_REG 2 [0x1B8, reg_at ps 9],
        Type3 IT_SET_CONTEXT_REG 2 [0x203, reg_at ps 10],
        Type3 IT_SET_CONTEXT_REG 2 [0x08F, reg_at ps 11],
        nop_packet 11] @ pm4_decode rest)"
proof -
  have "map run_packet (vs_runs vs) =
       [Type3 IT_SET_SH_REG 3 [0x48, reg_at vs 0, 0],
        Type3 IT_SET_SH_REG 3 [0x4A, reg_at vs 2, reg_at vs 3],
        Type3 IT_SET_CONTEXT_REG 2 [0x207, reg_at vs 6],
        Type3 IT_SET_CONTEXT_REG 2 [0x1B1, reg_at vs 4],
        Type3 IT_SET_CONTEXT_REG 2 [0x1C3, reg_at vs 5]]"
    and "sum_list (map run_dwords (vs_runs vs)) = 17"
    by (simp_all add: vs_runs_def run_simps base_defs reg_defs)
  moreover have "map run_packet (ps_runs ps) =
       [Type3 IT_SET_SH_REG 3 [0x08, reg_at ps 0, 0],
        Type3 IT_SET_SH_REG 3 [0x0A, reg_at ps 2, reg_at ps 3],
        Type3 IT_SET_CONTEXT_REG 3 [0x1C4, reg_at ps 4, reg_at ps 5],
        Type3 IT_SET_CONTEXT_REG 3 [0x1B3, reg_at ps 6, reg_at ps 7],
        Type3 IT_SET_CONTEXT_REG 2 [0x1B6, reg_at ps 8],
        Type3 IT_SET_CONTEXT_REG 2 [0x1B8, reg_at ps 9],
        Type3 IT_SET_CONTEXT_REG 2 [0x203, reg_at ps 10],
        Type3 IT_SET_CONTEXT_REG 2 [0x08F, reg_at ps 11]]"
    and "sum_list (map run_dwords (ps_runs ps)) = 28"
    by (simp_all add: ps_runs_def run_simps base_defs reg_defs)
  ultimately show ?thesis
    using emit_shader_set_decode[of "vs_runs vs" rest, OF vs_runs_ok]
      emit_shader_set_decode[of "ps_runs ps" rest, OF ps_runs_ok]
    by (auto simp: set_vs_shader_def set_ps_shader_def SET_VS_SHADER_DWORDS_def SET_PS_SHADER_DWORDS_def)
qed

text \<open>
  Padding a packet to the slot the guest reserved: whenever the slot is larger than the packet
  by at most the widest filler, the result fills the slot exactly and the walk reads the packet, one
  filler that does nothing, and then what follows the slot; otherwise the packet is returned as it is.
\<close>

theorem pad_to_reserved_fills_slot:
  fixes reserved :: u32
  assumes wf: "\<And>p. p \<in> set ps \<Longrightarrow> pkt_wf p" and packet: "packet = concat (map pkt_dwords ps)"
  defines "out \<equiv> pad_to_reserved packet reserved"
  shows "if length packet < unat reserved \<and> unat reserved \<le> length packet + 16385
     then length out = unat reserved \<and>
       (\<exists>filler. (filler = Type2 \<or> (\<exists>n. filler = nop_packet n)) \<and>
          pm4_decode (out @ rest) = ps @ filler # pm4_decode rest)
     else out = packet"
proof (cases "length packet < unat reserved \<and> unat reserved \<le> length packet + 16385")
  case False
  then show ?thesis by (auto simp: out_def pad_to_reserved_def Let_def MAX_NOP_FILL_DWORDS_def)
next
  case True
  define gap where "gap = unat reserved - length packet"
  define filler where "filler = (if gap = 1 then Type2 else nop_packet (gap - 1))"
  have gap: "1 \<le> gap" "gap \<le> 16385" using True by (auto simp: gap_def)
  then have wf_f: "pkt_wf filler" by (auto simp: filler_def nop_packet_wf) (simp add: pkt_wf_def)
  have "out = packet @ pkt_dwords filler"
    using True gap unfolding out_def pad_to_reserved_def Let_def gap_def[symmetric]
    by (auto simp: MAX_NOP_FILL_DWORDS_def filler_def nop_packet_def pkt_dwords_def)
  then have out: "out = concat (map pkt_dwords (ps @ [filler]))" by (simp add: packet)
  have "length (pkt_dwords filler) = gap" using gap by (auto simp: filler_def nop_packet_def pkt_dwords_def)
  then have "length out = unat reserved" using True by (simp add: out packet gap_def)
  moreover have "pm4_decode (out @ rest) = ps @ filler # pm4_decode rest"
    unfolding out using pm4.dec_concat[of "ps @ [filler]" rest] wf wf_f by auto
  moreover have "filler = Type2 \<or> (\<exists>n. filler = nop_packet n)" by (auto simp: filler_def)
  ultimately show ?thesis using True by auto
qed

theorem pad_to_reserved_fills_slot_witness:
  "length (pad_to_reserved (draw_index_auto 3) 5) = 5"
proof -
  have "draw_index_auto 3 = concat (map pkt_dwords [Type3 IT_DRAW_INDEX_AUTO 2 [3, 0]])"
    by (simp add: draw_index_auto_def pkt_dwords_def numeral_2_eq_2)
  moreover have "pkt_wf p" if "p \<in> set [Type3 IT_DRAW_INDEX_AUTO 2 [3, 0]]" for p
    using that by (simp add: pkt_wf_def)
  moreover have "length (draw_index_auto 3) = 3" by (simp add: draw_index_auto_def)
  ultimately show ?thesis
    using pad_to_reserved_fills_slot[of "[Type3 IT_DRAW_INDEX_AUTO 2 [3, 0]]" "draw_index_auto 3" 5] by simp
qed

text \<open>
  The byte entry point reads the little-endian dwords of the buffer and ignores a tail shorter
  than a dword.
\<close>

theorem decode_bytes_of_dwords:
  assumes "length tail < 4"
  shows "decode_bytes (concat (map u32_bytes ws) @ tail) = pm4_decode ws"
  using dwords_of_bytes_le[OF assms] by (simp add: decode_bytes_def)

theorem decode_bytes_of_dwords_witness:
  "decode_bytes (concat (map u32_bytes [0xC0001000, 5]) @ [1, 2, 3]) = [Type3 0x10 1 [5]]"
  using decode_bytes_of_dwords[of "[1, 2, 3]" "[0xC0001000, 5]"]
  by (simp add: pm4_decode_Cons header_type_def pm4_decode_Nil)

end
