(* ===== verification/Gpu_State.thy ===== *)
theory Gpu_State
  imports Pm4
begin

unbundle bit_operations_syntax

text \<open>
  The GPU shadow state (\<^verbatim>\<open>gnm/src/state.rs\<close>): the sparse register banks, the bound-shader view
  derived from them, the registry of render targets; the packet walk that drives it
  (\<^verbatim>\<open>gnm/src/exec.rs\<close>, the present mode, in which draws are decoded and skipped) with the index
  state and the packet decoders of the sync arms; \<^verbatim>\<open>pgm_addr\<close> of \<^verbatim>\<open>shader/sb.rs\<close> and the pixel
  input map of \<^verbatim>\<open>gcn/src/recompile.rs\<close>. The snapshot recorder is not part of the model.
\<close>

section \<open>Register banks\<close>

type_synonym reg_file = "u32 \<rightharpoonup> u32"

definition reg_set :: "reg_file \<Rightarrow> u32 \<Rightarrow> u32 \<Rightarrow> reg_file" where
  "reg_set rf index value = rf(index \<mapsto> value)"

definition reg_get :: "reg_file \<Rightarrow> u32 \<Rightarrow> u32 option" where
  "reg_get rf index = rf index"

definition reg_clear :: "reg_file \<Rightarrow> reg_file" where
  "reg_clear rf = Map.empty"

lemmas reg_file_defs = reg_set_def reg_get_def reg_clear_def

section \<open>Shaders\<close>

datatype stage = Vertex | Pixel

record gcn_resources =
  res_num_vgprs :: u32
  res_num_sgprs :: u32
  res_num_user_sgprs :: u32
  res_fetch_addr :: "u64 option"

text \<open>\<^verbatim>\<open>PsInputMap\<close>: for each of the 32 attribute slots the export parameter that feeds it.\<close>

definition PS_INPUT_SLOTS :: nat where "PS_INPUT_SLOTS = 32"

type_synonym ps_input_map = "u8 list"

definition from_offsets :: "u8 list \<Rightarrow> ps_input_map" where
  "from_offsets offsets = map (\<lambda>v. v AND 0x1F) offsets"

definition location_for :: "ps_input_map \<Rightarrow> u8 \<Rightarrow> u32" where
  "location_for m attr = (if unat attr < length m then ucast (m ! unat attr) else ucast attr)"

definition ps_input_default :: ps_input_map where
  "ps_input_default = map (\<lambda>n. of_nat n) [0..<PS_INPUT_SLOTS]"

datatype shader_ref =
    Embedded stage u32
  | GcnBinary u64 gcn_resources ps_input_map

record bound_shaders =
  bound_vs :: "shader_ref option"
  bound_ps :: "shader_ref option"

definition bound_set :: "bound_shaders \<Rightarrow> stage \<Rightarrow> shader_ref \<Rightarrow> bound_shaders" where
  "bound_set b st r = (case st of Vertex \<Rightarrow> b\<lparr>bound_vs := Some r\<rparr> | Pixel \<Rightarrow> b\<lparr>bound_ps := Some r\<rparr>)"

definition bound_clear :: "bound_shaders \<Rightarrow> stage \<Rightarrow> bound_shaders" where
  "bound_clear b st = (case st of Vertex \<Rightarrow> b\<lparr>bound_vs := None\<rparr> | Pixel \<Rightarrow> b\<lparr>bound_ps := None\<rparr>)"

definition bound_get :: "bound_shaders \<Rightarrow> stage \<Rightarrow> shader_ref option" where
  "bound_get b st = (case st of Vertex \<Rightarrow> bound_vs b | Pixel \<Rightarrow> bound_ps b)"

section \<open>Render targets\<close>

record 'desc registered_rt =
  rt_base :: u64
  rt_size :: u64
  rt_desc :: 'desc

text \<open>Record or refresh: the first entry with the base is overwritten in place.\<close>

fun rt_register :: "'desc registered_rt list \<Rightarrow> 'desc registered_rt \<Rightarrow> 'desc registered_rt list" where
  "rt_register [] rt = [rt]"
| "rt_register (r # rs) rt = (if rt_base r = rt_base rt then rt # rs else r # rt_register rs rt)"

definition rt_lookup :: "'desc registered_rt list \<Rightarrow> u64 \<Rightarrow> u64 \<Rightarrow> 'desc registered_rt option" where
  "rt_lookup rts tex_base tex_size =
     List.find (\<lambda>rt. rt_base rt = tex_base \<and> tex_size \<le> rt_size rt) rts"

section \<open>The state\<close>

record 'desc gpu_state =
  ctx_regs :: reg_file
  sh_regs :: reg_file
  uconfig_regs :: reg_file
  config_regs :: reg_file
  shaders :: bound_shaders
  render_targets :: "'desc registered_rt list"

definition gpu_default :: "'desc gpu_state" where
  "gpu_default = \<lparr> ctx_regs = Map.empty, sh_regs = Map.empty, uconfig_regs = Map.empty,
     config_regs = Map.empty, shaders = \<lparr> bound_vs = None, bound_ps = None \<rparr>, render_targets = [] \<rparr>"

text \<open>\<^verbatim>\<open>bank_mut\<close>: update the bank of a register window, CONFIG for any other base.\<close>

definition bank_mut :: "u32 \<Rightarrow> (reg_file \<Rightarrow> reg_file) \<Rightarrow> 'desc gpu_state \<Rightarrow> 'desc gpu_state" where
  "bank_mut base f s =
     (if base = CONTEXT_BASE then s\<lparr>ctx_regs := f (ctx_regs s)\<rparr>
      else if base = SH_BASE then s\<lparr>sh_regs := f (sh_regs s)\<rparr>
      else if base = UCONFIG_BASE then s\<lparr>uconfig_regs := f (uconfig_regs s)\<rparr>
      else s\<lparr>config_regs := f (config_regs s)\<rparr>)"

fun set_values :: "u32 \<Rightarrow> u32 list \<Rightarrow> reg_file \<Rightarrow> reg_file" where
  "set_values start [] rf = rf"
| "set_values start (v # vs) rf = set_values (start + 1) vs (reg_set rf start v)"

definition apply_set_reg :: "u32 \<Rightarrow> u32 list \<Rightarrow> 'desc gpu_state \<Rightarrow> 'desc gpu_state" where
  "apply_set_reg base body s =
     (case body of [] \<Rightarrow> s | offset # values \<Rightarrow> bank_mut base (set_values (base + offset) values) s)"

definition clear_regs :: "'desc gpu_state \<Rightarrow> 'desc gpu_state" where
  "clear_regs s = s\<lparr> ctx_regs := reg_clear (ctx_regs s), sh_regs := reg_clear (sh_regs s),
     uconfig_regs := reg_clear (uconfig_regs s), config_regs := reg_clear (config_regs s) \<rparr>"

definition bind_embedded_shader :: "stage \<Rightarrow> u32 \<Rightarrow> 'desc gpu_state \<Rightarrow> 'desc gpu_state" where
  "bind_embedded_shader st i s = s\<lparr>shaders := bound_set (shaders s) st (Embedded st i)\<rparr>"

definition unbind_embedded_shader :: "stage \<Rightarrow> 'desc gpu_state \<Rightarrow> 'desc gpu_state" where
  "unbind_embedded_shader st s = s\<lparr>shaders := bound_clear (shaders s) st\<rparr>"

definition pgm_addr :: "u32 \<Rightarrow> u32 \<Rightarrow> u64" where
  "pgm_addr pgm_lo pgm_hi = push_bit 8 (push_bit 32 (ucast pgm_hi) OR ucast pgm_lo)"

definition fetch_addr :: "'desc gpu_state \<Rightarrow> u64 option" where
  "fetch_addr s =
     (case (reg_get (sh_regs s) SPI_SHADER_USER_DATA_VS_0, reg_get (sh_regs s) (SPI_SHADER_USER_DATA_VS_0 + 1)) of
        (Some l, Some h) \<Rightarrow>
          (let ptr = ucast l OR push_bit 32 (ucast h) in if ptr \<noteq> 0 then Some ptr else None)
      | _ \<Rightarrow> None)"

definition ps_offsets :: "'desc gpu_state \<Rightarrow> u8 list" where
  "ps_offsets s = map (\<lambda>n. case reg_get (ctx_regs s) (SPI_PS_INPUT_CNTL_0 + of_nat n) of
      Some v \<Rightarrow> ucast v | None \<Rightarrow> of_nat n) [0..<PS_INPUT_SLOTS]"

definition unwrap_or_0 :: "u32 option \<Rightarrow> u32" where
  "unwrap_or_0 x = (case x of Some v \<Rightarrow> v | None \<Rightarrow> 0)"

definition gcn_ref_from_regs ::
  "'desc gpu_state \<Rightarrow> stage \<Rightarrow> u32 \<Rightarrow> u32 \<Rightarrow> u32 \<Rightarrow> u32 \<Rightarrow> shader_ref option" where
  "gcn_ref_from_regs s st lo hi rsrc1 rsrc2 =
     (case (reg_get (sh_regs s) lo, reg_get (sh_regs s) hi) of
        (Some pgm_lo, Some pgm_hi) \<Rightarrow>
          (let r1 = unwrap_or_0 (reg_get (sh_regs s) rsrc1);
               r2 = unwrap_or_0 (reg_get (sh_regs s) rsrc2)
           in Some (GcnBinary (pgm_addr pgm_lo pgm_hi)
                \<lparr> res_num_vgprs = num_vgprs r1, res_num_sgprs = num_sgprs r1,
                  res_num_user_sgprs = num_user_sgprs r2,
                  res_fetch_addr = (if st = Vertex then fetch_addr s else None) \<rparr>
                (if st = Pixel then from_offsets (ps_offsets s) else ps_input_default)))
      | _ \<Rightarrow> None)"

definition is_embedded :: "shader_ref option \<Rightarrow> bool" where
  "is_embedded r = (case r of Some (Embedded _ _) \<Rightarrow> True | _ \<Rightarrow> False)"

definition derive_stage ::
  "'desc gpu_state \<Rightarrow> stage \<times> u32 \<times> u32 \<times> u32 \<times> u32 \<Rightarrow> bound_shaders \<Rightarrow> bound_shaders" where
  "derive_stage s entry out =
     (case entry of (st, lo, hi, rsrc1, rsrc2) \<Rightarrow>
        if is_embedded (bound_get out st) then out
        else case gcn_ref_from_regs s st lo hi rsrc1 rsrc2 of
               Some r \<Rightarrow> bound_set out st r
             | None \<Rightarrow> out)"

definition derive_bound_shaders :: "'desc gpu_state \<Rightarrow> bound_shaders" where
  "derive_bound_shaders s = fold (derive_stage s)
     [(Vertex, SPI_SHADER_PGM_LO_VS, SPI_SHADER_PGM_HI_VS, SPI_SHADER_PGM_RSRC1_VS, SPI_SHADER_PGM_RSRC2_VS),
      (Pixel, SPI_SHADER_PGM_LO_PS, SPI_SHADER_PGM_HI_PS, SPI_SHADER_PGM_RSRC1_PS, SPI_SHADER_PGM_RSRC2_PS)]
     (shaders s)"

section \<open>Index state\<close>

datatype index_type = U16 | U32

record index_state =
  ix_type :: index_type
  ix_base :: u64
  ix_instances :: u32
  ix_max_size :: u32

definition index_default :: index_state where
  "index_default = \<lparr> ix_type = U16, ix_base = 0, ix_instances = 0, ix_max_size = 0 \<rparr>"

definition ix_set_type :: "u32 list \<Rightarrow> index_state \<Rightarrow> index_state" where
  "ix_set_type body ix = ix\<lparr>ix_type := (if reg_at body 0 AND 0x3 = 1 then U32 else U16)\<rparr>"

definition ix_set_max_size :: "u32 list \<Rightarrow> index_state \<Rightarrow> index_state" where
  "ix_set_max_size body ix = ix\<lparr>ix_max_size := reg_at body 0\<rparr>"

definition clamp_count_at_offset :: "index_state \<Rightarrow> u32 \<Rightarrow> u32 \<Rightarrow> u32" where
  "clamp_count_at_offset ix count index_offset =
     (if ix_max_size ix = 0 then count
      else min count (saturating_sub (ix_max_size ix) index_offset))"

definition ix_set_base :: "u32 list \<Rightarrow> index_state \<Rightarrow> index_state" where
  "ix_set_base body ix = ix\<lparr>ix_base := ucast (reg_at body 0) OR push_bit 32 (ucast (reg_at body 1))\<rparr>"

definition ix_set_instances :: "u32 list \<Rightarrow> index_state \<Rightarrow> index_state" where
  "ix_set_instances body ix = ix\<lparr>ix_instances := (case body of [] \<Rightarrow> 1 | n # _ \<Rightarrow> n)\<rparr>"

section \<open>The packet walk\<close>

definition acquire_mem_range :: "u32 list \<Rightarrow> (u64 \<times> u64) option" where
  "acquire_mem_range body =
     (case body of
        cntl # size_lo # size_hi # base_lo # base_hi # poll # rest \<Rightarrow>
          (if cntl = 0 then None
           else if size_lo = - 1 then None
           else
             let sz = (push_bit 32 (ucast (size_hi AND 0xFF)) OR ucast size_lo) * 256;
                 base = (push_bit 32 (ucast (base_hi AND 0xFF)) OR ucast base_lo) * 256
             in if sz = 0 then None else Some (base, sz))
      | _ \<Rightarrow> None)"

definition label_addr :: "u32 \<Rightarrow> u32 \<Rightarrow> u64" where
  "label_addr addr_lo addr_hi_word = ucast addr_lo OR push_bit 32 (ucast (addr_hi_word AND 0xFFFF))"

datatype dma_request = Dma_Short | Dma_Register | Dma_Null | Dma_Copy (dma_src: u64) (dma_dst: u64) (dma_bytes: nat)

text \<open>What \<^verbatim>\<open>dispatch_dma_data\<close> decides before it touches memory.\<close>

definition dma_request_of :: "u32 list \<Rightarrow> dma_request" where
  "dma_request_of body =
     (case body of
        engine # src_lo # src_hi # dst_lo # dst_hi # command # rest \<Rightarrow>
          (let byte_count = unat (command AND 0x1FFFFF);
               src_is_reg = drop_bit 26 command AND 1 \<noteq> 0;
               dst_is_reg = drop_bit 27 command AND 1 \<noteq> 0
           in if src_is_reg \<or> dst_is_reg then Dma_Register
              else
                let src = ucast src_lo OR push_bit 32 (ucast src_hi);
                    dst = ucast dst_lo OR push_bit 32 (ucast dst_hi)
                in if src = 0 \<or> dst = 0 \<or> byte_count = 0 then Dma_Null else Dma_Copy src dst byte_count)
      | _ \<Rightarrow> Dma_Short)"

text \<open>The effects of a present-mode walk outside the register banks, in order.\<close>

datatype exec_effect =
    Eop_Label "u32 list"
  | Eos_Label "u32 list"
  | Dma dma_request
  | Invalidate_Range u64 u64

definition exec_packet :: "pm4_packet \<Rightarrow> 'desc gpu_state \<times> exec_effect list \<Rightarrow> 'desc gpu_state \<times> exec_effect list" where
  "exec_packet pkt st =
     (case (pkt, st) of
        (Type3 opc _ body, (s, effs)) \<Rightarrow>
          (if opc = IT_EVENT_WRITE_EOP then (s, effs @ [Eop_Label body])
           else if opc = IT_EVENT_WRITE_EOS then (s, effs @ [Eos_Label body])
           else if opc \<in> {IT_SET_CONTEXT_REG, IT_SET_SH_REG, IT_SET_UCONFIG_REG, IT_SET_CONFIG_REG} then
             (case set_reg_base opc of Some base \<Rightarrow> (apply_set_reg base body s, effs) | None \<Rightarrow> (s, effs))
           else if opc = IT_CLEAR_STATE then (clear_regs s, effs)
           else if opc = IT_DMA_DATA then (s, effs @ [Dma (dma_request_of body)])
           else if opc = IT_ACQUIRE_MEM then
             (case acquire_mem_range body of
                Some (base, sz) \<Rightarrow> (s, effs @ [Invalidate_Range base sz])
              | None \<Rightarrow> (s, effs))
           else (s, effs))
      | _ \<Rightarrow> st)"

definition exec_present :: "u32 list \<Rightarrow> u32 list \<Rightarrow> 'desc gpu_state \<Rightarrow> 'desc gpu_state \<times> exec_effect list" where
  "exec_present dcb ccb s = fold exec_packet (pm4_decode dcb @ pm4_decode ccb) (s, [])"

section \<open>Register runs\<close>

lemma set_values_get:
  "length vs < 2 ^ 32 \<Longrightarrow>
   set_values start vs rf i =
     (if unat (i - start) < length vs then Some (vs ! unat (i - start)) else rf i)"
proof (induction vs arbitrary: start rf)
  case Nil
  then show ?case by simp
next
  case (Cons v vs)
  show ?case
  proof (cases "i = start")
    case True
    have "unat (- 1 :: u32) = 2 ^ 32 - 1" by (simp add: unsigned_minus_1_eq_mask mask_eq_exp_minus_1)
    with True Cons show ?thesis by (simp add: reg_set_def)
  next
    case False
    then have "i - start \<noteq> 0" by simp
    then have "unat (i - start) = Suc (unat (i - (start + 1)))"
      using unat_minus_one[of "i - start"] by (simp add: diff_diff_eq[symmetric] unat_gt_0 Suc_leI)
    with False Cons show ?thesis by (simp add: reg_set_def)
  qed
qed

section \<open>Executing the emitted shader set\<close>

lemma exec_set_reg:
  "exec_packet (Type3 IT_SET_SH_REG c (off # vals)) (s, es) =
     (s\<lparr>sh_regs := set_values (SH_BASE + off) vals (sh_regs s)\<rparr>, es)"
  "exec_packet (Type3 IT_SET_CONTEXT_REG c (off # vals)) (s, es) =
     (s\<lparr>ctx_regs := set_values (CONTEXT_BASE + off) vals (ctx_regs s)\<rparr>, es)"
  by (simp_all add: exec_packet_def opcode_defs set_reg_base_def apply_set_reg_def bank_mut_def base_defs)

lemma exec_nop: "exec_packet (nop_packet n) st = st"
  by (cases st) (simp add: exec_packet_def nop_packet_def opcode_defs)

definition vs_program :: "u32 list \<Rightarrow> 'desc gpu_state \<Rightarrow> 'desc gpu_state" where
  "vs_program regs s = s\<lparr>
     sh_regs := (sh_regs s)(SPI_SHADER_PGM_LO_VS \<mapsto> reg_at regs 0, SPI_SHADER_PGM_HI_VS \<mapsto> 0,
       SPI_SHADER_PGM_RSRC1_VS \<mapsto> reg_at regs 2, SPI_SHADER_PGM_RSRC2_VS \<mapsto> reg_at regs 3),
     ctx_regs := (ctx_regs s)(PA_CL_VS_OUT_CNTL \<mapsto> reg_at regs 6, SPI_VS_OUT_CONFIG \<mapsto> reg_at regs 4,
       SPI_SHADER_POS_FORMAT \<mapsto> reg_at regs 5)\<rparr>"

definition ps_program :: "u32 list \<Rightarrow> 'desc gpu_state \<Rightarrow> 'desc gpu_state" where
  "ps_program regs s = s\<lparr>
     sh_regs := (sh_regs s)(SPI_SHADER_PGM_LO_PS \<mapsto> reg_at regs 0, SPI_SHADER_PGM_HI_PS \<mapsto> 0,
       SPI_SHADER_PGM_RSRC1_PS \<mapsto> reg_at regs 2, SPI_SHADER_PGM_RSRC2_PS \<mapsto> reg_at regs 3),
     ctx_regs := (ctx_regs s)(SPI_SHADER_Z_FORMAT \<mapsto> reg_at regs 4, SPI_SHADER_COL_FORMAT \<mapsto> reg_at regs 5,
       SPI_PS_INPUT_ENA \<mapsto> reg_at regs 6, SPI_PS_INPUT_ADDR \<mapsto> reg_at regs 7,
       SPI_PS_IN_CONTROL \<mapsto> reg_at regs 8, SPI_BARYC_CNTL \<mapsto> reg_at regs 9,
       DB_SHADER_CONTROL \<mapsto> reg_at regs 10, CB_SHADER_MASK \<mapsto> reg_at regs 11)\<rparr>"

lemma exec_vs_packets:
  "fold exec_packet
     [Type3 IT_SET_SH_REG 3 [0x48, reg_at vs 0, 0],
      Type3 IT_SET_SH_REG 3 [0x4A, reg_at vs 2, reg_at vs 3],
      Type3 IT_SET_CONTEXT_REG 2 [0x207, reg_at vs 6],
      Type3 IT_SET_CONTEXT_REG 2 [0x1B1, reg_at vs 4],
      Type3 IT_SET_CONTEXT_REG 2 [0x1C3, reg_at vs 5],
      nop_packet 11] (s, es) = (vs_program vs s, es)"
  by (simp add: exec_set_reg exec_nop vs_program_def reg_defs base_defs reg_set_def)

lemma exec_ps_packets:
  "fold exec_packet
     [Type3 IT_SET_SH_REG 3 [0x08, reg_at ps 0, 0],
      Type3 IT_SET_SH_REG 3 [0x0A, reg_at ps 2, reg_at ps 3],
      Type3 IT_SET_CONTEXT_REG 3 [0x1C4, reg_at ps 4, reg_at ps 5],
      Type3 IT_SET_CONTEXT_REG 3 [0x1B3, reg_at ps 6, reg_at ps 7],
      Type3 IT_SET_CONTEXT_REG 2 [0x1B6, reg_at ps 8],
      Type3 IT_SET_CONTEXT_REG 2 [0x1B8, reg_at ps 9],
      Type3 IT_SET_CONTEXT_REG 2 [0x203, reg_at ps 10],
      Type3 IT_SET_CONTEXT_REG 2 [0x08F, reg_at ps 11],
      nop_packet 11] (s, es) = (ps_program ps s, es)"
  by (simp add: exec_set_reg exec_nop ps_program_def reg_defs base_defs reg_set_def)

lemma exec_present_stream:
  "pm4_decode dcb = ps \<Longrightarrow> exec_present dcb [] s = fold exec_packet ps (s, [])"
  by (simp add: exec_present_def pm4_decode_Nil)

lemma derive_vs_after:
  "bound_vs (derive_bound_shaders (vs_program vs s)) =
     (if is_embedded (bound_vs (shaders s)) then bound_vs (shaders s)
      else Some (GcnBinary (push_bit 8 (ucast (reg_at vs 0)))
        \<lparr> res_num_vgprs = num_vgprs (reg_at vs 2), res_num_sgprs = num_sgprs (reg_at vs 2),
          res_num_user_sgprs = num_user_sgprs (reg_at vs 3), res_fetch_addr = fetch_addr s \<rparr>
        ps_input_default))"
  by (auto simp: derive_bound_shaders_def derive_stage_def bound_get_def bound_set_def vs_program_def
      gcn_ref_from_regs_def reg_get_def reg_defs base_defs pgm_addr_def unwrap_or_0_def fetch_addr_def
      Let_def split: option.splits)

lemma derive_ps_after:
  "bound_ps (derive_bound_shaders (ps_program ps s)) =
     (if is_embedded (bound_ps (shaders s)) then bound_ps (shaders s)
      else Some (GcnBinary (push_bit 8 (ucast (reg_at ps 0)))
        \<lparr> res_num_vgprs = num_vgprs (reg_at ps 2), res_num_sgprs = num_sgprs (reg_at ps 2),
          res_num_user_sgprs = num_user_sgprs (reg_at ps 3), res_fetch_addr = None \<rparr>
        (from_offsets (ps_offsets (ps_program ps s)))))"
  by (auto simp: derive_bound_shaders_def derive_stage_def bound_get_def bound_set_def ps_program_def
      gcn_ref_from_regs_def reg_get_def reg_defs base_defs pgm_addr_def unwrap_or_0_def
      Let_def split: option.splits)

lemma ps_offsets_after: "ps_offsets (ps_program ps s) = ps_offsets s"
proof -
  have "reg_get (ctx_regs (ps_program ps s)) (SPI_PS_INPUT_CNTL_0 + of_nat n) =
      reg_get (ctx_regs s) (SPI_PS_INPUT_CNTL_0 + of_nat n)" if "n < 32" for n
  proof -
    have "unat (SPI_PS_INPUT_CNTL_0 + of_nat n) = 0xA191 + n"
      using that by (subst unat_add_nowrap) (simp_all add: reg_defs base_defs unat_of_nat_small)
    then have "SPI_PS_INPUT_CNTL_0 + of_nat n \<noteq> w" if "unat w < 0xA191 \<or> 0xA1B0 < unat w" for w
      using that \<open>n < 32\<close> by auto
    then show ?thesis by (simp add: reg_get_def ps_program_def reg_defs base_defs)
  qed
  then show ?thesis by (simp add: ps_offsets_def PS_INPUT_SLOTS_def)
qed

text \<open>\<^verbatim>\<open>IT_CLEAR_STATE\<close> drops what the registers bound and keeps what was bound by id.\<close>

lemma derive_after_clear: "derive_bound_shaders (clear_regs s) = shaders s"
  by (simp add: derive_bound_shaders_def derive_stage_def gcn_ref_from_regs_def clear_regs_def reg_file_defs)

section \<open>Render-target registry\<close>

lemma rt_register_bases:
  "set (map rt_base (rt_register rts rt)) = insert (rt_base rt) (set (map rt_base rts))"
  "distinct (map rt_base rts) \<Longrightarrow> distinct (map rt_base (rt_register rts rt))"
  by (induction rts rt rule: rt_register.induct) auto

lemma rt_lookup_other: "b \<notin> set (map rt_base rts) \<Longrightarrow> rt_lookup rts b sz = None"
  by (induction rts) (auto simp: rt_lookup_def)

lemma rt_lookup_register:
  "distinct (map rt_base rts) \<Longrightarrow>
   rt_lookup (rt_register rts rt) b sz =
     (if b = rt_base rt then (if sz \<le> rt_size rt then Some rt else None) else rt_lookup rts b sz)"
proof (induction rts rt rule: rt_register.induct)
  case (1 rt)
  then show ?case by (simp add: rt_lookup_def)
next
  case (2 r rs rt)
  then show ?case using rt_lookup_other[of b rs sz] by (auto simp: rt_lookup_def)
qed

section \<open>Ranges named by packets\<close>

lemma unat_lt_if_bits: "(\<And>i. bit x i \<Longrightarrow> i < k) \<Longrightarrow> unat x < 2 ^ k" for x :: "'a::len word"
proof -
  assume "\<And>i. bit x i \<Longrightarrow> i < k"
  then have "take_bit k x = x" by (intro bit_word_eqI) (auto simp: bit_simps)
  then have "unat x = take_bit k (unat x)" by (metis unsigned_take_bit_eq)
  then show ?thesis by (metis take_bit_nat_less_exp)
qed

lemma unit_index_bound:
  "unat (push_bit 32 (ucast (h AND (0xFF :: u32))) OR ucast (l :: u32) :: u64) < 2 ^ 40"
proof (rule unat_lt_if_bits)
  have m: "(0xFF :: u32) = mask 8" by (simp add: mask_eq_exp_minus_1)
  fix i assume "bit (push_bit 32 (ucast (h AND (0xFF :: u32))) OR ucast (l :: u32) :: u64) i"
  then show "i < 40"
    unfolding m using bit_imp_le_length[of l i] by (auto simp: bit_simps)
qed

lemma times_256:
  fixes u :: u64
  assumes "unat u < 2 ^ 40"
  shows "unat (u * 256) = unat u * 256"
  using assms by (simp add: unat_word_ariths)

lemma drop_bit_and_1: "drop_bit n x AND 1 \<noteq> 0 \<longleftrightarrow> bit x n" for x :: u32
  by (simp add: and_one_eq bit_iff_odd_drop_bit odd_iff_mod_2_eq_one)

lemma acquire_mem_range_bound:
  assumes "acquire_mem_range body = Some (base, sz)"
  shows "sz \<noteq> 0 \<and> 256 dvd unat base \<and> 256 dvd unat sz \<and> unat base + unat sz < 2 ^ 49"
proof -
  obtain u v :: u64 where uv: "base = u * 256" "sz = v * 256" "sz \<noteq> 0" "unat u < 2 ^ 40" "unat v < 2 ^ 40"
    using assms
    by (auto simp: acquire_mem_range_def Let_def unit_index_bound[simplified] split: list.splits if_splits
        intro!: that)
  then show ?thesis using times_256[OF uv(4)] times_256[OF uv(5)] by simp
qed

lemma dma_request_of_Copy:
  assumes "dma_request_of body = Dma_Copy src dst n"
  shows "src \<noteq> 0 \<and> dst \<noteq> 0 \<and> 0 < n \<and> n < 2 ^ 21 \<and> \<not> bit (body ! 5) 26 \<and> \<not> bit (body ! 5) 27"
proof -
  have "unat (c AND (0x1FFFFF :: u32)) < 2 ^ 21" for c
    using take_bit_nat_less_exp[of 21 "unat c"] unsigned_take_bit_eq[of 21 c, where ?'a = nat]
    by (simp add: take_bit_eq_mask mask_eq_exp_minus_1)
  then show ?thesis
    using assms
    by (auto simp: dma_request_of_def Let_def drop_bit_and_1 unat_gt_0 split: list.splits if_splits)
qed

section \<open>Properties\<close>

text \<open>
  A register packet writes its values at consecutive indices of the bank its window names, index
  arithmetic wrapping at 32 bits, and leaves every other index of that bank, the other three banks,
  the bound shaders and the render targets as they were; a packet without an offset writes nothing.
\<close>

theorem apply_set_reg_writes_run:
  fixes off :: u32
  assumes "length vals < 2 ^ 32" and "set_reg_base opc = Some base"
  defines "start \<equiv> base + off"
  shows "let s' = apply_set_reg base (off # vals) s;
     upd = (\<lambda>rf i. if unat (i - start) < length vals then Some (vals ! unat (i - start)) else rf i)
   in apply_set_reg base [] s = s \<and>
     s' = (if opc = IT_SET_CONTEXT_REG then s\<lparr>ctx_regs := upd (ctx_regs s)\<rparr>
       else if opc = IT_SET_SH_REG then s\<lparr>sh_regs := upd (sh_regs s)\<rparr>
       else if opc = IT_SET_UCONFIG_REG then s\<lparr>uconfig_regs := upd (uconfig_regs s)\<rparr>
       else s\<lparr>config_regs := upd (config_regs s)\<rparr>)"
proof -
  have "set_values start vals rf =
      (\<lambda>i. if unat (i - start) < length vals then Some (vals ! unat (i - start)) else rf i)" for rf
    using set_values_get[OF assms(1)] by (simp add: fun_eq_iff)
  then show ?thesis
    using assms(2)
    by (auto simp: apply_set_reg_def bank_mut_def set_reg_base_def Let_def start_def base_defs opcode_defs
        split: if_splits)
qed

theorem apply_set_reg_writes_run_witness:
  "ctx_regs (apply_set_reg CONTEXT_BASE [0x10, 0xAA, 0xBB] (gpu_default :: unit gpu_state)) 0xA011 = Some 0xBB"
proof -
  have "set_reg_base IT_SET_CONTEXT_REG = Some CONTEXT_BASE"
    by (simp add: set_reg_base_def opcode_defs)
  then show ?thesis
    using apply_set_reg_writes_run[of "[0xAA, 0xBB]" IT_SET_CONTEXT_REG CONTEXT_BASE "0x10"
        "gpu_default :: unit gpu_state"]
    by (simp add: Let_def base_defs)
qed

text \<open>
  C10. Building the vertex-shader packets from a register block, decoding them and executing the walk
  programs exactly the seven registers of the block and nothing else, and the next draw then sees a
  GCN binary at the block's program address shifted by 8, with the register footprint of its
  resource words and the fetch pointer the user data held, unless an embedded shader is bound, which
  keeps precedence.
\<close>

theorem vs_shader_set_end_to_end:
  fixes s :: "'desc gpu_state"
  shows "\<exists>out. set_vs_shader vs = Some out \<and> exec_present out [] s = (vs_program vs s, []) \<and>
     bound_vs (derive_bound_shaders (vs_program vs s)) =
       (if is_embedded (bound_vs (shaders s)) then bound_vs (shaders s)
        else Some (GcnBinary (push_bit 8 (ucast (reg_at vs 0)))
          \<lparr> res_num_vgprs = num_vgprs (reg_at vs 2), res_num_sgprs = num_sgprs (reg_at vs 2),
            res_num_user_sgprs = num_user_sgprs (reg_at vs 3), res_fetch_addr = fetch_addr s \<rparr>
          ps_input_default))"
proof -
  obtain out where out: "set_vs_shader vs = Some out"
    "pm4_decode (out @ []) = map run_packet (vs_runs vs) @ nop_packet 11 # pm4_decode []"
    using emit_shader_set_decode[of "vs_runs vs" "[]", OF vs_runs_ok[where regs = vs]] by (auto simp: set_vs_shader_def)
  then have "exec_present out [] s = (vs_program vs s, [])"
    using exec_vs_packets[of vs s "[]"]
    by (subst exec_present_stream[of out])
      (auto simp: pm4_decode_Nil vs_runs_def run_simps base_defs reg_defs)
  then show ?thesis using out derive_vs_after[of vs s] by blast
qed

text \<open>
  The pixel shader takes the same route: its twelve fields reach their registers, the derived
  binding carries the block's program address and footprint, and its input routing is the one the
  guest had programmed before, each slot within the hardware's 32 parameters.
\<close>

theorem ps_shader_set_end_to_end:
  fixes s :: "'desc gpu_state"
  shows "\<exists>out. set_ps_shader ps = Some out \<and> exec_present out [] s = (ps_program ps s, []) \<and>
     bound_ps (derive_bound_shaders (ps_program ps s)) =
       (if is_embedded (bound_ps (shaders s)) then bound_ps (shaders s)
        else Some (GcnBinary (push_bit 8 (ucast (reg_at ps 0)))
          \<lparr> res_num_vgprs = num_vgprs (reg_at ps 2), res_num_sgprs = num_sgprs (reg_at ps 2),
            res_num_user_sgprs = num_user_sgprs (reg_at ps 3), res_fetch_addr = None \<rparr>
          (from_offsets (ps_offsets s)))) \<and>
     length (from_offsets (ps_offsets s)) = 32 \<and> list_all (\<lambda>v. v < 32) (from_offsets (ps_offsets s))"
proof -
  obtain out where out: "set_ps_shader ps = Some out"
    "pm4_decode (out @ []) = map run_packet (ps_runs ps) @ nop_packet 11 # pm4_decode []"
    using emit_shader_set_decode[of "ps_runs ps" "[]", OF ps_runs_ok[where regs = ps]] by (auto simp: set_ps_shader_def)
  then have "exec_present out [] s = (ps_program ps s, [])"
    using exec_ps_packets[of ps s "[]"]
    by (subst exec_present_stream[of out])
      (auto simp: pm4_decode_Nil ps_runs_def run_simps base_defs reg_defs)
  moreover have "v AND 0x1F < 32" for v :: u8
    using and_mask_less'[of 5 v] by (simp add: mask_eq_exp_minus_1)
  ultimately show ?thesis
    using out derive_ps_after[of ps s] ps_offsets_after[of ps s]
    by (auto simp: from_offsets_def ps_offsets_def PS_INPUT_SLOTS_def list_all_iff)
qed

text \<open>
  The render-target registry keeps one entry per base. After a target is recorded, a lookup at
  its base finds exactly it when the sampled range fits and nothing when it does not, and lookups at
  every other base answer as before.
\<close>

theorem rt_registry_contract:
  assumes "distinct (map rt_base rts)"
  shows "distinct (map rt_base (rt_register rts rt)) \<and>
     rt_lookup (rt_register rts rt) b sz =
       (if b = rt_base rt then (if sz \<le> rt_size rt then Some rt else None) else rt_lookup rts b sz)"
  using rt_register_bases(2)[OF assms] rt_lookup_register[OF assms] by blast

theorem rt_registry_contract_witness:
  "rt_lookup (rt_register [\<lparr> rt_base = 0x1000, rt_size = 64, rt_desc = () \<rparr>]
      \<lparr> rt_base = 0x1000, rt_size = 128, rt_desc = () \<rparr>) 0x1000 100 =
   Some \<lparr> rt_base = 0x1000, rt_size = 128, rt_desc = () \<rparr>"
  using rt_registry_contract[of "[\<lparr> rt_base = 0x1000, rt_size = 64, rt_desc = () \<rparr>]"
      "\<lparr> rt_base = 0x1000, rt_size = 128, rt_desc = () \<rparr>" "0x1000" 100]
  by simp

text \<open>
  The guest-controlled ranges the walk acts on stay in bounds: a memory acquire names a non-empty
  range that is 256-byte aligned and ends below \<open>2^49\<close>; a DMA copy never has a register on either
  side, never a null address, and moves at most \<open>2^21 - 1\<close> bytes; an indexed draw never reads past
  the declared index buffer, and never more indices than it asked for.
\<close>

theorem walk_ranges_bounded:
  "(case acquire_mem_range body of None \<Rightarrow> True
    | Some (base, sz) \<Rightarrow> sz \<noteq> 0 \<and> 256 dvd unat base \<and> 256 dvd unat sz \<and> unat base + unat sz < 2 ^ 49) \<and>
   (case dma_request_of body of
      Dma_Copy src dst n \<Rightarrow> src \<noteq> 0 \<and> dst \<noteq> 0 \<and> 0 < n \<and> n < 2 ^ 21 \<and>
        \<not> bit (body ! 5) 26 \<and> \<not> bit (body ! 5) 27
    | _ \<Rightarrow> True) \<and>
   clamp_count_at_offset ix count off \<le> count \<and>
   (ix_max_size ix = 0 \<or>
    unat off + unat (clamp_count_at_offset ix count off) \<le> max (unat off) (unat (ix_max_size ix)))"
proof -
  have "clamp_count_at_offset ix count off \<le> count"
    by (simp add: clamp_count_at_offset_def)
  moreover have "ix_max_size ix = 0 \<or>
      unat off + unat (clamp_count_at_offset ix count off) \<le> max (unat off) (unat (ix_max_size ix))"
    by (auto simp: clamp_count_at_offset_def saturating_sub_def min_def unat_sub_le word_le_nat_alt)
  ultimately show ?thesis
    using acquire_mem_range_bound[of body] dma_request_of_Copy[of body]
    by (auto split: option.splits dma_request.splits)
qed

end
