(* ===== verification/Gcn_Decode.thy ===== *)
theory Gcn_Decode
  imports Rust_Prelude
begin

text \<open>
  The GCN shader decoder: \<^verbatim>\<open>crates/gcn/src/operand.rs\<close>, \<^verbatim>\<open>inst.rs\<close>, \<^verbatim>\<open>opcodes.rs\<close> and
  \<^verbatim>\<open>decoder.rs\<close>. A stream of dwords is cut into typed instructions; every instruction reports
  the number of dwords it took. The theory shows that the cut is exact (the instructions tile
  the stream, nothing is skipped or read twice, the walk ends), that the nine-bit operand
  field is decoded without loss, and that the decoder is a left inverse of the encoding the
  bit-layout comments of \<^verbatim>\<open>decoder.rs\<close> lay down, format by format and for whole programs.
\<close>

section \<open>Operands\<close>

datatype special_reg = VccLo | VccHi | M0 | ExecLo | ExecHi | Scc

definition special_reg_name :: "special_reg \<Rightarrow> string" where
  "special_reg_name r =
     (case r of VccLo \<Rightarrow> ''vcc_lo'' | VccHi \<Rightarrow> ''vcc_hi'' | M0 \<Rightarrow> ''m0''
      | ExecLo \<Rightarrow> ''exec_lo'' | ExecHi \<Rightarrow> ''exec_hi'' | Scc \<Rightarrow> ''scc'')"

text \<open>An \<^verbatim>\<open>f32\<close> constant is its IEEE-754 bit pattern; an \<^verbatim>\<open>i64\<close> constant its value.\<close>

datatype operand =
    Sgpr u8
  | Vgpr u8
  | Special special_reg
  | InlineInt int
  | InlineFloat u32
  | Literal u32
  | Raw u16

definition LITERAL_SRC :: u32 where
  "LITERAL_SRC = 255"

definition decode_src :: "u32 \<Rightarrow> operand" where
  "decode_src field =
     (let s = field AND 0x1FF in
      if s \<le> 103 then Sgpr (ucast s)
      else if s = 104 \<or> s = 105 then Raw (ucast (field AND 0x1FF))
      else if s = 106 then Special VccLo
      else if s = 107 then Special VccHi
      else if s = 124 then Special M0
      else if s = 126 then Special ExecLo
      else if s = 127 then Special ExecHi
      else if 128 \<le> s \<and> s \<le> 192 then InlineInt (uint s - 128)
      else if 193 \<le> s \<and> s \<le> 208 then InlineInt (- (uint s - 192))
      else if s = 240 then InlineFloat 0x3F000000
      else if s = 241 then InlineFloat 0xBF000000
      else if s = 242 then InlineFloat 0x3F800000
      else if s = 243 then InlineFloat 0xBF800000
      else if s = 244 then InlineFloat 0x40000000
      else if s = 245 then InlineFloat 0xC0000000
      else if s = 246 then InlineFloat 0x40800000
      else if s = 247 then InlineFloat 0xC0800000
      else if s = LITERAL_SRC then Literal 0
      else if s = 253 then Special Scc
      else if 256 \<le> s \<and> s \<le> 511 then Vgpr (ucast (s - 256))
      else Raw (ucast s))"

definition is_literal :: "operand \<Rightarrow> bool" where
  "is_literal x = (case x of Literal _ \<Rightarrow> True | _ \<Rightarrow> False)"

section \<open>Instructions\<close>

datatype export_target = Mrt u8 | MrtZ | ExpNull | Pos u8 | Param u8 | ExpRaw u8

definition export_target_decode :: "u8 \<Rightarrow> export_target" where
  "export_target_decode tgt =
     (if tgt \<le> 7 then Mrt tgt
      else if tgt = 8 then MrtZ
      else if tgt = 9 then ExpNull
      else if 12 \<le> tgt \<and> tgt \<le> 15 then Pos (tgt - 12)
      else if 32 \<le> tgt \<and> tgt \<le> 63 then Param (tgt - 32)
      else ExpRaw tgt)"

text \<open>
  The constructors of \<^verbatim>\<open>Inst\<close>, with their fields in the order of the source:
  \<open>Sop1 op sdst ssrc0\<close>, \<open>Sop2 op sdst ssrc0 ssrc1\<close>, \<open>Sopk op sdst simm16\<close>, \<open>Sopc op ssrc0 ssrc1\<close>,
  \<open>Sopp op simm16\<close>, \<open>Smrd op sdst sbase imm offset\<close>, \<open>Vop1 op vdst src0\<close>,
  \<open>Vop2 op vdst src0 vsrc1 k\<close>, \<open>Vop3 op vdst src0 src1 src2 abs neg omod clamp\<close>,
  \<open>Vopc op src0 vsrc1\<close>, \<open>Vintrp op vdst vsrc attr chan\<close>,
  \<open>Mubuf op vdata vaddr srsrc soffset offset idxen offen\<close>,
  \<open>Mimg op vdata vaddr srsrc ssamp dmask unrm\<close>, \<open>Exp target srcs done compr vm\<close> (\<open>srcs\<close> the array
  of four slots), \<open>Unknown raw raw_words\<close>. The signed sixteen-bit immediate of SOPK is its word;
  a consumer reads it with \<open>sint\<close>.
\<close>

datatype inst =
    Sop1 u8 operand operand
  | Sop2 u8 operand operand operand
  | Sopk u8 operand u16
  | Sopc u8 operand operand
  | Sopp u8 u16
  | Smrd u8 operand u8 bool u32
  | Vop1 u8 operand operand
  | Vop2 u8 operand operand operand "u32 option"
  | Vop3 u16 operand operand operand operand u8 u8 u8 bool
  | Vopc u8 operand operand
  | Vintrp u8 operand operand u8 u8
  | Mubuf u8 operand operand u8 operand u16 bool bool
  | Mimg u8 operand operand u8 u8 u8 bool
  | Exp export_target "operand option list" bool bool bool
  | Unknown u32 "u32 list"

record decoded =
  inst :: inst
  size_dwords :: u32
  offset_dwords :: u32

section \<open>Opcode tables\<close>

text \<open>Each table pairs the opcode constants of a class with the mnemonics \<^verbatim>\<open>name\<close> gives them.\<close>

definition sop1_name :: "u8 \<Rightarrow> string option" where
  "sop1_name = map_of
     [(0x03, ''s_mov_b32''), (0x04, ''s_mov_b64''), (0x0A, ''s_wqm_b64''),
      (0x20, ''s_setpc_b64''), (0x21, ''s_swappc_b64'')]"

definition sop2_name :: "u8 \<Rightarrow> string option" where
  "sop2_name = map_of
     [(0x00, ''s_add_u32''), (0x01, ''s_sub_u32''), (0x02, ''s_add_i32''),
      (0x0E, ''s_and_b32''), (0x10, ''s_or_b32''), (0x1E, ''s_lshl_b32'')]"

definition sopk_name :: "u8 \<Rightarrow> string option" where
  "sopk_name = map_of [(0x00, ''s_movk_i32''), (0x03, ''s_cmpk_eq_i32'')]"

definition sopc_name :: "u8 \<Rightarrow> string option" where
  "sopc_name = map_of [(0x00, ''s_cmp_eq_i32''), (0x01, ''s_cmp_lg_i32'')]"

definition S_NOP :: u8 where "S_NOP = 0x00"
definition S_ENDPGM :: u8 where "S_ENDPGM = 0x01"
definition S_BRANCH :: u8 where "S_BRANCH = 0x02"
definition S_CBRANCH_SCC0 :: u8 where "S_CBRANCH_SCC0 = 0x04"
definition S_CBRANCH_SCC1 :: u8 where "S_CBRANCH_SCC1 = 0x05"
definition S_CBRANCH_VCCZ :: u8 where "S_CBRANCH_VCCZ = 0x06"
definition S_CBRANCH_VCCNZ :: u8 where "S_CBRANCH_VCCNZ = 0x07"
definition S_CBRANCH_EXECZ :: u8 where "S_CBRANCH_EXECZ = 0x08"
definition S_CBRANCH_EXECNZ :: u8 where "S_CBRANCH_EXECNZ = 0x09"
definition S_BARRIER :: u8 where "S_BARRIER = 0x0A"
definition S_WAITCNT :: u8 where "S_WAITCNT = 0x0C"

lemmas sopp_ops = S_NOP_def S_ENDPGM_def S_BRANCH_def S_CBRANCH_SCC0_def S_CBRANCH_SCC1_def
  S_CBRANCH_VCCZ_def S_CBRANCH_VCCNZ_def S_CBRANCH_EXECZ_def S_CBRANCH_EXECNZ_def
  S_BARRIER_def S_WAITCNT_def

definition sopp_name :: "u8 \<Rightarrow> string option" where
  "sopp_name = map_of
     [(S_NOP, ''s_nop''), (S_ENDPGM, ''s_endpgm''), (S_BRANCH, ''s_branch''),
      (S_CBRANCH_SCC0, ''s_cbranch_scc0''), (S_CBRANCH_SCC1, ''s_cbranch_scc1''),
      (S_CBRANCH_VCCZ, ''s_cbranch_vccz''), (S_CBRANCH_VCCNZ, ''s_cbranch_vccnz''),
      (S_CBRANCH_EXECZ, ''s_cbranch_execz''), (S_CBRANCH_EXECNZ, ''s_cbranch_execnz''),
      (S_BARRIER, ''s_barrier''), (S_WAITCNT, ''s_waitcnt'')]"

definition smrd_name :: "u8 \<Rightarrow> string option" where
  "smrd_name = map_of
     [(0x00, ''s_load_dword''), (0x01, ''s_load_dwordx2''), (0x02, ''s_load_dwordx4''),
      (0x03, ''s_load_dwordx8''), (0x04, ''s_load_dwordx16''),
      (0x08, ''s_buffer_load_dword''), (0x09, ''s_buffer_load_dwordx2''),
      (0x0A, ''s_buffer_load_dwordx4''), (0x0B, ''s_buffer_load_dwordx8''),
      (0x0C, ''s_buffer_load_dwordx16'')]"

definition smrd_dst_count :: "u8 \<Rightarrow> u8 option" where
  "smrd_dst_count op =
     (if op = 0x00 \<or> op = 0x08 then Some 1
      else if op = 0x01 \<or> op = 0x09 then Some 2
      else if op = 0x02 \<or> op = 0x0A then Some 4
      else if op = 0x03 \<or> op = 0x0B then Some 8
      else if op = 0x04 \<or> op = 0x0C then Some 16
      else None)"

definition is_buffer_load :: "u8 \<Rightarrow> bool" where
  "is_buffer_load op \<longleftrightarrow> op = 0x08 \<or> op = 0x09 \<or> op = 0x0A \<or> op = 0x0B \<or> op = 0x0C"

definition vopc_name :: "u8 \<Rightarrow> string option" where
  "vopc_name = map_of
     [(0x01, ''v_cmp_lt_f32''), (0x02, ''v_cmp_eq_f32''), (0x03, ''v_cmp_le_f32''),
      (0x04, ''v_cmp_gt_f32''), (0x06, ''v_cmp_ge_f32''),
      (0x81, ''v_cmp_lt_i32''), (0x82, ''v_cmp_eq_i32''), (0x83, ''v_cmp_le_i32''),
      (0x84, ''v_cmp_gt_i32''), (0x85, ''v_cmp_ne_i32''), (0x86, ''v_cmp_ge_i32''),
      (0xC1, ''v_cmp_lt_u32''), (0xC2, ''v_cmp_eq_u32''), (0xC3, ''v_cmp_le_u32''),
      (0xC4, ''v_cmp_gt_u32''), (0xC5, ''v_cmp_ne_u32''), (0xC6, ''v_cmp_ge_u32'')]"

definition vop1_name :: "u8 \<Rightarrow> string option" where
  "vop1_name = map_of
     [(0x00, ''v_nop''), (0x01, ''v_mov_b32''), (0x05, ''v_cvt_f32_i32''),
      (0x06, ''v_cvt_f32_u32''), (0x07, ''v_cvt_u32_f32''), (0x08, ''v_cvt_i32_f32''),
      (0x0E, ''v_cvt_off_f32_i4''), (0x20, ''v_fract_f32''), (0x22, ''v_ceil_f32''),
      (0x24, ''v_floor_f32''), (0x2A, ''v_rcp_f32''), (0x33, ''v_sqrt_f32''),
      (0x35, ''v_sin_f32'')]"

definition vop2_name :: "u8 \<Rightarrow> string option" where
  "vop2_name = map_of
     [(0x00, ''v_cndmask_b32''), (0x03, ''v_add_f32''), (0x04, ''v_sub_f32''),
      (0x05, ''v_subrev_f32''), (0x08, ''v_mul_f32''), (0x0F, ''v_min_f32''),
      (0x10, ''v_max_f32''), (0x16, ''v_lshrrev_b32''), (0x1A, ''v_lshlrev_b32''),
      (0x1B, ''v_and_b32''), (0x1F, ''v_mac_f32''), (0x20, ''v_madmk_f32''),
      (0x21, ''v_madak_f32''), (0x25, ''v_add_i32''), (0x2F, ''v_cvt_pkrtz_f16_f32'')]"

definition has_inline_literal :: "u8 \<Rightarrow> bool" where
  "has_inline_literal op \<longleftrightarrow> op = 0x20 \<or> op = 0x21"

definition vop3_name :: "u16 \<Rightarrow> string option" where
  "vop3_name = map_of
     [(0x001, ''v_cmp_lt_f32''), (0x002, ''v_cmp_eq_f32''), (0x003, ''v_cmp_le_f32''),
      (0x004, ''v_cmp_gt_f32''), (0x006, ''v_cmp_ge_f32''),
      (0x081, ''v_cmp_lt_i32''), (0x082, ''v_cmp_eq_i32''), (0x083, ''v_cmp_le_i32''),
      (0x084, ''v_cmp_gt_i32''), (0x085, ''v_cmp_ne_i32''), (0x086, ''v_cmp_ge_i32''),
      (0x0C1, ''v_cmp_lt_u32''), (0x0C2, ''v_cmp_eq_u32''), (0x0C3, ''v_cmp_le_u32''),
      (0x0C4, ''v_cmp_gt_u32''), (0x0C5, ''v_cmp_ne_u32''), (0x0C6, ''v_cmp_ge_u32''),
      (0x100, ''v_cndmask_b32''), (0x108, ''v_mul_f32''), (0x12F, ''v_cvt_pkrtz_f16_f32''),
      (0x11F, ''v_mac_f32''), (0x141, ''v_mad_f32''), (0x143, ''v_mad_u32_u24''),
      (0x14B, ''v_fma_f32''), (0x157, ''v_med3_f32''), (0x1A0, ''v_fract_f32'')]"

definition mimg_name :: "u8 \<Rightarrow> string option" where
  "mimg_name = map_of
     [(0x00, ''image_load''), (0x08, ''image_store''), (0x20, ''image_sample'')]"

definition vintrp_name :: "u8 \<Rightarrow> string option" where
  "vintrp_name = map_of
     [(0x00, ''v_interp_p1_f32''), (0x01, ''v_interp_p2_f32''), (0x02, ''v_interp_mov_f32'')]"

definition mubuf_name :: "u8 \<Rightarrow> string option" where
  "mubuf_name = map_of
     [(0x00, ''buffer_load_format_x''), (0x01, ''buffer_load_format_xy''),
      (0x02, ''buffer_load_format_xyz''), (0x03, ''buffer_load_format_xyzw''),
      (0x04, ''buffer_store_format_x''), (0x0C, ''buffer_load_dword''),
      (0x1C, ''buffer_store_dword'')]"

definition vdata_count :: "u8 \<Rightarrow> u8 option" where
  "vdata_count op =
     (if op = 0x00 \<or> op = 0x04 \<or> op = 0x0C \<or> op = 0x1C then Some 1
      else if op = 0x01 then Some 2
      else if op = 0x02 then Some 3
      else if op = 0x03 then Some 4
      else None)"

section \<open>The decoder\<close>

text \<open>
  The decoders of a format take the first dword and the slice it heads, which \<open>decode_one\<close> has
  read already. \<open>get\<close> is \<^verbatim>\<open>words.get(i)\<close>.
\<close>

definition get :: "'a list \<Rightarrow> nat \<Rightarrow> 'a option" where
  "get xs i = (if i < length xs then Some (xs ! i) else None)"

abbreviation get_or_0 :: "u32 list \<Rightarrow> nat \<Rightarrow> u32" where
  "get_or_0 xs i \<equiv> (case get xs i of Some v \<Rightarrow> v | None \<Rightarrow> 0)"

definition decoded_of :: "inst \<Rightarrow> u32 \<Rightarrow> decoded" where
  "decoded_of i n = \<lparr>inst = i, size_dwords = n, offset_dwords = 0\<rparr>"

definition unknown :: "u32 \<Rightarrow> decoded" where
  "unknown raw = decoded_of (Unknown raw []) 1"

text \<open>\<open>read_src\<close> threads the \<^verbatim>\<open>literal_taken\<close> flag.\<close>

definition read_src :: "u32 \<Rightarrow> u32 list \<Rightarrow> nat \<Rightarrow> bool \<Rightarrow> operand \<times> bool" where
  "read_src field words lit_idx literal_taken =
     (let op = decode_src field in
      if is_literal op then (Literal (get_or_0 words lit_idx), True)
      else (op, literal_taken))"

definition decode_scalar :: "u32 \<Rightarrow> u32 list \<Rightarrow> decoded" where
  "decode_scalar w0 words =
     (if drop_bit 23 w0 = 0b101111111 then
        decoded_of (Sopp (ucast (drop_bit 16 w0 AND 0x7F)) (ucast (w0 AND 0xFFFF))) 1
      else if drop_bit 23 w0 = 0b101111110 then
        (let op = ucast (drop_bit 16 w0 AND 0x7F);
             (ssrc0, lit) = read_src (w0 AND 0xFF) words 1 False;
             (ssrc1, lit) = read_src (drop_bit 8 w0 AND 0xFF) words 1 lit
         in decoded_of (Sopc op ssrc0 ssrc1) (1 + of_bool lit))
      else if drop_bit 23 w0 = 0b101111101 then
        (let op = ucast (drop_bit 8 w0 AND 0xFF);
             sdst = decode_src (drop_bit 16 w0 AND 0x7F);
             (ssrc0, lit) = read_src (w0 AND 0xFF) words 1 False
         in decoded_of (Sop1 op sdst ssrc0) (1 + of_bool lit))
      else if drop_bit 28 w0 = 0b1011 then
        decoded_of (Sopk (ucast (drop_bit 23 w0 AND 0x1F)) (decode_src (drop_bit 16 w0 AND 0x7F))
          (ucast (w0 AND 0xFFFF))) 1
      else
        (let op = ucast (drop_bit 23 w0 AND 0x7F);
             sdst = decode_src (drop_bit 16 w0 AND 0x7F);
             (ssrc0, lit) = read_src (w0 AND 0xFF) words 1 False;
             (ssrc1, lit) = read_src (drop_bit 8 w0 AND 0xFF) words 1 lit
         in decoded_of (Sop2 op sdst ssrc0 ssrc1) (1 + of_bool lit)))"

definition decode_smrd :: "u32 \<Rightarrow> decoded" where
  "decode_smrd w0 =
     decoded_of
       (Smrd (ucast (drop_bit 22 w0 AND 0x1F)) (decode_src (drop_bit 15 w0 AND 0x7F))
         (ucast ((drop_bit 9 w0 AND 0x3F) * 2)) (drop_bit 8 w0 AND 1 = 1) (w0 AND 0xFF)) 1"

definition decode_vop1 :: "u32 \<Rightarrow> u32 list \<Rightarrow> decoded" where
  "decode_vop1 w0 words =
     (let op = ucast (drop_bit 9 w0 AND 0xFF);
          vdst = Vgpr (ucast (drop_bit 17 w0 AND 0xFF));
          (src0, lit) = read_src (w0 AND 0x1FF) words 1 False
      in decoded_of (Vop1 op vdst src0) (1 + of_bool lit))"

definition decode_vop2 :: "u32 \<Rightarrow> u32 list \<Rightarrow> decoded" where
  "decode_vop2 w0 words =
     (let op = ucast (drop_bit 25 w0 AND 0x3F);
          vdst = Vgpr (ucast (drop_bit 17 w0 AND 0xFF));
          vsrc1 = Vgpr (ucast (drop_bit 9 w0 AND 0xFF));
          (src0, lit) = read_src (w0 AND 0x1FF) words 1 False;
          (k, size) = (if has_inline_literal op then (Some (get_or_0 words 1), 2)
                       else (None, 1 + of_bool lit))
      in decoded_of (Vop2 op vdst src0 vsrc1 k) size)"

definition decode_vopc :: "u32 \<Rightarrow> u32 list \<Rightarrow> decoded" where
  "decode_vopc w0 words =
     (let op = ucast (drop_bit 17 w0 AND 0xFF);
          vsrc1 = Vgpr (ucast (drop_bit 9 w0 AND 0xFF));
          (src0, lit) = read_src (w0 AND 0x1FF) words 1 False
      in decoded_of (Vopc op src0 vsrc1) (1 + of_bool lit))"

definition decode_vop3 :: "u32 \<Rightarrow> u32 list \<Rightarrow> decoded" where
  "decode_vop3 w0 words =
     (let w1 = get_or_0 words 1;
          op = ucast (drop_bit 17 w0 AND 0x1FF) :: u16;
          vdst = (if op < 0x100 then decode_src (w0 AND 0xFF) else Vgpr (ucast (w0 AND 0xFF)));
          abs = ucast (drop_bit 8 w0 AND 0x7);
          clamp = (drop_bit 11 w0 AND 1 \<noteq> 0);
          omod = ucast (drop_bit 27 w1 AND 0x3);
          neg = ucast (drop_bit 29 w1 AND 0x7);
          src0 = decode_src (w1 AND 0x1FF);
          src1 = decode_src (drop_bit 9 w1 AND 0x1FF);
          src2 = decode_src (drop_bit 18 w1 AND 0x1FF)
      in decoded_of (Vop3 op vdst src0 src1 src2 abs neg omod clamp) 2)"

definition decode_vintrp :: "u32 \<Rightarrow> decoded" where
  "decode_vintrp w0 =
     (let vsrc = Vgpr (ucast (w0 AND 0xFF));
          attr = ucast (drop_bit 10 w0 AND 0x3F);
          chan = ucast (drop_bit 8 w0 AND 0x3);
          op = ucast (drop_bit 16 w0 AND 0x3);
          vdst = Vgpr (ucast (drop_bit 18 w0 AND 0xFF))
      in decoded_of (Vintrp op vdst vsrc attr chan) 1)"

definition decode_mubuf :: "u32 \<Rightarrow> u32 list \<Rightarrow> decoded" where
  "decode_mubuf w0 words =
     (let w1 = get_or_0 words 1;
          op = ucast (drop_bit 18 w0 AND 0x7F);
          offset = ucast (w0 AND 0xFFF);
          offen = (drop_bit 12 w0 AND 1 = 1);
          idxen = (drop_bit 13 w0 AND 1 = 1);
          vaddr = Vgpr (ucast (w1 AND 0xFF));
          vdata = Vgpr (ucast (drop_bit 8 w1 AND 0xFF));
          srsrc = ucast ((drop_bit 16 w1 AND 0x1F) * 4);
          soffset_field = drop_bit 24 w1 AND 0xFF;
          soffset = (if soffset_field = LITERAL_SRC then Raw (ucast soffset_field)
                     else decode_src soffset_field)
      in decoded_of (Mubuf op vdata vaddr srsrc soffset offset idxen offen) 2)"

definition decode_mimg :: "u32 \<Rightarrow> u32 list \<Rightarrow> decoded" where
  "decode_mimg w0 words =
     (let w1 = get_or_0 words 1;
          op = ucast (drop_bit 18 w0 AND 0x7F);
          dmask = ucast (drop_bit 8 w0 AND 0xF);
          unrm = (drop_bit 12 w0 AND 1 = 1);
          vaddr = Vgpr (ucast (w1 AND 0xFF));
          vdata = Vgpr (ucast (drop_bit 8 w1 AND 0xFF));
          srsrc = ucast ((drop_bit 16 w1 AND 0x1F) * 4);
          ssamp = ucast ((drop_bit 21 w1 AND 0x1F) * 4)
      in decoded_of (Mimg op vdata vaddr srsrc ssamp dmask unrm) 2)"

definition decode_exp :: "u32 \<Rightarrow> u32 list \<Rightarrow> decoded" where
  "decode_exp w0 words =
     (let w1 = get_or_0 words 1;
          en = ucast (w0 AND 0xF) :: u8;
          target = export_target_decode (ucast (drop_bit 4 w0 AND 0x3F));
          compr = (drop_bit 10 w0 AND 1 = 1);
          don = (drop_bit 11 w0 AND 1 = 1);
          vm = (drop_bit 12 w0 AND 1 = 1);
          vsrc = [ucast (w1 AND 0xFF), ucast (drop_bit 8 w1 AND 0xFF),
                  ucast (drop_bit 16 w1 AND 0xFF), ucast (drop_bit 24 w1 AND 0xFF)];
          srcs = map (\<lambda>i. if en AND push_bit i 1 \<noteq> 0 then Some (Vgpr (vsrc ! i)) else None) [0..<4]
      in decoded_of (Exp target srcs don compr vm) 2)"

text \<open>\<open>None\<close> is the panic of \<^verbatim>\<open>words[0]\<close> on an empty slice.\<close>

definition decode_one :: "u32 list \<Rightarrow> decoded option" where
  "decode_one words =
     (case words of
        [] \<Rightarrow> None
      | w0 # _ \<Rightarrow> Some
         (if drop_bit 26 w0 = 0b111110 then decode_exp w0 words
          else if drop_bit 26 w0 = 0b111000 then decode_mubuf w0 words
          else if drop_bit 26 w0 = 0b111100 then decode_mimg w0 words
          else if drop_bit 26 w0 = 0b110010 then decode_vintrp w0
          else if drop_bit 25 w0 = 0b0111111 then decode_vop1 w0 words
          else if drop_bit 25 w0 = 0b0111110 then decode_vopc w0 words
          else if drop_bit 26 w0 = 0b110100 then decode_vop3 w0 words
          else if drop_bit 27 w0 = 0b11000 then decode_smrd w0
          else if drop_bit 30 w0 = 0b10 then decode_scalar w0 words
          else if drop_bit 31 w0 = 0 then decode_vop2 w0 words
          else unknown w0))"

text \<open>
  The walk of \<^verbatim>\<open>decode_all\<close>. Its step is \<open>d.size_dwords\<close>, a \<^verbatim>\<open>u32\<close> clamped to the truncated
  number of dwords left, so that a walk which never returns is possible for a definition of
  this shape; \<open>None\<close> stands for that and for a panic.
\<close>

definition place_decoded :: "nat \<Rightarrow> nat \<Rightarrow> decoded \<Rightarrow> decoded" where
  "place_decoded len pc d =
     (let d = d\<lparr>offset_dwords := of_nat pc\<rparr>;
          remaining = of_nat (len - pc) :: u32
      in if size_dwords d > remaining then d\<lparr>size_dwords := remaining\<rparr> else d)"

partial_function (option) decode_loop :: "u32 list \<Rightarrow> nat \<Rightarrow> decoded list option" where
  "decode_loop code pc =
     (if pc < length code then
        Option.bind (decode_one (drop pc code)) (\<lambda>d0.
          let d = place_decoded (length code) pc d0 in
          Option.bind (decode_loop code (pc + unat (size_dwords d))) (\<lambda>ds. Some (d # ds)))
      else Some [])"

definition decode_all :: "u32 list \<Rightarrow> decoded list option" where
  "decode_all code = decode_loop code 0"

section \<open>The operand field\<close>

text \<open>The number of an operand in CI-ISA Table 6.1, and the operands that have one.\<close>

definition special_code :: "special_reg \<Rightarrow> nat" where
  "special_code r = (case r of VccLo \<Rightarrow> 106 | VccHi \<Rightarrow> 107 | M0 \<Rightarrow> 124 | ExecLo \<Rightarrow> 126
     | ExecHi \<Rightarrow> 127 | Scc \<Rightarrow> 253)"

definition float_code :: "u32 \<Rightarrow> nat" where
  "float_code b = (if b = 0x3F000000 then 240 else if b = 0xBF000000 then 241
     else if b = 0x3F800000 then 242 else if b = 0xBF800000 then 243
     else if b = 0x40000000 then 244 else if b = 0xC0000000 then 245
     else if b = 0x40800000 then 246 else 247)"

fun src_code :: "operand \<Rightarrow> nat" where
  "src_code (Sgpr n) = unat n"
| "src_code (Vgpr n) = 256 + unat n"
| "src_code (Special r) = special_code r"
| "src_code (InlineInt i) = (if 0 \<le> i then 128 + nat i else 192 + nat (- i))"
| "src_code (InlineFloat b) = float_code b"
| "src_code (Literal _) = 255"
| "src_code (Raw r) = unat r"

definition raw_code :: "nat \<Rightarrow> bool" where
  "raw_code n \<longleftrightarrow> n = 104 \<or> n = 105 \<or> 108 \<le> n \<and> n \<le> 123 \<or> n = 125 \<or> 209 \<le> n \<and> n \<le> 239
     \<or> 248 \<le> n \<and> n \<le> 252 \<or> n = 254"

fun src_ok :: "operand \<Rightarrow> bool" where
  "src_ok (Sgpr n) = (n \<le> 103)"
| "src_ok (InlineInt i) = (- 16 \<le> i \<and> i \<le> 64)"
| "src_ok (InlineFloat b) = (b \<in> {0x3F000000, 0xBF000000, 0x3F800000, 0xBF800000,
     0x40000000, 0xC0000000, 0x40800000, 0xC0800000})"
| "src_ok (Raw r) = raw_code (unat r)"
| "src_ok _ = True"

lemma and_1FF: "x AND 0x1FF = take_bit 9 x" for x :: "'a::len word"
  by (simp add: take_bit_eq_mask mask_eq_exp_minus_1)

lemma unat_9bit: "unat (x AND 0x1FF) < 512" for x :: u32
  using take_bit_nat_less_exp[of 9 "unat x"]
  by (simp add: and_1FF unsigned_take_bit_eq[where ?'a = nat])

lemma small_word_eqI: "unat x = unat y \<Longrightarrow> x = y" for x y :: "'a::len word"
  by (rule word_unat_eq_iff[THEN iffD2])

lemma unat_ucast_u8: "unat (ucast x :: u8) = unat x mod 256" for x :: "'a::len word"
  by (simp add: unsigned_ucast_eq take_bit_eq_mod)

lemma unat_ucast_u16: "unat (ucast x :: u16) = unat x mod 65536" for x :: "'a::len word"
  by (simp add: unsigned_ucast_eq take_bit_eq_mod)

text \<open>The same table on numbers.\<close>

definition src_of :: "nat \<Rightarrow> operand" where
  "src_of n =
     (if n \<le> 103 then Sgpr (of_nat n)
      else if raw_code n then Raw (of_nat n)
      else if n = 106 then Special VccLo
      else if n = 107 then Special VccHi
      else if n = 124 then Special M0
      else if n = 126 then Special ExecLo
      else if n = 127 then Special ExecHi
      else if n \<le> 192 then InlineInt (int n - 128)
      else if n \<le> 208 then InlineInt (192 - int n)
      else if n = 240 then InlineFloat 0x3F000000
      else if n = 241 then InlineFloat 0xBF000000
      else if n = 242 then InlineFloat 0x3F800000
      else if n = 243 then InlineFloat 0xBF800000
      else if n = 244 then InlineFloat 0x40000000
      else if n = 245 then InlineFloat 0xC0000000
      else if n = 246 then InlineFloat 0x40800000
      else if n = 247 then InlineFloat 0xC0800000
      else if n = 255 then Literal 0
      else if n = 253 then Special Scc
      else Vgpr (of_nat (n - 256)))"

lemma decode_src_of:
  assumes "n < 512" shows "decode_src (of_nat n) = src_of n"
proof -
  have s: "of_nat n AND 0x1FF = (of_nat n :: u32)"
    using assms
    by (auto intro!: small_word_eqI
        simp: and_1FF unsigned_take_bit_eq[where ?'a = nat] unat_of_nat_small take_bit_nat_eq_self)
  have un: "unat (of_nat n :: u32) = n" using assms by (simp add: unat_of_nat_small)
  have uk: "unat (numeral k :: u32) = numeral k" if "numeral k < (4294967296::nat)" for k
    using unat_of_nat_small[where ?'a = 32, of "numeral k"] that by (simp only: of_nat_numeral) simp
  have le: "(of_nat n :: u32) \<le> numeral k \<longleftrightarrow> n \<le> numeral k"
    "numeral k \<le> (of_nat n :: u32) \<longleftrightarrow> numeral k \<le> n"
    "(of_nat n :: u32) = numeral k \<longleftrightarrow> n = numeral k" if "numeral k < (4294967296::nat)" for k
    unfolding word_le_nat_alt word_unat_eq_iff un uk[OF that] by simp_all
  have c8: "ucast (of_nat n :: u32) = (of_nat n :: u8)" "ucast (of_nat n :: u32) = (of_nat n :: u16)"
    using assms by (auto intro!: small_word_eqI simp: unsigned_ucast_eq unsigned_of_nat take_bit_eq_mod)
  have u: "uint (of_nat n :: u32) = int n"
    using assms by (simp add: unsigned_of_nat take_bit_eq_mod)
  have v: "ucast (of_nat n - 256 :: u32) = (of_nat (n - 256) :: u8)" if "256 \<le> n"
    using assms that
    by (auto intro!: small_word_eqI simp: unsigned_ucast_eq unsigned_of_nat take_bit_eq_mod
        unat_sub_le word_le_nat_alt le_mod_geq)
  have hi: "n \<in> set [240..<256]" if "240 \<le> n" "\<not> 256 \<le> n" using that by (simp only: set_upt atLeastLessThan_iff) simp
  have lo: "n \<in> set [104..<128]" if "\<not> n \<le> 103" "\<not> 128 \<le> n" using that by (simp only: set_upt atLeastLessThan_iff) simp
  have gaps: "n \<le> 239 \<or> 248 \<le> n \<and> n \<le> 252 \<or> n = 254"
    if "\<not> 256 \<le> n" "n \<noteq> 253" "n \<noteq> 255" "n \<noteq> 247" "n \<noteq> 246" "n \<noteq> 245" "n \<noteq> 244"
      "n \<noteq> 243" "n \<noteq> 242" "n \<noteq> 241" "n \<noteq> 240"
    using hi that by (cases "n \<le> 239") (auto simp: upt_rec)
  have special: "n \<le> 103" if "\<not> 128 \<le> n" "n \<noteq> 127" "n \<noteq> 126" "n \<noteq> 124" "n \<noteq> 107" "n \<noteq> 106"
      "n \<noteq> 104" "n \<noteq> 105" "108 \<le> n \<longrightarrow> \<not> n \<le> 123" "n \<noteq> 125"
    using lo that by (cases "n \<le> 103") (auto simp: upt_rec)
  show ?thesis
    unfolding decode_src_def Let_def s LITERAL_SRC_def src_of_def raw_code_def
    using assms by (simp add: le c8 u v) (metis gaps special)
qed

lemma src_code_lt: "src_ok x \<Longrightarrow> src_code x < 512"
  by (cases x)
    (auto simp: special_code_def float_code_def raw_code_def word_le_nat_alt
      split: special_reg.splits if_splits intro: less_le_trans[OF unat_lt_2p])

lemma src_of_code: "src_ok x \<Longrightarrow> src_of (src_code x) = (if is_literal x then Literal 0 else x)"
proof (cases x)
  case (Sgpr n)
  then show "src_ok x \<Longrightarrow> ?thesis" by (simp add: src_of_def word_le_nat_alt is_literal_def)
next
  case (Vgpr n)
  then show ?thesis by (simp add: src_of_def raw_code_def is_literal_def)
next
  case (Special r)
  then show ?thesis by (cases r) (simp_all add: src_of_def raw_code_def special_code_def is_literal_def)
next
  case (InlineInt i)
  show "src_ok x \<Longrightarrow> ?thesis"
  proof (cases "0 \<le> i")
    case True
    then obtain m where "i = int m" by (metis nonneg_int_cases)
    then show "src_ok x \<Longrightarrow> ?thesis"
      unfolding InlineInt by (simp add: src_of_def raw_code_def is_literal_def)
  next
    case False
    then obtain m where "i = - int m" "0 < m" by (metis neg_int_cases not_le)
    then show "src_ok x \<Longrightarrow> ?thesis"
      unfolding InlineInt by (simp add: src_of_def raw_code_def is_literal_def)
  qed
next
  case (InlineFloat b)
  then show "src_ok x \<Longrightarrow> ?thesis"
    by (auto simp: src_of_def raw_code_def float_code_def is_literal_def)
next
  case (Literal v)
  then show ?thesis by (simp add: src_of_def raw_code_def is_literal_def)
next
  case (Raw r)
  then show "src_ok x \<Longrightarrow> ?thesis"
    by (simp add: src_of_def is_literal_def) (auto simp: raw_code_def)
qed

lemma src_code_of: "n < 512 \<Longrightarrow> src_code (src_of n) = n"
  by (auto simp: src_of_def raw_code_def special_code_def float_code_def unsigned_of_nat take_bit_eq_mod)

lemma src_ok_of: "n < 512 \<Longrightarrow> src_ok (src_of n)"
  by (auto simp: src_of_def raw_code_def word_le_nat_alt unsigned_of_nat take_bit_eq_mod)

lemma decode_src_code:
  "src_ok x \<Longrightarrow> decode_src (of_nat (src_code x)) = (if is_literal x then Literal 0 else x)"
  by (simp add: decode_src_of src_code_lt src_of_code)

text \<open>
  The nine-bit source field is decoded without loss: every field value gives an operand
  that has a number in CI-ISA Table 6.1, and its number is the field itself. Two different
  fields are therefore never confused, bits above the ninth are ignored, and only the field 255
  announces a trailing literal.
\<close>

theorem decode_src_lossless:
  "src_code (decode_src field) = unat field mod 512 \<and> src_ok (decode_src field)
     \<and> (is_literal (decode_src field) \<longleftrightarrow> unat field mod 512 = 255)"
proof -
  define n where "n = unat field mod 512"
  have n: "n < 512" by (simp add: n_def)
  have "field AND 0x1FF = (of_nat n :: u32)"
    by (rule small_word_eqI)
      (simp add: n_def unat_of_nat_small, simp add: and_1FF unsigned_take_bit_eq[where ?'a = nat],
        simp add: take_bit_eq_mod)
  moreover have "(of_nat n :: u32) AND 0x1FF = of_nat n"
    using n by (auto intro!: small_word_eqI
        simp: and_1FF unsigned_take_bit_eq[where ?'a = nat] unat_of_nat_small take_bit_nat_eq_self)
  ultimately have "decode_src field = src_of n"
    using decode_src_of[OF n] unfolding decode_src_def by metis
  moreover have "is_literal (src_of n) \<longleftrightarrow> n = 255"
    by (simp add: src_of_def raw_code_def is_literal_def)
  ultimately show ?thesis
    using src_code_of[OF n] src_ok_of[OF n] by (simp add: n_def)
qed

section \<open>Bit fields\<close>

text \<open>A dword as its bit fields, lowest first, each with its width.\<close>

fun pack :: "(nat \<times> nat) list \<Rightarrow> nat" where
  "pack [] = 0"
| "pack ((w, v) # fs) = v + 2 ^ w * pack fs"

fun fields_ok :: "(nat \<times> nat) list \<Rightarrow> bool" where
  "fields_ok [] = True"
| "fields_ok ((w, v) # fs) = (v < 2 ^ w \<and> fields_ok fs)"

fun drop_fields :: "nat \<Rightarrow> (nat \<times> nat) list \<Rightarrow> (nat \<times> nat) list" where
  "drop_fields k [] = []"
| "drop_fields k ((w, v) # fs) =
     (if w \<le> k then drop_fields (k - w) fs else (w - k, v div 2 ^ k) # fs)"

fun take_fields :: "nat \<Rightarrow> (nat \<times> nat) list \<Rightarrow> (nat \<times> nat) list" where
  "take_fields k [] = []"
| "take_fields k ((w, v) # fs) =
     (if w < k then (w, v) # take_fields (k - w) fs else [(k, v mod 2 ^ k)])"

definition asm_word :: "(nat \<times> nat) list \<Rightarrow> u32" where
  "asm_word fs = of_nat (pack fs)"

abbreviation width :: "(nat \<times> nat) list \<Rightarrow> nat" where
  "width fs \<equiv> sum_list (map fst fs)"

lemma pack_lt: "fields_ok fs \<Longrightarrow> pack fs < 2 ^ width fs"
proof (induction fs)
  case (Cons f fs)
  obtain w v where f: "f = (w, v)" by (cases f)
  have "pack fs + 1 \<le> 2 ^ width fs" using Cons f by simp
  then have "2 ^ w * (pack fs + 1) \<le> 2 ^ w * 2 ^ width fs" by (rule mult_le_mono2)
  then show ?case using Cons.prems f by (simp add: power_add)
qed simp

lemma pack_div: "fields_ok fs \<Longrightarrow> pack fs div 2 ^ k = pack (drop_fields k fs)"
proof (induction k fs rule: drop_fields.induct)
  case (2 k w v fs)
  then have v: "v < 2 ^ w" and IH: "w \<le> k \<Longrightarrow> pack fs div 2 ^ (k - w) = pack (drop_fields (k - w) fs)"
    by simp_all
  show ?case
  proof (cases "w \<le> k")
    case True
    then have "(2::nat) ^ k = 2 ^ w * 2 ^ (k - w)" by (simp flip: power_add)
    then have "(v + 2 ^ w * pack fs) div 2 ^ k = (v + 2 ^ w * pack fs) div 2 ^ w div 2 ^ (k - w)"
      by (simp add: div_mult2_eq)
    also have "\<dots> = pack fs div 2 ^ (k - w)" using v by simp
    finally show ?thesis using IH True by simp
  next
    case False
    then have e: "(2::nat) ^ w = 2 ^ k * 2 ^ (w - k)" by (simp flip: power_add)
    then have "(v + 2 ^ w * pack fs) div 2 ^ k = v div 2 ^ k + 2 ^ (w - k) * pack fs"
      by (simp add: mult.assoc)
    then show ?thesis using False by simp
  qed
qed simp

lemma pack_mod: "fields_ok fs \<Longrightarrow> pack fs mod 2 ^ k = pack (take_fields k fs)"
proof (induction k fs rule: take_fields.induct)
  case (2 k w v fs)
  then have v: "v < 2 ^ w" and IH: "w < k \<Longrightarrow> pack fs mod 2 ^ (k - w) = pack (take_fields (k - w) fs)"
    by simp_all
  show ?case
  proof (cases "w < k")
    case True
    then have "(2::nat) ^ k = 2 ^ w * 2 ^ (k - w)" by (simp flip: power_add)
    then have "(v + 2 ^ w * pack fs) mod 2 ^ k = v + 2 ^ w * (pack fs mod 2 ^ (k - w))"
      using v by (simp add: mod_mult2_eq)
    then show ?thesis using IH True by simp
  next
    case False
    then have "(2::nat) ^ w = 2 ^ k * 2 ^ (w - k)" by (simp flip: power_add)
    then have "(v + 2 ^ w * pack fs) mod 2 ^ k = v mod 2 ^ k"
      by (simp add: mult.assoc)
    then show ?thesis using False by simp
  qed
qed simp

lemma unat_asm_word: "fields_ok fs \<Longrightarrow> width fs \<le> 32 \<Longrightarrow> unat (asm_word fs) = pack fs"
  using pack_lt[of fs] power_increasing[of "width fs" 32 "2::nat"]
  by (simp add: asm_word_def unat_of_nat_small)

lemma drop_bit_asm:
  assumes "fields_ok fs" and "width fs \<le> 32"
  shows "drop_bit k (asm_word fs) = asm_word (drop_fields k fs)"
proof (rule small_word_eqI)
  have lt: "pack fs < 2 ^ 32"
    using pack_lt[OF assms(1)] power_increasing[OF assms(2), of "2::nat"] by linarith
  then have "pack (drop_fields k fs) < 2 ^ 32"
    using pack_div[OF assms(1), of k] by (metis div_le_dividend le_less_trans)
  then show "unat (drop_bit k (asm_word fs)) = unat (asm_word (drop_fields k fs))"
    using lt pack_div[OF assms(1), of k]
    by (simp add: asm_word_def unsigned_drop_bit_eq unat_of_nat_small)
      (simp add: drop_bit_eq_div take_bit_nat_eq_self)
qed

lemma take_bit_asm:
  assumes "fields_ok fs" and "width fs \<le> 32"
  shows "take_bit k (asm_word fs) = asm_word (take_fields k fs)"
proof (rule small_word_eqI)
  have lt: "pack fs < 2 ^ 32"
    using pack_lt[OF assms(1)] power_increasing[OF assms(2), of "2::nat"] by linarith
  then have "pack (take_fields k fs) < 2 ^ 32"
    using pack_mod[OF assms(1), of k] by (metis mod_less_eq_dividend le_less_trans)
  then show "unat (take_bit k (asm_word fs)) = unat (asm_word (take_fields k fs))"
    using lt pack_mod[OF assms(1), of k]
    by (simp add: asm_word_def unsigned_take_bit_eq[where ?'a = nat] unat_of_nat_small)
      (simp add: take_bit_eq_mod take_bit_nat_eq_self)
qed

lemma low_masks:
  fixes x :: u32
  shows "x AND 1 = take_bit 1 x" "x AND 0x3 = take_bit 2 x" "x AND 0x7 = take_bit 3 x"
    "x AND 0xF = take_bit 4 x" "x AND 0x1F = take_bit 5 x" "x AND 0x3F = take_bit 6 x"
    "x AND 0x7F = take_bit 7 x" "x AND 0xFF = take_bit 8 x" "x AND 0x1FF = take_bit 9 x"
    "x AND 0xFFF = take_bit 12 x" "x AND 0xFFFF = take_bit 16 x"
  by (simp_all add: take_bit_eq_mask mask_eq_exp_minus_1)


section \<open>The encoding\<close>

text \<open>
  The instruction formats as the comments of \<^verbatim>\<open>decoder.rs\<close> state them (CI-ISA chapter 13), as
  an encoder: \<open>asm_inst\<close> lays an instruction out, \<open>inst_ok\<close> says which instructions a format can
  hold. A literal operand takes the dword after the first; an instruction holds at most one
  literal value. Where one format is cut out of the opcode space of another the opcode is kept
  off it: SOPK below the SOP1, SOPC and SOPP prefixes, SOP2 below SOPK, VOP2 below VOP1 and
  VOPC.
\<close>

fun lit_words :: "operand list \<Rightarrow> u32 list" where
  "lit_words [] = []"
| "lit_words (Literal v # _) = [v]"
| "lit_words (_ # xs) = lit_words xs"

fun lits_agree :: "operand \<Rightarrow> operand \<Rightarrow> bool" where
  "lits_agree (Literal a) (Literal b) = (a = b)"
| "lits_agree _ _ = True"

definition src_fits :: "nat \<Rightarrow> operand \<Rightarrow> bool" where
  "src_fits n x \<longleftrightarrow> src_ok x \<and> src_code x < 2 ^ n"

abbreviation plain_fits :: "nat \<Rightarrow> operand \<Rightarrow> bool" where
  "plain_fits n x \<equiv> src_fits n x \<and> \<not> is_literal x"

fun is_vgpr :: "operand \<Rightarrow> bool" where
  "is_vgpr (Vgpr _) = True"
| "is_vgpr _ = False"

fun vgpr_no :: "operand \<Rightarrow> nat" where
  "vgpr_no (Vgpr n) = unat n"
| "vgpr_no _ = 0"

fun target_code :: "export_target \<Rightarrow> nat" where
  "target_code (Mrt n) = unat n"
| "target_code MrtZ = 8"
| "target_code ExpNull = 9"
| "target_code (Pos n) = 12 + unat n"
| "target_code (Param n) = 32 + unat n"
| "target_code (ExpRaw n) = unat n"

fun target_ok :: "export_target \<Rightarrow> bool" where
  "target_ok (Mrt n) = (n \<le> 7)"
| "target_ok MrtZ = True"
| "target_ok ExpNull = True"
| "target_ok (Pos n) = (n \<le> 3)"
| "target_ok (Param n) = (n \<le> 31)"
| "target_ok (ExpRaw n) = (n = 10 \<or> n = 11 \<or> 16 \<le> n \<and> n \<le> 31)"

fun slot_no :: "operand option \<Rightarrow> nat" where
  "slot_no (Some x) = vgpr_no x"
| "slot_no None = 0"

fun slot_ok :: "operand option \<Rightarrow> bool" where
  "slot_ok (Some x) = is_vgpr x"
| "slot_ok None = True"

definition en_mask :: "operand option list \<Rightarrow> nat" where
  "en_mask srcs = of_bool (srcs ! 0 \<noteq> None) + 2 * of_bool (srcs ! 1 \<noteq> None)
     + 4 * of_bool (srcs ! 2 \<noteq> None) + 8 * of_bool (srcs ! 3 \<noteq> None)"

fun inst_ok :: "inst \<Rightarrow> bool" where
  "inst_ok (Sop1 op sdst s0) = (plain_fits 7 sdst \<and> src_fits 8 s0)"
| "inst_ok (Sop2 op sdst s0 s1) =
     (op < 0x60 \<and> plain_fits 7 sdst \<and> src_fits 8 s0 \<and> src_fits 8 s1 \<and> lits_agree s0 s1)"
| "inst_ok (Sopk op sdst simm) = (op < 0x1D \<and> plain_fits 7 sdst)"
| "inst_ok (Sopc op s0 s1) = (op < 0x80 \<and> src_fits 8 s0 \<and> src_fits 8 s1 \<and> lits_agree s0 s1)"
| "inst_ok (Sopp op simm) = (op < 0x80)"
| "inst_ok (Smrd op sdst sbase imm off) =
     (op < 0x20 \<and> plain_fits 7 sdst \<and> sbase < 0x80 \<and> even (unat sbase) \<and> off < 0x100)"
| "inst_ok (Vop1 op vdst s0) = (is_vgpr vdst \<and> src_fits 9 s0)"
| "inst_ok (Vop2 op vdst s0 v1 k) =
     (op < 0x3E \<and> is_vgpr vdst \<and> src_fits 9 s0 \<and> is_vgpr v1
      \<and> (if has_inline_literal op then k \<noteq> None \<and> \<not> is_literal s0 else k = None))"
| "inst_ok (Vop3 op vdst s0 s1 s2 ab neg omod clamp) =
     (op < 0x200 \<and> (if op < 0x100 then plain_fits 8 vdst else is_vgpr vdst)
      \<and> plain_fits 9 s0 \<and> plain_fits 9 s1 \<and> plain_fits 9 s2 \<and> ab < 8 \<and> neg < 8 \<and> omod < 4)"
| "inst_ok (Vopc op s0 v1) = (src_fits 9 s0 \<and> is_vgpr v1)"
| "inst_ok (Vintrp op vdst vsrc attr chan) =
     (op < 4 \<and> is_vgpr vdst \<and> is_vgpr vsrc \<and> attr < 0x40 \<and> chan < 4)"
| "inst_ok (Mubuf op vdata vaddr srsrc soff off idxen offen) =
     (op < 0x80 \<and> is_vgpr vdata \<and> is_vgpr vaddr \<and> srsrc < 0x80 \<and> 4 dvd unat srsrc
      \<and> plain_fits 8 soff \<and> off < 0x1000)"
| "inst_ok (Mimg op vdata vaddr srsrc ssamp dmask unrm) =
     (op < 0x80 \<and> is_vgpr vdata \<and> is_vgpr vaddr \<and> srsrc < 0x80 \<and> 4 dvd unat srsrc
      \<and> ssamp < 0x80 \<and> 4 dvd unat ssamp \<and> dmask < 0x10)"
| "inst_ok (Exp target srcs don compr vm) =
     (target_ok target \<and> length srcs = 4 \<and> list_all slot_ok srcs)"
| "inst_ok (Unknown raw ws) = False"

fun asm_inst :: "inst \<Rightarrow> u32 list" where
  "asm_inst (Sop1 op sdst s0) =
     asm_word [(8, src_code s0), (8, unat op), (7, src_code sdst), (9, 0b101111101)] # lit_words [s0]"
| "asm_inst (Sop2 op sdst s0 s1) =
     asm_word [(8, src_code s0), (8, src_code s1), (7, src_code sdst), (7, unat op), (2, 0b10)]
     # lit_words [s0, s1]"
| "asm_inst (Sopk op sdst simm) =
     [asm_word [(16, unat simm), (7, src_code sdst), (5, unat op), (4, 0b1011)]]"
| "asm_inst (Sopc op s0 s1) =
     asm_word [(8, src_code s0), (8, src_code s1), (7, unat op), (9, 0b101111110)] # lit_words [s0, s1]"
| "asm_inst (Sopp op simm) = [asm_word [(16, unat simm), (7, unat op), (9, 0b101111111)]]"
| "asm_inst (Smrd op sdst sbase imm off) =
     [asm_word [(8, unat off), (1, of_bool imm), (6, unat sbase div 2), (7, src_code sdst), (5, unat op),
       (5, 0b11000)]]"
| "asm_inst (Vop1 op vdst s0) =
     asm_word [(9, src_code s0), (8, unat op), (8, vgpr_no vdst), (7, 0b0111111)] # lit_words [s0]"
| "asm_inst (Vop2 op vdst s0 v1 k) =
     asm_word [(9, src_code s0), (8, vgpr_no v1), (8, vgpr_no vdst), (6, unat op), (1, 0)]
     # (case k of Some v \<Rightarrow> [v] | None \<Rightarrow> lit_words [s0])"
| "asm_inst (Vop3 op vdst s0 s1 s2 ab neg omod clamp) =
     [asm_word [(8, if op < 0x100 then src_code vdst else vgpr_no vdst), (3, unat ab),
        (1, of_bool clamp), (5, 0), (9, unat op), (6, 0b110100)],
      asm_word [(9, src_code s0), (9, src_code s1), (9, src_code s2), (2, unat omod), (3, unat neg)]]"
| "asm_inst (Vopc op s0 v1) =
     asm_word [(9, src_code s0), (8, vgpr_no v1), (8, unat op), (7, 0b0111110)] # lit_words [s0]"
| "asm_inst (Vintrp op vdst vsrc attr chan) =
     [asm_word [(8, vgpr_no vsrc), (2, unat chan), (6, unat attr), (2, unat op), (8, vgpr_no vdst),
       (6, 0b110010)]]"
| "asm_inst (Mubuf op vdata vaddr srsrc soff off idxen offen) =
     [asm_word [(12, unat off), (1, of_bool offen), (1, of_bool idxen), (4, 0), (7, unat op), (1, 0),
        (6, 0b111000)],
      asm_word [(8, vgpr_no vaddr), (8, vgpr_no vdata), (5, unat srsrc div 4), (3, 0),
        (8, src_code soff)]]"
| "asm_inst (Mimg op vdata vaddr srsrc ssamp dmask unrm) =
     [asm_word [(8, 0), (4, unat dmask), (1, of_bool unrm), (5, 0), (7, unat op), (1, 0), (6, 0b111100)],
      asm_word [(8, vgpr_no vaddr), (8, vgpr_no vdata), (5, unat srsrc div 4), (5, unat ssamp div 4),
        (6, 0)]]"
| "asm_inst (Exp target srcs don compr vm) =
     [asm_word [(4, en_mask srcs), (6, target_code target),
        (1, of_bool compr), (1, of_bool don), (1, of_bool vm), (13, 0), (6, 0b111110)],
      asm_word [(8, slot_no (srcs ! 0)), (8, slot_no (srcs ! 1)), (8, slot_no (srcs ! 2)),
        (8, slot_no (srcs ! 3))]]"
| "asm_inst (Unknown raw ws) = raw # ws"


section \<open>Every format is read back\<close>

named_theorems asm_simps \<open>reading the fields of an assembled dword\<close>

lemma unat_u8 [simp]: "unat (x :: u8) < 256"
  using unat_lt_2p[of x] by simp

lemma unat_u16 [simp]: "unat (x :: u16) < 65536"
  using unat_lt_2p[of x] by simp

lemma unat_u8_le [simp]: "unat (x :: u8) \<le> 255"
  using unat_u8[of x] by linarith

lemma ucast_of_nat_u8 [asm_simps]: "ucast (of_nat n :: u32) = (of_nat n :: u8)"
  by (rule small_word_eqI) (simp add: unsigned_ucast_eq unsigned_of_nat)

lemma ucast_of_nat_u16 [asm_simps]: "ucast (of_nat n :: u32) = (of_nat n :: u16)"
  by (rule small_word_eqI) (simp add: unsigned_ucast_eq unsigned_of_nat)

lemma asm_word_single [asm_simps]: "asm_word [(w, v)] = of_nat v"
  by (simp add: asm_word_def)

lemma asm_word_eq [asm_simps]:
  "fields_ok (f # g # fs) \<Longrightarrow> width (f # g # fs) \<le> 32 \<Longrightarrow>
     asm_word (f # g # fs) = c \<longleftrightarrow> pack (f # g # fs) = unat c"
  by (simp add: word_unat_eq_iff unat_asm_word del: pack.simps)

lemma ucast_up_down [asm_simps]:
  "ucast (ucast x :: u32) = (x :: u8)" "ucast (ucast y :: u32) = (y :: u16)"
  by (auto intro!: bit_word_eqI simp: bit_simps)

lemma div_eq_numeral [asm_simps]:
  "n div numeral d = numeral k \<longleftrightarrow> numeral k * numeral d \<le> n \<and> n < (numeral k + 1) * numeral d"
  for n :: nat
proof -
  have "n div numeral d = numeral k
      \<longleftrightarrow> numeral k \<le> n div numeral d \<and> n div numeral d < numeral k + 1" by linarith
  then show ?thesis
    by (simp only: less_eq_div_iff_mult_less_eq div_less_iff_less_mult zero_less_numeral)
qed

declare div_less_iff_less_mult [asm_simps]

lemma bool_bit [asm_simps]: "of_nat (of_bool b) = (1 :: u32) \<longleftrightarrow> b" "of_nat (of_bool b) = (0 :: u32) \<longleftrightarrow> \<not> b"
  by simp_all

declare drop_bit_asm [asm_simps] take_bit_asm [asm_simps] low_masks [asm_simps]

lemma dec_sopp:
  "inst_ok (Sopp op simm) \<Longrightarrow>
     decode_one (asm_inst (Sopp op simm) @ rest) = Some (decoded_of (Sopp op simm) 1)"
  by (simp add: decode_one_def decode_scalar_def asm_simps word_less_nat_alt)

lemma dec_sopk:
  "inst_ok (Sopk op sdst simm) \<Longrightarrow>
     decode_one (asm_inst (Sopk op sdst simm) @ rest) = Some (decoded_of (Sopk op sdst simm) 1)"
  by (simp add: decode_one_def decode_scalar_def asm_simps word_less_nat_alt src_fits_def
      decode_src_code)


lemma asm_word_mod_2 [asm_simps]:
  "fields_ok fs \<Longrightarrow> width fs \<le> 32 \<Longrightarrow> asm_word fs mod 2 = asm_word (take_fields 1 fs)"
  using take_bit_asm[of fs 1] by (simp add: take_bit_eq_mod)

lemma scaled_field:
  fixes x :: u8
  assumes "d dvd unat x" and "d \<noteq> 0"
  shows "ucast (of_nat (unat x div d) * of_nat d :: u32) = x"
proof -
  have "of_nat (unat x div d) * of_nat d = (of_nat (unat x) :: u32)"
    using assms by (simp flip: of_nat_mult)
  then show ?thesis by (simp add: asm_simps)
qed

lemmas scaled_fields [asm_simps] = scaled_field[of 2, simplified] scaled_field[of 4, simplified]

lemma dec_smrd:
  "inst_ok (Smrd op sdst sbase imm off) \<Longrightarrow>
     decode_one (asm_inst (Smrd op sdst sbase imm off) @ rest)
       = Some (decoded_of (Smrd op sdst sbase imm off) 1)"
  by (simp add: decode_one_def decode_smrd_def asm_simps word_less_nat_alt src_fits_def
      decode_src_code)

lemma vgprE: "is_vgpr x \<Longrightarrow> (\<And>n. x = Vgpr n \<Longrightarrow> P) \<Longrightarrow> P"
  by (cases x) auto

lemma dec_vintrp:
  "inst_ok (Vintrp op vdst vsrc attr chan) \<Longrightarrow>
     decode_one (asm_inst (Vintrp op vdst vsrc attr chan) @ rest)
       = Some (decoded_of (Vintrp op vdst vsrc attr chan) 1)"
  by (auto simp: decode_one_def decode_vintrp_def asm_simps word_less_nat_alt elim!: vgprE)

lemma literalE: "is_literal x \<Longrightarrow> (\<And>v. x = Literal v \<Longrightarrow> P) \<Longrightarrow> P"
  by (cases x) (auto simp: is_literal_def)

lemma is_literal_Literal [simp]: "is_literal (Literal v)"
  by (simp add: is_literal_def)

lemma lit_words_plain [simp]: "\<not> is_literal x \<Longrightarrow> lit_words (x # xs) = lit_words xs"
  by (cases x) (auto simp: is_literal_def)

lemma read_plain:
  "src_ok x \<Longrightarrow> \<not> is_literal x \<Longrightarrow> read_src (of_nat (src_code x)) words i taken = (x, taken)"
  by (simp add: read_src_def decode_src_code)

lemma read_literal: "read_src 255 (w # v # ws) (Suc 0) taken = (Literal v, True)"
  using decode_src_code[of "Literal v"] by (simp add: read_src_def get_def)

lemmas read_srcs = read_plain read_literal

lemma dec_sop2:
  assumes "inst_ok (Sop2 op sdst s0 s1)"
  shows "decode_one (asm_inst (Sop2 op sdst s0 s1) @ rest)
       = Some (decoded_of (Sop2 op sdst s0 s1) (of_nat (length (asm_inst (Sop2 op sdst s0 s1)))))"
  using assms
  by (cases "is_literal s0"; cases "is_literal s1"; (elim literalE)?)
   (simp_all add: decode_one_def decode_scalar_def asm_simps word_less_nat_alt src_fits_def
      decode_src_code read_srcs)

lemma dec_sop1:
  assumes "inst_ok (Sop1 op sdst s0)"
  shows "decode_one (asm_inst (Sop1 op sdst s0) @ rest)
       = Some (decoded_of (Sop1 op sdst s0) (of_nat (length (asm_inst (Sop1 op sdst s0)))))"
  using assms
  by (cases "is_literal s0"; (elim literalE)?)
    (simp_all add: decode_one_def decode_scalar_def asm_simps word_less_nat_alt src_fits_def
      decode_src_code read_srcs)

lemma dec_sopc:
  assumes "inst_ok (Sopc op s0 s1)"
  shows "decode_one (asm_inst (Sopc op s0 s1) @ rest)
       = Some (decoded_of (Sopc op s0 s1) (of_nat (length (asm_inst (Sopc op s0 s1)))))"
  using assms
  by (cases "is_literal s0"; cases "is_literal s1"; (elim literalE)?)
    (simp_all add: decode_one_def decode_scalar_def asm_simps word_less_nat_alt src_fits_def
      decode_src_code read_srcs)

lemma dec_vop1:
  assumes "inst_ok (Vop1 op vdst s0)"
  shows "decode_one (asm_inst (Vop1 op vdst s0) @ rest)
       = Some (decoded_of (Vop1 op vdst s0) (of_nat (length (asm_inst (Vop1 op vdst s0)))))"
proof -
  obtain n where v: "vdst = Vgpr n" using assms by (auto elim: vgprE)
  show ?thesis
    using assms
    by (cases "is_literal s0"; (elim literalE)?)
      (simp_all add: v decode_one_def decode_vop1_def asm_simps word_less_nat_alt src_fits_def read_srcs)
qed

lemma dec_vopc:
  assumes "inst_ok (Vopc op s0 v1)"
  shows "decode_one (asm_inst (Vopc op s0 v1) @ rest)
       = Some (decoded_of (Vopc op s0 v1) (of_nat (length (asm_inst (Vopc op s0 v1)))))"
proof -
  obtain n where v: "v1 = Vgpr n" using assms by (auto elim: vgprE)
  show ?thesis
    using assms
    by (cases "is_literal s0"; (elim literalE)?)
      (simp_all add: v decode_one_def decode_vopc_def asm_simps word_less_nat_alt src_fits_def read_srcs)
qed

lemma take_bit_of_nat_u32 [asm_simps]: "n < 2 ^ k \<Longrightarrow> take_bit k (of_nat n :: u32) = of_nat n"
proof (rule small_word_eqI)
  assume "n < 2 ^ k"
  then have "take_bit k (take_bit 32 n) = take_bit 32 n"
    by (metis take_bit_nat_eq_self take_bit_take_bit min.commute)
  then show "unat (take_bit k (of_nat n :: u32)) = unat (of_nat n :: u32)"
    by (simp add: unsigned_take_bit_eq[where ?'a = nat] unsigned_of_nat)
qed

lemma take_bit_ucast_u32 [asm_simps]:
  "unat x < 2 ^ k \<Longrightarrow> take_bit k (ucast x :: u32) = ucast x" for x :: u8
  using take_bit_of_nat_u32[of "unat x" k] by simp

lemma vgpr_iff: "is_vgpr x \<longleftrightarrow> x = Vgpr (of_nat (vgpr_no x))"
  by (cases x) auto

lemma vgpr_no_lt [simp]: "vgpr_no x < 256"
  by (cases x) auto

lemma dec_vop2:
  assumes "inst_ok (Vop2 op vdst s0 v1 k)"
  shows "decode_one (asm_inst (Vop2 op vdst s0 v1 k) @ rest)
       = Some (decoded_of (Vop2 op vdst s0 v1 k) (of_nat (length (asm_inst (Vop2 op vdst s0 v1 k)))))"
proof -
  obtain d v where v: "vdst = Vgpr d" "v1 = Vgpr v" using assms by (auto elim!: vgprE)
  show ?thesis
  proof (cases "has_inline_literal op")
    case True
    with assms obtain c where "k = Some c" "\<not> is_literal s0" by auto
    with assms True show ?thesis
      by (simp add: v decode_one_def decode_vop2_def asm_simps word_less_nat_alt src_fits_def
          read_srcs get_def)
  next
    case False
    with assms show ?thesis
      by (cases "is_literal s0"; (elim literalE)?)
        (simp_all add: v decode_one_def decode_vop2_def asm_simps word_less_nat_alt src_fits_def
          read_srcs)
  qed
qed

lemma src_code_not_255: "src_ok x \<Longrightarrow> \<not> is_literal x \<Longrightarrow> (of_nat (src_code x) :: u32) \<noteq> 255"
  using decode_src_code[of x] decode_src_code[of "Literal 0"] by force

lemma dec_mubuf:
  assumes "inst_ok (Mubuf op vdata vaddr srsrc soff off idxen offen)"
  shows "decode_one (asm_inst (Mubuf op vdata vaddr srsrc soff off idxen offen) @ rest)
       = Some (decoded_of (Mubuf op vdata vaddr srsrc soff off idxen offen) 2)"
proof -
  obtain d a where v: "vdata = Vgpr d" "vaddr = Vgpr a" using assms by (auto elim!: vgprE)
  show ?thesis
    using assms
    by (simp add: v decode_one_def decode_mubuf_def asm_simps word_less_nat_alt src_fits_def
      decode_src_code get_def src_code_not_255 LITERAL_SRC_def)
qed

lemma dec_mimg:
  assumes "inst_ok (Mimg op vdata vaddr srsrc ssamp dmask unrm)"
  shows "decode_one (asm_inst (Mimg op vdata vaddr srsrc ssamp dmask unrm) @ rest)
       = Some (decoded_of (Mimg op vdata vaddr srsrc ssamp dmask unrm) 2)"
  using assms
  by (auto simp: decode_one_def decode_mimg_def asm_simps word_less_nat_alt get_def elim!: vgprE)

lemma dec_vop3:
  assumes "inst_ok (Vop3 op vdst s0 s1 s2 ab neg omod clamp)"
  shows "decode_one (asm_inst (Vop3 op vdst s0 s1 s2 ab neg omod clamp) @ rest)
       = Some (decoded_of (Vop3 op vdst s0 s1 s2 ab neg omod clamp) 2)"
proof -
  define d where "d = (if op < 0x100 then src_code vdst else vgpr_no vdst)"
  have d: "d < 256" and vd: "(if op < 0x100 then decode_src (of_nat d) else Vgpr (of_nat d)) = vdst"
    using assms by (auto simp: d_def src_fits_def decode_src_code vgpr_iff)
  have ops: "unat op < 512" "src_ok s0" "src_code s0 < 512" "\<not> is_literal s0" "src_ok s1"
    "src_code s1 < 512" "\<not> is_literal s1" "src_ok s2" "src_code s2 < 512" "\<not> is_literal s2"
    "unat ab < 8" "unat neg < 8" "unat omod < 4"
    using assms by (simp_all add: src_fits_def word_less_nat_alt)
  show ?thesis
    unfolding asm_inst.simps d_def[symmetric] using vd
    by (simp add: decode_one_def decode_vop3_def asm_simps ops d decode_src_code get_def
        split: if_splits)
qed

lemma target_decode_code:
  assumes "target_ok t"
  shows "export_target_decode (of_nat (target_code t)) = t" and "target_code t < 64"
proof -
  have le: "(12 :: u8) \<le> 12 + n \<and> 12 + n \<le> (15 :: u8) \<and> \<not> 12 + n \<le> 7 \<and> 12 + n \<noteq> 8 \<and> 12 + n \<noteq> 9"
    if "unat n \<le> 3" for n :: u8
    using that by (simp add: word_le_nat_alt word_unat_eq_iff unat_word_ariths)
  have le2: "(32 :: u8) \<le> 32 + n \<and> 32 + n \<le> (63 :: u8) \<and> \<not> 32 + n \<le> 15 \<and> 32 + n \<noteq> 8 \<and> 32 + n \<noteq> 9
     \<and> \<not> 32 + n \<le> 7"
    if "unat n \<le> 31" for n :: u8
    using that by (simp add: word_le_nat_alt word_unat_eq_iff unat_word_ariths)
  show "export_target_decode (of_nat (target_code t)) = t" "target_code t < 64"
    using assms le le2 by (cases t; auto simp: export_target_decode_def word_le_nat_alt)+
qed


lemma en_bits:
  fixes a b c d :: bool
  defines "m \<equiv> of_nat (of_bool a + 2 * of_bool b + 4 * of_bool c + 8 * of_bool d) :: u8"
  shows "m AND 1 \<noteq> 0 \<longleftrightarrow> a" "m AND 2 \<noteq> 0 \<longleftrightarrow> b" "m AND 4 \<noteq> 0 \<longleftrightarrow> c" "m AND 8 \<noteq> 0 \<longleftrightarrow> d"
  unfolding m_def by (cases a; cases b; cases c; cases d; simp)+

lemma dec_exp:
  assumes "inst_ok (Exp target srcs don compr vm)"
  shows "decode_one (asm_inst (Exp target srcs don compr vm) @ rest)
       = Some (decoded_of (Exp target srcs don compr vm) 2)"
proof -
  obtain a b c d where srcs: "srcs = [a, b, c, d]"
    using assms by (auto simp: eval_nat_numeral length_Suc_conv)
  define m where "m = en_mask srcs"
  have m: "m < 16" by (simp add: m_def en_mask_def of_bool_def)
  have bits: "of_nat m AND (1::u8) \<noteq> 0 \<longleftrightarrow> a \<noteq> None" "of_nat m AND (2::u8) \<noteq> 0 \<longleftrightarrow> b \<noteq> None"
    "of_nat m AND (4::u8) \<noteq> 0 \<longleftrightarrow> c \<noteq> None" "of_nat m AND (8::u8) \<noteq> 0 \<longleftrightarrow> d \<noteq> None"
    using en_bits[of "a \<noteq> None" "b \<noteq> None" "c \<noteq> None" "d \<noteq> None"] by (simp_all add: m_def en_mask_def srcs)
  have slot: "map_option (\<lambda>_. Vgpr (of_nat (slot_no x))) x = x" "slot_no x < 256"
    if "slot_ok x" for x
    using that by (cases x; auto elim!: vgprE)+
  have en: "map (\<lambda>i. if of_nat m AND (2::u8) ^ i \<noteq> 0 then Some (Vgpr (vs ! i)) else None) [0..<4]
      = [map_option (\<lambda>_. Vgpr (vs ! 0)) a, map_option (\<lambda>_. Vgpr (vs ! 1)) b,
         map_option (\<lambda>_. Vgpr (vs ! 2)) c, map_option (\<lambda>_. Vgpr (vs ! 3)) d]"
    for vs
  proof -
    have "[0..<4] = [0, 1, 2, 3 :: nat]" by (simp add: upt_rec)
    then show ?thesis using bits by (cases a; cases b; cases c; cases d) simp_all
  qed
  show ?thesis
    unfolding asm_inst.simps m_def[symmetric]
    using assms target_decode_code[of target]
    by (simp add: srcs decode_one_def decode_exp_def asm_simps get_def slot m en Let_def)
qed

lemmas dec_formats = dec_sopp dec_sopk dec_smrd dec_vintrp dec_sop2 dec_sop1 dec_sopc dec_vop1
  dec_vopc dec_vop2 dec_mubuf dec_mimg dec_vop3 dec_exp

lemma decode_one_asm:
  "inst_ok i \<Longrightarrow> decode_one (asm_inst i @ rest) = Some (decoded_of i (of_nat (length (asm_inst i))))"
  by (cases i) (simp_all only: dec_formats, simp_all)

lemma asm_inst_length: "inst_ok i \<Longrightarrow> length (asm_inst i) \<in> {1, 2}"
proof -
  have lit: "length (lit_words xs) \<le> 1" for xs
    by (induction xs rule: lit_words.induct) auto
  show "length (asm_inst i) \<in> {1, 2}" if "inst_ok i"
  proof (cases i)
    case (Vop2 op vdst s0 v1 k)
    then show ?thesis using lit[of "[s0]"] by (cases k) (auto simp: le_Suc_eq)
  qed (use that lit[of "[_]"] lit[of "[_, _]"] in \<open>auto simp: le_Suc_eq\<close>)
qed

section \<open>The walk tiles the stream\<close>

fun tiles :: "('d \<Rightarrow> nat) \<Rightarrow> ('d \<Rightarrow> nat) \<Rightarrow> nat \<Rightarrow> 'd list \<Rightarrow> nat \<Rightarrow> bool" where
  "tiles off len n [] m = (n = m)"
| "tiles off len n (d # ds) m = (off d = n \<and> 0 < len d \<and> tiles off len (n + len d) ds m)"

text \<open>
  What a walk over a stream relies on: \<open>read\<close> decodes the item at a position, takes at least one
  word, stays inside the stream and stamps the item with its position.
\<close>

locale tiled_walk =
  fixes walk :: "'w list \<Rightarrow> nat \<Rightarrow> 'd list option"
    and read :: "'w list \<Rightarrow> nat \<Rightarrow> 'd"
    and off :: "'d \<Rightarrow> nat"
    and len :: "'d \<Rightarrow> nat"
    and ok :: "'w list \<Rightarrow> bool"
  assumes walk_end: "length ws \<le> pc \<Longrightarrow> walk ws pc = Some []"
    and walk_step: "ok ws \<Longrightarrow> pc < length ws \<Longrightarrow>
      walk ws pc = Option.bind (walk ws (pc + len (read ws pc))) (\<lambda>ds. Some (read ws pc # ds))"
    and size_pos: "ok ws \<Longrightarrow> pc < length ws \<Longrightarrow> 0 < len (read ws pc)"
    and size_le: "ok ws \<Longrightarrow> pc < length ws \<Longrightarrow> pc + len (read ws pc) \<le> length ws"
    and off_read: "ok ws \<Longrightarrow> pc < length ws \<Longrightarrow> off (read ws pc) = pc"
begin

lemma walk_tiles:
  assumes "ok ws" and "pc \<le> length ws"
  shows "\<exists>ds. walk ws pc = Some ds \<and> tiles off len pc ds (length ws)
    \<and> list_all (\<lambda>d. off d < length ws \<and> d = read ws (off d)) ds"
  using assms(2)
proof (induction "length ws - pc" arbitrary: pc rule: less_induct)
  case less
  show ?case
  proof (cases "pc < length ws")
    case True
    let ?d = "read ws pc"
    have "0 < len ?d" "pc + len ?d \<le> length ws" "off ?d = pc"
      using assms(1) True by (simp_all add: size_pos size_le off_read)
    moreover from this True have "length ws - (pc + len ?d) < length ws - pc" by linarith
    from less.hyps[OF this] calculation obtain ds where "walk ws (pc + len ?d) = Some ds"
      "tiles off len (pc + len ?d) ds (length ws)"
      "list_all (\<lambda>d. off d < length ws \<and> d = read ws (off d)) ds"
      by blast
    ultimately show ?thesis using assms(1) True by (simp add: walk_step)
  next
    case False
    then show ?thesis using less.prems walk_end[of ws pc] by simp
  qed
qed

text \<open>A stream that was laid out item by item is read back item by item.\<close>

lemma walk_layout:
  assumes "ok ws"
    and read_enc: "\<And>pre i rest. ok (pre @ enc i @ rest) \<Longrightarrow> i \<in> set is \<Longrightarrow>
      item (read (pre @ enc i @ rest) (length pre)) = i
      \<and> len (read (pre @ enc i @ rest) (length pre)) = length (enc i)"
    and enc_ne: "\<And>i. i \<in> set is \<Longrightarrow> enc i \<noteq> []"
    and layout: "ws = pre @ concat (map enc is)"
  shows "\<exists>ds. walk ws (length pre) = Some ds \<and> map item ds = is \<and> map len ds = map (length \<circ> enc) is"
  using assms(2-)
proof (induction "is" arbitrary: pre)
  case Nil
  then show ?case using walk_end[of ws "length pre"] by simp
next
  case (Cons i "is")
  let ?d = "read ws (length pre)"
  have ws: "ws = pre @ enc i @ concat (map enc is)" using Cons.prems by simp
  have d: "item ?d = i" "len ?d = length (enc i)"
    using Cons.prems(1)[of pre i "concat (map enc is)"] assms(1) unfolding ws by simp_all
  obtain ds where ds: "walk ws (length (pre @ enc i)) = Some ds" "map item ds = is"
    "map len ds = map (length \<circ> enc) is"
    using Cons.IH[of "pre @ enc i"] Cons.prems ws by auto
  have "length pre < length ws" using Cons.prems(2)[of i] unfolding ws by simp
  then show ?case using assms(1) d ds by (simp add: walk_step)
qed

end

definition fresh_item :: "decoded \<Rightarrow> bool" where
  "fresh_item d \<longleftrightarrow> (size_dwords d = 1 \<or> size_dwords d = 2) \<and> offset_dwords d = 0"

lemma fresh_decoded_of [simp]:
  "size_dwords (decoded_of i n) = n" "offset_dwords (decoded_of i n) = 0" "inst (decoded_of i n) = i"
  by (simp_all add: decoded_of_def)

lemma decode_scalar_fresh: "fresh_item (decode_scalar w ws)"
  by (auto simp: fresh_item_def decode_scalar_def Let_def case_prod_beta)

lemma decode_vector_fresh:
  "fresh_item (decode_vop1 w ws)" "fresh_item (decode_vop2 w ws)" "fresh_item (decode_vopc w ws)"
  "fresh_item (decode_vop3 w ws)" "fresh_item (decode_vintrp w)"
  by (auto simp: fresh_item_def decode_vop1_def decode_vop2_def decode_vopc_def decode_vop3_def decode_vintrp_def
      Let_def case_prod_beta)

lemma decode_memory_fresh:
  "fresh_item (decode_smrd w)" "fresh_item (decode_mubuf w ws)" "fresh_item (decode_mimg w ws)"
  "fresh_item (decode_exp w ws)" "fresh_item (unknown w)"
  by (simp_all add: fresh_item_def decode_smrd_def decode_mubuf_def decode_mimg_def decode_exp_def unknown_def Let_def)

lemma decode_one_total: "\<exists>d. decode_one (w # ws) = Some d \<and> fresh_item d"
  by (simp add: decode_one_def if_distrib[of fresh_item] decode_scalar_fresh decode_vector_fresh
      decode_memory_fresh)

text \<open>What \<open>decode_all\<close> reads at a position, and the interface of the walk on it.\<close>

definition decoded_at :: "u32 list \<Rightarrow> nat \<Rightarrow> decoded" where
  "decoded_at code pc = place_decoded (length code) pc (the (decode_one (drop pc code)))"

abbreviation item_len :: "decoded \<Rightarrow> nat" where
  "item_len d \<equiv> unat (size_dwords d)"

abbreviation item_off :: "decoded \<Rightarrow> nat" where
  "item_off d \<equiv> unat (offset_dwords d)"

abbreviation code_ok :: "u32 list \<Rightarrow> bool" where
  "code_ok code \<equiv> length code < 2 ^ 32"

lemma decode_one_at:
  assumes "pc < length code"
  shows "decode_one (drop pc code) = Some (the (decode_one (drop pc code)))"
    and "fresh_item (the (decode_one (drop pc code)))"
proof -
  have "drop pc code = code ! pc # drop (Suc pc) code" using assms by (simp add: Cons_nth_drop_Suc)
  then obtain d where d: "decode_one (drop pc code) = Some d" "fresh_item d"
    using decode_one_total[of "code ! pc" "drop (Suc pc) code"] by auto
  from d show "decode_one (drop pc code) = Some (the (decode_one (drop pc code)))" by simp
  from d show "fresh_item (the (decode_one (drop pc code)))" by simp
qed

lemma decoded_at_facts:
  assumes "code_ok code" and "pc < length code"
  shows "item_len (decoded_at code pc)
      = min (item_len (the (decode_one (drop pc code)))) (length code - pc)"
    and "item_off (decoded_at code pc) = pc"
    and "inst (decoded_at code pc) = inst (the (decode_one (drop pc code)))"
proof -
  have r: "unat (of_nat (length code - pc) :: u32) = length code - pc"
    using assms by (intro unat_of_nat_small) simp
  show "item_len (decoded_at code pc)
      = min (item_len (the (decode_one (drop pc code)))) (length code - pc)"
    by (auto simp: decoded_at_def place_decoded_def Let_def word_less_nat_alt r min_def)
  show "item_off (decoded_at code pc) = pc"
    using assms by (simp add: decoded_at_def place_decoded_def Let_def unat_of_nat_small)
  show "inst (decoded_at code pc) = inst (the (decode_one (drop pc code)))"
    by (simp add: decoded_at_def place_decoded_def Let_def)
qed

lemma decode_loop_step:
  assumes "pc < length code"
  shows "decode_loop code pc =
    Option.bind (decode_loop code (pc + item_len (decoded_at code pc)))
      (\<lambda>ds. Some (decoded_at code pc # ds))"
proof -
  obtain d where "decode_one (drop pc code) = Some d" using decode_one_at(1)[OF assms] by blast
  then show ?thesis using assms by (subst decode_loop.simps) (simp add: decoded_at_def Let_def)
qed

lemma decoded_at_pos: "code_ok code \<Longrightarrow> pc < length code \<Longrightarrow> 0 < item_len (decoded_at code pc)"
  using decode_one_at(2)[of pc code] by (auto simp: decoded_at_facts fresh_item_def)

interpretation gcn: tiled_walk decode_loop decoded_at item_off item_len code_ok
proof unfold_locales
  show "decode_loop ws pc = Some []" if "length ws \<le> pc" for ws pc
    using that by (subst decode_loop.simps) simp
qed (simp_all add: decode_loop_step decoded_at_pos, simp_all add: decoded_at_facts)

lemma decoded_at_asm:
  assumes "code_ok (pre @ asm_inst i @ rest)" and "inst_ok i"
  shows "inst (decoded_at (pre @ asm_inst i @ rest) (length pre)) = i"
    and "item_len (decoded_at (pre @ asm_inst i @ rest) (length pre)) = length (asm_inst i)"
proof -
  have ne: "length pre < length (pre @ asm_inst i @ rest)"
    using asm_inst_length[OF assms(2)] by auto
  have "decode_one (drop (length pre) (pre @ asm_inst i @ rest))
      = Some (decoded_of i (of_nat (length (asm_inst i))))"
    using assms(2) by (simp add: decode_one_asm)
  then show "inst (decoded_at (pre @ asm_inst i @ rest) (length pre)) = i"
    "item_len (decoded_at (pre @ asm_inst i @ rest) (length pre)) = length (asm_inst i)"
    using asm_inst_length[OF assms(2)] by (auto simp: decoded_at_facts[OF assms(1) ne])
qed

section \<open>Properties of the decoder\<close>

text \<open>
  C11. Decoding ends on every stream (of fewer than 2^32 dwords, the range of the dword offsets)
  and cuts it exactly: the first instruction starts at dword 0, each starts where the one before
  ended, the last ends with the stream, none is empty or longer than two dwords, and each holds
  what \<open>decode_one\<close> reads at its offset. A multi-dword form cut off by the end of the stream is
  shortened, so that the walk never leaves the buffer.
\<close>

theorem decode_all_tiles:
  assumes "length code < 2 ^ 32"
  shows "\<exists>ds. decode_all code = Some ds \<and> tiles item_off item_len 0 ds (length code)
    \<and> list_all (\<lambda>d. item_len d \<le> 2 \<and>
        Some (inst d) = map_option inst (decode_one (drop (item_off d) code))) ds"
proof -
  obtain ds where ds: "decode_all code = Some ds" "tiles item_off item_len 0 ds (length code)"
    "list_all (\<lambda>d. item_off d < length code \<and> d = decoded_at code (item_off d)) ds"
    using gcn.walk_tiles[of code 0] assms by (auto simp: decode_all_def)
  have at: "item_len (decoded_at code pc) \<le> 2
      \<and> Some (inst (decoded_at code pc)) = map_option inst (decode_one (drop pc code))"
    if pc: "pc < length code" for pc
  proof -
    obtain d where "decode_one (drop pc code) = Some d" "item_len d \<le> 2"
      using decode_one_at[OF pc] by (auto simp: fresh_item_def)
    then show ?thesis using decoded_at_facts[OF assms pc] by simp
  qed
  then show ?thesis using ds by (auto simp: list_all_iff) (metis at)+
qed


theorem decode_all_tiles_witness:
  "\<exists>ds. decode_all [0x7E0002FF, 0x3F800000, 0xD2820000] = Some ds
    \<and> tiles item_off item_len 0 ds (length [0x7E0002FF, 0x3F800000, 0xD2820000 :: u32])
    \<and> list_all (\<lambda>d. item_len d \<le> 2 \<and>
        Some (inst d) = map_option inst
          (decode_one (drop (item_off d) [0x7E0002FF, 0x3F800000, 0xD2820000]))) ds"
  using decode_all_tiles[of "[0x7E0002FF, 0x3F800000, 0xD2820000]"] by simp


text \<open>
  The opcode tables of the vector formats agree where one format re-encodes another: VOP3
  gives every compare of VOPC the mnemonic the VOPC table gives it (range 0x000, all 256 opcodes,
  unnamed ones included), and whatever name VOP3 has for a promoted VOP2 opcode (range 0x100) or
  VOP1 opcode (range 0x180) is the name of that opcode in its own table.
\<close>

theorem vop3_promotes_names:
  "vop3_name (ucast op) = vopc_name op
     \<and> (if op < 0x40 then vop3_name (0x100 + ucast op) \<in> {None, vop2_name op} else True)
     \<and> (if op < 0x80 then vop3_name (0x180 + ucast op) \<in> {None, vop1_name op} else True)"
proof -
  have u: "unat (ucast op :: u16) = unat op"
    by (simp add: unsigned_ucast_eq take_bit_nat_eq_self less_trans[OF unat_u8])
  have nowrap: "(n + unat op) mod 65536 = n + unat op" if "n \<le> 512" for n
    using that unat_u8[of op] by (intro mod_less) linarith
  have eq: "(ucast op :: u16) = x \<longleftrightarrow> unat op = unat x"
    "0x100 + (ucast op :: u16) = x \<longleftrightarrow> 256 + unat op = unat x"
    "0x180 + (ucast op :: u16) = x \<longleftrightarrow> 384 + unat op = unat x" for x
    by (simp_all add: word_unat_eq_iff[of _ x] u unat_word_ariths nowrap)
  have big: "unat op \<noteq> numeral k" if "256 \<le> (numeral k :: nat)" for k
    using that unat_u8[of op] by linarith
  have eq8: "op = x \<longleftrightarrow> unat op = unat x" for x
    by (rule word_unat_eq_iff)
  show ?thesis
    by (simp add: vop3_name_def vopc_name_def vop2_name_def vop1_name_def eq eq8 big word_less_nat_alt)
qed

end
