(* ===== verification/Gcn_Cfg.thy ===== *)
theory Gcn_Cfg
  imports Gcn_Decode
begin

text \<open>
  The control-flow graph of a decoded shader: \<^verbatim>\<open>crates/gcn/src/cfg.rs\<close>. A stream of decoded
  instructions is cut at its leaders into basic blocks with terminators; loops outside the
  supported shape are reported as errors. The theory shows that building never panics on a
  stream the decoder produces, that an accepted graph has exactly the control flow of the
  instruction stream, what the errors mean, and what shape of loop is accepted.
\<close>

section \<open>Data\<close>

datatype branch_cond = Vccz | Vccnz | Execz | Execnz

datatype terminator =
    Fallthrough nat
  | Branch nat
  | Cond branch_cond nat nat
  | Return

record basic_block =
  bb_start :: nat
  bb_insts :: "nat list"
  bb_term :: terminator

record cfg =
  cfg_blocks :: "basic_block list"

record loop_info =
  li_header :: nat
  li_back_edge_block :: nat
  li_merge :: nat
  li_cond :: branch_cond

datatype cfg_error =
    IrreducibleLoop nat nat
  | TargetOutOfRange nat nat
  | UnsupportedCondBranch nat u8

datatype term_kind =
    TEnd
  | TUncond int
  | TCond u8 "branch_cond option" int

text \<open>\<^verbatim>\<open>Iterator::position\<close>, and \<^verbatim>\<open>usize::MAX\<close> of a 64-bit host.\<close>

fun position :: "('a \<Rightarrow> bool) \<Rightarrow> 'a list \<Rightarrow> nat option" where
  "position P [] = None"
| "position P (x # xs) = (if P x then Some 0 else map_option Suc (position P xs))"

definition usize_MAX :: nat where
  "usize_MAX = 18446744073709551615"

section \<open>Queries on a graph\<close>

definition block_index_at :: "cfg \<Rightarrow> nat \<Rightarrow> nat option" where
  "block_index_at g start = position (\<lambda>b. bb_start b = start) (cfg_blocks g)"

text \<open>
  \<open>uncond_succ\<close> is only called on indices of blocks, where \<^verbatim>\<open>self.blocks[bi]\<close> does not panic
  (\<open>reach_in_range\<close> below).
\<close>

definition uncond_succ :: "cfg \<Rightarrow> nat \<Rightarrow> nat option" where
  "uncond_succ g bi =
     (case get (cfg_blocks g) bi of
        None \<Rightarrow> None
      | Some b \<Rightarrow> (case bb_term b of
            Fallthrough target \<Rightarrow> block_index_at g target
          | Branch target \<Rightarrow> block_index_at g target
          | _ \<Rightarrow> None))"

function reach_loop :: "cfg \<Rightarrow> nat list \<Rightarrow> nat \<Rightarrow> nat list" where
  "reach_loop g seen b =
     (case uncond_succ g b of
        None \<Rightarrow> seen
      | Some next \<Rightarrow>
          if next \<in> set seen \<or> length seen > length (cfg_blocks g) then seen
          else reach_loop g (seen @ [next]) next)"
  by pat_completeness auto
termination
  by (relation "measure (\<lambda>(g, seen, b). Suc (length (cfg_blocks g)) - length seen)") auto

definition reach :: "cfg \<Rightarrow> nat \<Rightarrow> nat list" where
  "reach g start = reach_loop g [start] start"

definition min_opt :: "nat list \<Rightarrow> nat option" where
  "min_opt xs = (if xs = [] then None else Some (Min (set xs)))"

text \<open>The outer \<open>None\<close> is the panic of \<^verbatim>\<open>self.blocks[bi]\<close> for an index that is no block.\<close>

definition merge_target :: "cfg \<Rightarrow> nat \<Rightarrow> nat option option" where
  "merge_target g bi =
     (case get (cfg_blocks g) bi of
        None \<Rightarrow> None
      | Some b \<Rightarrow> (case bb_term b of
            Cond _ taken fall \<Rightarrow>
              Some (case block_index_at g taken of
                  None \<Rightarrow> None
                | Some taken_i \<Rightarrow> (case block_index_at g fall of
                      None \<Rightarrow> None
                    | Some fall_i \<Rightarrow>
                        let taken_reach = reach g taken_i;
                            fall_reach = reach g fall_i
                        in min_opt (map (\<lambda>i. bb_start (cfg_blocks g ! i))
                             (filter (\<lambda>t. t \<in> set fall_reach) taken_reach))))
          | _ \<Rightarrow> Some None))"

definition loop_of :: "cfg \<Rightarrow> nat \<Rightarrow> loop_info option option" where
  "loop_of g bi =
     (case get (cfg_blocks g) bi of
        None \<Rightarrow> None
      | Some b \<Rightarrow> (case bb_term b of
            Cond c taken fall \<Rightarrow>
              Some (if taken > bb_start b then None
                    else Some \<lparr>li_header = taken, li_back_edge_block = bb_start b,
                               li_merge = fall, li_cond = c\<rparr>)
          | _ \<Rightarrow> Some None))"

section \<open>Building the graph\<close>

definition branch_target :: "u32 \<Rightarrow> u32 \<Rightarrow> u16 \<Rightarrow> int" where
  "branch_target off sz simm16 = uint off + uint sz + sint simm16"

definition classify_terminator :: "decoded \<Rightarrow> term_kind option" where
  "classify_terminator d =
     (case inst d of
        Sopp op simm16 \<Rightarrow>
          (let target = branch_target (offset_dwords d) (size_dwords d) simm16 in
           if op = S_ENDPGM then Some TEnd
           else if op = S_BRANCH then Some (TUncond target)
           else if op = S_CBRANCH_VCCZ then Some (TCond op (Some Vccz) target)
           else if op = S_CBRANCH_VCCNZ then Some (TCond op (Some Vccnz) target)
           else if op = S_CBRANCH_EXECZ then Some (TCond op (Some Execz) target)
           else if op = S_CBRANCH_EXECNZ then Some (TCond op (Some Execnz) target)
           else if op = S_CBRANCH_SCC0 \<or> op = S_CBRANCH_SCC1 then Some (TCond op None target)
           else None)
      | _ \<Rightarrow> None)"

text \<open>\<^verbatim>\<open>index_of_offset\<close> is the search in the offsets of the live instructions.\<close>

definition index_of_offset :: "nat list \<Rightarrow> nat \<Rightarrow> nat option" where
  "index_of_offset offs off = position (\<lambda>x. x = off) offs"

definition validate_target :: "nat \<Rightarrow> int \<Rightarrow> nat list \<Rightarrow> cfg_error + nat" where
  "validate_target branch_off target offs =
     (if target < 0 then Inl (TargetOutOfRange branch_off 0)
      else if index_of_offset offs (nat target) = None
        then Inl (TargetOutOfRange branch_off (nat target))
      else Inr (nat target))"

definition is_endpgm :: "decoded \<Rightarrow> bool" where
  "is_endpgm d = (case inst d of Sopp op _ \<Rightarrow> op = S_ENDPGM | _ \<Rightarrow> False)"

definition live_insts :: "decoded list \<Rightarrow> decoded list" where
  "live_insts ds =
     take (case position is_endpgm ds of Some i \<Rightarrow> i + 1 | None \<Rightarrow> length ds) ds"

definition next_offset :: "decoded list \<Rightarrow> nat list" where
  "next_offset rest = (case rest of [] \<Rightarrow> [] | d # _ \<Rightarrow> [item_off d])"

text \<open>Pass 1: the loop over the live instructions, with the leaders found so far.\<close>

fun collect_leaders :: "nat list \<Rightarrow> nat list \<Rightarrow> decoded list \<Rightarrow> cfg_error + nat list" where
  "collect_leaders offs leaders [] = Inr leaders"
| "collect_leaders offs leaders (d # rest) =
     (case classify_terminator d of
        None \<Rightarrow> collect_leaders offs leaders rest
      | Some TEnd \<Rightarrow> collect_leaders offs leaders rest
      | Some (TUncond target) \<Rightarrow>
          (case validate_target (item_off d) target offs of
             Inl e \<Rightarrow> Inl e
           | Inr t \<Rightarrow> collect_leaders offs (leaders @ [t] @ next_offset rest) rest)
      | Some (TCond op c target) \<Rightarrow>
          if c = None then Inl (UnsupportedCondBranch (item_off d) op)
          else (case validate_target (item_off d) target offs of
             Inl e \<Rightarrow> Inl e
           | Inr t \<Rightarrow> collect_leaders offs (leaders @ [t] @ next_offset rest) rest))"

text \<open>Pass 2. \<open>None\<close> is a panic: an \<^verbatim>\<open>expect\<close> that fails or the \<^verbatim>\<open>unreachable!\<close> arm.\<close>

definition block_terminator :: "decoded list \<Rightarrow> nat \<Rightarrow> nat option \<Rightarrow> terminator option" where
  "block_terminator live last_idx next_leader =
     (case classify_terminator (live ! last_idx) of
        Some TEnd \<Rightarrow> Some Return
      | Some (TUncond target) \<Rightarrow> Some (Branch (nat target))
      | Some (TCond _ (Some c) target) \<Rightarrow>
          Some (Cond c (nat target)
            (case get live (last_idx + 1) of Some d \<Rightarrow> item_off d | None \<Rightarrow> usize_MAX))
      | Some (TCond _ None _) \<Rightarrow> None
      | None \<Rightarrow> Some (case next_leader of Some next \<Rightarrow> Fallthrough next | None \<Rightarrow> Return))"

fun build_blocks :: "decoded list \<Rightarrow> nat list \<Rightarrow> nat list \<Rightarrow> basic_block list option" where
  "build_blocks live offs [] = Some []"
| "build_blocks live offs (leader # rest) =
     Option.bind (index_of_offset offs leader) (\<lambda>start_idx.
     Option.bind (case hd_opt rest of Some nl \<Rightarrow> index_of_offset offs nl
                    | None \<Rightarrow> Some (length live)) (\<lambda>next_leader_idx.
     Option.bind (last_opt [start_idx..<next_leader_idx]) (\<lambda>last_idx.
     Option.bind (block_terminator live last_idx (hd_opt rest)) (\<lambda>t.
     Option.bind (build_blocks live offs rest) (\<lambda>blocks.
       Some (\<lparr>bb_start = leader, bb_insts = [start_idx..<next_leader_idx], bb_term = t\<rparr>
             # blocks))))))"

fun uncond_check :: "basic_block list \<Rightarrow> cfg_error option" where
  "uncond_check [] = None"
| "uncond_check (b # bs) =
     (case bb_term b of
        Branch target \<Rightarrow> (if target \<le> bb_start b then Some (IrreducibleLoop (bb_start b) target)
                           else uncond_check bs)
      | _ \<Rightarrow> uncond_check bs)"

definition is_cond :: "basic_block \<Rightarrow> bool" where
  "is_cond b = (case bb_term b of Cond _ _ _ \<Rightarrow> True | _ \<Rightarrow> False)"

text \<open>The scan of the loop body for a second conditional.\<close>

definition second_cond :: "cfg \<Rightarrow> nat \<Rightarrow> loop_info \<Rightarrow> bool" where
  "second_cond g bi li =
     list_ex (\<lambda>(obi, ob). \<not> (bb_start ob < li_header li \<or> bb_start ob > li_back_edge_block li)
        \<and> obi \<noteq> bi \<and> is_cond ob)
       (zip [0..<length (cfg_blocks g)] (cfg_blocks g))"

text \<open>The loop over the block indices with the count of back-edges; \<open>None\<close> is a panic.\<close>

fun check_back_edges :: "cfg \<Rightarrow> nat list \<Rightarrow> nat \<Rightarrow> (cfg_error + unit) option" where
  "check_back_edges g [] back_edges = Some (Inr ())"
| "check_back_edges g (bi # bis) back_edges =
     (case loop_of g bi of
        None \<Rightarrow> None
      | Some None \<Rightarrow> check_back_edges g bis back_edges
      | Some (Some li) \<Rightarrow>
          let err = Some (Inl (IrreducibleLoop (li_back_edge_block li) (li_header li))) in
          if back_edges + 1 > 1 then err
          else if block_index_at g (li_header li) = Some 0 then err
          else if block_index_at g (li_merge li) = None then err
          else if second_cond g bi li then err
          else check_back_edges g bis (back_edges + 1))"

definition validate_loops :: "cfg \<Rightarrow> (cfg_error + unit) option" where
  "validate_loops g =
     (case uncond_check (cfg_blocks g) of
        Some e \<Rightarrow> Some (Inl e)
      | None \<Rightarrow> check_back_edges g [0..<length (cfg_blocks g)] 0)"

definition build_cfg :: "decoded list \<Rightarrow> (cfg_error + cfg) option" where
  "build_cfg ds =
     (let live = live_insts ds;
          offs = map item_off live
      in case collect_leaders offs (next_offset live) live of
           Inl e \<Rightarrow> Some (Inl e)
         | Inr leaders \<Rightarrow>
             Option.bind (build_blocks live offs (remdups_adj (sort leaders))) (\<lambda>blocks.
               let g = \<lparr>cfg_blocks = blocks\<rparr> in
               Option.bind (validate_loops g) (\<lambda>r.
                 Some (case r of Inl e \<Rightarrow> Inl e | Inr _ \<Rightarrow> Inr g))))"

section \<open>Searching\<close>

lemma position_SomeD: "position P xs = Some i \<Longrightarrow> i < length xs \<and> P (xs ! i)"
  by (induction xs arbitrary: i) (auto split: if_splits)

lemma position_None_iff: "position P xs = None \<longleftrightarrow> list_all (\<lambda>x. \<not> P x) xs"
  by (induction xs) auto

lemma position_nth_distinct:
  "distinct xs \<Longrightarrow> i < length xs \<Longrightarrow> position (\<lambda>x. x = xs ! i) xs = Some i"
proof (induction xs arbitrary: i)
  case (Cons x xs)
  then show ?case by (cases i) auto
qed simp

lemma index_of_nth:
  "sorted_wrt (<) offs \<Longrightarrow> i < length offs \<Longrightarrow> index_of_offset offs (offs ! i) = Some i"
  by (simp add: index_of_offset_def position_nth_distinct strict_sorted_iff)

lemma index_of_mem: "index_of_offset offs x \<noteq> None \<longleftrightarrow> x \<in> set offs"
  by (auto simp: index_of_offset_def position_None_iff list_all_iff)

lemma validate_target_Inr:
  "validate_target b t offs = Inr x \<longleftrightarrow> 0 \<le> t \<and> x = nat t \<and> nat t \<in> set offs"
  using index_of_mem[of offs "nat t"] by (auto simp: validate_target_def)

section \<open>Cutting a stream at increasing positions\<close>

fun cut_list :: "nat list \<Rightarrow> nat \<Rightarrow> nat list list" where
  "cut_list [] n = []"
| "cut_list [i] n = [[i..<n]]"
| "cut_list (i # j # is) n = [i..<j] # cut_list (j # is) n"

lemma cut_list_concat:
  "sorted_wrt (<) is \<Longrightarrow> list_all (\<lambda>i. i < n) is \<Longrightarrow> concat (cut_list is n) = (case is of [] \<Rightarrow> [] | i # _ \<Rightarrow> [i..<n])"
proof (induction "is" n rule: cut_list.induct)
  case (3 i j "is" n)
  then have "i < j" "j < n" by auto
  then have "[i..<j] @ [j..<n] = [i..<n]"
    by (metis less_imp_le upt_add_eq_append le_add_diff_inverse)
  then show ?case using 3 by simp
qed simp_all

text \<open>The terminator of the block that ends with instruction \<open>l\<close>.\<close>

definition term_at :: "decoded list \<Rightarrow> nat \<Rightarrow> terminator" where
  "term_at live l = the (block_terminator live l
     (if Suc l < length live then Some (item_off (live ! Suc l)) else None))"

definition no_scc :: "decoded list \<Rightarrow> bool" where
  "no_scc live \<longleftrightarrow>
     list_all (\<lambda>d. case classify_terminator d of Some (TCond _ None _) \<Rightarrow> False | _ \<Rightarrow> True) live"

lemma block_terminator_at:
  assumes "no_scc live" and "l < length live"
  shows "block_terminator live l (if Suc l < length live then Some (item_off (live ! Suc l)) else None)
    = Some (term_at live l)"
proof -
  have "case classify_terminator (live ! l) of Some (TCond _ None _) \<Rightarrow> False | _ \<Rightarrow> True"
    using assms by (simp add: no_scc_def list_all_length)
  then show ?thesis
    by (simp add: term_at_def block_terminator_def split: option.splits term_kind.splits)
qed

lemma last_opt_upt: "i < j \<Longrightarrow> last_opt [i..<j] = Some (j - 1)"
  by (simp add: last_opt_def)

definition block_of :: "decoded list \<Rightarrow> nat list \<Rightarrow> basic_block" where
  "block_of live ix = \<lparr>bb_start = item_off (live ! hd ix), bb_insts = ix,
     bb_term = term_at live (last ix)\<rparr>"

lemma build_blocks_cut:
  fixes live :: "decoded list"
  defines "offs \<equiv> map item_off live"
  assumes sorted: "sorted_wrt (<) offs" and scc: "no_scc live"
  shows "sorted_wrt (<) is \<Longrightarrow> list_all (\<lambda>i. i < length live) is \<Longrightarrow>
    build_blocks live offs (map ((!) offs) is) = Some (map (block_of live) (cut_list is (length live)))"
proof (induction "is" "length live" rule: cut_list.induct)
  case (2 i)
  then have i: "i < length live" by simp
  moreover have "index_of_offset offs (offs ! i) = Some i"
    using i sorted by (intro index_of_nth) (simp_all add: offs_def)
  moreover have "block_terminator live (length live - 1) None = Some (term_at live (length live - 1))"
  proof -
    obtain m where "length live = Suc m" using i by (cases "length live") auto
    then show ?thesis using block_terminator_at[OF scc, of "length live - 1"] by simp
  qed
  ultimately show ?case
    by (simp add: hd_opt_def last_opt_upt block_of_def) (simp add: offs_def)
next
  case (3 i j "is")
  then have ij: "i < j" "j < length live" by simp_all
  have ix: "index_of_offset offs (offs ! k) = Some k" if "k < length live" for k
    using that sorted by (intro index_of_nth) (simp_all add: offs_def)
  have "block_terminator live (j - 1) (Some (offs ! j)) = Some (term_at live (j - 1))"
    using block_terminator_at[OF scc, of "j - 1"] ij by (simp add: offs_def)
  then show ?case
    using 3 ij ix by (simp add: hd_opt_def last_opt_upt block_of_def) (simp add: offs_def)
qed simp


section \<open>The leaders\<close>

fun leaders_cover :: "nat list \<Rightarrow> decoded list \<Rightarrow> bool" where
  "leaders_cover ls [] = True"
| "leaders_cover ls (d # rest) =
     ((case classify_terminator d of
         Some (TUncond t) \<Rightarrow> 0 \<le> t \<and> nat t \<in> set ls \<and> set (next_offset rest) \<subseteq> set ls
       | Some (TCond _ _ t) \<Rightarrow> 0 \<le> t \<and> nat t \<in> set ls \<and> set (next_offset rest) \<subseteq> set ls
       | _ \<Rightarrow> True) \<and> leaders_cover ls rest)"

lemma no_scc_Cons [simp]:
  "no_scc (d # rest) \<longleftrightarrow>
     (case classify_terminator d of Some (TCond _ None _) \<Rightarrow> False | _ \<Rightarrow> True) \<and> no_scc rest"
  by (simp add: no_scc_def)

lemma next_offset_subset: "set (next_offset rest) \<subseteq> item_off ` set rest"
  by (cases rest) (auto simp: next_offset_def)

lemma collect_leaders_Inr:
  "collect_leaders offs acc rest = Inr ls \<Longrightarrow>
     set acc \<subseteq> set ls \<and> leaders_cover ls rest \<and> no_scc rest
     \<and> set ls \<subseteq> set acc \<union> set offs \<union> item_off ` set rest"
proof (induction rest arbitrary: acc)
  case Nil
  then show ?case by (simp add: no_scc_def)
next
  case (Cons d rest)
  show ?case
  proof (cases "classify_terminator d")
    case None
    then show ?thesis using Cons.IH[of acc] Cons.prems by auto
  next
    case (Some k)
    show ?thesis
    proof (cases k)
      case TEnd
      then show ?thesis using Some Cons.IH[of acc] Cons.prems by auto
    next
      case (TUncond t)
      then have v: "0 \<le> t" "nat t \<in> set offs"
        and c: "collect_leaders offs (acc @ [nat t] @ next_offset rest) rest = Inr ls"
        using Some Cons.prems by (auto split: sum.splits simp: validate_target_Inr)
      show ?thesis
        using Cons.IH[OF c] v Some TUncond next_offset_subset[of rest] by auto
    next
      case (TCond op cnd t)
      then have v: "0 \<le> t" "nat t \<in> set offs" "cnd \<noteq> None"
        and c: "collect_leaders offs (acc @ [nat t] @ next_offset rest) rest = Inr ls"
        using Some Cons.prems by (auto split: sum.splits if_splits simp: validate_target_Inr)
      show ?thesis
        using Cons.IH[OF c] v Some TCond next_offset_subset[of rest] by auto
    qed
  qed
qed

lemma leaders_cover_nth:
  assumes "leaders_cover ls live" and "k < length live"
    and "classify_terminator (live ! k) = Some (TUncond t) \<or> classify_terminator (live ! k) = Some (TCond op c t)"
  shows "0 \<le> t" and "nat t \<in> set ls" and "Suc k < length live \<Longrightarrow> item_off (live ! Suc k) \<in> set ls"
proof -
  have "0 \<le> t \<and> nat t \<in> set ls \<and> (Suc k < length live \<longrightarrow> item_off (live ! Suc k) \<in> set ls)"
    using assms
  proof (induction live arbitrary: k)
    case (Cons d rest)
    show ?case
    proof (cases k)
      case 0
      then show ?thesis using Cons.prems by (cases rest) (auto simp: next_offset_def)
    next
      case (Suc k')
      then show ?thesis using Cons.prems Cons.IH[of k'] by simp
    qed
  qed simp
  then show "0 \<le> t" "nat t \<in> set ls" "Suc k < length live \<Longrightarrow> item_off (live ! Suc k) \<in> set ls"
    by simp_all
qed

lemma sorted_index_less:
  fixes offs :: "nat list"
  assumes "sorted_wrt (<) offs" and "i < length offs" and "j < length offs" and "offs ! i < offs ! j"
  shows "i < j"
proof (rule ccontr)
  assume "\<not> i < j"
  then have "j = i \<or> j < i" by auto
  then show False using assms sorted_wrt_nth_less[OF assms(1), of j i] by auto
qed

lemma strict_sorted_remdups_adj: "sorted xs \<Longrightarrow> sorted_wrt (<) (remdups_adj xs)"
  for xs :: "nat list"
proof (induction xs rule: remdups_adj.induct)
  case (3 x y xs)
  show ?case
  proof (cases "x = y")
    case False
    then have "x < z" if "z \<in> set (y # xs)" for z using 3(3) that by fastforce
    moreover have "sorted_wrt (<) (remdups_adj (y # xs))" using 3(2)[OF False] 3(3) by simp
    ultimately have "sorted_wrt (<) (x # remdups_adj (y # xs))"
      unfolding sorted_wrt.simps remdups_adj_set by blast
    then show ?thesis using False by simp
  qed (use 3 in simp)
qed simp_all

lemma leaders_as_indices:
  fixes offs ls :: "nat list"
  assumes sorted: "sorted_wrt (<) offs" and sub: "set ls \<subseteq> set offs"
  shows "\<exists>is. remdups_adj (sort ls) = map ((!) offs) is \<and> sorted_wrt (<) is
    \<and> list_all (\<lambda>i. i < length offs) is"
proof -
  define lds where "lds = remdups_adj (sort ls)"
  define ix where "ix = map (\<lambda>x. the (index_of_offset offs x)) lds"
  have mem: "x \<in> set offs" if "x \<in> set lds" for x using that sub by (auto simp: lds_def)
  have at: "the (index_of_offset offs x) < length offs" "offs ! the (index_of_offset offs x) = x"
    if x: "x \<in> set lds" for x
  proof -
    obtain i where "index_of_offset offs x = Some i" using mem[OF x] index_of_mem[of offs x] by auto
    then show "the (index_of_offset offs x) < length offs" "offs ! the (index_of_offset offs x) = x"
      by (auto simp: index_of_offset_def dest: position_SomeD)
  qed
  have lds: "sorted_wrt (<) lds"
    by (simp add: lds_def strict_sorted_remdups_adj)
  have "sorted_wrt (<) ix"
    unfolding ix_def sorted_wrt_map
  proof (rule sorted_wrt_mono_rel[OF _ lds])
    fix x y assume x: "x \<in> set lds" and y: "y \<in> set lds" and "x < y"
    show "the (index_of_offset offs x) < the (index_of_offset offs y)"
      by (rule sorted_index_less[OF sorted at(1)[OF x] at(1)[OF y]])
        (unfold at(2)[OF x] at(2)[OF y], fact)
  qed
  moreover have "lds = map ((!) offs) ix" unfolding ix_def map_map by (simp add: at map_idI)
  moreover have "list_all (\<lambda>i. i < length offs) ix" by (auto simp: ix_def list_all_iff at)
  ultimately show ?thesis unfolding lds_def by blast
qed


section \<open>Building never panics\<close>

abbreviation stream_ok :: "decoded list \<Rightarrow> bool" where
  "stream_ok ds \<equiv> sorted_wrt (<) (map item_off ds)"

lemma live_prefix: "\<exists>k. live_insts ds = take k ds"
  by (auto simp: live_insts_def)

lemma live_ok: "stream_ok ds \<Longrightarrow> stream_ok (live_insts ds)"
  using live_prefix[of ds] by (auto simp: take_map[symmetric] sorted_wrt_take)

lemma endpgm_only_last:
  assumes "Suc i < length (live_insts ds)"
  shows "\<not> is_endpgm (live_insts ds ! i)"
proof (cases "position is_endpgm ds")
  case None
  then show ?thesis using assms by (auto simp: live_insts_def position_None_iff list_all_length)
next
  case (Some k)
  have "\<not> is_endpgm (ds ! i)" if "i < k" "position is_endpgm ds = Some k" for i k
    using that
  proof (induction ds arbitrary: i k)
    case (Cons d ds)
    then show ?case by (cases i) (auto split: if_splits)
  qed simp
  then show ?thesis using Some assms by (auto simp: live_insts_def)
qed

lemma loop_of_total: "bi < length (cfg_blocks g) \<Longrightarrow> loop_of g bi \<noteq> None"
  by (auto simp: loop_of_def get_def split: terminator.splits)

lemma check_back_edges_total:
  "list_all (\<lambda>bi. bi < length (cfg_blocks g)) bis \<Longrightarrow> check_back_edges g bis n \<noteq> None"
  by (induction bis arbitrary: n) (auto simp: Let_def loop_of_total split: option.splits)

lemma validate_loops_total: "validate_loops g \<noteq> None"
  using check_back_edges_total[of g "[0..<length (cfg_blocks g)]" 0]
  by (auto simp: validate_loops_def list_all_iff split: option.splits)

text \<open>The leaders as positions, and the graph that pass 2 cuts.\<close>

definition cut_graph :: "decoded list \<Rightarrow> nat list \<Rightarrow> cfg" where
  "cut_graph live is = \<lparr>cfg_blocks = map (block_of live) (cut_list is (length live))\<rparr>"

definition leader_positions :: "decoded list \<Rightarrow> nat list \<Rightarrow> bool" where
  "leader_positions live is \<longleftrightarrow> sorted_wrt (<) is \<and> list_all (\<lambda>i. i < length live) is
     \<and> (live \<noteq> [] \<longrightarrow> is \<noteq> [] \<and> hd is = 0)
     \<and> leaders_cover (map (\<lambda>i. item_off (live ! i)) is) live \<and> no_scc live"

lemma sorted_zero_hd: "sorted_wrt (<) is \<Longrightarrow> 0 \<in> set is \<Longrightarrow> is \<noteq> [] \<and> hd is = (0::nat)"
  by (cases "is") auto

lemma leaders_cover_cong: "set ls = set ls' \<Longrightarrow> leaders_cover ls ds = leaders_cover ls' ds"
  by (induction ds) (auto split: option.splits term_kind.splits)

lemma collected_positions:
  assumes ok: "stream_ok live" and c: "collect_leaders (map item_off live) (next_offset live) live = Inr ls"
  shows "\<exists>is. leader_positions live is
    \<and> build_blocks live (map item_off live) (remdups_adj (sort ls)) = Some (cfg_blocks (cut_graph live is))"
proof -
  let ?offs = "map item_off live"
  note col = collect_leaders_Inr[OF c]
  have sub: "set ls \<subseteq> set ?offs" using col next_offset_subset[of live] by auto
  obtain ix where ix: "remdups_adj (sort ls) = map ((!) ?offs) ix" "sorted_wrt (<) ix"
    "list_all (\<lambda>i. i < length ?offs) ix"
    using leaders_as_indices[OF ok sub] by blast
  have set_ls: "set (map ((!) ?offs) ix) = set ls" unfolding ix(1)[symmetric] by simp
  have e: "map ((!) ?offs) ix = map (\<lambda>i. item_off (live ! i)) ix"
    using ix(3) by (simp add: list_all_iff)
  have zero: "ix \<noteq> [] \<and> hd ix = 0" if "live \<noteq> []"
  proof -
    have "?offs ! 0 \<in> set ls" using col that by (cases live) (auto simp: next_offset_def)
    then have "?offs ! 0 \<in> (!) ?offs ` set ix" using set_ls by simp
    then obtain i where i: "?offs ! 0 = ?offs ! i" "i \<in> set ix" by (rule imageE)
    have lt: "i < length ?offs" using i(2) ix(3) by (simp add: list_all_iff)
    have dist: "distinct ?offs" using ok by (simp only: strict_sorted_iff)
    have pos: "0 < length ?offs" using that by simp
    have "i = 0" using nth_eq_iff_index_eq[OF dist pos lt] i(1) by blast
    then show ?thesis using i ix(2) sorted_zero_hd by auto
  qed
  have "leaders_cover (map (\<lambda>i. item_off (live ! i)) ix) live"
    using col leaders_cover_cong[of ls "map (\<lambda>i. item_off (live ! i)) ix"] set_ls e by auto
  then have "leader_positions live ix"
    using ix zero col by (auto simp: leader_positions_def)
  moreover have "build_blocks live ?offs (map ((!) ?offs) ix)
      = Some (map (block_of live) (cut_list ix (length live)))"
    using build_blocks_cut[OF ok, of ix] ix col by simp
  ultimately show ?thesis unfolding ix(1) by (auto simp: cut_graph_def)
qed

lemma build_cfg_graph:
  assumes "stream_ok ds"
  obtains e where "build_cfg ds = Some (Inl e)"
  | "is" where "leader_positions (live_insts ds) is"
    "validate_loops (cut_graph (live_insts ds) is) = Some (Inr ())"
    "build_cfg ds = Some (Inr (cut_graph (live_insts ds) is))"
proof (cases "collect_leaders (map item_off (live_insts ds)) (next_offset (live_insts ds)) (live_insts ds)")
  case (Inl e)
  then have "build_cfg ds = Some (Inl e)" by (simp add: build_cfg_def)
  then show ?thesis using that(1) by blast
next
  case (Inr ls)
  from collected_positions[OF live_ok[OF assms] Inr] obtain ix where
    ix: "leader_positions (live_insts ds) ix"
    "build_blocks (live_insts ds) (map item_off (live_insts ds)) (remdups_adj (sort ls))
      = Some (cfg_blocks (cut_graph (live_insts ds) ix))" by blast
  obtain r where r: "validate_loops (cut_graph (live_insts ds) ix) = Some r"
    using validate_loops_total by blast
  have g: "\<lparr>cfg_blocks = cfg_blocks (cut_graph (live_insts ds) ix)\<rparr> = cut_graph (live_insts ds) ix"
    by simp
  show ?thesis
  proof (cases r)
    case (Inl e)
    then have "build_cfg ds = Some (Inl e)"
      using \<open>collect_leaders _ _ _ = Inr ls\<close> ix(2) r by (simp add: build_cfg_def Let_def g)
    then show ?thesis using that(1) by blast
  next
    case Inr': (Inr u)
    then have "build_cfg ds = Some (Inr (cut_graph (live_insts ds) ix))"
      using Inr ix(2) r by (simp add: build_cfg_def Let_def g)
    then show ?thesis using that(2) ix(1) r Inr' by auto
  qed
qed


lemma build_cfg_total: "stream_ok ds \<Longrightarrow> build_cfg ds \<noteq> None"
  by (erule build_cfg_graph) simp_all

section \<open>The graph has the control flow of the stream\<close>

text \<open>
  The successors of an instruction by the semantics of the ISA: the end of the program has none,
  a branch goes to the dword after it plus the signed displacement, a conditional branch goes
  there or on, everything else goes on. Then the successors a terminator names.
\<close>

definition flow_succs :: "decoded list \<Rightarrow> nat \<Rightarrow> int list" where
  "flow_succs live k =
     (let d = live ! k;
          on = (if Suc k < length live then [int (item_off (live ! Suc k))] else []);
          jump = (\<lambda>imm. int (item_off d) + int (item_len d) + sint imm)
      in case inst d of
           Sopp op imm \<Rightarrow>
             (if op = 1 then []
              else if op = 2 then [jump imm]
              else if 4 \<le> op \<and> op \<le> 9 then jump imm # on
              else on)
         | _ \<Rightarrow> on)"

fun term_succs :: "terminator \<Rightarrow> int list" where
  "term_succs Return = []"
| "term_succs (Fallthrough t) = [int t]"
| "term_succs (Branch t) = [int t]"
| "term_succs (Cond c t f) = int t # (if f = usize_MAX then [] else [int f])"

lemma cut_list_mem:
  assumes "sorted_wrt (<) is" and "list_all (\<lambda>i. i < n) is" and "ix \<in> set (cut_list is n)"
  shows "\<exists>i j. ix = [i..<j] \<and> i < j \<and> j \<le> n \<and> i \<in> set is \<and> (j = n \<or> j \<in> set is)
    \<and> list_all (\<lambda>k. k \<le> i \<or> j \<le> k) is"
  using assms
proof (induction "is" n rule: cut_list.induct)
  case (3 i j "is" n)
  show ?case
  proof (cases "ix = [i..<j]")
    case True
    then show ?thesis using 3 by (intro exI[of _ i] exI[of _ j]) (auto simp: list_all_iff)
  next
    case False
    then obtain i' j' where "ix = [i'..<j']" "i' < j'" "j' \<le> n" "i' \<in> set (j # is)"
      "j' = n \<or> j' \<in> set (j # is)" "list_all (\<lambda>k. k \<le> i' \<or> j' \<le> k) (j # is)"
      using 3 by auto
    moreover from this have "i \<le> i'" using 3(2) by auto
    ultimately show ?thesis by (intro exI[of _ i'] exI[of _ j']) auto
  qed
qed auto

lemma cut_list_heads: "sorted_wrt (<) is \<Longrightarrow> list_all (\<lambda>i. i < n) is \<Longrightarrow> map hd (cut_list is n) = is"
  by (induction "is" n rule: cut_list.induct) auto

lemma op_4_9: "4 \<le> op \<and> op \<le> 9 \<longleftrightarrow> op = 4 \<or> op = 5 \<or> op = 6 \<or> op = 7 \<or> op = 8 \<or> op = 9"
  for op :: u8
proof -
  have "4 \<le> n \<and> n \<le> 9 \<longleftrightarrow> n = 4 \<or> n = 5 \<or> n = 6 \<or> n = 7 \<or> n = 8 \<or> n = 9" for n :: nat by auto
  from this[of "unat op"] show ?thesis by (simp add: word_le_nat_alt word_unat_eq_iff)
qed

lemma item_off_not_MAX [simp]: "item_off d \<noteq> usize_MAX"
  using u32_bound[of "offset_dwords d"] by (simp add: usize_MAX_def)

lemma classify_TEnd: "classify_terminator d = Some TEnd \<longleftrightarrow> is_endpgm d"
  by (simp add: classify_terminator_def is_endpgm_def Let_def split: inst.splits)

text \<open>What the classification says of the flow out of instruction \<open>k\<close>.\<close>

lemma flow_of_class:
  defines "on \<equiv> \<lambda>live k. if Suc k < length live then [int (item_off (live ! Suc k))] else []"
  shows "flow_succs live k =
    (case classify_terminator (live ! k) of
       None \<Rightarrow> on live k | Some TEnd \<Rightarrow> [] | Some (TUncond t) \<Rightarrow> [t] | Some (TCond _ _ t) \<Rightarrow> t # on live k)"
proof -
  have t: "branch_target (offset_dwords d) (size_dwords d) imm
      = int (item_off d) + int (item_len d) + sint imm" for d imm
    by (simp add: branch_target_def)
  show ?thesis
    unfolding on_def flow_succs_def classify_terminator_def Let_def op_4_9 t sopp_ops
    by (simp split: inst.splits)
qed

lemma flow_at:
  assumes pos: "leader_positions live is" and k: "k < length live"
  shows "flow_succs live k = term_succs (term_at live k)"
proof -
  have cov: "leaders_cover (map (\<lambda>i. item_off (live ! i)) is) live" and scc: "no_scc live"
    using pos by (simp_all add: leader_positions_def)
  have bt: "block_terminator live k (if Suc k < length live then Some (item_off (live ! Suc k)) else None)
      = Some (term_at live k)"
    by (rule block_terminator_at[OF scc k])
  note bt = bt[symmetric]
  show ?thesis
  proof (cases "classify_terminator (live ! k)")
    case None
    then show ?thesis using bt by (auto simp: flow_of_class block_terminator_def split: if_splits)
  next
    case (Some c)
    show ?thesis
    proof (cases c)
      case TEnd
      then show ?thesis using bt Some by (auto simp: flow_of_class block_terminator_def)
    next
      case (TUncond t)
      then have "0 \<le> t" using leaders_cover_nth(1)[OF cov k] Some by blast
      then show ?thesis using bt Some TUncond by (auto simp: flow_of_class block_terminator_def)
    next
      case (TCond op cnd t)
      then have "0 \<le> t" using leaders_cover_nth(1)[OF cov k] Some by blast
      then show ?thesis using bt Some TCond
        by (auto simp: flow_of_class block_terminator_def get_def split: option.splits)
    qed
  qed
qed

lemma leader_index:
  assumes ok: "stream_ok live" and pos: "leader_positions live is" and k: "k < length live"
    and mem: "item_off (live ! k) \<in> set (map (\<lambda>i. item_off (live ! i)) is)"
  shows "k \<in> set is"
proof -
  obtain i where i: "i \<in> set is" "item_off (live ! k) = item_off (live ! i)" using mem by auto
  have "i < length live" using i(1) pos by (simp add: leader_positions_def list_all_iff)
  moreover have dist: "distinct (map item_off live)" using ok by (simp only: strict_sorted_iff)
  ultimately have "k = i" using nth_eq_iff_index_eq[OF dist, of k i] k i(2) by simp
  then show ?thesis using i(1) by simp
qed

text \<open>Inside a block control only moves on.\<close>

lemma interior_flow:
  assumes ok: "stream_ok live" and pos: "leader_positions live is"
    and last: "\<And>i. Suc i < length live \<Longrightarrow> \<not> is_endpgm (live ! i)"
    and k: "Suc k < length live" and no: "Suc k \<notin> set is"
  shows "flow_succs live k = [int (item_off (live ! Suc k))]"
proof -
  have cov: "leaders_cover (map (\<lambda>i. item_off (live ! i)) is) live"
    using pos by (simp add: leader_positions_def)
  have "classify_terminator (live ! k) = None"
  proof (cases "classify_terminator (live ! k)")
    case (Some c)
    have "c \<noteq> TEnd" using Some last[OF k] classify_TEnd by auto
    then obtain op cnd t where "classify_terminator (live ! k) = Some (TUncond t)
        \<or> classify_terminator (live ! k) = Some (TCond op cnd t)"
      using Some by (cases c) auto
    then have "item_off (live ! Suc k) \<in> set (map (\<lambda>i. item_off (live ! i)) is)"
      using leaders_cover_nth(3)[OF cov _ _ k] k by auto
    then have "Suc k \<in> set is" by (rule leader_index[OF ok pos k])
    then show ?thesis using no by simp
  qed simp
  then show ?thesis using k by (simp add: flow_of_class)
qed

lemma flow_leads_to_leader:
  assumes ok: "stream_ok live" and pos: "leader_positions live is"
    and k: "k < length live" and nxt: "Suc k = length live \<or> Suc k \<in> set is"
  shows "set (flow_succs live k) \<subseteq> int ` item_off ` (!) live ` set is"
proof -
  have cov: "leaders_cover (map (\<lambda>i. item_off (live ! i)) is) live"
    using pos by (simp add: leader_positions_def)
  have tgt: "t \<in> int ` item_off ` (!) live ` set is"
    if "classify_terminator (live ! k) = Some (TUncond t) \<or> classify_terminator (live ! k) = Some (TCond op c t)"
    for t op c
  proof -
    have "nat t \<in> set (map (\<lambda>i. item_off (live ! i)) is)" "0 \<le> t"
      using leaders_cover_nth(1,2)[OF cov k that] by blast+
    then obtain i where i: "i \<in> set is" "nat t = item_off (live ! i)" by auto
    then have "t = int (item_off (live ! i))" using \<open>0 \<le> t\<close> by linarith
    then show ?thesis using i(1) by blast
  qed
  have on: "int (item_off (live ! Suc k)) \<in> int ` item_off ` (!) live ` set is" if "Suc k < length live"
  proof -
    have "Suc k \<in> set is" using nxt that by simp
    then show ?thesis by blast
  qed
  show ?thesis
    using tgt on by (auto simp: flow_of_class split: option.splits term_kind.splits if_splits)
qed


lemma cut_graph_starts:
  assumes "leader_positions live is"
  shows "map bb_start (cfg_blocks (cut_graph live is)) = map (\<lambda>i. item_off (live ! i)) is"
proof -
  have "map bb_start (cfg_blocks (cut_graph live is))
      = map (\<lambda>i. item_off (live ! i)) (map hd (cut_list is (length live)))"
    by (simp add: cut_graph_def block_of_def)
  then show ?thesis using assms by (simp only: leader_positions_def cut_list_heads)
qed

definition block_faithful :: "decoded list \<Rightarrow> nat set \<Rightarrow> basic_block \<Rightarrow> bool" where
  "block_faithful live starts b \<longleftrightarrow>
     bb_insts b \<noteq> [] \<and> bb_start b = item_off (live ! hd (bb_insts b))
     \<and> list_all (\<lambda>k. flow_succs live k = [int (item_off (live ! Suc k))]) (butlast (bb_insts b))
     \<and> term_succs (bb_term b) = flow_succs live (last (bb_insts b))
     \<and> set (term_succs (bb_term b)) \<subseteq> int ` starts"

lemma cut_graph_faithful:
  assumes ok: "stream_ok live" and pos: "leader_positions live is"
    and last: "\<And>i. Suc i < length live \<Longrightarrow> \<not> is_endpgm (live ! i)"
    and b: "b \<in> set (cfg_blocks (cut_graph live is))"
  shows "block_faithful live (bb_start ` set (cfg_blocks (cut_graph live is))) b"
proof -
  have sorted: "sorted_wrt (<) is" "list_all (\<lambda>i. i < length live) is"
    using pos by (simp_all add: leader_positions_def)
  obtain ix where ix: "ix \<in> set (cut_list is (length live))" "b = block_of live ix"
    using b by (auto simp: cut_graph_def)
  obtain i j where ij: "ix = [i..<j]" "i < j" "j \<le> length live" "j = length live \<or> j \<in> set is"
    "list_all (\<lambda>k. k \<le> i \<or> j \<le> k) is"
    using cut_list_mem[OF sorted ix(1)] by blast
  have starts: "bb_start ` set (cfg_blocks (cut_graph live is)) = item_off ` (!) live ` set is"
    using arg_cong[OF cut_graph_starts[OF pos], of set] by (auto simp: image_image)
  obtain l where l: "j = Suc l" using ij(2) by (cases j) auto
  have mid: "flow_succs live k = [int (item_off (live ! Suc k))]" if "i \<le> k" "k < l" for k
  proof (rule interior_flow[OF ok pos last])
    show "Suc k < length live" using that ij(3) l by simp
    show "Suc k \<notin> set is" using ij(5) that l by (auto simp: list_all_iff)
  qed simp_all
  have "flow_succs live l = term_succs (term_at live l)"
    using ij(3) l by (intro flow_at[OF pos]) simp
  moreover have "set (flow_succs live l) \<subseteq> int ` item_off ` (!) live ` set is"
    using ij l by (intro flow_leads_to_leader[OF ok pos]) auto
  moreover have "hd [i..<j] = i" using ij(2) by (simp add: upt_conv_Cons del: upt_Suc)
  moreover have "butlast [i..<j] = [i..<l]" "last [i..<j] = l" using ij(2) l by simp_all
  ultimately show ?thesis
    using mid ij(1,2) by (auto simp: block_faithful_def ix(2) block_of_def list_all_iff starts)
qed

text \<open>
  C13. An accepted graph has exactly the control flow of the instruction stream. Its blocks, in
  order, hold every live instruction once (up to and including the first \<open>s_endpgm\<close>); a block
  starts at the offset of its first instruction; inside a block control only moves to the next
  instruction; at the end of a block the terminator names exactly the successors the last
  instruction has, and each of them is the start of a block.
\<close>

theorem cfg_matches_stream:
  assumes "stream_ok ds" and "build_cfg ds = Some (Inr g)"
  shows "concat (map bb_insts (cfg_blocks g)) = [0..<length (live_insts ds)]
    \<and> sorted_wrt (<) (map bb_start (cfg_blocks g))
    \<and> list_all (block_faithful (live_insts ds) (bb_start ` set (cfg_blocks g))) (cfg_blocks g)"
proof -
  let ?live = "live_insts ds"
  obtain ix where pos: "leader_positions ?live ix" and g: "g = cut_graph ?live ix"
    using assms by (auto elim: build_cfg_graph)
  have ok: "stream_ok ?live" by (rule live_ok[OF assms(1)])
  have sorted: "sorted_wrt (<) ix" "list_all (\<lambda>i. i < length ?live) ix"
    using pos by (simp_all add: leader_positions_def)
  have "concat (map bb_insts (cfg_blocks g)) = concat (cut_list ix (length ?live))"
    by (simp add: g cut_graph_def block_of_def comp_def)
  also have "\<dots> = [0..<length ?live]"
  proof (cases "?live = []")
    case True
    then have "ix = []" using sorted(2) by (cases ix) auto
    then show ?thesis using True by simp
  next
    case False
    then obtain is' where "ix = 0 # is'" using pos by (cases ix) (auto simp: leader_positions_def)
    then show ?thesis using cut_list_concat[OF sorted] by simp
  qed
  finally have "concat (map bb_insts (cfg_blocks g)) = [0..<length ?live]" .
  moreover have "sorted_wrt (<) (map bb_start (cfg_blocks g))"
  proof -
    have "item_off (?live ! i) < item_off (?live ! j)" if "i \<in> set ix" "j \<in> set ix" "i < j" for i j
      using that sorted(2) sorted_wrt_nth_less[OF ok, of i j] by (simp add: list_all_iff)
    then show ?thesis
      unfolding g cut_graph_starts[OF pos] sorted_wrt_map
      by (rule sorted_wrt_mono_rel[OF _ sorted(1)])
  qed
  moreover have "block_faithful ?live (bb_start ` set (cfg_blocks g)) b" if "b \<in> set (cfg_blocks g)" for b
    using cut_graph_faithful[OF ok pos endpgm_only_last] that unfolding g by blast
  ultimately show ?thesis by (simp add: list_all_iff)
qed


section \<open>The loops that are accepted\<close>

definition back_edge :: "basic_block \<Rightarrow> bool" where
  "back_edge b \<longleftrightarrow> list_ex (\<lambda>t. t \<le> int (bb_start b)) (term_succs (bb_term b))"

text \<open>What \<open>validate_loops\<close> leaves of a loop: an exit to a block, a header that is not the entry,
  and no other conditional between header and back-edge.\<close>

definition loop_ok :: "cfg \<Rightarrow> nat \<Rightarrow> loop_info \<Rightarrow> bool" where
  "loop_ok g bi li \<longleftrightarrow> block_index_at g (li_header li) \<noteq> Some 0
     \<and> block_index_at g (li_merge li) \<noteq> None \<and> \<not> second_cond g bi li"

definition has_loop :: "cfg \<Rightarrow> nat \<Rightarrow> bool" where
  "has_loop g bi \<longleftrightarrow> (case loop_of g bi of Some (Some _) \<Rightarrow> True | _ \<Rightarrow> False)"

lemma check_back_edges_Inr:
  "check_back_edges g bis n = Some (Inr ()) \<Longrightarrow>
     length (filter (has_loop g) bis) \<le> 1 - n
     \<and> list_all (\<lambda>bi. case loop_of g bi of Some (Some li) \<Rightarrow> loop_ok g bi li | _ \<Rightarrow> True) bis"
proof (induction bis arbitrary: n)
  case (Cons bi bis)
  obtain r where r: "loop_of g bi = Some r" using Cons.prems by (auto split: option.splits)
  show ?case
  proof (cases r)
    case None
    then show ?thesis using r Cons by (simp add: has_loop_def)
  next
    case (Some li)
    then have n: "n = 0" and ok: "loop_ok g bi li" and c: "check_back_edges g bis 1 = Some (Inr ())"
      using r Cons.prems by (auto simp: Let_def loop_ok_def split: if_splits)
    show ?thesis using Cons.IH[OF c] r Some n ok by (simp add: has_loop_def)
  qed
qed simp

lemma uncond_check_None:
  "uncond_check bs = None \<Longrightarrow> list_all (\<lambda>b. case bb_term b of Branch t \<Rightarrow> bb_start b < t | _ \<Rightarrow> True) bs"
  by (induction bs) (auto split: terminator.splits if_splits)

lemma validate_loops_Inr:
  assumes "validate_loops g = Some (Inr ())"
  shows "list_all (\<lambda>b. case bb_term b of Branch t \<Rightarrow> bb_start b < t | _ \<Rightarrow> True) (cfg_blocks g)"
    and "length (filter (has_loop g) [0..<length (cfg_blocks g)]) \<le> 1"
    and "bi < length (cfg_blocks g) \<Longrightarrow> loop_of g bi = Some (Some li) \<Longrightarrow> loop_ok g bi li"
proof -
  have u: "uncond_check (cfg_blocks g) = None"
    and c: "check_back_edges g [0..<length (cfg_blocks g)] 0 = Some (Inr ())"
    using assms by (auto simp: validate_loops_def split: option.splits)
  show "list_all (\<lambda>b. case bb_term b of Branch t \<Rightarrow> bb_start b < t | _ \<Rightarrow> True) (cfg_blocks g)"
    by (rule uncond_check_None[OF u])
  note * = check_back_edges_Inr[OF c]
  show "length (filter (has_loop g) [0..<length (cfg_blocks g)]) \<le> 1" using * by simp
  have "case loop_of g bi of Some (Some li) \<Rightarrow> loop_ok g bi li | _ \<Rightarrow> True" if "bi < length (cfg_blocks g)"
    using * that by (simp add: list_all_iff)
  then show "bi < length (cfg_blocks g) \<Longrightarrow> loop_of g bi = Some (Some li) \<Longrightarrow> loop_ok g bi li"
    by simp
qed

lemma fall_forward:
  assumes ok: "stream_ok live" and pos: "leader_positions live is"
    and b: "b \<in> set (cfg_blocks (cut_graph live is))"
  shows "case bb_term b of Fallthrough t \<Rightarrow> bb_start b < t | Cond _ _ f \<Rightarrow> bb_start b < f | _ \<Rightarrow> True"
proof -
  have sorted: "sorted_wrt (<) is" "list_all (\<lambda>i. i < length live) is" and scc: "no_scc live"
    using pos by (simp_all add: leader_positions_def)
  obtain ix where ix: "ix \<in> set (cut_list is (length live))" "b = block_of live ix"
    using b by (auto simp: cut_graph_def)
  obtain i j where ij: "ix = [i..<j]" "i < j" "j \<le> length live"
    using cut_list_mem[OF sorted ix(1)] by blast
  obtain l where l: "j = Suc l" using ij(2) by (cases j) auto
  have hd: "hd [i..<j] = i" using ij(2) by (simp add: upt_conv_Cons del: upt_Suc)
  have fwd: "item_off (live ! i) < item_off (live ! Suc l)" if "Suc l < length live"
    using sorted_wrt_nth_less[OF ok, of i "Suc l"] that ij l by simp
  have bs: "bb_start b = item_off (live ! i)" "bb_term b = term_at live l"
    using ij(2) l unfolding ix(2) block_of_def ij(1) hd by simp_all
  have "item_off (live ! i) < usize_MAX"
    using u32_bound[of "offset_dwords (live ! i)"] by (simp add: usize_MAX_def)
  then show ?thesis
    using block_terminator_at[OF scc, of l, symmetric] ij(3) l fwd unfolding bs
    by (auto simp: block_terminator_def get_def split: option.splits term_kind.splits if_splits)
qed


lemma filter_by_index: "length (filter P xs) = length (filter (\<lambda>i. P (xs ! i)) [0..<length xs])"
proof -
  have "filter P xs = filter P (map ((!) xs) [0..<length xs])" by (simp only: map_nth)
  then show ?thesis by (simp add: filter_map comp_def)
qed

lemma block_index_atE:
  assumes "block_index_at g s \<noteq> None"
  obtains b where "b \<in> set (cfg_blocks g)" "bb_start b = s"
  using assms by (auto simp: block_index_at_def dest!: position_SomeD intro: nth_mem)

definition loop_shape :: "cfg \<Rightarrow> basic_block \<Rightarrow> bool" where
  "loop_shape g b \<longleftrightarrow>
     (case bb_term b of
        Cond c t f \<Rightarrow>
          bb_start (hd (cfg_blocks g)) \<noteq> t \<and> t \<le> bb_start b \<and> bb_start b < f
          \<and> f \<in> bb_start ` set (cfg_blocks g)
          \<and> list_all (\<lambda>x. is_cond x \<and> t \<le> bb_start x \<and> bb_start x \<le> bb_start b \<longrightarrow> x = b) (cfg_blocks g)
      | _ \<Rightarrow> False)"

lemma has_loop_back_edge:
  assumes "bi < length (cfg_blocks g)"
    and "case bb_term (cfg_blocks g ! bi) of Branch t \<Rightarrow> bb_start (cfg_blocks g ! bi) < t | _ \<Rightarrow> True"
    and "case bb_term (cfg_blocks g ! bi) of Fallthrough t \<Rightarrow> bb_start (cfg_blocks g ! bi) < t
        | Cond _ _ f \<Rightarrow> bb_start (cfg_blocks g ! bi) < f | _ \<Rightarrow> True"
  shows "back_edge (cfg_blocks g ! bi) \<longleftrightarrow> has_loop g bi"
  using assms
  by (auto simp: back_edge_def has_loop_def loop_of_def get_def split: terminator.splits)

lemma loop_shapeI:
  assumes bi: "bi < length (cfg_blocks g)" and li: "loop_of g bi = Some (Some li)" and ok: "loop_ok g bi li"
    and fwd: "case bb_term (cfg_blocks g ! bi) of Fallthrough t \<Rightarrow> bb_start (cfg_blocks g ! bi) < t
        | Cond _ _ f \<Rightarrow> bb_start (cfg_blocks g ! bi) < f | _ \<Rightarrow> True"
  shows "loop_shape g (cfg_blocks g ! bi)"
proof -
  let ?b = "cfg_blocks g ! bi"
  obtain c t f where b: "bb_term ?b = Cond c t f" "t \<le> bb_start ?b"
    and li_eq: "li = \<lparr>li_header = t, li_back_edge_block = bb_start ?b, li_merge = f, li_cond = c\<rparr>"
    using li bi by (auto simp: loop_of_def get_def split: terminator.splits if_splits)
  have ne: "cfg_blocks g \<noteq> []" using bi by auto
  have "bb_start (hd (cfg_blocks g)) \<noteq> t"
    using ok ne by (cases "cfg_blocks g") (auto simp: loop_ok_def li_eq block_index_at_def)
  moreover have "f \<in> bb_start ` set (cfg_blocks g)"
    using ok block_index_atE[of g f] by (auto simp: loop_ok_def li_eq)
  moreover have "x = ?b" if x: "x \<in> set (cfg_blocks g)" "is_cond x" "t \<le> bb_start x" "bb_start x \<le> bb_start ?b" for x
  proof -
    obtain j where j: "j < length (cfg_blocks g)" "x = cfg_blocks g ! j"
      using x(1) by (auto simp: in_set_conv_nth)
    have "(j, x) \<in> set (zip [0..<length (cfg_blocks g)] (cfg_blocks g))"
      using j by (auto simp: set_zip intro!: exI[of _ j])
    then have "j = bi"
      using ok x by (auto simp: loop_ok_def second_cond_def li_eq list_ex_iff)
    then show ?thesis using j by simp
  qed
  ultimately show ?thesis using b fwd by (auto simp: loop_shape_def list_all_iff)
qed

text \<open>
  C14. In an accepted graph at most one block has an edge back to a block at or before it, and that
  block is a conditional: it goes back to a header that is not the entry block, or falls through
  to a block further on; between header and back-edge there is no other conditional. Every other
  edge of the graph goes forward.
\<close>

theorem accepted_loops:
  assumes "stream_ok ds" and "build_cfg ds = Some (Inr g)"
  shows "length (filter back_edge (cfg_blocks g)) \<le> 1
    \<and> list_all (\<lambda>b. \<not> back_edge b \<or> loop_shape g b) (cfg_blocks g)"
proof -
  obtain ix where pos: "leader_positions (live_insts ds) ix" and g: "g = cut_graph (live_insts ds) ix"
    and v: "validate_loops g = Some (Inr ())"
    using assms by (auto elim: build_cfg_graph)
  note v = validate_loops_Inr[OF v]
  have fwd: "case bb_term b of Fallthrough t \<Rightarrow> bb_start b < t | Cond _ _ f \<Rightarrow> bb_start b < f | _ \<Rightarrow> True"
    if "b \<in> set (cfg_blocks g)" for b
    using that fall_forward[OF live_ok[OF assms(1)] pos] unfolding g by blast
  have eq: "back_edge (cfg_blocks g ! bi) \<longleftrightarrow> has_loop g bi" if "bi < length (cfg_blocks g)" for bi
    using that v(1) fwd[OF nth_mem[OF that]] by (intro has_loop_back_edge) (auto simp: list_all_length)
  have "filter (\<lambda>i. back_edge (cfg_blocks g ! i)) [0..<length (cfg_blocks g)]
      = filter (has_loop g) [0..<length (cfg_blocks g)]"
    by (intro filter_cong) (auto simp: eq)
  then have "length (filter back_edge (cfg_blocks g)) \<le> 1"
    using v(2) filter_by_index[of back_edge "cfg_blocks g"] by simp
  moreover have "loop_shape g b" if b: "b \<in> set (cfg_blocks g)" "back_edge b" for b
  proof -
    obtain bi where bi: "bi < length (cfg_blocks g)" "b = cfg_blocks g ! bi"
      using b by (auto simp: in_set_conv_nth)
    then obtain li where li: "loop_of g bi = Some (Some li)"
      using b(2) eq[of bi] by (auto simp: has_loop_def split: option.splits)
    show ?thesis
      unfolding bi(2) using bi li v(3) fwd[OF b(1)] by (intro loop_shapeI) auto
  qed
  ultimately show ?thesis by (auto simp: list_all_iff)
qed


section \<open>What the errors mean\<close>

definition error_explained :: "decoded list \<Rightarrow> cfg_error \<Rightarrow> bool" where
  "error_explained live e \<longleftrightarrow>
     (case e of
        UnsupportedCondBranch off op \<Rightarrow>
          list_ex (\<lambda>d. item_off d = off \<and> (op = 4 \<or> op = 5)
            \<and> (case inst d of Sopp op' _ \<Rightarrow> op' = op | _ \<Rightarrow> False)) live
      | TargetOutOfRange off t \<Rightarrow>
          list_ex (\<lambda>k. item_off (live ! k) = off
            \<and> list_ex (\<lambda>s. (if s < 0 then t = 0 else int t = s) \<and> s \<notin> int ` item_off ` set live)
                 (flow_succs live k)) [0..<length live]
      | IrreducibleLoop off t \<Rightarrow>
          list_ex (\<lambda>k. int t \<in> set (flow_succs live k) \<and> off \<le> item_off (live ! k) \<and> t \<le> off)
            [0..<length live])"

lemma validate_target_Inl:
  "validate_target b t offs = Inl e \<Longrightarrow> \<exists>x. e = TargetOutOfRange b x \<and> (if t < 0 then x = 0 else int x = t)
     \<and> t \<notin> int ` set offs"
  using index_of_mem[of offs "nat t"] by (auto simp: validate_target_def split: if_splits)

text \<open>The branch pass 1 stops at.\<close>

definition rejects :: "nat list \<Rightarrow> cfg_error \<Rightarrow> decoded \<Rightarrow> bool" where
  "rejects offs e d \<longleftrightarrow>
     (case classify_terminator d of
        Some (TUncond t) \<Rightarrow> validate_target (item_off d) t offs = Inl e
      | Some (TCond op c t) \<Rightarrow>
          (if c = None then e = UnsupportedCondBranch (item_off d) op
           else validate_target (item_off d) t offs = Inl e)
      | _ \<Rightarrow> False)"

lemma collect_leaders_Inl:
  "collect_leaders offs acc rest = Inl e \<Longrightarrow> list_ex (rejects offs e) rest"
  by (induction rest arbitrary: acc)
    (auto simp: rejects_def split: option.splits term_kind.splits sum.splits if_splits)

lemma classify_SCC:
  "classify_terminator d = Some (TCond op None t) \<Longrightarrow>
     (op = 4 \<or> op = 5) \<and> (case inst d of Sopp op' _ \<Rightarrow> op' = op | _ \<Rightarrow> False)"
  by (auto simp: classify_terminator_def Let_def sopp_ops split: inst.splits if_splits)

lemma rejects_explained:
  assumes "list_ex (rejects (map item_off live) e) live"
  shows "error_explained live e"
proof -
  obtain k where k: "k < length live" "rejects (map item_off live) e (live ! k)"
    using assms by (auto simp: list_ex_length)
  let ?d = "live ! k"
  have range: "error_explained live e"
    if v: "validate_target (item_off ?d) t (map item_off live) = Inl e" and t: "t \<in> set (flow_succs live k)" for t
  proof -
    obtain x where "e = TargetOutOfRange (item_off ?d) x" "if t < 0 then x = 0 else int x = t"
      "t \<notin> int ` item_off ` set live"
      using validate_target_Inl[OF v] by auto
    then show ?thesis using k(1) t by (auto simp: error_explained_def list_ex_iff intro!: bexI[of _ k] bexI[of _ t])
  qed
  show ?thesis
  proof (cases "classify_terminator ?d")
    case None
    then show ?thesis using k by (simp add: rejects_def)
  next
    case (Some c)
    show ?thesis
    proof (cases c)
      case TEnd
      then show ?thesis using k Some by (simp add: rejects_def)
    next
      case (TUncond t)
      then show ?thesis using k Some by (intro range[of t]) (simp_all add: rejects_def flow_of_class)
    next
      case (TCond op cnd t)
      show ?thesis
      proof (cases cnd)
        case None
        then have "e = UnsupportedCondBranch (item_off ?d) op" "classify_terminator ?d = Some (TCond op None t)"
          using k Some TCond by (simp_all add: rejects_def)
        then show ?thesis
          using k(1) classify_SCC[of ?d op t]
          by (auto simp: error_explained_def list_ex_iff intro!: bexI[of _ ?d])
      next
        case (Some c')
        then show ?thesis
          using k \<open>classify_terminator ?d = Some c\<close> TCond
          by (intro range[of t]) (simp_all add: rejects_def flow_of_class)
      qed
    qed
  qed
qed

lemma uncond_check_Some:
  "uncond_check bs = Some e \<Longrightarrow>
     list_ex (\<lambda>b. \<exists>t. bb_term b = Branch t \<and> t \<le> bb_start b \<and> e = IrreducibleLoop (bb_start b) t) bs"
  by (induction bs) (auto split: terminator.splits if_splits)

lemma check_back_edges_Inl:
  "check_back_edges g bis n = Some (Inl e) \<Longrightarrow>
     list_ex (\<lambda>bi. \<exists>li. loop_of g bi = Some (Some li)
       \<and> e = IrreducibleLoop (li_back_edge_block li) (li_header li)) bis"
proof (induction bis arbitrary: n)
  case (Cons bi bis)
  obtain r where r: "loop_of g bi = Some r" using Cons.prems by (auto split: option.splits)
  then show ?case
    using Cons by (cases r) (auto simp: Let_def split: if_splits)
qed simp

lemma validate_loops_Inl:
  assumes "validate_loops g = Some (Inl e)"
  shows "\<exists>b t. b \<in> set (cfg_blocks g) \<and> int t \<in> set (term_succs (bb_term b)) \<and> t \<le> bb_start b
    \<and> e = IrreducibleLoop (bb_start b) t"
proof (cases "uncond_check (cfg_blocks g)")
  case None
  then obtain bi li where bi: "bi < length (cfg_blocks g)" "loop_of g bi = Some (Some li)"
    "e = IrreducibleLoop (li_back_edge_block li) (li_header li)"
    using assms check_back_edges_Inl[of g "[0..<length (cfg_blocks g)]" 0 e]
    by (auto simp: validate_loops_def list_ex_iff)
  then show ?thesis
    by (intro exI[of _ "cfg_blocks g ! bi"])
      (auto simp: loop_of_def get_def split: terminator.splits if_splits)
next
  case (Some e')
  then show ?thesis
    using assms uncond_check_Some[OF Some] by (auto simp: validate_loops_def list_ex_iff)
qed


text \<open>
  C15. Every error names something wrong in the live stream: an unsupported branch is an
  \<open>s_cbranch_scc0\<close> or \<open>s_cbranch_scc1\<close> at the reported offset; a target out of range is a successor
  of the branch at the reported offset that is no instruction of the live stream (0 standing for
  a negative one); an irreducible loop has an edge from the reported block back to the reported
  target.
\<close>

theorem cfg_errors_explained:
  assumes ok: "stream_ok ds" and err: "build_cfg ds = Some (Inl e)"
  shows "error_explained (live_insts ds) e"
proof (cases "collect_leaders (map item_off (live_insts ds)) (next_offset (live_insts ds)) (live_insts ds)")
  case (Inl e')
  then have "e' = e" using err by (simp add: build_cfg_def)
  then show ?thesis using rejects_explained[OF collect_leaders_Inl] Inl by blast
next
  case (Inr ls)
  let ?live = "live_insts ds"
  from collected_positions[OF live_ok[OF ok] Inr] obtain ix where
    pos: "leader_positions ?live ix" and bb: "build_blocks ?live (map item_off ?live) (remdups_adj (sort ls))
      = Some (cfg_blocks (cut_graph ?live ix))" by blast
  have g: "\<lparr>cfg_blocks = cfg_blocks (cut_graph ?live ix)\<rparr> = cut_graph ?live ix" by simp
  have "validate_loops (cut_graph ?live ix) = Some (Inl e)"
    using err Inr bb validate_loops_total[of "cut_graph ?live ix"]
    by (auto simp: build_cfg_def Let_def g split: sum.splits)
  from validate_loops_Inl[OF this] obtain b t where
    b: "b \<in> set (cfg_blocks (cut_graph ?live ix))" "int t \<in> set (term_succs (bb_term b))" "t \<le> bb_start b"
    and e: "e = IrreducibleLoop (bb_start b) t" by blast
  obtain ks where ks: "ks \<in> set (cut_list ix (length ?live))" "b = block_of ?live ks"
    using b(1) by (auto simp: cut_graph_def)
  obtain i j where ij: "ks = [i..<j]" "i < j" "j \<le> length ?live"
    using cut_list_mem[OF _ _ ks(1)] pos by (auto simp: leader_positions_def)
  have l: "last ks = j - 1" "hd ks = i" "j - 1 < length ?live" "i \<le> j - 1"
  proof -
    show "hd ks = i" using ij(1,2) by (simp add: upt_conv_Cons del: upt_Suc)
    obtain m where m: "j = Suc m" using ij(2) by (cases j) auto
    show "last ks = j - 1" "j - 1 < length ?live" "i \<le> j - 1" using ij m by simp_all
  qed
  have f: "block_faithful ?live (bb_start ` set (cfg_blocks (cut_graph ?live ix))) b"
    by (rule cut_graph_faithful[OF live_ok[OF ok] pos endpgm_only_last b(1)])
  have "int t \<in> set (flow_succs ?live (j - 1))"
    using f b(2) l(1) by (simp add: block_faithful_def ks(2) block_of_def)
  moreover have "bb_start b \<le> item_off (?live ! (j - 1))"
    using l sorted_wrt_nth_less[OF live_ok[OF ok], of i "j - 1"]
    by (cases "i = j - 1") (auto simp: ks(2) block_of_def)
  ultimately show ?thesis
    using l(3) b(3) by (auto simp: error_explained_def e list_ex_iff intro!: bexI[of _ "j - 1"])
qed

section \<open>Merge points\<close>

definition uncond_edges :: "cfg \<Rightarrow> (nat \<times> nat) set" where
  "uncond_edges g = {(i, j). uncond_succ g i = Some j}"

lemma uncond_succ_range: "uncond_succ g i = Some j \<Longrightarrow> j < length (cfg_blocks g)"
  by (auto simp: uncond_succ_def block_index_at_def get_def
      dest!: position_SomeD split: option.splits terminator.splits)

text \<open>A set that holds the start and is closed under the unconditional successor holds all that
  is reachable; the walk of \<open>reach\<close> ends only when it is closed.\<close>

lemma reach_loop_exact:
  assumes "distinct seen" and "list_all (\<lambda>i. i < length (cfg_blocks g)) seen" and "b \<in> set seen"
    and "list_all (\<lambda>i. (s, i) \<in> (uncond_edges g)\<^sup>*) seen" and "s \<in> set seen"
    and "\<And>i. i \<in> set seen \<Longrightarrow> i \<noteq> b \<Longrightarrow> uncond_succ g i = None \<or> the (uncond_succ g i) \<in> set seen"
  shows "set (reach_loop g seen b) = {j. (s, j) \<in> (uncond_edges g)\<^sup>*}"
  using assms
proof (induction g seen b rule: reach_loop.induct)
  case (1 g seen b)
  have len: "length seen \<le> length (cfg_blocks g)"
  proof -
    have "set seen \<subseteq> {..<length (cfg_blocks g)}" using 1(3) by (auto simp: list_all_iff)
    then have "card (set seen) \<le> length (cfg_blocks g)" by (metis card_lessThan card_mono finite_lessThan)
    then show ?thesis using 1(2) by (simp add: distinct_card)
  qed
  have sound: "set seen \<subseteq> {j. (s, j) \<in> (uncond_edges g)\<^sup>*}" using 1(5) by (auto simp: list_all_iff)
  have complete: "{j. (s, j) \<in> (uncond_edges g)\<^sup>*} \<subseteq> set seen"
    if closed: "uncond_succ g b = None \<or> the (uncond_succ g b) \<in> set seen"
  proof (clarify)
    fix j assume "(s, j) \<in> (uncond_edges g)\<^sup>*"
    then show "j \<in> set seen"
    proof (induction rule: rtrancl_induct)
      case (step y z)
      then have "uncond_succ g y = Some z" by (simp add: uncond_edges_def)
      then show ?case using step.IH closed 1(7)[of y] by (cases "y = b") auto
    qed (rule 1(6))
  qed
  show ?case
  proof (cases "uncond_succ g b")
    case None
    then show ?thesis using sound complete by (subst reach_loop.simps) simp
  next
    case (Some n)
    show ?thesis
    proof (cases "n \<in> set seen")
      case True
      then show ?thesis using Some sound complete by (subst reach_loop.simps) auto
    next
      case False
      have "(s, n) \<in> (uncond_edges g)\<^sup>*"
        using 1(4,5) Some by (auto simp: list_all_iff uncond_edges_def intro: rtrancl_into_rtrancl)
      moreover have "uncond_succ g i = None \<or> the (uncond_succ g i) \<in> set (seen @ [n])"
        if "i \<in> set (seen @ [n])" "i \<noteq> n" for i
        using that 1(7)[of i] Some by (cases "i = b") auto
      ultimately have "set (reach_loop g (seen @ [n]) n) = {j. (s, j) \<in> (uncond_edges g)\<^sup>*}"
        using False len Some 1(2,3,5,6) uncond_succ_range[OF Some] by (intro 1(1)) simp_all
      then show ?thesis using Some False len by (subst reach_loop.simps) simp
    qed
  qed
qed

lemma reach_exact:
  "s < length (cfg_blocks g) \<Longrightarrow> set (reach g s) = {j. (s, j) \<in> (uncond_edges g)\<^sup>*}"
  unfolding reach_def by (rule reach_loop_exact) auto


text \<open>
  C16. The merge point of a conditional block is computed exactly: it is the lowest start among
  the blocks that both arms reach along unconditional edges (in zero steps or more), and there is
  none exactly when the two arms share no such block. The bounded walk of \<open>reach\<close> misses nothing,
  whatever cycles the graph has.
\<close>

theorem merge_target_is_meet:
  assumes "bi < length (cfg_blocks g)" and "bb_term (cfg_blocks g ! bi) = Cond c taken fall"
    and "block_index_at g taken = Some ti" and "block_index_at g fall = Some fi"
  shows "merge_target g bi = Some
    (let meet = {bb_start (cfg_blocks g ! j) |j. (ti, j) \<in> (uncond_edges g)\<^sup>* \<and> (fi, j) \<in> (uncond_edges g)\<^sup>*}
     in if meet = {} then None else Some (Min meet))"
proof -
  have lt: "ti < length (cfg_blocks g)" "fi < length (cfg_blocks g)"
    using assms(3,4) by (auto simp: block_index_at_def dest: position_SomeD)
  let ?xs = "map (\<lambda>i. bb_start (cfg_blocks g ! i)) (filter (\<lambda>t. t \<in> set (reach g fi)) (reach g ti))"
  have "set ?xs = {bb_start (cfg_blocks g ! j) |j. (ti, j) \<in> (uncond_edges g)\<^sup>* \<and> (fi, j) \<in> (uncond_edges g)\<^sup>*}"
    by (auto simp: reach_exact[OF lt(1)] reach_exact[OF lt(2)])
  moreover have "merge_target g bi = Some (min_opt ?xs)"
    using assms by (simp add: merge_target_def get_def Let_def)
  moreover have "min_opt xs = (if set xs = {} then None else Some (Min (set xs)))" for xs
    by (simp add: min_opt_def)
  ultimately show ?thesis by (simp only: Let_def)
qed


section \<open>Witnesses and an irreducible loop\<close>

definition sopp_at :: "u32 \<Rightarrow> u8 \<Rightarrow> u16 \<Rightarrow> decoded" where
  "sopp_at off op imm = \<lparr>inst = Sopp op imm, size_dwords = 1, offset_dwords = off\<rparr>"

text \<open>A counted loop: \<open>s_nop\<close>, the body, the back-edge, the end.\<close>

definition loop_prog :: "decoded list" where
  "loop_prog = [sopp_at 0 0 0, sopp_at 1 0 0, sopp_at 2 7 0xFFFE, sopp_at 3 1 0]"

definition loop_graph :: cfg where
  "loop_graph = \<lparr>cfg_blocks =
     [\<lparr>bb_start = 0, bb_insts = [0], bb_term = Fallthrough 1\<rparr>,
      \<lparr>bb_start = 1, bb_insts = [1, 2], bb_term = Cond Vccnz 1 3\<rparr>,
      \<lparr>bb_start = 3, bb_insts = [3], bb_term = Return\<rparr>]\<rparr>"

lemma loop_prog_ok: "stream_ok loop_prog"
  by (simp add: loop_prog_def sopp_at_def)

lemma loop_prog_graph: "build_cfg loop_prog = Some (Inr loop_graph)"
  by code_simp

theorem cfg_matches_stream_witness:
  "concat (map bb_insts (cfg_blocks loop_graph)) = [0..<length (live_insts loop_prog)]
    \<and> sorted_wrt (<) (map bb_start (cfg_blocks loop_graph))
    \<and> list_all (block_faithful (live_insts loop_prog) (bb_start ` set (cfg_blocks loop_graph)))
        (cfg_blocks loop_graph)"
  by (rule cfg_matches_stream[OF loop_prog_ok loop_prog_graph])

theorem accepted_loops_witness:
  "length (filter back_edge (cfg_blocks loop_graph)) \<le> 1
    \<and> list_all (\<lambda>b. \<not> back_edge b \<or> loop_shape loop_graph b) (cfg_blocks loop_graph)"
  by (rule accepted_loops[OF loop_prog_ok loop_prog_graph])

theorem cfg_errors_explained_witness:
  "error_explained (live_insts [sopp_at 0 4 0, sopp_at 1 1 0]) (UnsupportedCondBranch 0 4)"
proof (rule cfg_errors_explained)
  show "stream_ok [sopp_at 0 4 0, sopp_at 1 1 0]" by (simp add: sopp_at_def)
  show "build_cfg [sopp_at 0 4 0, sopp_at 1 1 0] = Some (Inl (UnsupportedCondBranch 0 4))" by code_simp
qed

theorem merge_target_is_meet_witness:
  "merge_target loop_graph 1 = Some
    (let meet = {bb_start (cfg_blocks loop_graph ! j) |j.
        (1, j) \<in> (uncond_edges loop_graph)\<^sup>* \<and> (2, j) \<in> (uncond_edges loop_graph)\<^sup>*}
     in if meet = {} then None else Some (Min meet))"
  by (rule merge_target_is_meet[where c = Vccnz and taken = 1 and fall = 3])
    (simp_all add: loop_graph_def block_index_at_def)

text \<open>A conditional branch over the loop header into the middle of the loop body.\<close>

definition two_entry_prog :: "decoded list" where
  "two_entry_prog =
     [sopp_at 0 6 1, sopp_at 1 0 0, sopp_at 2 0 0, sopp_at 3 7 0xFFFD, sopp_at 4 1 0]"

text \<open>
  A loop with two entries is accepted: here the entry block branches to block 2, inside the
  loop that runs from header 1 to the back-edge of block 2, without passing the header. The
  header does not dominate the loop body, the graph is irreducible, and \<open>loop_of\<close> still reports a
  natural loop.
\<close>

theorem two_entry_loop_accepted:
  "\<exists>g. build_cfg two_entry_prog = Some (Inr g)
     \<and> loop_of g 2 = Some (Some \<lparr>li_header = 1, li_back_edge_block = 2, li_merge = 4, li_cond = Vccnz\<rparr>)
     \<and> bb_term (cfg_blocks g ! 0) = Cond Vccz 2 1 \<and> bb_start (cfg_blocks g ! 0) = 0"
proof -
  let ?g = "\<lparr>cfg_blocks =
     [\<lparr>bb_start = 0, bb_insts = [0], bb_term = Cond Vccz 2 1\<rparr>,
      \<lparr>bb_start = 1, bb_insts = [1], bb_term = Fallthrough 2\<rparr>,
      \<lparr>bb_start = 2, bb_insts = [2, 3], bb_term = Cond Vccnz 1 4\<rparr>,
      \<lparr>bb_start = 4, bb_insts = [4], bb_term = Return\<rparr>]\<rparr>"
  have "build_cfg two_entry_prog = Some (Inr ?g)" by code_simp
  moreover have "loop_of ?g 2 = Some (Some \<lparr>li_header = 1, li_back_edge_block = 2, li_merge = 4, li_cond = Vccnz\<rparr>)"
    by (simp add: loop_of_def get_def)
  ultimately show ?thesis by (intro exI[of _ ?g]) simp
qed

section \<open>From machine code to the graph\<close>

lemma tiles_sorted:
  "tiles item_off item_len n ds m \<Longrightarrow> sorted_wrt (<) (map item_off ds) \<and> list_all (\<lambda>d. n \<le> item_off d) ds"
proof (induction ds arbitrary: n)
  case (Cons d ds)
  then have "n < n + item_len d" "item_off d = n"
    and IH: "sorted_wrt (<) (map item_off ds)" "list_all (\<lambda>x. n + item_len d \<le> item_off x) ds"
    using Cons.IH[of "n + item_len d"] by simp_all
  then show ?case by (auto simp: list_all_iff)
qed simp

text \<open>
  The shader front end never panics: any machine code (below 2^32 dwords) is decoded, and the
  control-flow builder returns a graph or an error on what the decoder produced, never reaching
  one of its \<open>expect\<close>s or its \<open>unreachable!\<close> arm.
\<close>

theorem front_end_total:
  assumes "length code < 2 ^ 32"
  shows "\<exists>ds r. decode_all code = Some ds \<and> stream_ok ds \<and> build_cfg ds = Some r"
proof -
  obtain ds where ds: "decode_loop code 0 = Some ds" "tiles item_off item_len 0 ds (length code)"
    using gcn.walk_tiles[of code 0] assms by auto
  then have "stream_ok ds" using tiles_sorted by blast
  then show ?thesis using ds(1) build_cfg_total[of ds] by (auto simp: decode_all_def)
qed

theorem front_end_total_witness:
  "\<exists>ds r. decode_all [0xBF870001, 0xBF800000, 0xBF810000] = Some ds \<and> stream_ok ds \<and> build_cfg ds = Some r"
  by (rule front_end_total) simp

end
