(* ===== verification/Float32.thy ===== *)
theory Float32
  imports Rust_Prelude
begin

text \<open>
  Single-precision floating point, the \<^verbatim>\<open>f32\<close> of Rust, on bit patterns. Every finite \<^verbatim>\<open>f32\<close> is a
  multiple of $2^{-149}$, and its magnitude in that unit is \<open>f32_mag\<close>; the operations compute the exact
  result as a fraction of natural numbers and round it to nearest, ties to even. A NaN result is the
  quiet NaN with no payload, which the language leaves open. The square root is the correctly rounded
  one; the sine of the host's mathematical library and the conversions of the half-precision library
  are parameters of \<open>ieee_ops\<close>.
\<close>

section \<open>The operations the code uses\<close>

record f32_ops =
  fo_add :: "u32 \<Rightarrow> u32 \<Rightarrow> u32"
  fo_sub :: "u32 \<Rightarrow> u32 \<Rightarrow> u32"
  fo_mul :: "u32 \<Rightarrow> u32 \<Rightarrow> u32"
  fo_div :: "u32 \<Rightarrow> u32 \<Rightarrow> u32"
  fo_min :: "u32 \<Rightarrow> u32 \<Rightarrow> u32"
  fo_max :: "u32 \<Rightarrow> u32 \<Rightarrow> u32"
  fo_fma :: "u32 \<Rightarrow> u32 \<Rightarrow> u32 \<Rightarrow> u32"
  fo_floor :: "u32 \<Rightarrow> u32"
  fo_ceil :: "u32 \<Rightarrow> u32"
  fo_sqrt :: "u32 \<Rightarrow> u32"
  fo_sin :: "u32 \<Rightarrow> u32"
  fo_lt :: "u32 \<Rightarrow> u32 \<Rightarrow> bool"
  fo_le :: "u32 \<Rightarrow> u32 \<Rightarrow> bool"
  fo_eq :: "u32 \<Rightarrow> u32 \<Rightarrow> bool"
  fo_of_int :: "int \<Rightarrow> u32"
  fo_to_u32 :: "u32 \<Rightarrow> u32"
  fo_to_i32 :: "u32 \<Rightarrow> u32"
  fo_to_i64 :: "u32 \<Rightarrow> int"
  fo_to_half :: "u32 \<Rightarrow> u16"
  fo_of_half :: "u16 \<Rightarrow> u32"

section \<open>Bit patterns and their values\<close>

text \<open>Bit 31 is the sign; adding it to a word flips it.\<close>

definition f32_sign :: "u32 \<Rightarrow> bool" where "f32_sign x = bit x 31"

definition f32_abs :: "u32 \<Rightarrow> u32" where "f32_abs x = take_bit 31 x"

definition f32_neg :: "u32 \<Rightarrow> u32" where "f32_neg x = x + push_bit 31 1"

abbreviation f32_inf :: nat where "f32_inf \<equiv> 0x7F800000"
abbreviation f32_one :: u32 where "f32_one \<equiv> 0x3F800000"
abbreviation f32_nan :: u32 where "f32_nan \<equiv> 0x7FC00000"

definition is_nan :: "u32 \<Rightarrow> bool" where "is_nan x \<longleftrightarrow> f32_inf < unat (f32_abs x)"

definition is_inf :: "u32 \<Rightarrow> bool" where "is_inf x \<longleftrightarrow> unat (f32_abs x) = f32_inf"

abbreviation is_finite :: "u32 \<Rightarrow> bool" where "is_finite x \<equiv> unat (f32_abs x) < f32_inf"

text \<open>The magnitude of a pattern below the sign bit; an infinity counts as the next power of two.\<close>

definition f32_mag :: "nat \<Rightarrow> nat" where
  "f32_mag m = (if m < 2 ^ 23 then m else (2 ^ 23 + m mod 2 ^ 23) * 2 ^ (m div 2 ^ 23 - 1))"

definition f32_val :: "u32 \<Rightarrow> int" where
  "f32_val x = (if f32_sign x then - int (f32_mag (unat (f32_abs x))) else int (f32_mag (unat (f32_abs x))))"

definition with_sign :: "bool \<Rightarrow> nat \<Rightarrow> u32" where
  "with_sign s m = of_nat (if s then 2 ^ 31 + m else m)"

section \<open>Rounding\<close>

fun bit_length :: "nat \<Rightarrow> nat" where
  "bit_length n = (if n = 0 then 0 else Suc (bit_length (n div 2)))"

declare bit_length.simps [simp del]

text \<open>The pattern nearest to \<open>num / den\<close> units, ties to the even pattern.\<close>

definition round_mag :: "nat \<Rightarrow> nat \<Rightarrow> nat" where
  "round_mag num den =
     (let k = bit_length (num div den) - 24;
          d = den * 2 ^ k;
          q = num div d;
          r = num mod d;
          q' = (if 2 * r < d \<or> (2 * r = d \<and> even q) then q else q + 1)
      in min (k * 2 ^ 23 + q') f32_inf)"

definition round_int :: "bool \<Rightarrow> int \<Rightarrow> nat \<Rightarrow> u32" where
  "round_int zero_sign n den =
     (if n = 0 then with_sign zero_sign 0 else with_sign (n < 0) (round_mag (nat \<bar>n\<bar>) den))"

section \<open>Operations\<close>

definition f32_add :: "u32 \<Rightarrow> u32 \<Rightarrow> u32" where
  "f32_add a b =
     (if is_nan a \<or> is_nan b \<or> (is_inf a \<and> is_inf b \<and> f32_sign a \<noteq> f32_sign b) then f32_nan
      else if is_inf a then a
      else if is_inf b then b
      else round_int (f32_sign a \<and> f32_sign b) (f32_val a + f32_val b) 1)"

definition f32_sub :: "u32 \<Rightarrow> u32 \<Rightarrow> u32" where
  "f32_sub a b = f32_add a (f32_neg b)"

definition f32_mul :: "u32 \<Rightarrow> u32 \<Rightarrow> u32" where
  "f32_mul a b =
     (let s = (f32_sign a \<noteq> f32_sign b) in
      if is_nan a \<or> is_nan b \<or> (is_inf a \<and> f32_val b = 0) \<or> (f32_val a = 0 \<and> is_inf b) then f32_nan
      else if is_inf a \<or> is_inf b then with_sign s f32_inf
      else round_int s (f32_val a * f32_val b) (2 ^ 149))"

definition f32_div :: "u32 \<Rightarrow> u32 \<Rightarrow> u32" where
  "f32_div a b =
     (let s = (f32_sign a \<noteq> f32_sign b) in
      if is_nan a \<or> is_nan b \<or> (is_inf a \<and> is_inf b) \<or> (f32_val a = 0 \<and> f32_val b = 0) then f32_nan
      else if is_inf a \<or> f32_val b = 0 then with_sign s f32_inf
      else if is_inf b then with_sign s 0
      else round_int s (f32_val a * 2 ^ 149 * sgn (f32_val b)) (nat \<bar>f32_val b\<bar>))"

definition f32_fma :: "u32 \<Rightarrow> u32 \<Rightarrow> u32 \<Rightarrow> u32" where
  "f32_fma a b c =
     (let s = (f32_sign a \<noteq> f32_sign b); inf_p = is_inf a \<or> is_inf b in
      if is_nan a \<or> is_nan b \<or> is_nan c \<or> (is_inf a \<and> f32_val b = 0) \<or> (f32_val a = 0 \<and> is_inf b)
         \<or> (inf_p \<and> is_inf c \<and> s \<noteq> f32_sign c) then f32_nan
      else if inf_p then with_sign s f32_inf
      else if is_inf c then c
      else round_int (s \<and> f32_sign c) (f32_val a * f32_val b + f32_val c * 2 ^ 149) (2 ^ 149))"

definition f32_lt :: "u32 \<Rightarrow> u32 \<Rightarrow> bool" where
  "f32_lt a b \<longleftrightarrow> \<not> is_nan a \<and> \<not> is_nan b \<and> f32_val a < f32_val b"

definition f32_le :: "u32 \<Rightarrow> u32 \<Rightarrow> bool" where
  "f32_le a b \<longleftrightarrow> \<not> is_nan a \<and> \<not> is_nan b \<and> f32_val a \<le> f32_val b"

definition f32_eq :: "u32 \<Rightarrow> u32 \<Rightarrow> bool" where
  "f32_eq a b \<longleftrightarrow> \<not> is_nan a \<and> \<not> is_nan b \<and> f32_val a = f32_val b"

definition f32_min :: "u32 \<Rightarrow> u32 \<Rightarrow> u32" where
  "f32_min a b = (if is_nan a then b else if is_nan b then a else if f32_val b < f32_val a then b else a)"

definition f32_max :: "u32 \<Rightarrow> u32 \<Rightarrow> u32" where
  "f32_max a b = (if is_nan a then b else if is_nan b then a else if f32_val a < f32_val b then b else a)"

text \<open>Rounding to an integral value keeps the sign of the operand on a zero result.\<close>

definition f32_floor :: "u32 \<Rightarrow> u32" where
  "f32_floor x =
     (if is_nan x then f32_nan else if is_inf x then x
      else round_int (f32_sign x) (f32_val x div 2 ^ 149 * 2 ^ 149) 1)"

definition f32_ceil :: "u32 \<Rightarrow> u32" where
  "f32_ceil x =
     (if is_nan x then f32_nan else if is_inf x then x
      else round_int (f32_sign x) (- (- f32_val x div 2 ^ 149) * 2 ^ 149) 1)"

fun isqrt :: "nat \<Rightarrow> nat" where
  "isqrt n = (if n = 0 then 0 else let r = 2 * isqrt (n div 4) in if (r + 1) * (r + 1) \<le> n then r + 1 else r)"

declare isqrt.simps [simp del]

definition f32_sqrt :: "u32 \<Rightarrow> u32" where
  "f32_sqrt x =
     (if is_nan x then f32_nan
      else if f32_val x = 0 then x
      else if f32_sign x then f32_nan
      else if is_inf x then x
      else let n = nat (f32_val x) * 2 ^ 149; r = isqrt n
           in with_sign False (round_mag (2 * r + (if r * r = n then 0 else 1)) 2))"

text \<open>Conversions. A cast to an integer truncates, saturates, and takes a NaN to zero.\<close>

definition f32_of_int :: "int \<Rightarrow> u32" where
  "f32_of_int n = round_int False (n * 2 ^ 149) 1"

definition f32_trunc :: "u32 \<Rightarrow> int" where
  "f32_trunc x = sgn (f32_val x) * (\<bar>f32_val x\<bar> div 2 ^ 149)"

definition f32_sat :: "int \<Rightarrow> int \<Rightarrow> u32 \<Rightarrow> int" where
  "f32_sat lo hi x = (if is_nan x then 0 else max lo (min hi (f32_trunc x)))"

definition ieee_ops :: "(u32 \<Rightarrow> u32) \<Rightarrow> (u32 \<Rightarrow> u16) \<Rightarrow> (u16 \<Rightarrow> u32) \<Rightarrow> f32_ops" where
  "ieee_ops sine to_half of_half =
     \<lparr>fo_add = f32_add, fo_sub = f32_sub, fo_mul = f32_mul, fo_div = f32_div, fo_min = f32_min, fo_max = f32_max,
      fo_fma = f32_fma, fo_floor = f32_floor, fo_ceil = f32_ceil, fo_sqrt = f32_sqrt, fo_sin = sine,
      fo_lt = f32_lt, fo_le = f32_le, fo_eq = f32_eq, fo_of_int = f32_of_int,
      fo_to_u32 = \<lambda>x. word_of_int (f32_sat 0 (2 ^ 32 - 1) x),
      fo_to_i32 = \<lambda>x. word_of_int (f32_sat (- (2 ^ 31)) (2 ^ 31 - 1) x),
      fo_to_i64 = f32_sat (- (2 ^ 63)) (2 ^ 63 - 1),
      fo_to_half = to_half, fo_of_half = of_half\<rparr>"


section \<open>Signs and patterns\<close>

lemma f32_abs_unat: "unat (f32_abs x) = unat x mod 2 ^ 31"
proof -
  have "unat (take_bit 31 x) = take_bit 31 (unat x)" by (simp only: unsigned_take_bit_eq)
  then show ?thesis unfolding f32_abs_def by (simp only: take_bit_eq_mod[of 31 "unat x"])
qed

lemma f32_sign_unat: "f32_sign x \<longleftrightarrow> 2 ^ 31 \<le> unat x"
proof -
  have "f32_sign x = bit (unat x) 31" by (simp add: f32_sign_def bit_unsigned_iff)
  then have s: "f32_sign x = odd (unat x div 2 ^ 31)" by (simp only: bit_iff_odd)
  show ?thesis
  proof (cases "2 ^ 31 \<le> unat x")
    case True
    then have "unat x div 2 ^ 31 = 1" using u32_bound[of x] by (simp add: div_nat_eqI)
    then show ?thesis using s True by simp
  next
    case False
    then show ?thesis using s by simp
  qed
qed

lemma f32_unat: "unat x = (if f32_sign x then 2 ^ 31 else 0) + unat (f32_abs x)"
proof -
  have "unat x < 2 * 2 ^ 31" using u32_bound[of x] by simp
  then show ?thesis unfolding f32_sign_unat f32_abs_unat by (cases "2 ^ 31 \<le> unat x") (simp_all add: le_mod_geq)
qed

lemma f32_abs_lt: "unat (f32_abs x) < 2 ^ 31"
  by (simp add: f32_abs_unat)

lemma with_sign_parts:
  assumes "m < 2 ^ 31"
  shows "f32_sign (with_sign s m) = s" and "unat (f32_abs (with_sign s m)) = m"
proof -
  have "unat (with_sign s m) = (if s then 2 ^ 31 + m else m)"
    using assms by (simp add: with_sign_def unat_of_nat)
  then show "f32_sign (with_sign s m) = s" "unat (f32_abs (with_sign s m)) = m"
    using assms by (simp_all add: f32_sign_unat f32_abs_unat)
qed

lemma f32_neg_parts: "f32_sign (f32_neg x) \<longleftrightarrow> \<not> f32_sign x" "f32_abs (f32_neg x) = f32_abs x"
proof -
  have "unat (f32_neg x) = (unat x + 2 ^ 31) mod 2 ^ 32" by (simp add: f32_neg_def unat_word_ariths)
  then have n: "unat (f32_neg x) = (if 2 ^ 31 \<le> unat x then unat x - 2 ^ 31 else unat x + 2 ^ 31)"
    using u32_bound[of x] by (simp add: mod_if)
  then show "f32_sign (f32_neg x) \<longleftrightarrow> \<not> f32_sign x" using u32_bound[of x] by (auto simp: f32_sign_unat)
  show "f32_abs (f32_neg x) = f32_abs x"
    using n u32_bound[of x] by (simp add: word_unat_eq_iff f32_abs_unat mod_if)
qed

lemma f32_neg_simps [simp]:
  "is_nan (f32_neg x) = is_nan x" "is_inf (f32_neg x) = is_inf x" "f32_val (f32_neg x) = - f32_val x"
  by (simp_all add: is_nan_def is_inf_def f32_val_def f32_neg_parts)

section \<open>Magnitudes\<close>

lemma f32_mag_small: "m \<le> 2 ^ 24 \<Longrightarrow> f32_mag m = m"
proof -
  assume m: "m \<le> 2 ^ 24"
  consider "m < 2 ^ 23" | "2 ^ 23 \<le> m" "m < 2 ^ 24" | "m = 2 ^ 24" using m by linarith
  then show ?thesis
  proof cases
    case 2
    then have "m div 2 ^ 23 = 1" "m mod 2 ^ 23 = m - 2 ^ 23" by (simp_all add: div_nat_eqI mod_if)
    then show ?thesis using 2 by (simp add: f32_mag_def)
  qed (simp_all add: f32_mag_def)
qed

lemma f32_mag_pattern:
  assumes "2 ^ 23 \<le> q \<or> k = 0" and "q \<le> 2 ^ 24"
  shows "f32_mag (k * 2 ^ 23 + q) = q * 2 ^ k"
proof (cases "k = 0")
  case True
  then show ?thesis using f32_mag_small[OF assms(2)] by simp
next
  case False
  show ?thesis
  proof (cases "q = 2 ^ 24")
    case True
    have "(k * 2 ^ 23 + q) div 2 ^ 23 = k + 2" "(k * 2 ^ 23 + q) mod 2 ^ 23 = 0" using True by simp_all
    then show ?thesis using True by (simp add: f32_mag_def)
  next
    case F: False
    obtain r where r: "q = 2 ^ 23 + r" "r < 2 ^ 23" using assms False F by (auto simp: le_iff_add)
    then have "(k * 2 ^ 23 + q) div 2 ^ 23 = k + 1" "(k * 2 ^ 23 + q) mod 2 ^ 23 = r" by simp_all
    then show ?thesis using r by (simp add: f32_mag_def)
  qed
qed

lemma f32_mag_step: "f32_mag m < f32_mag (Suc m)"
proof (cases "m < 2 ^ 23")
  case True
  then show ?thesis by (simp add: f32_mag_small)
next
  case False
  define k r where "k = m div 2 ^ 23 - 1" and "r = m mod 2 ^ 23"
  have m: "m = k * 2 ^ 23 + (2 ^ 23 + r)" "r < 2 ^ 23"
    using False div_mult_mod_eq[of m "2 ^ 23"] by (auto simp: k_def r_def algebra_simps div_greater_zero_iff)
  have "f32_mag m = (2 ^ 23 + r) * 2 ^ k" unfolding m(1) by (rule f32_mag_pattern) (use m(2) in simp_all)
  moreover have "f32_mag (Suc m) = (2 ^ 23 + r + 1) * 2 ^ k"
  proof -
    have "Suc m = k * 2 ^ 23 + (2 ^ 23 + r + 1)" using m(1) by simp
    then show ?thesis by (simp only: ) (rule f32_mag_pattern, use m(2) in simp_all)
  qed
  ultimately show ?thesis by simp
qed

lemma f32_mag_mono: "strict_mono f32_mag"
  by (simp add: strict_mono_Suc_iff f32_mag_step)

lemma f32_mag_less [simp]: "f32_mag m < f32_mag n \<longleftrightarrow> m < n"
  by (rule strict_mono_less[OF f32_mag_mono])

lemma f32_mag_le [simp]: "f32_mag m \<le> f32_mag n \<longleftrightarrow> m \<le> n"
  by (rule strict_mono_less_eq[OF f32_mag_mono])

lemma f32_mag_0 [simp]: "f32_mag 0 = 0" by (simp add: f32_mag_def)

lemma f32_mag_eq_0 [simp]: "f32_mag m = 0 \<longleftrightarrow> m = 0"
  using f32_mag_le[of m 0] by (simp del: f32_mag_le)

section \<open>Rounding is monotone and exact\<close>

lemma bit_length_bounds: "n < 2 ^ bit_length n \<and> (0 < n \<longrightarrow> 2 ^ (bit_length n - 1) \<le> n)"
proof (induction n rule: bit_length.induct)
  case (1 n)
  show ?case
  proof (cases "n = 0")
    case False
    have IH: "n div 2 < 2 ^ bit_length (n div 2)" "0 < n div 2 \<Longrightarrow> 2 ^ (bit_length (n div 2) - 1) \<le> n div 2"
      using 1 False by auto
    have "n < 2 * 2 ^ bit_length (n div 2)" using IH(1) by simp
    moreover have "2 ^ bit_length (n div 2) \<le> n"
    proof (cases "n div 2 = 0")
      case True
      then show ?thesis using False by (simp add: bit_length.simps)
    next
      case F: False
      then have "0 < bit_length (n div 2)" by (simp add: bit_length.simps)
      then have "(2 :: nat) ^ bit_length (n div 2) = 2 * 2 ^ (bit_length (n div 2) - 1)"
        by (simp add: power_eq_if)
      then show ?thesis using IH(2) F by simp
    qed
    ultimately show ?thesis using False by (simp add: bit_length.simps[of n])
  qed (simp add: bit_length.simps)
qed

text \<open>The pattern below \<open>num / den\<close>, and the step to the next one.\<close>

lemma round_mag_between:
  assumes "0 < den"
  obtains p where "den * f32_mag p \<le> num" "num < den * f32_mag (Suc p)" "min p f32_inf \<le> round_mag num den"
    "round_mag num den \<le> Suc p" "round_mag num den \<le> f32_inf"
    "num = den * f32_mag p \<Longrightarrow> round_mag num den \<le> p"
proof -
  define k where "k = bit_length (num div den) - 24"
  define d q where "d = den * 2 ^ k" and "q = num div d"
  have d: "0 < d" using assms by (simp add: d_def)
  have q: "q = num div den div 2 ^ k" by (simp add: q_def d_def div_mult2_eq)
  have b: "num div den < 2 ^ bit_length (num div den)" using bit_length_bounds by blast
  have "bit_length (num div den) \<le> k + 24" by (simp add: k_def)
  then have "num div den < 2 ^ (k + 24)" using b by (meson less_le_trans power_increasing one_le_numeral)
  then have hi: "q < 2 ^ 24" by (simp add: q power_add less_mult_imp_div_less mult.commute)
  have lo: "2 ^ 23 \<le> q \<or> k = 0"
  proof (cases "k = 0")
    case False
    then have l: "bit_length (num div den) - 1 = k + 23" by (simp add: k_def)
    have "num div den \<noteq> 0" using False by (intro notI) (simp add: k_def bit_length.simps)
    then have "2 ^ (k + 23) \<le> num div den" using bit_length_bounds[of "num div den"] l by simp
    then show ?thesis by (simp add: q power_add div_le_mono less_eq_div_iff_mult_less_eq mult.commute)
  qed simp
  let ?p = "k * 2 ^ 23 + q"
  have m: "f32_mag ?p = q * 2 ^ k" "f32_mag (Suc ?p) = (q + 1) * 2 ^ k"
    using f32_mag_pattern[of q k] f32_mag_pattern[of "q + 1" k] lo hi by auto
  have e: "den * f32_mag ?p = q * d" "den * f32_mag (Suc ?p) = q * d + d" by (simp_all only: m d_def) (simp_all add: algebra_simps)
  have n: "num = q * d + num mod d" "num mod d < d" using d by (simp_all add: q_def)
  have r: "round_mag num den = min (if 2 * (num mod d) < d \<or> (2 * (num mod d) = d \<and> even q) then ?p else Suc ?p) f32_inf"
    by (simp add: round_mag_def Let_def k_def[symmetric] d_def[symmetric] q_def[symmetric])
  show thesis
  proof (rule that[of ?p])
    show "den * f32_mag ?p \<le> num" "num < den * f32_mag (Suc ?p)" using n e by linarith+
    show "num = den * f32_mag ?p \<Longrightarrow> round_mag num den \<le> ?p" using n e d r by simp
  qed (auto simp: r)
qed

lemma round_mag_le:
  assumes "0 < den" and "num \<le> den * f32_mag m" and "m \<le> f32_inf"
  shows "round_mag num den \<le> m"
proof -
  obtain p where p: "den * f32_mag p \<le> num" "round_mag num den \<le> Suc p" "num = den * f32_mag p \<Longrightarrow> round_mag num den \<le> p"
    by (rule round_mag_between[OF assms(1), of num]) blast
  have "den * f32_mag p \<le> den * f32_mag m" using p(1) assms(2) by (rule le_trans)
  then have "p \<le> m" using assms(1) by simp
  moreover have "round_mag num den \<le> p" if "p = m" using p(1,3) assms(2) that by simp
  ultimately show ?thesis using p(2) by (cases "p = m") auto
qed

lemma round_mag_ge:
  assumes "0 < den" and "den * f32_mag m \<le> num" and "m \<le> f32_inf"
  shows "m \<le> round_mag num den"
proof -
  obtain p where p: "num < den * f32_mag (Suc p)" "min p f32_inf \<le> round_mag num den"
    by (rule round_mag_between[OF assms(1), of num]) blast
  have "den * f32_mag m < den * f32_mag (Suc p)" using assms(2) p(1) by (rule le_less_trans)
  then have "m < Suc p" by simp
  then show ?thesis using p(2) assms(3) by simp
qed

lemma round_mag_inf: "0 < den \<Longrightarrow> round_mag num den \<le> f32_inf"
  by (erule round_mag_between[where num = num]) auto

lemma round_mag_exact: "0 < den \<Longrightarrow> m \<le> f32_inf \<Longrightarrow> round_mag (den * f32_mag m) den = m"
  using round_mag_le[of den "den * f32_mag m" m] round_mag_ge[of den m "den * f32_mag m"] by simp

lemma round_int_parts:
  assumes "0 < den"
  shows "\<not> is_nan (round_int z n den)"
    and "f32_sign (round_int z n den) = (if n = 0 then z else n < 0)"
    and "unat (f32_abs (round_int z n den)) = round_mag (nat \<bar>n\<bar>) den"
proof -
  have b: "round_mag (nat \<bar>n\<bar>) den \<le> f32_inf" by (rule round_mag_inf[OF assms])
  have z: "round_mag 0 den = 0" using round_mag_exact[OF assms, of 0] by simp
  show s: "f32_sign (round_int z n den) = (if n = 0 then z else n < 0)"
    and a: "unat (f32_abs (round_int z n den)) = round_mag (nat \<bar>n\<bar>) den"
    using b z with_sign_parts[of "round_mag (nat \<bar>n\<bar>) den"] with_sign_parts[of 0] by (simp_all add: round_int_def)
  show "\<not> is_nan (round_int z n den)" using b a by (simp add: is_nan_def)
qed

lemma round_int_val:
  assumes "0 < den"
  shows "f32_val (round_int z n den) = sgn n * int (f32_mag (round_mag (nat \<bar>n\<bar>) den))"
proof -
  have z: "round_mag 0 den = 0" using round_mag_exact[OF assms, of 0] by simp
  show ?thesis using z by (simp add: f32_val_def round_int_parts[OF assms] sgn_if)
qed

text \<open>An integer of at most 24 bits, and every value the format has, round to themselves.\<close>

lemma f32_of_int_exact:
  assumes "\<bar>n\<bar> \<le> 2 ^ 24"
  shows "f32_val (f32_of_int n) = n * 2 ^ 149"
proof (cases "n = 0")
  case False
  let ?n = "nat \<bar>n\<bar>" and ?t = "24 - bit_length (nat \<bar>n\<bar>)"
  have n: "0 < ?n" "?n \<le> 2 ^ 24" using False assms by auto
  have b: "?n < 2 ^ bit_length ?n" "2 ^ (bit_length ?n - 1) \<le> ?n"
    using bit_length_bounds[of ?n] n(1) by auto
  have q: "2 ^ 23 \<le> ?n * 2 ^ ?t" "?n * 2 ^ ?t \<le> 2 ^ 24"
  proof -
    have "(2 :: nat) ^ 23 \<le> 2 ^ (bit_length ?n - 1 + ?t)" by (intro power_increasing) auto
    also have "\<dots> = 2 ^ (bit_length ?n - 1) * 2 ^ ?t" by (rule power_add)
    also have "\<dots> \<le> ?n * 2 ^ ?t" using b(2) by simp
    finally show "2 ^ 23 \<le> ?n * 2 ^ ?t" .
    show "?n * 2 ^ ?t \<le> 2 ^ 24"
    proof (cases "bit_length ?n \<le> 24")
      case True
      have "?n * 2 ^ ?t \<le> 2 ^ bit_length ?n * 2 ^ ?t" using b(1) by simp
      also have "\<dots> = 2 ^ 24" using True by (simp flip: power_add)
      finally show ?thesis .
    next
      case False
      then have "?t = 0" by simp
      then show ?thesis using n(2) by simp
    qed
  qed
  let ?p = "(149 - ?t) * 2 ^ 23 + ?n * 2 ^ ?t"
  have "f32_mag ?p = ?n * 2 ^ ?t * 2 ^ (149 - ?t)" by (rule f32_mag_pattern) (use q in auto)
  also have "\<dots> = ?n * 2 ^ 149" by (simp flip: power_add mult.assoc add: mult.assoc)
  finally have m: "f32_mag ?p = ?n * 2 ^ 149" .
  have "?p \<le> 149 * 2 ^ 23 + 2 ^ 24" using q(2) by (intro add_mono mult_right_mono) simp_all
  then have "round_mag (1 * f32_mag ?p) 1 = ?p" by (intro round_mag_exact) auto
  then have "round_mag (?n * 2 ^ 149) 1 = ?p" unfolding m by simp
  moreover have "nat \<bar>n * 2 ^ 149\<bar> = ?n * 2 ^ 149" by (simp add: abs_mult nat_mult_distrib)
  ultimately show ?thesis
    using m by (simp add: f32_of_int_def round_int_val sgn_mult mult_sgn_abs flip: mult.assoc)
qed (simp add: f32_of_int_def round_int_def with_sign_def f32_val_def f32_abs_def)

section \<open>Order and truncation\<close>

lemma f32_max_val: "\<not> is_nan a \<Longrightarrow> \<not> is_nan b \<Longrightarrow> f32_val (f32_max a b) = max (f32_val a) (f32_val b) \<and> \<not> is_nan (f32_max a b)"
  by (simp add: f32_max_def)

lemma f32_min_val: "\<not> is_nan a \<Longrightarrow> \<not> is_nan b \<Longrightarrow> f32_val (f32_min a b) = min (f32_val a) (f32_val b) \<and> \<not> is_nan (f32_min a b)"
  by (simp add: f32_min_def)

definition trunc_val :: "int \<Rightarrow> int" where
  "trunc_val v = (if 0 \<le> v then v div 2 ^ 149 else - (- v div 2 ^ 149))"

lemma f32_trunc_val: "f32_trunc x = trunc_val (f32_val x)"
  by (auto simp: f32_trunc_def trunc_val_def sgn_if)

lemma trunc_val_mono: "v \<le> w \<Longrightarrow> trunc_val v \<le> trunc_val w"
proof -
  assume "v \<le> w"
  consider "0 \<le> v" | "w < 0" | "v < 0" "0 \<le> w" by linarith
  then show ?thesis
  proof cases
    case 3
    then have "0 \<le> - v div 2 ^ 149" "0 \<le> w div 2 ^ 149" by (simp_all add: pos_imp_zdiv_nonneg_iff del: power_numeral)
    then show ?thesis using 3 by (simp add: trunc_val_def)
  qed (use \<open>v \<le> w\<close> in \<open>simp_all add: trunc_val_def zdiv_mono1\<close>)
qed

lemma trunc_val_exact: "trunc_val (n * 2 ^ 149) = n"
proof -
  have "- (n * 2 ^ 149) = (- n) * 2 ^ 149" by simp
  moreover have "(- n) * 2 ^ 149 div 2 ^ 149 = - n" by (rule nonzero_mult_div_cancel_right) simp
  ultimately have "- (n * 2 ^ 149) div 2 ^ 149 = - n" by (rule forw_subst)
  then show ?thesis by (simp add: trunc_val_def)
qed

text \<open>Between neighbouring patterns there is no value.\<close>

lemma f32_val_gap:
  assumes "f32_val x < int (f32_mag (Suc m))"
  shows "f32_val x \<le> int (f32_mag m)"
proof (cases "f32_sign x")
  case True
  then show ?thesis by (simp add: f32_val_def)
next
  case False
  then have "f32_mag (unat (f32_abs x)) < f32_mag (Suc m)" using assms by (simp add: f32_val_def)
  then show ?thesis using False by (simp add: f32_val_def)
qed

end
