(* ===== verification/Gcn_Alu.thy ===== *)
theory Gcn_Alu
  imports Float32
begin

text \<open>
  The arithmetic both shader back ends share: \<^verbatim>\<open>crates/gcn/src/uop.rs\<close>, with its two instances, the
  interpreter's (\<^verbatim>\<open>InterpAlu\<close> in \<^verbatim>\<open>interp.rs\<close>) and the recompiler's (\<^verbatim>\<open>recompile.rs\<close>). The trait
  \<^verbatim>\<open>AluBuilder\<close> is a record of operations on a state, since the recompiler's append to the module it
  emits. The theory shows that code emitted for an operation computes the
  value the interpreter computes.
\<close>

abbreviation f32_below_one :: u32 where "f32_below_one \<equiv> 0x3F7FFFFF"

text \<open>The largest \<^verbatim>\<open>f32\<close> below one bounds the fraction.\<close>

definition fract_f32 :: "f32_ops \<Rightarrow> u32 \<Rightarrow> u32" where
  "fract_f32 F x = (let f = fo_sub F x (fo_floor F x) in if fo_le F f32_one f then f32_below_one else f)"

section \<open>The shared bodies\<close>

record ('s, 'v) alu_builder =
  ab_const :: "'s \<Rightarrow> u32 \<Rightarrow> 's \<times> 'v"
  ab_add :: "'s \<Rightarrow> 'v \<Rightarrow> 'v \<Rightarrow> 's \<times> 'v"
  ab_sub :: "'s \<Rightarrow> 'v \<Rightarrow> 'v \<Rightarrow> 's \<times> 'v"
  ab_mul :: "'s \<Rightarrow> 'v \<Rightarrow> 'v \<Rightarrow> 's \<times> 'v"
  ab_min :: "'s \<Rightarrow> 'v \<Rightarrow> 'v \<Rightarrow> 's \<times> 'v"
  ab_max :: "'s \<Rightarrow> 'v \<Rightarrow> 'v \<Rightarrow> 's \<times> 'v"
  ab_fma :: "'s \<Rightarrow> 'v \<Rightarrow> 'v \<Rightarrow> 'v \<Rightarrow> 's \<times> 'v"
  ab_abs :: "'s \<Rightarrow> 'v \<Rightarrow> 's \<times> 'v"
  ab_neg :: "'s \<Rightarrow> 'v \<Rightarrow> 's \<times> 'v"
  ab_fract :: "'s \<Rightarrow> 'v \<Rightarrow> 's \<times> 'v"

definition is_uop_vop2 :: "u8 \<Rightarrow> bool" where
  "is_uop_vop2 op \<longleftrightarrow> op \<in> {0x03, 0x04, 0x05, 0x08, 0x0F, 0x10, 0x1F, 0x20, 0x21}"

definition is_uop_vop3 :: "u16 \<Rightarrow> bool" where
  "is_uop_vop3 op \<longleftrightarrow> op \<in> {0x108, 0x11F, 0x141, 0x14B, 0x157, 0x1A0}"

definition median3 :: "('s, 'v) alu_builder \<Rightarrow> 's \<Rightarrow> 'v \<Rightarrow> 'v \<Rightarrow> 'v \<Rightarrow> 's \<times> 'v" where
  "median3 b s a bb c =
     (let (s, max_ab) = ab_max b s a bb;
          (s, min_ab) = ab_min b s a bb;
          (s, max_minab_c) = ab_max b s min_ab c
      in ab_min b s max_ab max_minab_c)"

definition apply_mods :: "('s, 'v) alu_builder \<Rightarrow> 's \<Rightarrow> 'v \<Rightarrow> u8 \<Rightarrow> u8 \<Rightarrow> nat \<Rightarrow> 's \<times> 'v" where
  "apply_mods b s v am nm idx =
     (let (s, v) = (if am AND push_bit idx 1 \<noteq> 0 then ab_abs b s v else (s, v))
      in if nm AND push_bit idx 1 \<noteq> 0 then ab_neg b s v else (s, v))"

definition apply_omod :: "('s, 'v) alu_builder \<Rightarrow> 's \<Rightarrow> 'v \<Rightarrow> u8 \<Rightarrow> 's \<times> 'v" where
  "apply_omod b s v omod =
     (let scale = (\<lambda>factor_bits. let (s, f) = ab_const b s factor_bits in ab_mul b s v f) in
      if omod = 1 then scale 0x40000000
      else if omod = 2 then scale 0x40800000
      else if omod = 3 then scale 0x3F000000
      else (s, v))"

definition apply_clamp :: "('s, 'v) alu_builder \<Rightarrow> 's \<Rightarrow> 'v \<Rightarrow> bool \<Rightarrow> 's \<times> 'v" where
  "apply_clamp b s v clamp =
     (if \<not> clamp then (s, v)
      else let (s, zero) = ab_const b s 0;
               (s, one) = ab_const b s f32_one;
               (s, lo) = ab_max b s v zero
           in ab_min b s lo one)"

definition mul_add :: "('s, 'v) alu_builder \<Rightarrow> 's \<Rightarrow> 'v \<Rightarrow> 'v \<Rightarrow> 'v \<Rightarrow> 's \<times> 'v" where
  "mul_add b s x y z = (let (s, m) = ab_mul b s x y in ab_add b s m z)"

definition eval_vop2 :: "('s, 'v) alu_builder \<Rightarrow> 's \<Rightarrow> u8 \<Rightarrow> 'v \<Rightarrow> 'v \<Rightarrow> 'v \<Rightarrow> u32 option \<Rightarrow> 's \<times> 'v" where
  "eval_vop2 b s op a bb dst_old k =
     (if op = 0x03 then ab_add b s a bb
      else if op = 0x04 then ab_sub b s a bb
      else if op = 0x05 then ab_sub b s bb a
      else if op = 0x08 then ab_mul b s a bb
      else if op = 0x0F then ab_min b s a bb
      else if op = 0x10 then ab_max b s a bb
      else if op = 0x1F then mul_add b s a bb dst_old
      else let (s, kf) = ab_const b s (case k of Some v \<Rightarrow> v | None \<Rightarrow> 0)
           in if op = 0x20 then mul_add b s a kf bb else mul_add b s a bb kf)"

definition eval_vop3 :: "('s, 'v) alu_builder \<Rightarrow> 's \<Rightarrow> u16 \<Rightarrow> 'v \<Rightarrow> 'v \<Rightarrow> 'v \<Rightarrow> 'v \<Rightarrow> 's \<times> 'v" where
  "eval_vop3 b s op a bb c dst_old =
     (if op = 0x108 then ab_mul b s a bb
      else if op = 0x11F then mul_add b s a bb dst_old
      else if op = 0x141 then mul_add b s a bb c
      else if op = 0x14B then ab_fma b s a bb c
      else if op = 0x1A0 then ab_fract b s a
      else median3 b s a bb c)"

text \<open>The whole chain of an instruction of format VOP3: source modifiers, body, output modifiers.\<close>

definition eval_vop3_chain ::
  "('s, 'v) alu_builder \<Rightarrow> 's \<Rightarrow> u16 \<Rightarrow> 'v \<Rightarrow> 'v \<Rightarrow> 'v \<Rightarrow> 'v \<Rightarrow> u8 \<Rightarrow> u8 \<Rightarrow> u8 \<Rightarrow> bool \<Rightarrow> 's \<times> 'v" where
  "eval_vop3_chain b s op a0 b0 c0 dst_old am nm omod clamp =
     (let (s, a) = apply_mods b s a0 am nm 0;
          (s, bb) = apply_mods b s b0 am nm 1;
          (s, c) = apply_mods b s c0 am nm 2;
          (s, raw) = eval_vop3 b s op a bb c dst_old;
          (s, scaled) = apply_omod b s raw omod
      in apply_clamp b s scaled clamp)"

section \<open>The interpreter's instance\<close>

definition interp_alu :: "f32_ops \<Rightarrow> (unit, u32) alu_builder" where
  "interp_alu F =
     \<lparr>ab_const = \<lambda>s bits. (s, bits),
      ab_add = \<lambda>s a b. (s, fo_add F a b),
      ab_sub = \<lambda>s a b. (s, fo_sub F a b),
      ab_mul = \<lambda>s a b. (s, fo_mul F a b),
      ab_min = \<lambda>s a b. (s, fo_min F a b),
      ab_max = \<lambda>s a b. (s, fo_max F a b),
      ab_fma = \<lambda>s a b c. (s, fo_fma F a b c),
      ab_abs = \<lambda>s a. (s, f32_abs a),
      ab_neg = \<lambda>s a. (s, f32_neg a),
      ab_fract = \<lambda>s a. (s, fract_f32 F a)\<rparr>"

section \<open>The recompiler's instance\<close>

text \<open>
  The SPIR-V module builder is a library; \<open>sp_*\<close> are the calls the recompiler makes of it, each
  appending one instruction and giving its result id (a number; that a module has fewer than $2^{32}$
  of them is the builder's concern). The recompiler's state here is the builder and
  the cache of float constants.
\<close>

type_synonym spv_id = nat

record 'b spirv_ops =
  sp_constant_f32 :: "'b \<Rightarrow> u32 \<Rightarrow> 'b \<times> spv_id"
  sp_constant_u32 :: "'b \<Rightarrow> u32 \<Rightarrow> 'b \<times> spv_id"
  sp_f_add :: "'b \<Rightarrow> spv_id \<Rightarrow> spv_id \<Rightarrow> 'b \<times> spv_id"
  sp_f_sub :: "'b \<Rightarrow> spv_id \<Rightarrow> spv_id \<Rightarrow> 'b \<times> spv_id"
  sp_f_mul :: "'b \<Rightarrow> spv_id \<Rightarrow> spv_id \<Rightarrow> 'b \<times> spv_id"
  sp_f_negate :: "'b \<Rightarrow> spv_id \<Rightarrow> 'b \<times> spv_id"
  sp_ext_inst :: "'b \<Rightarrow> u32 \<Rightarrow> spv_id list \<Rightarrow> 'b \<times> spv_id"
  sp_f_ord_ge :: "'b \<Rightarrow> spv_id \<Rightarrow> spv_id \<Rightarrow> 'b \<times> spv_id"
  sp_f_ord_eq :: "'b \<Rightarrow> spv_id \<Rightarrow> spv_id \<Rightarrow> 'b \<times> spv_id"
  sp_select :: "'b \<Rightarrow> spv_id \<Rightarrow> spv_id \<Rightarrow> spv_id \<Rightarrow> 'b \<times> spv_id"
  sp_convert_f_to_s :: "'b \<Rightarrow> spv_id \<Rightarrow> 'b \<times> spv_id"
  sp_convert_f_to_u :: "'b \<Rightarrow> spv_id \<Rightarrow> 'b \<times> spv_id"
  sp_bitcast :: "'b \<Rightarrow> spv_id \<Rightarrow> 'b \<times> spv_id"

record 'b recompiler =
  rc_b :: 'b
  rc_const_f32 :: "u32 \<Rightarrow> spv_id option"
  rc_const_u32 :: "u32 \<Rightarrow> spv_id option"

definition FABS :: u32 where "FABS = 4"
definition FRACT :: u32 where "FRACT = 10"
definition FMIN :: u32 where "FMIN = 37"
definition FMAX :: u32 where "FMAX = 40"
definition FMA :: u32 where "FMA = 50"

lemmas glsl_ops = FABS_def FRACT_def FMIN_def FMAX_def FMA_def

definition on_builder :: "('b \<Rightarrow> 'b \<times> 'v) \<Rightarrow> 'b recompiler \<Rightarrow> 'b recompiler \<times> 'v" where
  "on_builder f s = (case f (rc_b s) of (b, v) \<Rightarrow> (s\<lparr>rc_b := b\<rparr>, v))"

definition const_f32 :: "'b spirv_ops \<Rightarrow> 'b recompiler \<Rightarrow> u32 \<Rightarrow> 'b recompiler \<times> spv_id" where
  "const_f32 sp s bits =
     (case rc_const_f32 s bits of
        Some i \<Rightarrow> (s, i)
      | None \<Rightarrow> (case sp_constant_f32 sp (rc_b s) bits of
                    (b, i) \<Rightarrow> (s\<lparr>rc_b := b, rc_const_f32 := (rc_const_f32 s)(bits \<mapsto> i)\<rparr>, i)))"

definition const_u32 :: "'b spirv_ops \<Rightarrow> 'b recompiler \<Rightarrow> u32 \<Rightarrow> 'b recompiler \<times> spv_id" where
  "const_u32 sp s v =
     (case rc_const_u32 s v of
        Some i \<Rightarrow> (s, i)
      | None \<Rightarrow> (case sp_constant_u32 sp (rc_b s) v of
                    (b, i) \<Rightarrow> (s\<lparr>rc_b := b, rc_const_u32 := (rc_const_u32 s)(v \<mapsto> i)\<rparr>, i)))"

definition glsl1 :: "'b spirv_ops \<Rightarrow> 'b recompiler \<Rightarrow> u32 \<Rightarrow> spv_id \<Rightarrow> 'b recompiler \<times> spv_id" where
  "glsl1 sp s i a = on_builder (\<lambda>b. sp_ext_inst sp b i [a]) s"

definition glsl2 :: "'b spirv_ops \<Rightarrow> 'b recompiler \<Rightarrow> u32 \<Rightarrow> spv_id \<Rightarrow> spv_id \<Rightarrow> 'b recompiler \<times> spv_id" where
  "glsl2 sp s i a c = on_builder (\<lambda>b. sp_ext_inst sp b i [a, c]) s"

definition emit_fract :: "'b spirv_ops \<Rightarrow> 'b recompiler \<Rightarrow> spv_id \<Rightarrow> 'b recompiler \<times> spv_id" where
  "emit_fract sp s x =
     (let (s, f) = glsl1 sp s FRACT x;
          (s, one) = const_f32 sp s f32_one;
          (s, almost_one) = const_f32 sp s f32_below_one;
          (s, ge) = on_builder (\<lambda>b. sp_f_ord_ge sp b f one) s
      in on_builder (\<lambda>b. sp_select sp b ge almost_one f) s)"

definition cvt_bounds :: "bool \<Rightarrow> u32 \<times> u32 \<times> u32 \<times> u32" where
  "cvt_bounds sgnd =
     (if sgnd then (0xCF000000, 0x4EFFFFFF, 0x4F000000, 0x7FFFFFFF) else (0, 0x4F7FFFFF, 0x4F800000, 0xFFFFFFFF))"

definition emit_convert :: "'b spirv_ops \<Rightarrow> 'b recompiler \<Rightarrow> spv_id \<Rightarrow> bool \<Rightarrow> 'b recompiler \<times> spv_id" where
  "emit_convert sp s clamped sgnd =
     (if sgnd
      then let (s, i) = on_builder (\<lambda>b. sp_convert_f_to_s sp b clamped) s in on_builder (\<lambda>b. sp_bitcast sp b i) s
      else on_builder (\<lambda>b. sp_convert_f_to_u sp b clamped) s)"

definition emit_cvt_clamp :: "'b spirv_ops \<Rightarrow> 'b recompiler \<Rightarrow> spv_id \<Rightarrow> u32 \<Rightarrow> u32 \<Rightarrow> 'b recompiler \<times> spv_id" where
  "emit_cvt_clamp sp s f lo_bits hi_bits =
     (let (s, is_num) = on_builder (\<lambda>b. sp_f_ord_eq sp b f f) s;
          (s, zero_f) = const_f32 sp s 0;
          (s, f_safe) = on_builder (\<lambda>b. sp_select sp b is_num f zero_f) s;
          (s, lo) = const_f32 sp s lo_bits;
          (s, hi) = const_f32 sp s hi_bits;
          (s, clamped_lo) = glsl2 sp s FMAX f_safe lo
      in glsl2 sp s FMIN clamped_lo hi)"

definition emit_cvt_f_to_int :: "'b spirv_ops \<Rightarrow> 'b recompiler \<Rightarrow> spv_id \<Rightarrow> bool \<Rightarrow> 'b recompiler \<times> spv_id" where
  "emit_cvt_f_to_int sp s f sgnd =
     (let (lo_bits, hi_bits, thr_bits, int_max) = cvt_bounds sgnd;
          (s, clamped) = emit_cvt_clamp sp s f lo_bits hi_bits;
          (s, conv) = emit_convert sp s clamped sgnd;
          (s, thr) = const_f32 sp s thr_bits;
          (s, ge_max) = on_builder (\<lambda>b. sp_f_ord_ge sp b f thr) s;
          (s, int_max) = const_u32 sp s int_max
      in on_builder (\<lambda>b. sp_select sp b ge_max int_max conv) s)"

definition recompiler_alu :: "'b spirv_ops \<Rightarrow> ('b recompiler, spv_id) alu_builder" where
  "recompiler_alu sp =
     \<lparr>ab_const = const_f32 sp,
      ab_add = \<lambda>s a c. on_builder (\<lambda>b. sp_f_add sp b a c) s,
      ab_sub = \<lambda>s a c. on_builder (\<lambda>b. sp_f_sub sp b a c) s,
      ab_mul = \<lambda>s a c. on_builder (\<lambda>b. sp_f_mul sp b a c) s,
      ab_min = \<lambda>s a c. glsl2 sp s FMIN a c,
      ab_max = \<lambda>s a c. glsl2 sp s FMAX a c,
      ab_fma = \<lambda>s a c d. on_builder (\<lambda>b. sp_ext_inst sp b FMA [a, c, d]) s,
      ab_abs = \<lambda>s a. glsl1 sp s FABS a,
      ab_neg = \<lambda>s a. on_builder (\<lambda>b. sp_f_negate sp b a) s,
      ab_fract = emit_fract sp\<rparr>"

section \<open>What an instance promises\<close>

text \<open>
  The ids or values an instance hands out denote floats: \<open>val s v\<close> is the value of \<open>v\<close> in state \<open>s\<close>.
  An operation gives the value its name says and takes away none there was.
\<close>

definition gives :: "('s \<Rightarrow> bool) \<Rightarrow> ('s \<Rightarrow> 'v \<rightharpoonup> u32) \<Rightarrow> 's \<Rightarrow> 's \<times> 'v \<Rightarrow> u32 \<Rightarrow> bool" where
  "gives ok val s r x \<longleftrightarrow> ok (fst r) \<and> val s \<subseteq>\<^sub>m val (fst r) \<and> val (fst r) (snd r) = Some x"

lemma givesE:
  assumes "gives ok val s r x"
  obtains s' v where "r = (s', v)" "ok s'" "val s \<subseteq>\<^sub>m val s'" "val s' v = Some x"
  using assms by (cases r) (auto simp: gives_def)

lemma gives_trans: "val s \<subseteq>\<^sub>m val s' \<Longrightarrow> gives ok val s' r x \<Longrightarrow> gives ok val s r x"
  by (auto simp: gives_def intro: map_le_trans)

lemma map_leD: "f \<subseteq>\<^sub>m g \<Longrightarrow> f v = Some x \<Longrightarrow> g v = Some x"
  by (metis domI map_le_def)

locale alu =
  fixes F :: f32_ops and b :: "('s, 'v) alu_builder" and ok :: "'s \<Rightarrow> bool" and val :: "'s \<Rightarrow> 'v \<rightharpoonup> u32"
  assumes const: "ok s \<Longrightarrow> gives ok val s (ab_const b s c) c"
    and add: "ok s \<Longrightarrow> val s u = Some x \<Longrightarrow> val s v = Some y \<Longrightarrow> gives ok val s (ab_add b s u v) (fo_add F x y)"
    and sub: "ok s \<Longrightarrow> val s u = Some x \<Longrightarrow> val s v = Some y \<Longrightarrow> gives ok val s (ab_sub b s u v) (fo_sub F x y)"
    and mul: "ok s \<Longrightarrow> val s u = Some x \<Longrightarrow> val s v = Some y \<Longrightarrow> gives ok val s (ab_mul b s u v) (fo_mul F x y)"
    and min: "ok s \<Longrightarrow> val s u = Some x \<Longrightarrow> val s v = Some y \<Longrightarrow> gives ok val s (ab_min b s u v) (fo_min F x y)"
    and max: "ok s \<Longrightarrow> val s u = Some x \<Longrightarrow> val s v = Some y \<Longrightarrow> gives ok val s (ab_max b s u v) (fo_max F x y)"
    and fma: "ok s \<Longrightarrow> val s u = Some x \<Longrightarrow> val s v = Some y \<Longrightarrow> val s w = Some z \<Longrightarrow>
      gives ok val s (ab_fma b s u v w) (fo_fma F x y z)"
    and abs: "ok s \<Longrightarrow> val s u = Some x \<Longrightarrow> gives ok val s (ab_abs b s u) (f32_abs x)"
    and neg: "ok s \<Longrightarrow> val s u = Some x \<Longrightarrow> gives ok val s (ab_neg b s u) (f32_neg x)"
    and fract: "ok s \<Longrightarrow> val s u = Some x \<Longrightarrow> gives ok val s (ab_fract b s u) (fract_f32 F x)"
begin

lemma keep: "ok s \<Longrightarrow> val s v = Some x \<Longrightarrow> gives ok val s (s, v) x"
  by (simp add: gives_def)

lemma mul_add_gives:
  assumes "ok s" "val s u = Some x" "val s v = Some y" "val s w = Some z"
  shows "gives ok val s (mul_add b s u v w) (fo_add F (fo_mul F x y) z)"
proof -
  obtain s' m where m: "ab_mul b s u v = (s', m)" "ok s'" "val s \<subseteq>\<^sub>m val s'" "val s' m = Some (fo_mul F x y)"
    by (rule givesE[OF mul[OF assms(1-3)]])
  have "gives ok val s' (ab_add b s' m w) (fo_add F (fo_mul F x y) z)"
    by (rule add[OF m(2,4) map_leD[OF m(3) assms(4)]])
  then show ?thesis by (simp add: mul_add_def m(1) gives_trans[OF m(3)])
qed

lemma median3_gives:
  assumes "ok s" "val s u = Some x" "val s v = Some y" "val s w = Some z"
  shows "gives ok val s (median3 b s u v w) (fo_min F (fo_max F x y) (fo_max F (fo_min F x y) z))"
proof -
  obtain s1 p where p: "ab_max b s u v = (s1, p)" "ok s1" "val s \<subseteq>\<^sub>m val s1" "val s1 p = Some (fo_max F x y)"
    by (rule givesE[OF max[OF assms(1-3)]])
  obtain s2 q where q: "ab_min b s1 u v = (s2, q)" "ok s2" "val s1 \<subseteq>\<^sub>m val s2" "val s2 q = Some (fo_min F x y)"
    by (rule givesE[OF min[OF p(2) assms(2,3)[THEN map_leD[OF p(3)]]]])
  note k = map_le_trans[OF p(3) q(3)]
  obtain s3 r where r: "ab_max b s2 q w = (s3, r)" "ok s3" "val s2 \<subseteq>\<^sub>m val s3"
      "val s3 r = Some (fo_max F (fo_min F x y) z)"
    by (rule givesE[OF max[OF q(2,4) map_leD[OF k assms(4)]]])
  have "val s3 p = Some (fo_max F x y)" by (rule map_leD[OF r(3) map_leD[OF q(3) p(4)]])
  from gives_trans[OF map_le_trans[OF k r(3)] min[OF r(2) this r(4)]]
  show ?thesis by (simp add: median3_def p(1) q(1) r(1))
qed

lemma apply_mods_gives:
  assumes "ok s" "val s v = Some x"
  shows "gives ok val s (apply_mods b s v a n i) (snd (apply_mods (interp_alu F) () x a n i))"
proof -
  let ?x = "if a AND push_bit i 1 \<noteq> 0 then f32_abs x else x"
  have "gives ok val s (if a AND push_bit i 1 \<noteq> 0 then ab_abs b s v else (s, v)) ?x"
    using abs[OF assms] keep[OF assms] by simp
  then obtain s' v' where r: "(if a AND push_bit i 1 \<noteq> 0 then ab_abs b s v else (s, v)) = (s', v')" "ok s'"
      "val s \<subseteq>\<^sub>m val s'" "val s' v' = Some ?x" by (rule givesE)
  have "gives ok val s' (if n AND push_bit i 1 \<noteq> 0 then ab_neg b s' v' else (s', v'))
      (if n AND push_bit i 1 \<noteq> 0 then f32_neg ?x else ?x)"
    using neg[OF r(2,4)] keep[OF r(2,4)] by simp
  from gives_trans[OF r(3) this] show ?thesis
    unfolding apply_mods_def Let_def r(1) prod.case by (simp add: interp_alu_def split: if_splits)
qed

lemma apply_omod_gives:
  assumes "ok s" "val s v = Some x"
  shows "gives ok val s (apply_omod b s v omod) (snd (apply_omod (interp_alu F) () x omod))"
proof -
  have "gives ok val s (let (s, f) = ab_const b s c in ab_mul b s v f) (fo_mul F x c)" for c
  proof -
    obtain s' f where f: "ab_const b s c = (s', f)" "ok s'" "val s \<subseteq>\<^sub>m val s'" "val s' f = Some c"
      by (rule givesE[OF const[OF assms(1)]])
    show ?thesis using gives_trans[OF f(3) mul[OF f(2) map_leD[OF f(3) assms(2)] f(4)]] by (simp add: f(1))
  qed
  then show ?thesis using keep[OF assms] by (simp add: apply_omod_def interp_alu_def)
qed

lemma apply_clamp_gives:
  assumes "ok s" "val s v = Some x"
  shows "gives ok val s (apply_clamp b s v clamp) (snd (apply_clamp (interp_alu F) () x clamp))"
proof (cases clamp)
  case True
  obtain s1 p where p: "ab_const b s 0 = (s1, p)" "ok s1" "val s \<subseteq>\<^sub>m val s1" "val s1 p = Some 0"
    by (rule givesE[OF const[OF assms(1)]])
  obtain s2 q where q: "ab_const b s1 f32_one = (s2, q)" "ok s2" "val s1 \<subseteq>\<^sub>m val s2" "val s2 q = Some f32_one"
    by (rule givesE[OF const[OF p(2)]])
  note k = map_le_trans[OF p(3) q(3)]
  obtain s3 r where r: "ab_max b s2 v p = (s3, r)" "ok s3" "val s2 \<subseteq>\<^sub>m val s3" "val s3 r = Some (fo_max F x 0)"
    by (rule givesE[OF max[OF q(2) map_leD[OF k assms(2)] map_leD[OF q(3) p(4)]]])
  from gives_trans[OF map_le_trans[OF k r(3)] min[OF r(2,4) map_leD[OF r(3) q(4)]]]
  show ?thesis using True by (simp add: apply_clamp_def interp_alu_def p(1) q(1) r(1))
qed (use keep[OF assms] in \<open>simp add: apply_clamp_def\<close>)

lemma eval_vop2_gives:
  assumes "ok s" "val s u = Some x" "val s v = Some y" and mac: "op = 0x1F \<longrightarrow> val s d = Some z"
  shows "gives ok val s (eval_vop2 b s op u v d k) (snd (eval_vop2 (interp_alu F) () op x y z k))"
proof -
  obtain s' kf where f: "ab_const b s (case k of Some v \<Rightarrow> v | None \<Rightarrow> 0) = (s', kf)" "ok s'" "val s \<subseteq>\<^sub>m val s'"
      "val s' kf = Some (case k of Some v \<Rightarrow> v | None \<Rightarrow> 0)"
    by (rule givesE[OF const[OF assms(1)]])
  note up = assms(2,3)[THEN map_leD[OF f(3)]]
  note K = gives_trans[OF f(3) mul_add_gives[OF f(2) up(1) f(4) up(2)]] gives_trans[OF f(3) mul_add_gives[OF f(2) up f(4)]]
  show ?thesis
    using assms K add[OF assms(1-3)] sub[OF assms(1-3)] sub[OF assms(1,3,2)] mul[OF assms(1-3)] min[OF assms(1-3)]
      max[OF assms(1-3)] mul_add_gives[OF assms(1-3), of d z]
    by (simp add: eval_vop2_def f(1)) (simp add: interp_alu_def mul_add_def)
qed

lemma eval_vop3_gives:
  assumes "ok s" "val s u = Some x" "val s v = Some y" "val s w = Some z" and mac: "op = 0x11F \<longrightarrow> val s d = Some t"
  shows "gives ok val s (eval_vop3 b s op u v w d) (snd (eval_vop3 (interp_alu F) () op x y z t))"
  using assms mul[OF assms(1-3)] fma[OF assms(1-4)] fract[OF assms(1,2)] mul_add_gives[OF assms(1-3), of d t]
    mul_add_gives[OF assms(1-4)] median3_gives[OF assms(1-4)]
  by (simp add: eval_vop3_def) (simp add: interp_alu_def mul_add_def median3_def)

lemma eval_vop3_chain_gives:
  assumes "ok s" "val s u = Some x" "val s v = Some y" "val s w = Some z" and mac: "op = 0x11F \<longrightarrow> val s d = Some t"
  shows "gives ok val s (eval_vop3_chain b s op u v w d am nm omod clamp)
    (snd (eval_vop3_chain (interp_alu F) () op x y z t am nm omod clamp))"
proof -
  let ?m = "\<lambda>x i. snd (apply_mods (interp_alu F) () x am nm i)"
  obtain s1 a where a: "apply_mods b s u am nm 0 = (s1, a)" "ok s1" "val s \<subseteq>\<^sub>m val s1" "val s1 a = Some (?m x 0)"
    by (rule givesE[OF apply_mods_gives[OF assms(1,2)]])
  obtain s2 p where p: "apply_mods b s1 v am nm 1 = (s2, p)" "ok s2" "val s1 \<subseteq>\<^sub>m val s2" "val s2 p = Some (?m y 1)"
    by (rule givesE[OF apply_mods_gives[OF a(2) map_leD[OF a(3) assms(3)]]])
  note k2 = map_le_trans[OF a(3) p(3)]
  obtain s3 q where q: "apply_mods b s2 w am nm 2 = (s3, q)" "ok s3" "val s2 \<subseteq>\<^sub>m val s3" "val s3 q = Some (?m z 2)"
    by (rule givesE[OF apply_mods_gives[OF p(2) map_leD[OF k2 assms(4)]]])
  note k3 = map_le_trans[OF k2 q(3)]
  have mac': "op = 0x11F \<longrightarrow> val s3 d = Some t" using mac map_leD[OF k3] by blast
  obtain s4 r where r: "eval_vop3 b s3 op a p q d = (s4, r)" "ok s4" "val s3 \<subseteq>\<^sub>m val s4"
      "val s4 r = Some (snd (eval_vop3 (interp_alu F) () op (?m x 0) (?m y 1) (?m z 2) t))"
    by (rule givesE[OF eval_vop3_gives[OF q(2) map_leD[OF map_le_trans[OF p(3) q(3)] a(4)] map_leD[OF q(3) p(4)] q(4) mac']])
  obtain s5 o' where o': "apply_omod b s4 r omod = (s5, o')" "ok s5" "val s4 \<subseteq>\<^sub>m val s5"
      "val s5 o' = Some (snd (apply_omod (interp_alu F) () (snd (eval_vop3 (interp_alu F) () op (?m x 0) (?m y 1) (?m z 2) t)) omod))"
    by (rule givesE[OF apply_omod_gives[OF r(2,4)]])
  have l: "eval_vop3_chain b s op u v w d am nm omod clamp = apply_clamp b s5 o' clamp"
    unfolding eval_vop3_chain_def Let_def a(1) p(1) q(1) r(1) o'(1) prod.case ..
  show ?thesis
    using gives_trans[OF map_le_trans[OF k3 map_le_trans[OF r(3) o'(3)]] apply_clamp_gives[OF o'(2,4), of clamp]]
    unfolding l by (simp add: eval_vop3_chain_def case_prod_beta)
qed

end

interpretation interp: alu F "interp_alu F" "\<lambda>_. True" "\<lambda>_ v. Some v" for F
  by unfold_locales (simp_all add: gives_def interp_alu_def)

section \<open>The emitted code computes the interpreter's values\<close>

text \<open>
  What is relied on of the SPIR-V builder and of the device: ids keep their meaning, and each
  instruction has the meaning the SPIR-V and GLSL specifications give it with correctly rounded
  arithmetic. \<open>Fract\<close> is the naive difference or its bounded form, whichever the driver has.
\<close>

type_synonym 'b meaning = "('b \<Rightarrow> spv_id \<rightharpoonup> u32) \<times> ('b \<Rightarrow> spv_id \<rightharpoonup> bool)"

definition keeps :: "'b meaning \<Rightarrow> 'b \<Rightarrow> 'b \<times> spv_id \<Rightarrow> bool" where
  "keeps M b r \<longleftrightarrow> fst M b \<subseteq>\<^sub>m fst M (fst r) \<and> snd M b \<subseteq>\<^sub>m snd M (fst r)"

definition emits :: "'b meaning \<Rightarrow> 'b \<Rightarrow> 'b \<times> spv_id \<Rightarrow> u32 \<Rightarrow> bool" where
  "emits M b r x \<longleftrightarrow> keeps M b r \<and> fst M (fst r) (snd r) = Some x"

definition emits_bool :: "'b meaning \<Rightarrow> 'b \<Rightarrow> 'b \<times> spv_id \<Rightarrow> bool \<Rightarrow> bool" where
  "emits_bool M b r x \<longleftrightarrow> keeps M b r \<and> snd M (fst r) (snd r) = Some x"

definition spirv_laws :: "f32_ops \<Rightarrow> 'b spirv_ops \<Rightarrow> 'b meaning \<Rightarrow> bool" where
  "spirv_laws F sp M \<longleftrightarrow>
     (\<forall>b c. emits M b (sp_constant_f32 sp b c) c \<and> emits M b (sp_constant_u32 sp b c) c) \<and>
     (\<forall>b u x. fst M b u = Some x \<longrightarrow>
        emits M b (sp_f_negate sp b u) (f32_neg x) \<and> emits M b (sp_ext_inst sp b FABS [u]) (f32_abs x) \<and>
        emits M b (sp_bitcast sp b u) x \<and>
        (emits M b (sp_ext_inst sp b FRACT [u]) (fo_sub F x (fo_floor F x)) \<or>
         emits M b (sp_ext_inst sp b FRACT [u]) (fract_f32 F x))) \<and>
     (\<forall>b u v x y. fst M b u = Some x \<and> fst M b v = Some y \<longrightarrow>
        emits M b (sp_f_add sp b u v) (fo_add F x y) \<and> emits M b (sp_f_sub sp b u v) (fo_sub F x y) \<and>
        emits M b (sp_f_mul sp b u v) (fo_mul F x y) \<and>
        (\<not> is_nan x \<and> \<not> is_nan y \<longrightarrow> emits M b (sp_ext_inst sp b FMIN [u, v]) (fo_min F x y)) \<and>
        (\<not> is_nan x \<and> \<not> is_nan y \<longrightarrow> emits M b (sp_ext_inst sp b FMAX [u, v]) (fo_max F x y)) \<and>
        emits_bool M b (sp_f_ord_ge sp b u v) (fo_le F y x) \<and>
        emits_bool M b (sp_f_ord_eq sp b u v) (fo_eq F x y)) \<and>
     (\<forall>b c u v p x y. snd M b c = Some p \<and> fst M b u = Some x \<and> fst M b v = Some y \<longrightarrow>
        emits M b (sp_select sp b c u v) (if p then x else y)) \<and>
     \<not> fo_le F f32_one f32_below_one"

text \<open>
  What the recompiler takes for granted of the device beyond the specifications, in the comments of
  its \<open>f_min\<close> and \<open>f_fma\<close>: the minimum and the maximum drop a NaN, and \<open>Fma\<close> rounds once.
\<close>

definition device_laws :: "f32_ops \<Rightarrow> 'b spirv_ops \<Rightarrow> 'b meaning \<Rightarrow> bool" where
  "device_laws F sp M \<longleftrightarrow>
     (\<forall>b u v x y. fst M b u = Some x \<and> fst M b v = Some y \<longrightarrow>
        emits M b (sp_ext_inst sp b FMIN [u, v]) (fo_min F x y) \<and> emits M b (sp_ext_inst sp b FMAX [u, v]) (fo_max F x y)) \<and>
     (\<forall>b u v w x y z. fst M b u = Some x \<and> fst M b v = Some y \<and> fst M b w = Some z \<longrightarrow>
        emits M b (sp_ext_inst sp b FMA [u, v, w]) (fo_fma F x y z))"

lemma device_lawsD:
  assumes "device_laws F sp M"
  shows "fst M b u = Some x \<Longrightarrow> fst M b v = Some y \<Longrightarrow> emits M b (sp_ext_inst sp b FMIN [u, v]) (fo_min F x y)"
    and "fst M b u = Some x \<Longrightarrow> fst M b v = Some y \<Longrightarrow> emits M b (sp_ext_inst sp b FMAX [u, v]) (fo_max F x y)"
    and "fst M b u = Some x \<Longrightarrow> fst M b v = Some y \<Longrightarrow> fst M b w = Some z \<Longrightarrow>
      emits M b (sp_ext_inst sp b FMA [u, v, w]) (fo_fma F x y z)"
  using assms unfolding device_laws_def by simp_all

lemma spirv_lawsD:
  assumes "spirv_laws F sp M"
  shows "emits M b (sp_constant_f32 sp b c) c" and "emits M b (sp_constant_u32 sp b c) c"
    and "fst M b u = Some x \<Longrightarrow> emits M b (sp_f_negate sp b u) (f32_neg x)"
    and "fst M b u = Some x \<Longrightarrow> emits M b (sp_ext_inst sp b FABS [u]) (f32_abs x)"
    and "fst M b u = Some x \<Longrightarrow> emits M b (sp_bitcast sp b u) x"
    and "fst M b u = Some x \<Longrightarrow> emits M b (sp_ext_inst sp b FRACT [u]) (fo_sub F x (fo_floor F x)) \<or>
         emits M b (sp_ext_inst sp b FRACT [u]) (fract_f32 F x)"
    and "fst M b u = Some x \<Longrightarrow> fst M b v = Some y \<Longrightarrow> emits M b (sp_f_add sp b u v) (fo_add F x y)"
    and "fst M b u = Some x \<Longrightarrow> fst M b v = Some y \<Longrightarrow> emits M b (sp_f_sub sp b u v) (fo_sub F x y)"
    and "fst M b u = Some x \<Longrightarrow> fst M b v = Some y \<Longrightarrow> emits M b (sp_f_mul sp b u v) (fo_mul F x y)"
    and "fst M b u = Some x \<Longrightarrow> fst M b v = Some y \<Longrightarrow> \<not> is_nan x \<Longrightarrow> \<not> is_nan y \<Longrightarrow>
      emits M b (sp_ext_inst sp b FMIN [u, v]) (fo_min F x y)"
    and "fst M b u = Some x \<Longrightarrow> fst M b v = Some y \<Longrightarrow> \<not> is_nan x \<Longrightarrow> \<not> is_nan y \<Longrightarrow>
      emits M b (sp_ext_inst sp b FMAX [u, v]) (fo_max F x y)"
    and "fst M b u = Some x \<Longrightarrow> fst M b v = Some y \<Longrightarrow> emits_bool M b (sp_f_ord_ge sp b u v) (fo_le F y x)"
    and "fst M b u = Some x \<Longrightarrow> fst M b v = Some y \<Longrightarrow> emits_bool M b (sp_f_ord_eq sp b u v) (fo_eq F x y)"
    and "snd M b i = Some p \<Longrightarrow> fst M b u = Some x \<Longrightarrow> fst M b v = Some y \<Longrightarrow>
      emits M b (sp_select sp b i u v) (if p then x else y)"
    and "\<not> fo_le F f32_one f32_below_one"
  using assms unfolding spirv_laws_def by simp_all

text \<open>The cached constants denote what they are cached for.\<close>

definition cache_ok :: "'b meaning \<Rightarrow> 'b recompiler \<Rightarrow> bool" where
  "cache_ok M s \<longleftrightarrow> (\<forall>c i. rc_const_f32 s c = Some i \<longrightarrow> fst M (rc_b s) i = Some c) \<and>
     (\<forall>c i. rc_const_u32 s c = Some i \<longrightarrow> fst M (rc_b s) i = Some c)"

definition id_val :: "'b meaning \<Rightarrow> 'b recompiler \<Rightarrow> spv_id \<rightharpoonup> u32" where
  "id_val M s = fst M (rc_b s)"

text \<open>A step of the recompiler keeps what ids mean, truth values included.\<close>

definition rgives :: "'b meaning \<Rightarrow> 'b recompiler \<Rightarrow> 'b recompiler \<times> spv_id \<Rightarrow> u32 \<Rightarrow> bool" where
  "rgives M s r x \<longleftrightarrow> cache_ok M (fst r) \<and> keeps M (rc_b s) (rc_b (fst r), snd r) \<and> fst M (rc_b (fst r)) (snd r) = Some x"

lemma rgives_gives: "rgives M s r x \<Longrightarrow> gives (cache_ok M) (id_val M) s r x"
  by (simp add: rgives_def gives_def keeps_def id_val_def)

lemma rgivesE:
  assumes "rgives M s r x"
  obtains s' v where "r = (s', v)" "cache_ok M s'" "fst M (rc_b s) \<subseteq>\<^sub>m fst M (rc_b s')" "snd M (rc_b s) \<subseteq>\<^sub>m snd M (rc_b s')"
    "fst M (rc_b s') v = Some x"
  using assms by (cases r) (auto simp: rgives_def keeps_def)

lemma cache_ok_mono: "cache_ok M s \<Longrightarrow> fst M (rc_b s) \<subseteq>\<^sub>m fst M b \<Longrightarrow> cache_ok M (s\<lparr>rc_b := b\<rparr>)"
  by (auto simp: cache_ok_def intro: map_leD)

lemma on_builder_gives:
  assumes "cache_ok M s" and "emits M (rc_b s) (f (rc_b s)) x"
  shows "rgives M s (on_builder f s) x"
proof (cases "f (rc_b s)")
  case (Pair b v)
  then show ?thesis using assms cache_ok_mono[OF assms(1), of b]
    by (simp add: on_builder_def rgives_def emits_def keeps_def)
qed

lemma on_builder_bool:
  assumes "cache_ok M s" and "emits_bool M (rc_b s) (f (rc_b s)) p"
  obtains s' v where "on_builder f s = (s', v)" "cache_ok M s'" "fst M (rc_b s) \<subseteq>\<^sub>m fst M (rc_b s')"
    "snd M (rc_b s) \<subseteq>\<^sub>m snd M (rc_b s')" "snd M (rc_b s') v = Some p"
proof (cases "f (rc_b s)")
  case (Pair b v)
  then show ?thesis using assms cache_ok_mono[OF assms(1), of b] that[of "s\<lparr>rc_b := b\<rparr>" v]
    by (simp add: on_builder_def emits_bool_def keeps_def)
qed

lemma const_f32_gives:
  assumes "spirv_laws F sp M" and "cache_ok M s"
  shows "rgives M s (const_f32 sp s c) c"
proof (cases "rc_const_f32 s c")
  case None
  obtain b i where bi: "sp_constant_f32 sp (rc_b s) c = (b, i)" by fastforce
  have "emits M (rc_b s) (b, i) c" using spirv_lawsD(1)[OF assms(1), of "rc_b s" c] by (simp add: bi)
  then have k: "fst M (rc_b s) \<subseteq>\<^sub>m fst M b" "snd M (rc_b s) \<subseteq>\<^sub>m snd M b" "fst M b i = Some c"
    by (simp_all add: emits_def keeps_def)
  then have "cache_ok M (s\<lparr>rc_b := b, rc_const_f32 := (rc_const_f32 s)(c \<mapsto> i)\<rparr>)"
    using assms(2) by (auto simp: cache_ok_def intro: map_leD)
  then show ?thesis using None bi k by (simp add: const_f32_def rgives_def keeps_def)
qed (use assms in \<open>auto simp: const_f32_def rgives_def keeps_def cache_ok_def\<close>)

lemma const_u32_gives:
  assumes "spirv_laws F sp M" and "cache_ok M s"
  shows "rgives M s (const_u32 sp s c) c"
proof (cases "rc_const_u32 s c")
  case None
  obtain b i where bi: "sp_constant_u32 sp (rc_b s) c = (b, i)" by fastforce
  have "emits M (rc_b s) (b, i) c" using spirv_lawsD(2)[OF assms(1), of "rc_b s" c] by (simp add: bi)
  then have k: "fst M (rc_b s) \<subseteq>\<^sub>m fst M b" "snd M (rc_b s) \<subseteq>\<^sub>m snd M b" "fst M b i = Some c"
    by (simp_all add: emits_def keeps_def)
  then have "cache_ok M (s\<lparr>rc_b := b, rc_const_u32 := (rc_const_u32 s)(c \<mapsto> i)\<rparr>)"
    using assms(2) by (auto simp: cache_ok_def intro: map_leD)
  then show ?thesis using None bi k by (simp add: const_u32_def rgives_def keeps_def)
qed (use assms in \<open>auto simp: const_u32_def rgives_def keeps_def cache_ok_def\<close>)

text \<open>Sequencing: what a step keeps is there for the next one.\<close>

definition grows :: "'b meaning \<Rightarrow> 'b recompiler \<Rightarrow> 'b recompiler \<Rightarrow> bool" where
  "grows M s s' \<longleftrightarrow> cache_ok M s' \<and> fst M (rc_b s) \<subseteq>\<^sub>m fst M (rc_b s') \<and> snd M (rc_b s) \<subseteq>\<^sub>m snd M (rc_b s')"

lemma grows_val: "grows M s s' \<Longrightarrow> fst M (rc_b s) v = Some x \<Longrightarrow> fst M (rc_b s') v = Some x"
  unfolding grows_def by (erule conjE)+ (rule map_leD)

lemma grows_bool: "grows M s s' \<Longrightarrow> snd M (rc_b s) v = Some x \<Longrightarrow> snd M (rc_b s') v = Some x"
  unfolding grows_def map_le_def by (metis domI)

lemma grows_trans: "grows M s s' \<Longrightarrow> grows M s' s'' \<Longrightarrow> grows M s s''"
  by (auto simp: grows_def intro: map_le_trans)

lemma rgives_bind:
  assumes "rgives M s r x" and "\<And>s' v. grows M s s' \<Longrightarrow> fst M (rc_b s') v = Some x \<Longrightarrow> rgives M s' (k s' v) y"
  shows "rgives M s (case r of (s', v) \<Rightarrow> k s' v) y"
proof -
  obtain s' v where r: "r = (s', v)" "grows M s s'" "fst M (rc_b s') v = Some x"
    using assms(1) by (auto simp: grows_def elim: rgivesE)
  have "rgives M s' (k s' v) y" by (rule assms(2)[OF r(2,3)])
  then show ?thesis using r(1,2) by (auto simp: rgives_def keeps_def grows_def intro: map_le_trans)
qed

lemma rgives_bind_bool:
  assumes "cache_ok M s" and "emits_bool M (rc_b s) (f (rc_b s)) p"
    and "\<And>s' v. grows M s s' \<Longrightarrow> snd M (rc_b s') v = Some p \<Longrightarrow> rgives M s' (k s' v) y"
  shows "rgives M s (case on_builder f s of (s', v) \<Rightarrow> k s' v) y"
proof -
  obtain s' v where r: "on_builder f s = (s', v)" "grows M s s'" "snd M (rc_b s') v = Some p"
    by (rule on_builder_bool[where f = f and p = p, OF assms(1,2)]) (auto simp: grows_def)
  have "rgives M s' (k s' v) y" by (rule assms(3)[OF r(2,3)])
  then show ?thesis using r(1,2) by (auto simp: rgives_def keeps_def grows_def intro: map_le_trans)
qed

lemma grows_ok: "grows M s s' \<Longrightarrow> cache_ok M s'" by (simp add: grows_def)

lemma emit_fract_gives:
  assumes L: "spirv_laws F sp M" and ok: "cache_ok M s" and u: "fst M (rc_b s) u = Some x"
  shows "rgives M s (emit_fract sp s u) (fract_f32 F x)"
proof -
  let ?naive = "fo_sub F x (fo_floor F x)"
  obtain f where f: "emits M (rc_b s) (sp_ext_inst sp (rc_b s) FRACT [u]) f" "f = ?naive \<or> f = fract_f32 F x"
    using spirv_lawsD(6)[OF L u] by blast
  have res: "(if fo_le F f32_one f then f32_below_one else f) = fract_f32 F x"
    using f(2) spirv_lawsD(15)[OF L] by (auto simp: fract_f32_def Let_def)
  have "rgives M s (glsl1 sp s FRACT u) f" unfolding glsl1_def by (rule on_builder_gives[where f = "\<lambda>b. sp_ext_inst sp b FRACT [u]", OF ok f(1)])
  then show ?thesis unfolding emit_fract_def Let_def
  proof (rule rgives_bind)
    fix s1 v1 assume 1: "grows M s s1" "fst M (rc_b s1) v1 = Some f"
    show "rgives M s1 (case const_f32 sp s1 f32_one of (s, one) \<Rightarrow> case const_f32 sp s f32_below_one of (s, almost_one) \<Rightarrow>
        case on_builder (\<lambda>b. sp_f_ord_ge sp b v1 one) s of (s, ge) \<Rightarrow> on_builder (\<lambda>b. sp_select sp b ge almost_one v1) s) (fract_f32 F x)"
    proof (rule rgives_bind[OF const_f32_gives[OF L grows_ok[OF 1(1)]]])
      fix s2 one assume 2: "grows M s1 s2" "fst M (rc_b s2) one = Some f32_one"
      show "rgives M s2 (case const_f32 sp s2 f32_below_one of (s, almost_one) \<Rightarrow>
          case on_builder (\<lambda>b. sp_f_ord_ge sp b v1 one) s of (s, ge) \<Rightarrow> on_builder (\<lambda>b. sp_select sp b ge almost_one v1) s) (fract_f32 F x)"
      proof (rule rgives_bind[OF const_f32_gives[OF L grows_ok[OF 2(1)]]])
        fix s3 am assume 3: "grows M s2 s3" "fst M (rc_b s3) am = Some f32_below_one"
        note v3 = grows_val[OF 3(1) grows_val[OF 2(1) 1(2)]] and o3 = grows_val[OF 3(1) 2(2)]
        show "rgives M s3 (case on_builder (\<lambda>b. sp_f_ord_ge sp b v1 one) s3 of (s, ge) \<Rightarrow>
            on_builder (\<lambda>b. sp_select sp b ge am v1) s) (fract_f32 F x)"
        proof (rule rgives_bind_bool[where f = "\<lambda>b. sp_f_ord_ge sp b v1 one", OF grows_ok[OF 3(1)] spirv_lawsD(12)[OF L v3 o3]])
          fix s4 ge assume 4: "grows M s3 s4" "snd M (rc_b s4) ge = Some (fo_le F f32_one f)"
          show "rgives M s4 (on_builder (\<lambda>b. sp_select sp b ge am v1) s4) (fract_f32 F x)"
            using on_builder_gives[where f = "\<lambda>b. sp_select sp b ge am v1", OF grows_ok[OF 4(1)] spirv_lawsD(14)[OF L 4(2) grows_val[OF 4(1) 3(2)] grows_val[OF 4(1) v3]]]
            unfolding res .
        qed
      qed
    qed
  qed
qed

lemma recompiler_alu_laws:
  assumes "spirv_laws F sp M" and "device_laws F sp M"
  shows "alu F (recompiler_alu sp) (cache_ok M) (id_val M)"
proof -
  note D = spirv_lawsD[OF assms(1)] and E = device_lawsD[OF assms(2)] and B = on_builder_gives
  show ?thesis
    by unfold_locales
      (auto simp: recompiler_alu_def id_val_def glsl1_def glsl2_def intro!: rgives_gives const_f32_gives[OF assms(1)]
        emit_fract_gives[OF assms(1)] B E D)
qed

section \<open>The lowering of a cast to an integer\<close>

text \<open>A conversion instruction has a value when the operand truncates into the range of the type.\<close>

definition spirv_convert_laws :: "'b spirv_ops \<Rightarrow> 'b meaning \<Rightarrow> bool" where
  "spirv_convert_laws sp M \<longleftrightarrow>
     (\<forall>b u x. fst M b u = Some x \<and> \<not> is_nan x \<and> 0 \<le> f32_trunc x \<and> f32_trunc x < 2 ^ 32 \<longrightarrow>
        emits M b (sp_convert_f_to_u sp b u) (word_of_int (f32_trunc x))) \<and>
     (\<forall>b u x. fst M b u = Some x \<and> \<not> is_nan x \<and> - (2 ^ 31) \<le> f32_trunc x \<and> f32_trunc x < 2 ^ 31 \<longrightarrow>
        emits M b (sp_convert_f_to_s sp b u) (word_of_int (f32_trunc x)))"

definition int_range :: "bool \<Rightarrow> int \<times> int" where
  "int_range sgnd = (if sgnd then (- (2 ^ 31), 2 ^ 31 - 1) else (0, 2 ^ 32 - 1))"

text \<open>The operand after the clamp, and the arithmetic of the lowering.\<close>

definition cvt_clamped :: "bool \<Rightarrow> u32 \<Rightarrow> u32" where
  "cvt_clamped sgnd x =
     (case cvt_bounds sgnd of (lo, hi, _) \<Rightarrow> f32_min (f32_max (if f32_eq x x then x else 0) lo) hi)"

lemma cvt_bounds_values:
  assumes "cvt_bounds sgnd = (lo, hi, thr, int_max)" and "int_range sgnd = (l, h)"
  shows "\<not> is_nan lo" and "\<not> is_nan hi" and "\<not> is_nan thr" and "f32_val lo = l * 2 ^ 149"
    and "f32_val hi = int (f32_mag (unat hi))" and "f32_val thr = int (f32_mag (Suc (unat hi)))"
    and "f32_val thr = (h + 1) * 2 ^ 149" and "int_max = word_of_int h"
    and "trunc_val (f32_val hi) \<le> h" and "0 \<le> f32_val hi"
proof -
  have c: "lo = (if sgnd then 0xCF000000 else 0)" "hi = (if sgnd then 0x4EFFFFFF else 0x4F7FFFFF)"
    "thr = (if sgnd then 0x4F000000 else 0x4F800000)" "int_max = (if sgnd then 0x7FFFFFFF else 0xFFFFFFFF)"
    "l = (if sgnd then - (2 ^ 31) else 0)" "h = (if sgnd then 2 ^ 31 - 1 else 2 ^ 32 - 1)"
    using assms by (auto simp: cvt_bounds_def int_range_def split: if_splits)
  note defs = is_nan_def f32_val_def f32_sign_def f32_abs_def f32_mag_def trunc_val_def
  show "\<not> is_nan lo" "\<not> is_nan hi" "\<not> is_nan thr" "f32_val lo = l * 2 ^ 149"
    "f32_val hi = int (f32_mag (unat hi))" "f32_val thr = int (f32_mag (Suc (unat hi)))"
    "f32_val thr = (h + 1) * 2 ^ 149" "int_max = word_of_int h" "trunc_val (f32_val hi) \<le> h" "0 \<le> f32_val hi"
    by (cases sgnd; simp add: c defs)+
qed

lemma cvt_value:
  assumes b: "cvt_bounds sgnd = (lo, hi, thr, int_max)" and r: "int_range sgnd = (l, h)"
  shows "\<not> is_nan (cvt_clamped sgnd x)" and "l \<le> f32_trunc (cvt_clamped sgnd x)" and "f32_trunc (cvt_clamped sgnd x) \<le> h"
    and "(if f32_le thr x then int_max else word_of_int (f32_trunc (cvt_clamped sgnd x))) = word_of_int (f32_sat l h x)"
proof -
  note v = cvt_bounds_values[OF b r]
  have lh: "l \<le> 0" "0 \<le> h" using r by (auto simp: int_range_def split: if_splits)
  let ?safe = "if f32_eq x x then x else 0"
  have s: "\<not> is_nan ?safe" "f32_val ?safe = (if is_nan x then 0 else f32_val x)"
    by (auto simp: f32_eq_def is_nan_def f32_val_def f32_abs_def)
  note mx = f32_max_val[OF s(1) v(1)] note mn = f32_min_val[OF conjunct2[OF mx] v(2)]
  have c: "cvt_clamped sgnd x = f32_min (f32_max ?safe lo) hi" by (simp add: cvt_clamped_def b)
  have cv: "f32_val (cvt_clamped sgnd x) = min (max (f32_val ?safe) (l * 2 ^ 149)) (f32_val hi)" using mn mx v(4) c by simp
  show "\<not> is_nan (cvt_clamped sgnd x)" using mn c by simp
  have "l * 2 ^ 149 \<le> 0" using lh(1) by (simp add: mult_nonpos_nonneg)
  then have lohi: "l * 2 ^ 149 \<le> f32_val hi" using v(10) by linarith
  have "trunc_val (l * 2 ^ 149) \<le> f32_trunc (cvt_clamped sgnd x)"
    unfolding f32_trunc_val cv using lohi by (intro trunc_val_mono) simp
  then show lo: "l \<le> f32_trunc (cvt_clamped sgnd x)" unfolding trunc_val_exact .
  have "f32_trunc (cvt_clamped sgnd x) \<le> trunc_val (f32_val hi)" unfolding f32_trunc_val cv by (intro trunc_val_mono) simp
  then show hi: "f32_trunc (cvt_clamped sgnd x) \<le> h" using v(9) by simp
  show "(if f32_le thr x then int_max else word_of_int (f32_trunc (cvt_clamped sgnd x))) = word_of_int (f32_sat l h x)"
  proof (cases "is_nan x")
    case True
    have "f32_val (cvt_clamped sgnd x) = 0" using cv s(2) True \<open>l * 2 ^ 149 \<le> 0\<close> v(10) by simp
    then have "f32_trunc (cvt_clamped sgnd x) = 0" by (simp add: f32_trunc_val trunc_val_def)
    then show ?thesis using True by (simp add: f32_le_def f32_sat_def)
  next
    case num: False
    show ?thesis
    proof (cases "f32_val thr \<le> f32_val x")
      case True
      then have "trunc_val ((h + 1) * 2 ^ 149) \<le> f32_trunc x" unfolding f32_trunc_val v(7) by (rule trunc_val_mono)
      then have "h < f32_trunc x" unfolding trunc_val_exact by simp
      then show ?thesis using True num v(3,8) lh by (simp add: f32_le_def f32_sat_def)
    next
      case False
      then have "f32_val x \<le> f32_val hi" using v(5,6) f32_val_gap[of x "unat hi"] by simp
      then have cx: "f32_val (cvt_clamped sgnd x) = max (f32_val x) (l * 2 ^ 149)" using cv s(2) num lohi by simp
      have "f32_trunc (cvt_clamped sgnd x) = max l (f32_trunc x)"
      proof (cases "l * 2 ^ 149 \<le> f32_val x")
        case True
        have "l \<le> f32_trunc x" using trunc_val_mono[OF True] unfolding trunc_val_exact f32_trunc_val .
        then show ?thesis using cx True by (simp add: f32_trunc_val)
      next
        case F: False
        then have "f32_trunc x \<le> l"
          using trunc_val_mono[of "f32_val x" "l * 2 ^ 149"] unfolding trunc_val_exact f32_trunc_val by simp
        moreover have "f32_trunc (cvt_clamped sgnd x) = l" using cx F trunc_val_exact[of l] by (simp add: f32_trunc_val)
        ultimately show ?thesis by simp
      qed
      then show ?thesis using False hi lh num by (simp add: f32_le_def f32_sat_def)
    qed
  qed
qed

lemma emit_convert_gives:
  assumes L: "spirv_laws F sp M" and C: "spirv_convert_laws sp M" and ok: "cache_ok M s"
    and u: "fst M (rc_b s) u = Some x" "\<not> is_nan x" and r: "int_range sgnd = (l, h)" "l \<le> f32_trunc x" "f32_trunc x \<le> h"
  shows "rgives M s (emit_convert sp s u sgnd) (word_of_int (f32_trunc x))"
proof (cases sgnd)
  case True
  then have "emits M (rc_b s) (sp_convert_f_to_s sp (rc_b s) u) (word_of_int (f32_trunc x))"
    using C u r by (simp add: spirv_convert_laws_def int_range_def)
  note i = on_builder_gives[where f = "\<lambda>b. sp_convert_f_to_s sp b u", OF ok this]
  show ?thesis unfolding emit_convert_def Let_def using True
    by simp (rule rgives_bind[OF i], rule on_builder_gives, erule grows_ok, erule spirv_lawsD(5)[OF L])
next
  case False
  then have "emits M (rc_b s) (sp_convert_f_to_u sp (rc_b s) u) (word_of_int (f32_trunc x))"
    using C u r by (simp add: spirv_convert_laws_def int_range_def)
  from on_builder_gives[where f = "\<lambda>b. sp_convert_f_to_u sp b u", OF ok this] False
  show ?thesis by (simp add: emit_convert_def)
qed

lemma ieee_compare [simp]:
  "fo_eq (ieee_ops sine th oh) = f32_eq" "fo_le (ieee_ops sine th oh) = f32_le"
  "fo_min (ieee_ops sine th oh) = f32_min" "fo_max (ieee_ops sine th oh) = f32_max"
  by (simp_all add: ieee_ops_def)

lemma emit_cvt_clamp_gives:
  assumes L: "spirv_laws (ieee_ops sine th oh) sp M" and ok: "cache_ok M s"
    and u: "fst M (rc_b s) u = Some x" and b: "cvt_bounds sgnd = (lo, hi, thr, mx)"
  shows "rgives M s (emit_cvt_clamp sp s u lo hi) (cvt_clamped sgnd x)"
proof -
  let ?safe = "if f32_eq x x then x else 0"
  note D = spirv_lawsD[OF L, unfolded ieee_compare]
  have c: "f32_min (f32_max ?safe lo) hi = cvt_clamped sgnd x" by (simp add: cvt_clamped_def b)
  obtain l h where "int_range sgnd = (l, h)" by fastforce
  note v = cvt_bounds_values[OF b this]
  have n: "\<not> is_nan ?safe" by (simp add: f32_eq_def is_nan_def f32_abs_def)
  note m = conjunct2[OF f32_max_val[OF n v(1)]]
  show ?thesis unfolding emit_cvt_clamp_def Let_def
    apply (rule rgives_bind_bool[where f = "\<lambda>b. sp_f_ord_eq sp b u u", OF ok D(13)[OF u u]])
    subgoal premises 1 for s1 isnum
      apply (rule rgives_bind[OF const_f32_gives[OF L grows_ok[OF 1(1)]]])
      subgoal premises 2 for s2 zero
        apply (rule rgives_bind[where x = ?safe])
         apply (rule on_builder_gives[OF grows_ok[OF 2(1)]])
         apply (rule D(14)[OF grows_bool[OF 2(1) 1(2)] grows_val[OF 2(1) grows_val[OF 1(1) u]] 2(2)])
        subgoal premises 3 for s3 safe
          apply (rule rgives_bind[OF const_f32_gives[OF L grows_ok[OF 3(1)]]])
          subgoal premises 4 for s4 l4
            apply (rule rgives_bind[OF const_f32_gives[OF L grows_ok[OF 4(1)]]])
            subgoal premises 5 for s5 h5
              apply (rule rgives_bind[where x = "f32_max ?safe lo"])
               apply (unfold glsl2_def, rule on_builder_gives[OF grows_ok[OF 5(1)]])
               apply (rule D(11)[OF grows_val[OF 5(1) grows_val[OF 4(1) 3(2)]] grows_val[OF 5(1) 4(2)] n v(1)])
              subgoal premises 6 for s6 c6
                by (rule on_builder_gives[OF grows_ok[OF 6(1)]]) (rule D(10)[OF 6(2) grows_val[OF 6(1) 5(2)] m v(2), unfolded c])
              done
            done
          done
        done
      done
    done
qed

lemma emit_cvt_gives:
  assumes L: "spirv_laws (ieee_ops sine th oh) sp M" and C: "spirv_convert_laws sp M" and ok: "cache_ok M s"
    and u: "fst M (rc_b s) u = Some x" and r: "int_range sgnd = (l, h)"
  shows "rgives M s (emit_cvt_f_to_int sp s u sgnd) (word_of_int (f32_sat l h x))"
proof -
  obtain lo hi thr mx where b: "cvt_bounds sgnd = (lo, hi, thr, mx)" by (metis prod_cases4)
  note V = cvt_value[OF b r, of x] and D = spirv_lawsD[OF L, unfolded ieee_compare]
  show ?thesis unfolding emit_cvt_f_to_int_def Let_def b prod.case
    apply (rule rgives_bind[OF emit_cvt_clamp_gives[OF L ok u b]])
    subgoal premises 7 for s7 c7
      apply (rule rgives_bind[OF emit_convert_gives[OF L C grows_ok[OF 7(1)] 7(2) V(1) r V(2,3)]])
      subgoal premises 8 for s8 c8
        apply (rule rgives_bind[OF const_f32_gives[OF L grows_ok[OF 8(1)]]])
        subgoal premises 9 for s9 t9
        proof -
          note u9 = grows_val[OF 9(1) grows_val[OF grows_trans[OF 7(1) 8(1)] u]]
          show ?thesis
          proof (rule rgives_bind_bool[where f = "\<lambda>b. sp_f_ord_ge sp b u t9", OF grows_ok[OF 9(1)] D(12)[OF u9 9(2)]])
            fix s10 ge assume 10: "grows M s9 s10" "snd M (rc_b s10) ge = Some (f32_le thr x)"
            show "rgives M s10 (case const_u32 sp s10 mx of (s, int_max) \<Rightarrow>
                on_builder (\<lambda>b. sp_select sp b ge int_max c8) s) (word_of_int (f32_sat l h x))"
            proof (rule rgives_bind[OF const_u32_gives[OF L grows_ok[OF 10(1)]]])
              fix s11 m11 assume 11: "grows M s10 s11" "fst M (rc_b s11) m11 = Some mx"
              have "grows M s8 s11" using 9(1) 10(1) 11(1) by (blast intro: grows_trans)
              from D(14)[OF grows_bool[OF 11(1) 10(2)] 11(2) grows_val[OF this 8(2)]]
              show "rgives M s11 (on_builder (\<lambda>b. sp_select sp b ge m11 c8) s11) (word_of_int (f32_sat l h x))"
                unfolding V(4) by (rule on_builder_gives[OF grows_ok[OF 11(1)]])
            qed
          qed
        qed
        done
      done
    done
qed

section \<open>Ranges\<close>

lemma f32_floor_le:
  assumes "is_finite x"
  shows "\<not> is_nan (f32_floor x) \<and> f32_val (f32_floor x) \<le> f32_val x"
proof -
  let ?v = "f32_val x" and ?m = "unat (f32_abs x)"
  let ?n = "?v div 2 ^ 149 * 2 ^ 149"
  have f: "f32_floor x = round_int (f32_sign x) ?n 1" using assms by (simp add: f32_floor_def is_nan_def is_inf_def)
  have n: "?n \<le> ?v" by (simp add: minus_mod_eq_div_mult[symmetric])
  have m: "\<bar>?v\<bar> = int (f32_mag ?m)" by (simp add: f32_val_def)
  have "sgn ?n * int (f32_mag (round_mag (nat \<bar>?n\<bar>) 1)) \<le> ?v"
  proof (cases "?n < 0")
    case True
    then have "?v < 0" by (simp add: mult_less_0_iff pos_imp_zdiv_neg_iff)
    then have "f32_mag ?m \<le> nat \<bar>?n\<bar>" using n True m by linarith
    then have "?m \<le> round_mag (nat \<bar>?n\<bar>) 1" using assms by (intro round_mag_ge) simp_all
    then have "int (f32_mag ?m) \<le> int (f32_mag (round_mag (nat \<bar>?n\<bar>) 1))" by simp
    then show ?thesis using True m \<open>?v < 0\<close> by (simp del: f32_mag_le)
  next
    case False
    then have "nat \<bar>?n\<bar> \<le> 1 * f32_mag ?m" using n m by linarith
    then have "round_mag (nat \<bar>?n\<bar>) 1 \<le> ?m" using assms by (intro round_mag_le) simp_all
    then have "int (f32_mag (round_mag (nat \<bar>?n\<bar>) 1)) \<le> ?v" using m n False by simp
    then show ?thesis using False n by (cases "?n = 0") (simp_all add: sgn_if)
  qed
  then show ?thesis unfolding f by (simp add: round_int_parts round_int_val)
qed

lemma f32_val_inf: "is_inf x \<Longrightarrow> f32_val x = (if f32_sign x then - (2 ^ 277) else 2 ^ 277)"
  by (simp add: f32_val_def is_inf_def f32_mag_def)

lemma f32_val_finite: "is_finite x \<Longrightarrow> f32_val x < 2 ^ 277"
proof -
  assume "is_finite x"
  then have "f32_mag (unat (f32_abs x)) < f32_mag f32_inf" by simp
  moreover have "f32_mag f32_inf = 2 ^ 277" by (simp add: f32_mag_def)
  ultimately have "int (f32_mag (unat (f32_abs x))) < 2 ^ 277" by (simp del: f32_mag_less)
  then show ?thesis unfolding f32_val_def by (simp split: if_splits)
qed

lemma fract_difference:
  assumes "is_finite x"
  shows "\<not> is_nan (f32_sub x (f32_floor x)) \<and> 0 \<le> f32_val (f32_sub x (f32_floor x))"
proof -
  note F = f32_floor_le[OF assms]
  have x: "\<not> is_nan x" "\<not> is_inf x" using assms by (simp_all add: is_nan_def is_inf_def)
  show ?thesis
  proof (cases "is_inf (f32_floor x)")
    case True
    then have "f32_val (f32_floor x) = - (2 ^ 277)"
      using f32_val_inf[OF True] F f32_val_finite[OF assms] by (auto split: if_splits)
    then show ?thesis using True x F by (simp add: f32_sub_def f32_add_def)
  next
    case False
    then have "f32_sub x (f32_floor x) =
        round_int (f32_sign x \<and> f32_sign (f32_neg (f32_floor x))) (f32_val x - f32_val (f32_floor x)) 1"
      using x F by (simp add: f32_sub_def f32_add_def)
    then show ?thesis using F by (simp add: round_int_parts round_int_val sgn_if)
  qed
qed

lemma f32_constants:
  "f32_val f32_one = 2 ^ 149" "f32_val f32_below_one < 2 ^ 149" "0 \<le> f32_val f32_below_one" "f32_val 0 = 0"
  "\<not> is_nan f32_one" "\<not> is_nan f32_below_one" "\<not> is_nan 0"
  by (simp_all add: f32_val_def f32_sign_def f32_abs_def f32_mag_def is_nan_def)

lemma ieee_fract: "fract_f32 (ieee_ops sine th oh) x =
    (let f = f32_sub x (f32_floor x) in if f32_le f32_one f then f32_below_one else f)"
  by (simp add: fract_f32_def ieee_ops_def)

lemma fract_range:
  assumes "is_finite x"
  shows "\<not> is_nan (fract_f32 (ieee_ops sine th oh) x) \<and> 0 \<le> f32_val (fract_f32 (ieee_ops sine th oh) x) \<and>
    f32_val (fract_f32 (ieee_ops sine th oh) x) < 2 ^ 149"
  using fract_difference[OF assms] f32_constants by (auto simp: ieee_fract Let_def f32_le_def)

section \<open>A builder on lists\<close>

text \<open>A builder that records each instruction's value; an id is the position of its instruction.\<close>

type_synonym spv_list = "(u32 + bool) list"

definition num_at :: "spv_list \<Rightarrow> spv_id \<rightharpoonup> u32" where
  "num_at b i = (if i < length b then (case b ! i of Inl x \<Rightarrow> Some x | Inr _ \<Rightarrow> None) else None)"

definition bool_at :: "spv_list \<Rightarrow> spv_id \<rightharpoonup> bool" where
  "bool_at b i = (if i < length b then (case b ! i of Inr x \<Rightarrow> Some x | Inl _ \<Rightarrow> None) else None)"

definition push :: "spv_list \<Rightarrow> u32 + bool \<Rightarrow> spv_list \<times> spv_id" where
  "push b v = (b @ [v], length b)"

definition list_spirv :: "f32_ops \<Rightarrow> spv_list spirv_ops" where
  "list_spirv F =
     (let at = (\<lambda>b i. the (num_at b i)) in
      \<lparr>sp_constant_f32 = \<lambda>b c. push b (Inl c), sp_constant_u32 = \<lambda>b c. push b (Inl c),
       sp_f_add = \<lambda>b u v. push b (Inl (fo_add F (at b u) (at b v))), sp_f_sub = \<lambda>b u v. push b (Inl (fo_sub F (at b u) (at b v))),
       sp_f_mul = \<lambda>b u v. push b (Inl (fo_mul F (at b u) (at b v))), sp_f_negate = \<lambda>b u. push b (Inl (f32_neg (at b u))),
       sp_ext_inst = \<lambda>b i us. push b (Inl (let x = at b (us ! 0) in
          if i = FABS then f32_abs x else if i = FRACT then fract_f32 F x else if i = FMIN then fo_min F x (at b (us ! 1))
          else if i = FMAX then fo_max F x (at b (us ! 1)) else fo_fma F x (at b (us ! 1)) (at b (us ! 2)))),
       sp_f_ord_ge = \<lambda>b u v. push b (Inr (fo_le F (at b v) (at b u))), sp_f_ord_eq = \<lambda>b u v. push b (Inr (fo_eq F (at b u) (at b v))),
       sp_select = \<lambda>b c u v. push b (Inl (if the (bool_at b c) then at b u else at b v)),
       sp_convert_f_to_s = \<lambda>b u. push b (Inl (word_of_int (f32_trunc (at b u)))),
       sp_convert_f_to_u = \<lambda>b u. push b (Inl (word_of_int (f32_trunc (at b u)))), sp_bitcast = \<lambda>b u. push b (Inl (at b u))\<rparr>)"

abbreviation list_meaning :: "spv_list meaning" where "list_meaning \<equiv> (num_at, bool_at)"

lemma push_emits: "emits list_meaning b (push b (Inl x)) x" "emits_bool list_meaning b (push b (Inr p)) p"
  by (auto simp: emits_def emits_bool_def keeps_def push_def num_at_def bool_at_def map_le_def nth_append dom_def)

lemma list_spirv_laws:
  assumes "\<not> fo_le F f32_one f32_below_one"
  shows "spirv_laws F (list_spirv F) list_meaning" and "spirv_convert_laws (list_spirv F) list_meaning"
    and "device_laws F (list_spirv F) list_meaning"
  using assms push_emits
  by (simp_all add: spirv_laws_def device_laws_def spirv_convert_laws_def list_spirv_def Let_def glsl_ops)

lemma ieee_one: "\<not> fo_le (ieee_ops sine th oh) f32_one f32_below_one"
  using f32_constants by (simp add: f32_le_def)

definition small_module :: "spv_list recompiler" where
  "small_module = \<lparr>rc_b = [Inl f32_one, Inl 0x40000000, Inl 0x40400000], rc_const_f32 = Map.empty, rc_const_u32 = Map.empty\<rparr>"

section \<open>Properties\<close>



text \<open>
  C18. The lowering of a float-to-integer conversion has the saturating semantics of the interpreter's
  \<^verbatim>\<open>as\<close> cast on every bit pattern, though the SPIR-V conversion itself is undefined outside the range of
  the type and a SPIR-V minimum of a NaN is either operand: a NaN gives zero, everything below or above the range gives its end, everything else is
  truncated towards zero.
\<close>

theorem cvt_lowering_saturates:
  assumes "spirv_laws (ieee_ops sine th oh) sp M" and "spirv_convert_laws sp M" and "cache_ok M s" and "id_val M s u = Some x"
  shows "gives (cache_ok M) (id_val M) s (emit_cvt_f_to_int sp s u True) (fo_to_i32 (ieee_ops sine th oh) x) \<and>
    gives (cache_ok M) (id_val M) s (emit_cvt_f_to_int sp s u False) (fo_to_u32 (ieee_ops sine th oh) x)"
  using rgives_gives[OF emit_cvt_gives[OF assms(1-3), of u x True]]
    rgives_gives[OF emit_cvt_gives[OF assms(1-3), of u x False]] assms(4)
  by (simp add: id_val_def int_range_def ieee_ops_def)

theorem cvt_lowering_saturates_witness:
  "\<exists>s' i. emit_cvt_f_to_int (list_spirv (ieee_ops id (\<lambda>_. 0) (\<lambda>_. 0))) small_module 2 True = (s', i) \<and>
     id_val list_meaning s' i = Some 3"
proof -
  let ?F = "ieee_ops id (\<lambda>_. 0) (\<lambda>_. 0)"
  have "cache_ok list_meaning small_module" "id_val list_meaning small_module 2 = Some 0x40400000"
    by (simp_all add: cache_ok_def id_val_def num_at_def small_module_def)
  from cvt_lowering_saturates[OF list_spirv_laws(1,2)[OF ieee_one] this]
  have "gives (cache_ok list_meaning) (id_val list_meaning) small_module (emit_cvt_f_to_int (list_spirv ?F) small_module 2 True)
    (fo_to_i32 ?F 0x40400000)" by blast
  moreover have "fo_to_i32 ?F 0x40400000 = 3"
    by (simp add: ieee_ops_def f32_sat_def is_nan_def f32_trunc_val trunc_val_def f32_val_def f32_sign_def f32_abs_def f32_mag_def)
  ultimately show ?thesis by (auto elim: givesE)
qed

text \<open>
  C19. The clamp modifier saturates: whatever the operands, the operation, the other modifiers and the
  rounding give, the result of an instruction with the modifier is a number between zero and one, and
  a NaN becomes zero. The fraction of a finite number is never negative and below one, also where the
  difference rounds up to one.
\<close>

theorem clamp_and_fract_range:
  fixes sine th oh x
  defines "F \<equiv> ieee_ops sine th oh"
  shows "(let r = snd (eval_vop3_chain (interp_alu F) () op a b c d abs_mask neg_mask omod True) in
       \<not> is_nan r \<and> 0 \<le> f32_val r \<and> f32_val r \<le> 2 ^ 149) \<and>
    (let r = snd (apply_clamp (interp_alu F) () x True) in
       f32_val r = (if is_nan x then 0 else max 0 (min (2 ^ 149) (f32_val x)))) \<and>
    (let r = snd (eval_vop3 (interp_alu F) () 0x1A0 x y z t) in
       if is_finite x then \<not> is_nan r \<and> 0 \<le> f32_val r \<and> f32_val r < 2 ^ 149 else is_nan r)"
proof -
  have cl: "snd (apply_clamp (interp_alu F) () x True) = f32_min (f32_max x 0) f32_one" for x
    by (simp add: apply_clamp_def interp_alu_def F_def)
  have r: "\<not> is_nan (f32_min (f32_max x 0) f32_one) \<and>
      f32_val (f32_min (f32_max x 0) f32_one) = (if is_nan x then 0 else max 0 (min (2 ^ 149) (f32_val x)))" for x
    using f32_constants by (auto simp: f32_min_def f32_max_def)
  have fr: "snd (eval_vop3 (interp_alu F) () 0x1A0 x y z t) = fract_f32 F x"
    by (simp add: eval_vop3_def interp_alu_def)
  have nn: "is_nan (fract_f32 F x)" if "\<not> is_finite x"
  proof -
    have "is_nan x \<or> is_inf x" using that by (auto simp: is_nan_def is_inf_def)
    moreover have "is_nan f32_nan" by (simp add: is_nan_def f32_abs_def)
    ultimately show ?thesis
      by (auto simp: F_def ieee_fract Let_def f32_sub_def f32_add_def f32_floor_def f32_le_def f32_neg_parts)
  qed
  show ?thesis
    using r fract_range[of x sine th oh] nn unfolding F_def[symmetric] Let_def fr cl
    by (auto simp: eval_vop3_chain_def case_prod_beta cl)
qed

end
