(* ===== verification/Surface_Tiling.thy ===== *)
theory Surface_Tiling
  imports Rust_Prelude
begin

unbundle bit_operations_syntax

text \<open>
  Surface tiling: \<^verbatim>\<open>crates/core/src/tiling.rs\<close> (the address arithmetic, shared by the upload path
  and the interpreter's sampler) and \<^verbatim>\<open>crates/gnm/src/cache/tile.rs\<close> (detiling a guest surface and
  tiling it back). The arithmetic keeps the widths of the source: texel indices wrap at 32 bits,
  byte offsets at 64. The copies of the source panic out of range; here that is the outer \<open>None\<close>.
\<close>

section \<open>Addresses\<close>

definition MICRO_TILE_DIM :: u32 where "MICRO_TILE_DIM = 8"

definition MICRO_TILE_TEXELS :: u32 where "MICRO_TILE_TEXELS = MICRO_TILE_DIM * MICRO_TILE_DIM"

definition bit_at :: "u32 \<Rightarrow> nat \<Rightarrow> u32" where
  "bit_at v b = drop_bit b v AND 1"

definition micro_tile_index :: "u32 \<Rightarrow> u32 \<Rightarrow> u32" where
  "micro_tile_index x y =
     (let x = x AND (MICRO_TILE_DIM - 1); y = y AND (MICRO_TILE_DIM - 1)
      in bit_at x 0 OR push_bit 1 (bit_at y 0) OR push_bit 2 (bit_at x 1) OR push_bit 3 (bit_at y 1)
         OR push_bit 4 (bit_at x 2) OR push_bit 5 (bit_at y 2))"

definition div_ceil :: "u32 \<Rightarrow> u32 \<Rightarrow> u32" where
  "div_ceil a b = (if a mod b > 0 then a div b + 1 else a div b)"

definition thin1d_texel_offset :: "u32 \<Rightarrow> u32 \<Rightarrow> u32 \<Rightarrow> u64 \<Rightarrow> u64" where
  "thin1d_texel_offset x y width bytes =
     (let tiles_per_row = div_ceil width MICRO_TILE_DIM;
          tile_x = x div MICRO_TILE_DIM;
          tile_y = y div MICRO_TILE_DIM;
          tile_index = tile_y * tiles_per_row + tile_x;
          within = micro_tile_index x y
      in ucast (tile_index * MICRO_TILE_TEXELS + within) * bytes)"

definition LINEAR_ALIGNED_PITCH_TEXELS :: u32 where "LINEAR_ALIGNED_PITCH_TEXELS = 64"

datatype tile_kind = TkLinear | TkThin1d | TkLinearAligned | TkMacro2d

definition linear_aligned_pitch :: "u32 \<Rightarrow> u32" where
  "linear_aligned_pitch width = next_multiple_of width LINEAR_ALIGNED_PITCH_TEXELS"

definition linear_aligned_pitch_or :: "u32 \<Rightarrow> u32 \<Rightarrow> u32" where
  "linear_aligned_pitch_or width decoded_pitch =
     (if decoded_pitch \<ge> width then decoded_pitch else linear_aligned_pitch width)"

definition linear_aligned_texel_offset :: "u32 \<Rightarrow> u32 \<Rightarrow> u32 \<Rightarrow> u64 \<Rightarrow> u64" where
  "linear_aligned_texel_offset x y pitch bytes = (ucast y * ucast pitch + ucast x) * bytes"

definition tile_kind_of :: "u8 \<Rightarrow> tile_kind" where
  "tile_kind_of i =
     (if i = 0 then TkLinear else if 1 \<le> i \<and> i \<le> 7 then TkThin1d else if i = 8 then TkLinearAligned
      else TkMacro2d)"

section \<open>Surfaces\<close>

datatype texel_size = Bpp32 | Bpp64

fun texel_bytes :: "texel_size \<Rightarrow> u64" where
  "texel_bytes Bpp32 = 4"
| "texel_bytes Bpp64 = 8"

datatype tiling = LinearGeneral | LinearAligned | Thin1d

definition is_linear :: "tiling \<Rightarrow> bool" where "is_linear t \<longleftrightarrow> t = LinearGeneral"

datatype compression = Off

record extent =
  width :: u32
  height :: u32

record surface_layout =
  texel :: texel_size
  sl_extent :: extent
  sl_tiling :: tiling
  sl_compression :: compression
  sl_pitch :: u32

definition aligned_pitch :: "surface_layout \<Rightarrow> u32" where
  "aligned_pitch l = linear_aligned_pitch_or (width (sl_extent l)) (sl_pitch l)"

definition linear_size :: "surface_layout \<Rightarrow> u64" where
  "linear_size l = ucast (width (sl_extent l)) * ucast (height (sl_extent l)) * texel_bytes (texel l)"

definition is_zero_copy_eligible :: "surface_layout \<Rightarrow> bool" where
  "is_zero_copy_eligible l \<longleftrightarrow> is_linear (sl_tiling l) \<and> sl_compression l = Off"

definition thin1d_tiled_size :: "surface_layout \<Rightarrow> u64" where
  "thin1d_tiled_size l =
     (let tiles_x = div_ceil (width (sl_extent l)) MICRO_TILE_DIM;
          tiles_y = div_ceil (height (sl_extent l)) MICRO_TILE_DIM
      in ucast (tiles_x * tiles_y * MICRO_TILE_TEXELS) * texel_bytes (texel l))"

definition linear_aligned_tiled_size :: "surface_layout \<Rightarrow> u64" where
  "linear_aligned_tiled_size l =
     ucast (aligned_pitch l) * ucast (height (sl_extent l)) * texel_bytes (texel l)"

datatype tile_error = ShortBuffer nat nat

text \<open>
  A run of \<^verbatim>\<open>dst[d..d + n].copy_from_slice(&src[s..s + n])\<close> over a list of pairs \<open>(d, s)\<close>; a pair out of
  range is a panic.
\<close>

fun copy_all :: "nat \<Rightarrow> (nat \<times> nat) list \<Rightarrow> u8 list \<Rightarrow> u8 list \<Rightarrow> u8 list option" where
  "copy_all n [] src dst = Some dst"
| "copy_all n ((d, s) # ps) src dst =
     (if d + n \<le> length dst \<and> s + n \<le> length src
      then copy_all n ps src (take d dst @ take n (drop s src) @ drop (d + n) dst)
      else None)"

text \<open>The pairs of the loops: linear position and position in the surface, in the loop's order.\<close>

definition aligned_pairs :: "surface_layout \<Rightarrow> (nat \<times> nat) list" where
  "aligned_pairs l =
     (let bytes = texel_bytes (texel l); pitch = aligned_pitch l;
          row_bytes = ucast (width (sl_extent l)) * bytes
      in map (\<lambda>y. (unat (of_nat y * row_bytes), unat (linear_aligned_texel_offset 0 (of_nat y) pitch bytes)))
           [0..<unat (height (sl_extent l))])"

definition thin1d_pairs :: "surface_layout \<Rightarrow> (nat \<times> nat) list" where
  "thin1d_pairs l =
     (let bytes = texel_bytes (texel l); w = width (sl_extent l); h = height (sl_extent l)
      in concat (map (\<lambda>y. map (\<lambda>x.
           (unat ((of_nat y * ucast w + of_nat x) * bytes), unat (thin1d_texel_offset (of_nat x) (of_nat y) w bytes)))
           [0..<unat w]) [0..<unat h]))"

definition row_bytes :: "surface_layout \<Rightarrow> nat" where
  "row_bytes l = unat (ucast (width (sl_extent l)) * texel_bytes (texel l))"

definition detile :: "u8 list \<Rightarrow> surface_layout \<Rightarrow> (tile_error + u8 list) option" where
  "detile tiled l =
     (case sl_tiling l of
        LinearGeneral \<Rightarrow>
          (let need = unat (linear_size l)
           in if length tiled < need then Some (Inl (ShortBuffer (length tiled) need))
              else Some (Inr (take need tiled)))
      | LinearAligned \<Rightarrow>
          (let need = unat (linear_aligned_tiled_size l)
           in if length tiled < need then Some (Inl (ShortBuffer (length tiled) need))
              else map_option Inr
                (copy_all (row_bytes l) (aligned_pairs l) tiled (replicate (unat (linear_size l)) 0)))
      | Thin1d \<Rightarrow>
          (let need = unat (thin1d_tiled_size l)
           in if length tiled < need then Some (Inl (ShortBuffer (length tiled) need))
              else map_option Inr
                (copy_all (unat (texel_bytes (texel l))) (thin1d_pairs l) tiled
                   (replicate (unat (linear_size l)) 0))))"

definition tile :: "u8 list \<Rightarrow> surface_layout \<Rightarrow> (tile_error + u8 list) option" where
  "tile linear l =
     (let need = unat (linear_size l)
      in if length linear < need then Some (Inl (ShortBuffer (length linear) need))
         else
           (case sl_tiling l of
              LinearGeneral \<Rightarrow> Some (Inr (take need linear))
            | LinearAligned \<Rightarrow>
                map_option Inr
                  (copy_all (row_bytes l) (map prod.swap (aligned_pairs l)) linear
                     (replicate (unat (linear_aligned_tiled_size l)) 0))
            | Thin1d \<Rightarrow>
                map_option Inr
                  (copy_all (unat (texel_bytes (texel l))) (map prod.swap (thin1d_pairs l)) linear
                     (replicate (unat (thin1d_tiled_size l)) 0))))"

section \<open>Image descriptors\<close>

text \<open>
  The image descriptor as the upload path decodes it (\<^verbatim>\<open>crates/gnm/src/vbuf.rs\<close>) and as the
  interpreter's sampler does (\<^verbatim>\<open>crates/gcn/src/interp.rs\<close>), from the five words both read.
\<close>

record texture_desc =
  td_base :: u64
  td_width :: u32
  td_height :: u32
  td_dfmt :: u8
  td_nfmt :: u8
  td_tiling_index :: u8
  td_pitch :: u32

definition is_null :: "texture_desc \<Rightarrow> bool" where
  "is_null t \<longleftrightarrow> td_base t = 0 \<or> td_width t = 0 \<or> td_height t = 0"

definition saturating_mul :: "u64 \<Rightarrow> u64 \<Rightarrow> u64" where
  "saturating_mul a b = (if unat a * unat b < 2 ^ 64 then a * b else - 1)"

definition byte_span :: "texture_desc \<Rightarrow> u64" where
  "byte_span t =
     (case tile_kind_of (td_tiling_index t) of
        TkLinear \<Rightarrow> saturating_mul (saturating_mul (ucast (td_width t)) (ucast (td_height t))) 4
      | TkLinearAligned \<Rightarrow>
          saturating_mul
            (saturating_mul (ucast (linear_aligned_pitch_or (td_width t) (td_pitch t))) (ucast (td_height t))) 4
      | _ \<Rightarrow>
          (let tiles_w = ucast (div_ceil (td_width t) 8); tiles_h = ucast (div_ceil (td_height t) 8)
           in saturating_mul (saturating_mul (saturating_mul tiles_w tiles_h) 64) 4))"

definition decode_t_sharp :: "u32 \<Rightarrow> u32 \<Rightarrow> u32 \<Rightarrow> u32 \<Rightarrow> u32 \<Rightarrow> texture_desc" where
  "decode_t_sharp w0 w1 w2 w3 w4 =
     (let raw_pitch = drop_bit 13 w4 AND 0x3FFF;
          pitch = (if raw_pitch = 0 then 0 else raw_pitch + 1)
      in \<lparr>td_base = push_bit 8 (ucast w0) OR push_bit 40 (ucast (w1 AND 0xFF)),
          td_width = (w2 AND 0x3FFF) + 1,
          td_height = (drop_bit 14 w2 AND 0x3FFF) + 1,
          td_dfmt = ucast (drop_bit 20 w1 AND 0x3F),
          td_nfmt = ucast (drop_bit 26 w1 AND 0xF),
          td_tiling_index = ucast (drop_bit 20 w3 AND 0x1F),
          td_pitch = pitch\<rparr>)"

definition texture_surface_layout :: "texture_desc \<Rightarrow> surface_layout" where
  "texture_surface_layout t =
     \<lparr>texel = Bpp32, sl_extent = \<lparr>width = td_width t, height = td_height t\<rparr>,
      sl_tiling = (case tile_kind_of (td_tiling_index t) of
          TkLinear \<Rightarrow> LinearGeneral | TkThin1d \<Rightarrow> Thin1d | TkLinearAligned \<Rightarrow> LinearAligned | TkMacro2d \<Rightarrow> LinearGeneral),
      sl_compression = Off, sl_pitch = td_pitch t\<rparr>"

record tsharp =
  ts_base :: u64
  ts_width :: u64
  ts_height :: u64
  ts_tiling_index :: u8
  ts_pitch :: u32

definition interp_t_sharp :: "u32 \<Rightarrow> u32 \<Rightarrow> u32 \<Rightarrow> u32 \<Rightarrow> u32 \<Rightarrow> tsharp" where
  "interp_t_sharp w0 w1 w2 w3 w4 =
     \<lparr>ts_base = push_bit 8 (ucast w0) OR push_bit 40 (ucast (w1 AND 0xFF)),
      ts_width = ucast ((w2 AND 0x3FFF) + 1),
      ts_height = ucast ((drop_bit 14 w2 AND 0x3FFF) + 1),
      ts_tiling_index = ucast (drop_bit 20 w3 AND 0x1F),
      ts_pitch = (drop_bit 13 w4 AND 0x3FFF) + 1\<rparr>"

text \<open>
  The offset \<^verbatim>\<open>texel\<close> reads at, with repeat addressing; \<open>None\<close> is the unsupported-tiling error. The
  extents are positive and below $2^{63}$, so \<^verbatim>\<open>rem_euclid\<close> is the integers' \<open>mod\<close>.
\<close>

definition sampler_offset :: "tsharp \<Rightarrow> int \<Rightarrow> int \<Rightarrow> u64 option" where
  "sampler_offset t x y =
     (let xx = word_of_int (x mod uint (ts_width t)) :: u32;
          yy = word_of_int (y mod uint (ts_height t)) :: u32
      in case tile_kind_of (ts_tiling_index t) of
           TkLinear \<Rightarrow> Some ((ucast yy * ts_width t + ucast xx) * 4)
         | TkLinearAligned \<Rightarrow>
             Some (linear_aligned_texel_offset xx yy (linear_aligned_pitch_or (ucast (ts_width t)) (ts_pitch t)) 4)
         | TkThin1d \<Rightarrow> Some (thin1d_texel_offset xx yy (ucast (ts_width t)) 4)
         | TkMacro2d \<Rightarrow> None)"

section \<open>Runs of copies\<close>

lemma copy_all_range:
  assumes "\<forall>(d, s) \<in> set ps. d + n \<le> length dst \<and> s + n \<le> length src"
  obtains r where "copy_all n ps src dst = Some r" "length r = length dst"
proof -
  have "\<exists>r. copy_all n ps src dst = Some r \<and> length r = length dst"
    using assms
  proof (induction ps arbitrary: dst)
    case (Cons p ps)
    obtain d s where p: "p = (d, s)" by (cases p)
    let ?d = "take d dst @ take n (drop s src) @ drop (d + n) dst"
    have "length ?d = length dst" using Cons.prems p by auto
    then show ?case using Cons.IH[of ?d] Cons.prems by (auto simp: p)
  qed simp
  then show ?thesis using that by blast
qed

lemma copy_all_content:
  assumes "copy_all n ps src dst = Some r"
    and "sorted_wrt (\<lambda>p q. fst p + n \<le> fst q \<or> fst q + n \<le> fst p) ps"
  shows "\<forall>(d, s) \<in> set ps. \<forall>i < n. r ! (d + i) = src ! (s + i)"
    and "\<forall>k. (\<forall>(d, s) \<in> set ps. \<not> (d \<le> k \<and> k < d + n)) \<longrightarrow> r ! k = dst ! k"
proof -
  have "(\<forall>(d, s) \<in> set ps. \<forall>i < n. r ! (d + i) = src ! (s + i))
    \<and> (\<forall>k. (\<forall>(d, s) \<in> set ps. \<not> (d \<le> k \<and> k < d + n)) \<longrightarrow> r ! k = dst ! k)"
    using assms
  proof (induction ps arbitrary: dst)
    case (Cons p ps)
    obtain d s where p: "p = (d, s)" by (cases p)
    let ?d = "take d dst @ take n (drop s src) @ drop (d + n) dst"
    have rng: "d + n \<le> length dst" "s + n \<le> length src" and c: "copy_all n ps src ?d = Some r"
      using Cons.prems(1) by (auto simp: p split: if_splits)
    have apart: "\<forall>(d', s') \<in> set ps. d + n \<le> d' \<or> d' + n \<le> d" using Cons.prems(2) by (auto simp: p)
    note ih = Cons.IH[OF c]
    have mins: "min (length dst) d = d" "min (length src - s) n = n" using rng by linarith+
    have in_chunk: "?d ! (d + i) = src ! (s + i)" if "i < n" for i
      using that rng by (simp add: nth_append mins)
    have outside: "?d ! k = dst ! k" if "\<not> (d \<le> k \<and> k < d + n)" for k
    proof (cases "k < d")
      case False
      then have "d + n \<le> k" using that by linarith
      then show ?thesis using rng by (auto simp: nth_append mins)
    qed (use rng in \<open>simp add: nth_append mins\<close>)
    have srt: "sorted_wrt (\<lambda>p q. fst p + n \<le> fst q \<or> fst q + n \<le> fst p) ps" using Cons.prems(2) by (simp add: p)
    have keep: "r ! k = ?d ! k" if "\<forall>(d', s') \<in> set ps. \<not> (d' \<le> k \<and> k < d' + n)" for k
      using ih[OF srt] that by blast
    have "r ! (d + i) = src ! (s + i)" if "i < n" for i
    proof -
      have "\<forall>(d', s') \<in> set ps. \<not> (d' \<le> d + i \<and> d + i < d' + n)" using apart that by fastforce
      from keep[OF this] show ?thesis using in_chunk[OF that] by simp
    qed
    moreover have "r ! k = dst ! k" if "\<forall>(d', s') \<in> set (p # ps). \<not> (d' \<le> k \<and> k < d' + n)" for k
      using keep[of k] outside[of k] that by (simp add: p)
    ultimately show ?case using ih[OF srt] by (simp add: p)
  qed simp
  then show "\<forall>(d, s) \<in> set ps. \<forall>i < n. r ! (d + i) = src ! (s + i)"
    and "\<forall>k. (\<forall>(d, s) \<in> set ps. \<not> (d \<le> k \<and> k < d + n)) \<longrightarrow> r ! k = dst ! k"
    by blast+
qed

text \<open>
  The interface of a surface order: \<open>count\<close> chunks of equal length, chunk \<open>i\<close> of the linear image at
  \<open>pos i\<close> of the surface, inside it and apart from every other chunk.
\<close>

definition chunk_pairs :: "nat \<Rightarrow> nat \<Rightarrow> (nat \<Rightarrow> nat) \<Rightarrow> (nat \<times> nat) list" where
  "chunk_pairs n count pos = map (\<lambda>i. (i * n, pos i)) [0..<count]"

lemma chunk_apart: "i < j \<Longrightarrow> i * n + n \<le> j * n" for i j n :: nat
  using mult_le_mono1[of "Suc i" j n] by simp

lemma chunk_bound: "i < count \<Longrightarrow> i * n + n \<le> count * n" for i count n :: nat
  using mult_le_mono1[of "Suc i" count n] by simp

lemma chunk_nth_eqI:
  assumes "length r = count * n" "count * n \<le> length b"
    and "\<And>i j. i < count \<Longrightarrow> j < n \<Longrightarrow> r ! (i * n + j) = b ! (i * n + j)"
  shows "r = take (count * n) b"
proof (rule nth_equalityI)
  fix k assume "k < length r"
  then have k: "k < count * n" using assms(1) by simp
  then have "0 < n" by (cases n) auto
  then have "k div n < count" "k mod n < n" using k by (auto simp: less_mult_imp_div_less)
  from assms(3)[OF this] show "r ! k = take (count * n) b ! k" using k by simp
qed (use assms in simp)

locale surface_order =
  fixes ok :: "surface_layout \<Rightarrow> bool" and count :: "surface_layout \<Rightarrow> nat" and chunk :: "surface_layout \<Rightarrow> nat"
    and size :: "surface_layout \<Rightarrow> nat" and pos :: "surface_layout \<Rightarrow> nat \<Rightarrow> nat"
  assumes in_size: "ok l \<Longrightarrow> i < count l \<Longrightarrow> pos l i + chunk l \<le> size l"
    and apart: "ok l \<Longrightarrow> i < j \<Longrightarrow> j < count l \<Longrightarrow> pos l i + chunk l \<le> pos l j \<or> pos l j + chunk l \<le> pos l i"
begin

lemma gather:
  assumes ok: "ok l" and len: "size l \<le> length t"
  obtains r where "copy_all (chunk l) (chunk_pairs (chunk l) (count l) (pos l)) t (replicate (count l * chunk l) 0) = Some r"
    "length r = count l * chunk l"
    "\<And>i j. i < count l \<Longrightarrow> j < chunk l \<Longrightarrow> r ! (i * chunk l + j) = t ! (pos l i + j)"
proof -
  let ?ps = "chunk_pairs (chunk l) (count l) (pos l)"
  have "pos l i + chunk l \<le> length t" if "i < count l" for i using in_size[OF ok that] len by linarith
  moreover have "i * chunk l + chunk l \<le> count l * chunk l" if "i < count l" for i using that by (rule chunk_bound)
  ultimately have "\<forall>(d, s) \<in> set ?ps. d + chunk l \<le> length (replicate (count l * chunk l) (0 :: u8)) \<and> s + chunk l \<le> length t"
    by (auto simp: chunk_pairs_def)
  then obtain r where r: "copy_all (chunk l) ?ps t (replicate (count l * chunk l) 0) = Some r"
    "length r = length (replicate (count l * chunk l) (0 :: u8))"
    by (rule copy_all_range)
  have "sorted_wrt (\<lambda>p q. fst p + chunk l \<le> fst q \<or> fst q + chunk l \<le> fst p) ?ps"
    by (auto simp: chunk_pairs_def sorted_wrt_iff_nth_less dest: chunk_apart)
  note c = copy_all_content(1)[OF r(1) this]
  have "r ! (i * chunk l + j) = t ! (pos l i + j)" if "i < count l" "j < chunk l" for i j
  proof -
    have "(i * chunk l, pos l i) \<in> set ?ps" using that(1) by (auto simp: chunk_pairs_def)
    from bspec[OF c this] show ?thesis using that(2) by simp
  qed
  then show ?thesis using r that by simp
qed

lemma scatter:
  assumes ok: "ok l" and len: "count l * chunk l \<le> length b"
  obtains r where
    "copy_all (chunk l) (map prod.swap (chunk_pairs (chunk l) (count l) (pos l))) b (replicate (size l) 0) = Some r"
    "length r = size l"
    "\<And>i j. i < count l \<Longrightarrow> j < chunk l \<Longrightarrow> r ! (pos l i + j) = b ! (i * chunk l + j)"
    "\<And>k. (\<And>i. i < count l \<Longrightarrow> \<not> (pos l i \<le> k \<and> k < pos l i + chunk l)) \<Longrightarrow> k < size l \<Longrightarrow> r ! k = 0"
proof -
  let ?ps = "map prod.swap (chunk_pairs (chunk l) (count l) (pos l))"
  have "i * chunk l + chunk l \<le> length b" if "i < count l" for i using chunk_bound[OF that, of "chunk l"] len by linarith
  then have "\<forall>(d, s) \<in> set ?ps. d + chunk l \<le> length (replicate (size l) (0 :: u8)) \<and> s + chunk l \<le> length b"
    using in_size[OF ok] by (auto simp: chunk_pairs_def)
  then obtain r where r: "copy_all (chunk l) ?ps b (replicate (size l) 0) = Some r"
    "length r = length (replicate (size l) (0 :: u8))"
    by (rule copy_all_range)
  have srt: "sorted_wrt (\<lambda>p q. fst p + chunk l \<le> fst q \<or> fst q + chunk l \<le> fst p) ?ps"
    using apart[OF ok] by (auto simp: chunk_pairs_def sorted_wrt_iff_nth_less)
  have "r ! (pos l i + j) = b ! (i * chunk l + j)" if "i < count l" "j < chunk l" for i j
  proof -
    have "(pos l i, i * chunk l) \<in> set ?ps" using that(1) by (auto simp: chunk_pairs_def image_image)
    from bspec[OF copy_all_content(1)[OF r(1) srt] this] show ?thesis using that(2) by simp
  qed
  moreover have "r ! k = 0" if "\<And>i. i < count l \<Longrightarrow> \<not> (pos l i \<le> k \<and> k < pos l i + chunk l)" "k < size l" for k
  proof -
    have "\<forall>(d, s) \<in> set ?ps. \<not> (d \<le> k \<and> k < d + chunk l)" using that(1) by (auto simp: chunk_pairs_def)
    then have "r ! k = replicate (size l) 0 ! k" using copy_all_content(2)[OF r(1) srt] by blast
    then show ?thesis using that(2) by simp
  qed
  ultimately show ?thesis using r that by simp
qed

lemma roundtrip:
  assumes ok: "ok l" and len: "count l * chunk l \<le> length b"
  shows "\<exists>t. copy_all (chunk l) (map prod.swap (chunk_pairs (chunk l) (count l) (pos l))) b (replicate (size l) 0) = Some t
    \<and> length t = size l
    \<and> copy_all (chunk l) (chunk_pairs (chunk l) (count l) (pos l)) t (replicate (count l * chunk l) 0)
        = Some (take (count l * chunk l) b)"
proof -
  obtain t where t: "copy_all (chunk l) (map prod.swap (chunk_pairs (chunk l) (count l) (pos l))) b (replicate (size l) 0) = Some t"
    "length t = size l" "\<And>i j. i < count l \<Longrightarrow> j < chunk l \<Longrightarrow> t ! (pos l i + j) = b ! (i * chunk l + j)"
    using scatter[OF ok len] by metis
  obtain r where r: "copy_all (chunk l) (chunk_pairs (chunk l) (count l) (pos l)) t (replicate (count l * chunk l) 0) = Some r"
    "length r = count l * chunk l" "\<And>i j. i < count l \<Longrightarrow> j < chunk l \<Longrightarrow> r ! (i * chunk l + j) = t ! (pos l i + j)"
    using gather[OF ok] t(2) by (metis order_refl)
  have "r = take (count l * chunk l) b" using r t len by (intro chunk_nth_eqI) auto
  then show ?thesis using t r by blast
qed

end

section \<open>The micro-tile\<close>

text \<open>The position of a texel in its tile, and back: the bits of the two coordinates interleave.\<close>

definition mt :: "nat \<Rightarrow> nat \<Rightarrow> nat" where
  "mt a b = a mod 2 + 2 * (b mod 2) + 4 * (a div 2 mod 2) + 8 * (b div 2 mod 2) + 16 * (a div 4) + 32 * (b div 4)"

definition mt_x :: "nat \<Rightarrow> nat" where "mt_x k = k mod 2 + 2 * (k div 4 mod 2) + 4 * (k div 16 mod 2)"

definition mt_y :: "nat \<Rightarrow> nat" where "mt_y k = mt_x (k div 2)"

lemma mt_table: "list_all (\<lambda>a. list_all (\<lambda>b. mt a b < 64 \<and> mt_x (mt a b) = a \<and> mt_y (mt a b) = b
    \<and> unat (micro_tile_index (of_nat a) (of_nat b)) = mt a b) [0..<8]) [0..<8]"
  by code_simp

lemma mt_facts:
  assumes "a < 8" "b < 8"
  shows "mt a b < 64" "mt_x (mt a b) = a" "mt_y (mt a b) = b" "unat (micro_tile_index (of_nat a) (of_nat b)) = mt a b"
  using mt_table assms by (auto simp: list_all_iff simp del: upt_Suc)

lemma micro_tile_index_mod: "micro_tile_index x y = micro_tile_index (of_nat (unat x mod 8)) (of_nat (unat y mod 8))"
proof -
  have "z AND 7 = of_nat (unat z mod 8) AND 7" for z :: u32
  proof -
    have t: "w AND 7 = take_bit 3 w" for w :: u32 by (simp add: take_bit_eq_mask mask_eq_exp_minus_1)
    have "unat (take_bit 3 z) = take_bit 3 (unat z)" by (simp add: unsigned_take_bit_eq)
    also have "\<dots> = unat z mod 8" by (simp add: take_bit_eq_mod)
    finally have "of_nat (unat z mod 8) = take_bit 3 z" by (metis of_nat_unat ucast_id)
    then show ?thesis by (simp add: t)
  qed
  then show ?thesis by (simp add: micro_tile_index_def MICRO_TILE_DIM_def)
qed

lemma micro_tile_index_unat: "unat (micro_tile_index x y) = mt (unat x mod 8) (unat y mod 8)"
  unfolding micro_tile_index_mod[of x y] by (rule mt_facts(4)) simp_all

section \<open>The orders of the tile modes\<close>

abbreviation lw :: "surface_layout \<Rightarrow> nat" where "lw l \<equiv> unat (width (sl_extent l))"
abbreviation lh :: "surface_layout \<Rightarrow> nat" where "lh l \<equiv> unat (height (sl_extent l))"
abbreviation lb :: "surface_layout \<Rightarrow> nat" where "lb l \<equiv> unat (texel_bytes (texel l))"

lemma lb_cases: "lb l = 4 \<or> lb l = 8"
  by (cases "texel l") simp_all

lemma unat_ucast_u32_u64 [simp]: "unat (ucast (w :: u32) :: u64) = unat w"
  using u32_bound[of w] by (simp add: unsigned_ucast_eq) (simp add: take_bit_eq_mod)

definition tiles :: "nat \<Rightarrow> nat" where "tiles w = (w + 7) div 8"

lemma unat_div_ceil_8: "unat (div_ceil w MICRO_TILE_DIM) = tiles (unat w)"
proof -
  have m: "0 < w mod 8 \<longleftrightarrow> unat w mod 8 \<noteq> 0"
    by (simp add: word_less_nat_alt unat_mod)
  have "unat (w div 8 + 1) = unat w div 8 + 1"
  proof (subst unat_add_nowrap)
    show "unat (w div 8) + unat (1 :: u32) < 2 ^ LENGTH(32)" using u32_bound[of w] by (simp add: unat_div)
  qed (simp add: unat_div)
  moreover have "(n + 7) div 8 = (if n mod 8 = 0 then n div 8 else n div 8 + 1)" for n :: nat by presburger
  ultimately show ?thesis
    by (simp add: div_ceil_def MICRO_TILE_DIM_def tiles_def m unat_div)
qed

definition thin_index :: "nat \<Rightarrow> nat \<Rightarrow> nat \<Rightarrow> nat" where
  "thin_index w x y = (y div 8 * tiles w + x div 8) * 64 + mt (x mod 8) (y mod 8)"

lemma tiles_div: "x < w \<Longrightarrow> x div 8 < tiles w"
  using div_le_mono[of "x + 8" "w + 7" 8] by (simp add: tiles_def)

lemma divmod_64: "m < 64 \<Longrightarrow> (q * 64 + m) div 64 = q \<and> (q * 64 + m) mod 64 = m" for q m :: nat
  by auto

lemma thin_index_less:
  assumes "x < w" "y < h"
  shows "thin_index w x y < tiles w * tiles h * 64"
proof -
  have "y div 8 * tiles w + x div 8 < y div 8 * tiles w + tiles w" using tiles_div[OF assms(1)] by simp
  also have "\<dots> = Suc (y div 8) * tiles w" by simp
  also have "\<dots> \<le> tiles h * tiles w" using tiles_div[OF assms(2)] by (intro mult_le_mono1) simp
  finally have "Suc (y div 8 * tiles w + x div 8) \<le> tiles w * tiles h" by (simp add: mult.commute)
  then have "Suc (y div 8 * tiles w + x div 8) * 64 \<le> tiles w * tiles h * 64" by (rule mult_le_mono1)
  moreover have "mt (x mod 8) (y mod 8) < 64" by (rule mt_facts) simp_all
  ultimately show ?thesis by (simp add: thin_index_def)
qed

lemma thin_index_inj:
  assumes "x < w" "x' < w" "thin_index w x y = thin_index w x' y'"
  shows "x = x' \<and> y = y'"
proof -
  have m: "mt (x mod 8) (y mod 8) < 64" "mt (x' mod 8) (y' mod 8) < 64" by (simp_all add: mt_facts)
  have "thin_index w x y div 64 = y div 8 * tiles w + x div 8" "thin_index w x y mod 64 = mt (x mod 8) (y mod 8)"
    "thin_index w x' y' div 64 = y' div 8 * tiles w + x' div 8" "thin_index w x' y' mod 64 = mt (x' mod 8) (y' mod 8)"
    unfolding thin_index_def using divmod_64[OF m(1)] divmod_64[OF m(2)] by blast+
  then have t: "y div 8 * tiles w + x div 8 = y' div 8 * tiles w + x' div 8"
    and i: "mt (x mod 8) (y mod 8) = mt (x' mod 8) (y' mod 8)" using assms(3) by simp_all
  have "x mod 8 = x' mod 8" "y mod 8 = y' mod 8"
    using mt_facts(2,3)[of "x mod 8" "y mod 8"] mt_facts(2,3)[of "x' mod 8" "y' mod 8"] i by simp_all
  moreover have d: "x div 8 < tiles w" "x' div 8 < tiles w" using assms tiles_div by auto
  have "x div 8 = x' div 8" "y div 8 = y' div 8"
    using arg_cong[OF t, of "\<lambda>n. n mod tiles w"] arg_cong[OF t, of "\<lambda>n. n div tiles w"] d by simp_all
  ultimately show ?thesis by (metis div_mult_mod_eq)
qed

lemma word_eq_of_nat: "unat w = n \<Longrightarrow> w = of_nat n" for w :: "'a::len word"
  by auto

lemma thin1d_texel_offset_unat:
  assumes "x < unat w" "y < h" "tiles (unat w) * tiles h * 64 < 2 ^ 32" "unat b \<le> 8" "h < 2 ^ 32"
  shows "unat (thin1d_texel_offset (of_nat x) (of_nat y) w b) = thin_index (unat w) x y * unat b"
proof -
  let ?N = "thin_index (unat w) x y"
  have xs: "x < 2 ^ 32" "y < 2 ^ 32" using assms u32_bound[of w] by simp_all
  have xu: "unat (of_nat x :: u32) = x" "unat (of_nat y :: u32) = y"
    using xs by (simp_all add: unat_of_nat_small)
  have dv: "unat (z div MICRO_TILE_DIM) = unat z div 8" for z :: u32
    by (simp add: MICRO_TILE_DIM_def unat_div)
  have words: "(of_nat x :: u32) div MICRO_TILE_DIM = of_nat (x div 8)" "(of_nat y :: u32) div MICRO_TILE_DIM = of_nat (y div 8)"
    "div_ceil w MICRO_TILE_DIM = of_nat (tiles (unat w))"
    "micro_tile_index (of_nat x) (of_nat y) = of_nat (mt (x mod 8) (y mod 8))"
    by (rule word_eq_of_nat, simp only: dv xu unat_div_ceil_8 micro_tile_index_unat)+
  have N: "?N < 2 ^ 32" using thin_index_less[OF assms(1,2)] assms(3) by linarith
  have "thin1d_texel_offset (of_nat x) (of_nat y) w b = ucast (of_nat ?N :: u32) * b"
    unfolding thin1d_texel_offset_def Let_def words thin_index_def
    by (simp add: MICRO_TILE_TEXELS_def MICRO_TILE_DIM_def)
  moreover have "unat (of_nat ?N :: u32) = ?N" using N by (simp add: unat_of_nat_small)
  moreover have "?N * unat b < 2 ^ 64"
    using mult_le_mono[of ?N "2 ^ 32" "unat b" 8] N assms(4) by simp
  ultimately show ?thesis by (simp add: unat_word_ariths)
qed

lemma mult_apart: "a \<noteq> a' \<Longrightarrow> a * b + b \<le> a' * b \<or> a' * b + b \<le> a * b" for a a' b :: nat
  using chunk_apart[of a a' b] chunk_apart[of a' a b] by (metis linorder_neqE_nat)

definition thin_ok :: "surface_layout \<Rightarrow> bool" where
  "thin_ok l \<longleftrightarrow> tiles (lw l) * tiles (lh l) * 64 < 2 ^ 32"

definition thin_pos :: "surface_layout \<Rightarrow> nat \<Rightarrow> nat" where
  "thin_pos l i = thin_index (lw l) (i mod lw l) (i div lw l) * lb l"

lemma tiles_cover: "w \<le> tiles w * 8"
  unfolding tiles_def by presburger

lemma thin_ok_texels: "thin_ok l \<Longrightarrow> lw l * lh l < 2 ^ 32"
proof -
  assume "thin_ok l"
  moreover have "lw l * lh l \<le> (tiles (lw l) * 8) * (tiles (lh l) * 8)" by (intro mult_le_mono tiles_cover)
  moreover have "(tiles (lw l) * 8) * (tiles (lh l) * 8) = tiles (lw l) * tiles (lh l) * 64" by simp
  ultimately show ?thesis unfolding thin_ok_def by linarith
qed

text \<open>The byte offset of a texel of a row-major image.\<close>

lemma linear_offset_unat:
  assumes "(y * unat (w :: u32) + x) * unat (b :: u64) < 2 ^ 64"
  shows "unat ((of_nat y * ucast w + of_nat x) * b) = (y * unat w + x) * unat b"
proof -
  have e: "(of_nat y * ucast w + of_nat x) * b = of_nat ((y * unat w + x) * unat b)" by simp
  show ?thesis unfolding e using assms by (intro unat_of_nat_small) simp
qed

lemma thin1d_size_unat: "thin_ok l \<Longrightarrow> unat (thin1d_tiled_size l) = tiles (lw l) * tiles (lh l) * 64 * lb l"
proof -
  assume ok: "thin_ok l"
  define N where "N = tiles (lw l) * tiles (lh l) * 64"
  have d: "div_ceil w MICRO_TILE_DIM = of_nat (tiles (unat w))" for w
    by (rule word_eq_of_nat) (rule unat_div_ceil_8)
  have "thin1d_tiled_size l = ucast (of_nat N :: u32) * texel_bytes (texel l)"
    unfolding thin1d_tiled_size_def Let_def d by (simp add: N_def MICRO_TILE_TEXELS_def MICRO_TILE_DIM_def)
  moreover have "unat (of_nat N :: u32) = N" using ok by (intro unat_of_nat_small) (simp add: thin_ok_def N_def)
  moreover have "N * lb l < 2 ^ 64"
    using mult_strict_mono[of N "2 ^ 32" "lb l" "2 ^ 32"] ok lb_cases[of l] by (auto simp: thin_ok_def N_def)
  ultimately show ?thesis by (simp add: unat_word_ariths N_def)
qed

interpretation thin: surface_order thin_ok "\<lambda>l. lw l * lh l" lb "\<lambda>l. unat (thin1d_tiled_size l)" thin_pos
proof unfold_locales
  fix l i assume ok: "thin_ok l" and i: "i < lw l * lh l"
  have w: "0 < lw l" using i by (cases "lw l") auto
  have "i mod lw l < lw l" "i div lw l < lh l" using i w by (simp_all add: less_mult_imp_div_less mult.commute)
  then have "Suc (thin_index (lw l) (i mod lw l) (i div lw l)) * lb l \<le> tiles (lw l) * tiles (lh l) * 64 * lb l"
    using thin_index_less by (intro mult_le_mono1 Suc_leI)
  then show "thin_pos l i + lb l \<le> unat (thin1d_tiled_size l)"
    by (simp add: thin_pos_def thin1d_size_unat[OF ok])
next
  fix l i j assume "thin_ok l" and ij: "i < j" "j < lw l * lh l"
  have w: "0 < lw l" using ij by (cases "lw l") auto
  have "thin_index (lw l) (i mod lw l) (i div lw l) \<noteq> thin_index (lw l) (j mod lw l) (j div lw l)"
    using thin_index_inj[of "i mod lw l" "lw l" "j mod lw l"] w ij by (metis div_mult_mod_eq mod_less_divisor less_irrefl)
  then show "thin_pos l i + lb l \<le> thin_pos l j \<or> thin_pos l j + lb l \<le> thin_pos l i"
    unfolding thin_pos_def by (rule mult_apart)
qed

lemma rows_upt: "concat (map (\<lambda>y. map (\<lambda>x. f (y * w + x)) [0..<w]) [0..<h]) = map f [0..<w * h]"
proof (induction h)
  case (Suc h)
  have "map (\<lambda>x. f (h * w + x)) [0..<w] = map f (map (\<lambda>x. x + h * w) [0..<w])" by (simp add: add.commute)
  also have "\<dots> = map f [h * w..<w + h * w]" unfolding map_add_upt ..
  finally show ?case
    using Suc upt_add_eq_append[of 0 "w * h" w] by (simp add: mult.commute add.commute)
qed simp

lemma thin1d_pairs_eq:
  assumes "thin_ok l"
  shows "thin1d_pairs l = chunk_pairs (lb l) (lw l * lh l) (thin_pos l)"
proof -
  let ?w = "width (sl_extent l)" and ?b = "texel_bytes (texel l)"
  have "(unat ((of_nat y * ucast ?w + of_nat x) * ?b), unat (thin1d_texel_offset (of_nat x) (of_nat y) ?w ?b))
    = ((y * lw l + x) * lb l, thin_pos l (y * lw l + x))" if "x < lw l" "y < lh l" for x y
  proof -
    have "unat (thin1d_texel_offset (of_nat x) (of_nat y) ?w ?b) = thin_index (lw l) x y * lb l"
      using that assms lb_cases[of l] u32_bound[of "height (sl_extent l)"]
      by (intro thin1d_texel_offset_unat[where h = "lh l"]) (auto simp: thin_ok_def)
    moreover have "y * lw l + x < 2 ^ 32"
      using that chunk_bound[of y "lh l" "lw l"] thin_ok_texels[OF assms] by (simp add: mult.commute)
    then have "(y * lw l + x) * lb l < 2 ^ 64"
      using mult_strict_mono[of "y * lw l + x" "2 ^ 32" "lb l" "2 ^ 32"] lb_cases[of l] by auto
    then have "unat ((of_nat y * ucast ?w + of_nat x) * ?b) = (y * lw l + x) * lb l"
      by (rule linear_offset_unat)
    ultimately show ?thesis using that by (simp add: thin_pos_def)
  qed
  then have "thin1d_pairs l = concat (map (\<lambda>y. map (\<lambda>x. ((y * lw l + x) * lb l, thin_pos l (y * lw l + x))) [0..<lw l]) [0..<lh l])"
    unfolding thin1d_pairs_def Let_def by (intro arg_cong[of _ _ concat] map_cong refl) auto
  also have "\<dots> = chunk_pairs (lb l) (lw l * lh l) (thin_pos l)"
    unfolding chunk_pairs_def by (rule rows_upt)
  finally show ?thesis .
qed

definition aligned_ok :: "surface_layout \<Rightarrow> bool" where
  "aligned_ok l \<longleftrightarrow> lw l + 64 < 2 ^ 32 \<and> unat (aligned_pitch l) * lh l * lb l < 2 ^ 64"

definition aligned_pos :: "surface_layout \<Rightarrow> nat \<Rightarrow> nat" where
  "aligned_pos l y = y * (unat (aligned_pitch l) * lb l)"

lemma aligned_pitch_ge: "aligned_ok l \<Longrightarrow> lw l \<le> unat (aligned_pitch l)"
  using next_multiple_of_unat(2)[of LINEAR_ALIGNED_PITCH_TEXELS "width (sl_extent l)"]
  by (auto simp: aligned_ok_def aligned_pitch_def linear_aligned_pitch_or_def linear_aligned_pitch_def
      LINEAR_ALIGNED_PITCH_TEXELS_def word_le_nat_alt)

lemma row_bytes_eq [simp]: "row_bytes l = lw l * lb l"
proof -
  have e: "ucast (width (sl_extent l)) * texel_bytes (texel l) = of_nat (lw l * lb l)" by simp
  have "lw l * lb l < 2 ^ 64"
    using mult_strict_mono[of "lw l" "2 ^ 32" "lb l" "2 ^ 32"] u32_bound[of "width (sl_extent l)"] lb_cases[of l] by auto
  then show ?thesis unfolding row_bytes_def e by (intro unat_of_nat_small) simp
qed

lemma aligned_size_unat: "aligned_ok l \<Longrightarrow> unat (linear_aligned_tiled_size l) = unat (aligned_pitch l) * lh l * lb l"
proof -
  assume ok: "aligned_ok l"
  have e: "linear_aligned_tiled_size l = of_nat (unat (aligned_pitch l) * lh l * lb l)"
    by (simp add: linear_aligned_tiled_size_def)
  show ?thesis unfolding e using ok by (intro unat_of_nat_small) (simp add: aligned_ok_def)
qed

interpretation aligned: surface_order aligned_ok lh row_bytes "\<lambda>l. unat (linear_aligned_tiled_size l)" aligned_pos
proof unfold_locales
  fix l i assume ok: "aligned_ok l" and i: "i < lh l"
  have w: "row_bytes l \<le> unat (aligned_pitch l) * lb l" using aligned_pitch_ge[OF ok] by simp
  show "aligned_pos l i + row_bytes l \<le> unat (linear_aligned_tiled_size l)"
    using chunk_bound[OF i, of "unat (aligned_pitch l) * lb l"] w
    by (simp add: aligned_pos_def aligned_size_unat[OF ok] mult_ac del: row_bytes_eq)
next
  fix l i j assume ok: "aligned_ok l" and ij: "i < j" "j < lh l"
  have w: "row_bytes l \<le> unat (aligned_pitch l) * lb l" using aligned_pitch_ge[OF ok] by simp
  show "aligned_pos l i + row_bytes l \<le> aligned_pos l j \<or> aligned_pos l j + row_bytes l \<le> aligned_pos l i"
    using chunk_apart[OF ij(1), of "unat (aligned_pitch l) * lb l"] w
    by (simp add: aligned_pos_def del: row_bytes_eq)
qed

lemma aligned_offset_unat:
  assumes ok: "aligned_ok l" and xy: "x \<le> unat (aligned_pitch l)" "y < lh l"
  shows "unat (linear_aligned_texel_offset (of_nat x) (of_nat y) (aligned_pitch l) (texel_bytes (texel l)))
    = (y * unat (aligned_pitch l) + x) * lb l"
proof -
  let ?p = "aligned_pitch l"
  have c: "(ucast (of_nat n :: u32) :: u64) = of_nat n" if "n < 2 ^ 32" for n
    using that by (intro word_eq_of_nat) (simp add: unat_of_nat_small)
  have x: "x < 2 ^ 32" "y < 2 ^ 32"
    using xy u32_bound[of "aligned_pitch l"] u32_bound[of "height (sl_extent l)"] by simp_all
  have "y * unat ?p + x \<le> Suc y * unat ?p" using xy by simp
  also have "\<dots> \<le> lh l * unat ?p" using xy by (intro mult_le_mono1) simp
  finally have "(y * unat ?p + x) * lb l \<le> unat ?p * lh l * lb l" by (intro mult_le_mono1) (simp add: mult.commute)
  then have "(y * unat ?p + x) * lb l < 2 ^ 64" using ok unfolding aligned_ok_def by linarith
  then show ?thesis
    unfolding linear_aligned_texel_offset_def c[OF x(1)] c[OF x(2)] by (rule linear_offset_unat)
qed

lemma aligned_pairs_eq:
  assumes ok: "aligned_ok l"
  shows "aligned_pairs l = chunk_pairs (row_bytes l) (lh l) (aligned_pos l)"
proof -
  let ?b = "texel_bytes (texel l)"
  have "(unat (of_nat y * (ucast (width (sl_extent l)) * ?b)), unat (linear_aligned_texel_offset 0 (of_nat y) (aligned_pitch l) ?b))
    = (y * row_bytes l, aligned_pos l y)" if "y < lh l" for y
  proof -
    have "unat (linear_aligned_texel_offset 0 (of_nat y) (aligned_pitch l) ?b) = aligned_pos l y"
      using aligned_offset_unat[OF ok, of 0 y] that by (simp add: aligned_pos_def)
    note pos = this
    have e: "of_nat y * (ucast (width (sl_extent l)) * ?b) = (of_nat (y * row_bytes l) :: u64)" by simp
    have "y * row_bytes l \<le> lh l * (unat (aligned_pitch l) * lb l)"
      using that aligned_pitch_ge[OF ok] by (simp add: mult_le_mono)
    moreover have "lh l * (unat (aligned_pitch l) * lb l) = unat (aligned_pitch l) * lh l * lb l" by simp
    ultimately have "y * row_bytes l < 2 ^ 64" using ok unfolding aligned_ok_def by linarith
    then have "unat (of_nat y * (ucast (width (sl_extent l)) * ?b)) = y * row_bytes l"
      unfolding e by (intro unat_of_nat_small) simp
    then show ?thesis using pos by simp
  qed
  then show ?thesis unfolding aligned_pairs_def chunk_pairs_def Let_def by (intro map_cong refl) auto
qed

section \<open>Detiling and tiling\<close>

text \<open>
  The layouts without wrap-around: the byte size fits 64 bits, and the texel indices of the
  micro-tiled order fit 32. The sizes of both images, and where a texel is in the surface: the
  address functions the sampler uses.
\<close>

definition layout_ok :: "surface_layout \<Rightarrow> bool" where
  "layout_ok l =
     (case sl_tiling l of
        LinearGeneral \<Rightarrow> lw l * lh l * lb l < 2 ^ 64 | LinearAligned \<Rightarrow> aligned_ok l | Thin1d \<Rightarrow> thin_ok l)"

definition tiled_size :: "surface_layout \<Rightarrow> nat" where
  "tiled_size l =
     (case sl_tiling l of
        LinearGeneral \<Rightarrow> unat (linear_size l) | LinearAligned \<Rightarrow> unat (linear_aligned_tiled_size l)
      | Thin1d \<Rightarrow> unat (thin1d_tiled_size l))"

definition texel_at :: "surface_layout \<Rightarrow> nat \<Rightarrow> nat \<Rightarrow> nat" where
  "texel_at l x y =
     (case sl_tiling l of
        LinearGeneral \<Rightarrow> (y * lw l + x) * lb l
      | LinearAligned \<Rightarrow>
          unat (linear_aligned_texel_offset (of_nat x) (of_nat y) (aligned_pitch l) (texel_bytes (texel l)))
      | Thin1d \<Rightarrow> unat (thin1d_texel_offset (of_nat x) (of_nat y) (width (sl_extent l)) (texel_bytes (texel l))))"

lemma linear_size_unat: "layout_ok l \<Longrightarrow> unat (linear_size l) = lw l * lh l * lb l"
proof -
  assume ok: "layout_ok l"
  have e: "linear_size l = of_nat (lw l * lh l * lb l)" by (simp add: linear_size_def)
  have "lw l * lh l * lb l < 2 ^ 64"
  proof (cases "sl_tiling l")
    case LinearAligned
    then have a: "aligned_ok l" using ok by (simp add: layout_ok_def)
    have "lw l * lh l * lb l \<le> unat (aligned_pitch l) * lh l * lb l"
      by (intro mult_le_mono1 aligned_pitch_ge[OF a])
    then show ?thesis using a unfolding aligned_ok_def by linarith
  next
    case Thin1d
    then have "lw l * lh l < 2 ^ 32" using ok by (intro thin_ok_texels) (simp add: layout_ok_def)
    then show ?thesis
      using mult_strict_mono[of "lw l * lh l" "2 ^ 32" "lb l" "2 ^ 32"] lb_cases[of l] by auto
  qed (use ok in \<open>simp add: layout_ok_def\<close>)
  then show ?thesis unfolding e by (intro unat_of_nat_small) simp
qed

text \<open>
  Detiling. For a layout without wrap-around, detiling a large enough buffer never panics and
  gives a tight row-major image in which texel \<open>(x, y)\<close> has the bytes at its address in the surface;
  a shorter buffer is the short-buffer error.
\<close>

lemma detile_cases:
  assumes ok: "layout_ok l"
  shows "case detile t l of
      None \<Rightarrow> False
    | Some (Inl e) \<Rightarrow> length t < tiled_size l \<and> e = ShortBuffer (length t) (tiled_size l)
    | Some (Inr r) \<Rightarrow> tiled_size l \<le> length t \<and> length r = lw l * lh l * lb l
        \<and> (\<forall>x < lw l. \<forall>y < lh l. \<forall>j < lb l. r ! ((y * lw l + x) * lb l + j) = t ! (texel_at l x y + j))"
proof (cases "tiled_size l \<le> length t")
  case False
  then show ?thesis by (cases "sl_tiling l") (simp_all add: detile_def tiled_size_def)
next
  case len: True
  have "\<exists>r. detile t l = Some (Inr r) \<and> length r = lw l * lh l * lb l
      \<and> (\<forall>x < lw l. \<forall>y < lh l. \<forall>j < lb l. r ! ((y * lw l + x) * lb l + j) = t ! (texel_at l x y + j))"
  proof (cases "sl_tiling l")
    case LinearGeneral
    have "(y * lw l + x) * lb l + j < lw l * lh l * lb l" if "x < lw l" "y < lh l" "j < lb l" for x y j
    proof -
      have "Suc (y * lw l + x) \<le> lw l * lh l" using that chunk_bound[of y "lh l" "lw l"] by (simp add: mult.commute)
      then show ?thesis using chunk_bound[of "y * lw l + x" "lw l * lh l" "lb l"] that by simp
    qed
    then show ?thesis
      using len LinearGeneral by (simp add: detile_def tiled_size_def texel_at_def linear_size_unat[OF ok])
  next
    case LinearAligned
    then have a: "aligned_ok l" using ok by (simp add: layout_ok_def)
    obtain r where r: "copy_all (row_bytes l) (chunk_pairs (row_bytes l) (lh l) (aligned_pos l)) t
        (replicate (lh l * row_bytes l) 0) = Some r" "length r = lh l * row_bytes l"
      "\<And>i j. i < lh l \<Longrightarrow> j < row_bytes l \<Longrightarrow> r ! (i * row_bytes l + j) = t ! (aligned_pos l i + j)"
      using aligned.gather[OF a, of t] len LinearAligned by (auto simp: tiled_size_def)
    have "r ! ((y * lw l + x) * lb l + j) = t ! (texel_at l x y + j)" if "x < lw l" "y < lh l" "j < lb l" for x y j
    proof -
      have "x * lb l + j < lw l * lb l" using chunk_bound[OF that(1), of "lb l"] that(3) by linarith
      from r(3)[OF that(2), of "x * lb l + j"] this show ?thesis
        using aligned_offset_unat[OF a, of x y] aligned_pitch_ge[OF a] that LinearAligned
        by (simp add: texel_at_def aligned_pos_def algebra_simps)
    qed
    moreover have "detile t l = Some (Inr r)"
      using len LinearAligned r(1)
      by (simp add: detile_def tiled_size_def linear_size_unat[OF ok] aligned_pairs_eq[OF a] mult_ac)
    ultimately show ?thesis using r(2) by (simp add: mult_ac)
  next
    case Thin1d
    then have a: "thin_ok l" using ok by (simp add: layout_ok_def)
    obtain r where r: "copy_all (lb l) (chunk_pairs (lb l) (lw l * lh l) (thin_pos l)) t
        (replicate (lw l * lh l * lb l) 0) = Some r" "length r = lw l * lh l * lb l"
      "\<And>i j. i < lw l * lh l \<Longrightarrow> j < lb l \<Longrightarrow> r ! (i * lb l + j) = t ! (thin_pos l i + j)"
      using thin.gather[OF a, of t] len Thin1d by (auto simp: tiled_size_def)
    have "r ! ((y * lw l + x) * lb l + j) = t ! (texel_at l x y + j)" if "x < lw l" "y < lh l" "j < lb l" for x y j
    proof -
      have i: "y * lw l + x < lw l * lh l" using that chunk_bound[of y "lh l" "lw l"] by (simp add: mult.commute)
      have "texel_at l x y = thin_pos l (y * lw l + x)"
        using thin1d_texel_offset_unat[OF that(1,2), of "texel_bytes (texel l)"] a lb_cases[of l]
          u32_bound[of "height (sl_extent l)"] that(1) Thin1d
        by (auto simp: texel_at_def thin_pos_def thin_ok_def)
      then show ?thesis using r(3)[OF i that(3)] by simp
    qed
    moreover have "detile t l = Some (Inr r)"
      using len Thin1d r(1) by (simp add: detile_def tiled_size_def linear_size_unat[OF ok] thin1d_pairs_eq[OF a])
    ultimately show ?thesis using r(2) by blast
  qed
  then show ?thesis using len by auto
qed

text \<open>A surface with a whole and a partial micro-tile in each direction.\<close>

definition small_surface :: "tiling \<Rightarrow> surface_layout" where
  "small_surface t = \<lparr>texel = Bpp32, sl_extent = \<lparr>width = 9, height = 10\<rparr>, sl_tiling = t,
     sl_compression = Off, sl_pitch = 0\<rparr>"

lemma small_surface_ok: "layout_ok (small_surface Thin1d)"
  by (simp add: layout_ok_def small_surface_def thin_ok_def tiles_def)

lemma detile_at:
  assumes "layout_ok l" "tiled_size l \<le> length t"
  shows "\<exists>r. detile t l = Some (Inr r)
    \<and> (\<forall>x < lw l. \<forall>y < lh l. \<forall>j < lb l. r ! ((y * lw l + x) * lb l + j) = t ! (texel_at l x y + j))"
  using detile_cases[OF assms(1), of t] assms(2) by (auto split: option.splits sum.splits)

text \<open>
  C28. Tiling and detiling are inverse. For a layout without wrap-around, tiling a large enough
  linear image never panics and fills a buffer of exactly the surface's size, from which
  detiling reads the linear image back byte for byte; a shorter image is the short-buffer error.
\<close>

theorem tile_detile_roundtrip:
  assumes ok: "layout_ok l"
  shows "case tile b l of
      None \<Rightarrow> False
    | Some (Inl e) \<Rightarrow> length b < lw l * lh l * lb l \<and> e = ShortBuffer (length b) (lw l * lh l * lb l)
    | Some (Inr t) \<Rightarrow> length t = tiled_size l \<and> detile t l = Some (Inr (take (lw l * lh l * lb l) b))"
proof (cases "lw l * lh l * lb l \<le> length b")
  case False
  then show ?thesis by (simp add: tile_def linear_size_unat[OF ok])
next
  case len: True
  have "\<exists>t. tile b l = Some (Inr t) \<and> length t = tiled_size l \<and> detile t l = Some (Inr (take (lw l * lh l * lb l) b))"
  proof (cases "sl_tiling l")
    case LinearGeneral
    then show ?thesis using len by (simp add: tile_def detile_def tiled_size_def linear_size_unat[OF ok] min_def)
  next
    case LinearAligned
    then have a: "aligned_ok l" using ok by (simp add: layout_ok_def)
    have c: "lh l * row_bytes l = lw l * lh l * lb l" by simp
    show ?thesis
      using aligned.roundtrip[OF a, of b] len LinearAligned unfolding c
      by (auto simp: tile_def detile_def tiled_size_def linear_size_unat[OF ok] aligned_pairs_eq[OF a])
  next
    case Thin1d
    then have a: "thin_ok l" using ok by (simp add: layout_ok_def)
    show ?thesis
      using thin.roundtrip[OF a, of b] len Thin1d
      by (auto simp: tile_def detile_def tiled_size_def linear_size_unat[OF ok] thin1d_pairs_eq[OF a])
  qed
  then show ?thesis by auto
qed

theorem tile_detile_roundtrip_witness:
  "\<exists>t. tile (replicate 360 5) (small_surface Thin1d) = Some (Inr t) \<and> length t = 1024
    \<and> detile t (small_surface Thin1d) = Some (Inr (replicate 360 5))"
  using tile_detile_roundtrip[OF small_surface_ok, of "replicate 360 5"]
  by (auto simp: small_surface_def tiled_size_def thin1d_tiled_size_def div_ceil_def MICRO_TILE_DIM_def
      MICRO_TILE_TEXELS_def split: option.splits sum.splits)

section \<open>Upload and sampler\<close>

lemma field14: "unat (w AND 0x3FFF) < 0x4000" for w :: u32
proof -
  have "w AND 0x3FFF = take_bit 14 w" by (simp add: take_bit_eq_mask mask_eq_exp_minus_1)
  then have "unat (w AND 0x3FFF) = take_bit 14 (unat w)" by (simp add: unsigned_take_bit_eq)
  then show ?thesis by (simp add: take_bit_eq_mod)
qed

lemma field14_plus1: "unat ((w AND 0x3FFF) + 1) = unat (w AND 0x3FFF) + 1" for w :: u32
  using field14[of w] by (subst unat_add_nowrap) simp_all

text \<open>A decoded descriptor never wraps: its extents and its pitch are at most $2^{14}$.\<close>

lemma decoded_extents:
  fixes w0 w1 w2 w3 w4
  defines "t \<equiv> decode_t_sharp w0 w1 w2 w3 w4"
  shows "1 \<le> unat (td_width t)" "unat (td_width t) \<le> 0x4000" "1 \<le> unat (td_height t)" "unat (td_height t) \<le> 0x4000"
    "unat (linear_aligned_pitch_or (td_width t) (td_pitch t)) \<le> 0x4040"
proof -
  show w: "1 \<le> unat (td_width t)" "unat (td_width t) \<le> 0x4000" "1 \<le> unat (td_height t)" "unat (td_height t) \<le> 0x4000"
    using field14[of w2] field14[of "drop_bit 14 w2"]
    by (simp_all add: t_def decode_t_sharp_def Let_def field14_plus1)
  have "unat (td_pitch t) \<le> 0x4000"
    using field14[of "drop_bit 13 w4"] by (simp add: t_def decode_t_sharp_def Let_def field14_plus1)
  moreover have "unat (linear_aligned_pitch (td_width t)) < unat (td_width t) + 64"
    using next_multiple_of_unat(3)[of LINEAR_ALIGNED_PITCH_TEXELS "td_width t"] w(2)
    by (simp add: linear_aligned_pitch_def LINEAR_ALIGNED_PITCH_TEXELS_def)
  ultimately show "unat (linear_aligned_pitch_or (td_width t) (td_pitch t)) \<le> 0x4040"
    using w(2) by (simp add: linear_aligned_pitch_or_def)
qed

lemma texture_layout_fields [simp]:
  "width (sl_extent (texture_surface_layout t)) = td_width t" "height (sl_extent (texture_surface_layout t)) = td_height t"
  "texel (texture_surface_layout t) = Bpp32"
  "aligned_pitch (texture_surface_layout t) = linear_aligned_pitch_or (td_width t) (td_pitch t)"
  by (simp_all add: texture_surface_layout_def aligned_pitch_def)

lemma tiles_bound: "w \<le> 0x4000 \<Longrightarrow> tiles w \<le> 2048"
  unfolding tiles_def by (rule order_trans[OF div_le_mono[of _ "0x4007"]]) simp_all

lemma decoded_layout_ok: "layout_ok (texture_surface_layout (decode_t_sharp w0 w1 w2 w3 w4))"
proof -
  let ?t = "decode_t_sharp w0 w1 w2 w3 w4"
  note e = decoded_extents[of w0 w1 w2 w3 w4]
  have "tiles (unat (td_width ?t)) * tiles (unat (td_height ?t)) \<le> 2048 * 2048"
    by (intro mult_le_mono tiles_bound e(2,4))
  moreover have "unat (td_width ?t) * unat (td_height ?t) \<le> 0x4000 * 0x4000" by (intro mult_le_mono e(2,4))
  moreover have "unat (linear_aligned_pitch_or (td_width ?t) (td_pitch ?t)) * unat (td_height ?t) \<le> 0x4040 * 0x4000"
    by (intro mult_le_mono e(4,5))
  ultimately show ?thesis
    using e(2) by (cases "sl_tiling (texture_surface_layout ?t)") (simp_all add: layout_ok_def thin_ok_def aligned_ok_def mult.commute)
qed

lemma saturating_mul_unat: "unat a * unat b < 2 ^ 64 \<Longrightarrow> unat (saturating_mul a b) = unat a * unat b"
  by (simp add: saturating_mul_def unat_word_ariths)

lemma saturating_mul_4: "unat a * unat b \<le> 2 ^ 60 \<Longrightarrow> unat (saturating_mul (saturating_mul a b) 4) = unat a * unat b * 4"
proof -
  assume l: "unat a * unat b \<le> 2 ^ 60"
  then have "unat (saturating_mul a b) = unat a * unat b" by (intro saturating_mul_unat) simp
  then show ?thesis using l by (subst saturating_mul_unat) simp_all
qed

lemma saturating_mul_256:
  "unat a * unat b \<le> 2 ^ 50 \<Longrightarrow> unat (saturating_mul (saturating_mul (saturating_mul a b) 64) 4) = unat a * unat b * 64 * 4"
proof -
  assume l: "unat a * unat b \<le> 2 ^ 50"
  then have "unat (saturating_mul a b) = unat a * unat b" by (intro saturating_mul_unat) simp
  then show ?thesis using l saturating_mul_4[of "saturating_mul a b" 64] by simp
qed

lemma mod_nat_less: "0 < W \<Longrightarrow> nat (z mod int W) < W"
  by (simp add: nat_less_iff)

lemma mod_word: "0 < W \<Longrightarrow> word_of_int (z mod int W) = (of_nat (nat (z mod int W)) :: 'a::len word)"
  by (simp add: of_nat_nat)

text \<open>The span the upload path reads is the size the detiler needs.\<close>

lemma byte_span_size:
  fixes w0 w1 w2 w3 w4
  defines "t \<equiv> decode_t_sharp w0 w1 w2 w3 w4"
  assumes "tile_kind_of (td_tiling_index t) \<noteq> TkMacro2d"
  shows "unat (byte_span t) = tiled_size (texture_surface_layout t)"
proof -
  let ?l = "texture_surface_layout t"
  note e = decoded_extents[of w0 w1 w2 w3 w4, folded t_def]
  have ok: "layout_ok ?l" unfolding t_def by (rule decoded_layout_ok)
  have wh: "unat (td_width t) * unat (td_height t) \<le> 0x4000 * 0x4000" by (intro mult_le_mono e(2,4))
  have ph: "unat (linear_aligned_pitch_or (td_width t) (td_pitch t)) * unat (td_height t) \<le> 0x4040 * 0x4000"
    by (intro mult_le_mono e(4,5))
  have th: "tiles (unat (td_width t)) * tiles (unat (td_height t)) \<le> 2048 * 2048"
    by (intro mult_le_mono tiles_bound e(2,4))
  have dc: "unat (div_ceil w 8) = tiles (unat w)" for w using unat_div_ceil_8[of w] by (simp add: MICRO_TILE_DIM_def)
  show ?thesis
  proof (cases "tile_kind_of (td_tiling_index t)")
    case TkLinear
    then have "sl_tiling ?l = LinearGeneral" by (simp add: texture_surface_layout_def)
    then show ?thesis using TkLinear wh by (simp add: byte_span_def tiled_size_def linear_size_unat[OF ok] saturating_mul_4)
  next
    case TkThin1d
    then have s: "sl_tiling ?l = Thin1d" by (simp add: texture_surface_layout_def)
    then have "thin_ok ?l" using ok by (simp add: layout_ok_def)
    then show ?thesis
      using TkThin1d th s by (simp add: byte_span_def tiled_size_def thin1d_size_unat saturating_mul_256 dc)
  next
    case TkLinearAligned
    then have s: "sl_tiling ?l = LinearAligned" by (simp add: texture_surface_layout_def)
    then have "aligned_ok ?l" using ok by (simp add: layout_ok_def)
    then show ?thesis
      using TkLinearAligned ph s by (simp add: byte_span_def tiled_size_def aligned_size_unat saturating_mul_4)
  qed (use assms(2) in simp)
qed

text \<open>The two decoders agree on the pitch, except for a one-texel-wide surface with no pitch.\<close>

definition same_pitch :: "u32 \<Rightarrow> u32 \<Rightarrow> bool" where
  "same_pitch w2 w4 \<longleftrightarrow> w2 AND 0x3FFF \<noteq> 0 \<or> drop_bit 13 w4 AND 0x3FFF \<noteq> 0"

lemma sampler_offset_texel_at:
  fixes w0 w1 w2 w3 w4 x y
  defines "t \<equiv> decode_t_sharp w0 w1 w2 w3 w4"
  defines "xx \<equiv> nat (x mod int (unat (td_width t)))" and "yy \<equiv> nat (y mod int (unat (td_height t)))"
  assumes kind: "tile_kind_of (td_tiling_index t) \<noteq> TkMacro2d"
    and pitch: "tile_kind_of (td_tiling_index t) = TkLinearAligned \<Longrightarrow> same_pitch w2 w4"
  shows "xx < unat (td_width t)" "yy < unat (td_height t)"
    and "map_option unat (sampler_offset (interp_t_sharp w0 w1 w2 w3 w4) x y) = Some (texel_at (texture_surface_layout t) xx yy)"
proof -
  note e = decoded_extents[of w0 w1 w2 w3 w4, folded t_def]
  let ?s = "interp_t_sharp w0 w1 w2 w3 w4" and ?l = "texture_surface_layout t"
  show xx: "xx < unat (td_width t)" and yy: "yy < unat (td_height t)"
    unfolding xx_def yy_def using e(1,3) by (simp_all only: mod_nat_less)
  have dims: "ts_width ?s = ucast (td_width t)" "ts_height ?s = ucast (td_height t)"
    "ts_tiling_index ?s = td_tiling_index t"
    by (simp_all add: interp_t_sharp_def t_def decode_t_sharp_def Let_def)
  have u: "uint (ucast (w :: u32) :: u64) = int (unat w)" for w
    by (metis unat_ucast_u32_u64 uint_nat)
  have words: "word_of_int (x mod uint (ts_width ?s)) = (of_nat xx :: u32)"
    "word_of_int (y mod uint (ts_height ?s)) = (of_nat yy :: u32)"
    unfolding dims u xx_def yy_def using e(1,3) by (simp_all only: mod_word)
  have small: "xx < 2 ^ 32" "yy < 2 ^ 32" using xx yy e(2,4) by simp_all
  have c: "(ucast (of_nat n :: u32) :: u64) = of_nat n" if "n < 2 ^ 32" for n
    using that by (intro word_eq_of_nat) (simp add: unat_of_nat_small)
  have down: "(ucast (ucast (w :: u32) :: u64) :: u32) = w" for w
    by (metis of_nat_unat ucast_id unat_ucast_u32_u64)
  note off = sampler_offset_def[of ?s x y, unfolded Let_def words, unfolded dims down]
  show "map_option unat (sampler_offset ?s x y) = Some (texel_at ?l xx yy)"
  proof (cases "tile_kind_of (td_tiling_index t)")
    case TkLinear
    then have "sl_tiling ?l = LinearGeneral" by (simp add: texture_surface_layout_def)
    moreover have "(yy * unat (td_width t) + xx) * unat (4 :: u64) < 2 ^ 64"
    proof -
      have "yy * unat (td_width t) \<le> 0x4000 * 0x4000" using yy e by (intro mult_le_mono) linarith+
      then show ?thesis using xx e(2) by simp
    qed
    ultimately show ?thesis
      using TkLinear linear_offset_unat[of yy "td_width t" xx 4] by (simp add: off c[OF small(1)] c[OF small(2)] texel_at_def)
  next
    case TkThin1d
    then have "sl_tiling ?l = Thin1d" by (simp add: texture_surface_layout_def)
    then show ?thesis using TkThin1d by (simp add: off texel_at_def)
  next
    case TkLinearAligned
    then have "sl_tiling ?l = LinearAligned" by (simp add: texture_surface_layout_def)
    moreover have "linear_aligned_pitch_or (td_width t) (ts_pitch ?s) = linear_aligned_pitch_or (td_width t) (td_pitch t)"
    proof -
      define raw where "raw = drop_bit 13 w4 AND 0x3FFF"
      have p: "ts_pitch ?s = raw + 1" "td_pitch t = (if raw = 0 then 0 else raw + 1)" "td_width t = (w2 AND 0x3FFF) + 1"
        by (simp_all add: interp_t_sharp_def t_def decode_t_sharp_def Let_def raw_def)
      show ?thesis
      proof (cases "raw = 0")
        case True
        then have "w2 AND 0x3FFF \<noteq> 0" using pitch[OF TkLinearAligned] by (simp add: same_pitch_def raw_def)
        then have "unat (w2 AND 0x3FFF) \<noteq> 0" by (simp add: unat_eq_zero)
        then have "\<not> td_width t \<le> 1" by (simp add: p(3) word_le_nat_alt field14_plus1)
        then show ?thesis using True by (auto simp: p(1,2) linear_aligned_pitch_or_def word_le_nat_alt)
      qed (simp add: p)
    qed
    ultimately show ?thesis using TkLinearAligned by (simp add: off texel_at_def)
  qed (use kind in simp)
qed

text \<open>
  C27. The image a draw uploads is the image the interpreter samples. For every image descriptor in
  a supported tile mode, read as the upload path decodes it and as the sampler does, except a
  linear-aligned surface one texel wide whose pitch field is zero: detiling the descriptor's span
  of bytes never fails, and for all texel coordinates, wrapped around by repeat addressing, the
  sampler reads at an offset inside the span whose four bytes are the texel of the uploaded image.
\<close>

theorem upload_matches_sampler:
  fixes w0 w1 w2 w3 w4
  defines "t \<equiv> decode_t_sharp w0 w1 w2 w3 w4"
  assumes kind: "tile_kind_of (td_tiling_index t) \<noteq> TkMacro2d"
    and pitch: "tile_kind_of (td_tiling_index t) \<noteq> TkLinearAligned \<or> same_pitch w2 w4"
    and len: "unat (byte_span t) \<le> length bs"
  shows "\<exists>r. detile bs (texture_surface_layout t) = Some (Inr r)
    \<and> (\<forall>x y. \<exists>off. sampler_offset (interp_t_sharp w0 w1 w2 w3 w4) x y = Some off
         \<and> (let xx = nat (x mod int (unat (td_width t))); yy = nat (y mod int (unat (td_height t)))
            in \<forall>j < 4. r ! ((yy * unat (td_width t) + xx) * 4 + j) = bs ! (unat off + j)))"
proof -
  let ?l = "texture_surface_layout t"
  have ok: "layout_ok ?l" unfolding t_def by (rule decoded_layout_ok)
  have size: "tiled_size ?l \<le> length bs" using len byte_span_size[of w0 w1 w2 w3 w4, folded t_def] kind by simp
  obtain r where r: "detile bs ?l = Some (Inr r)"
    "\<forall>x < lw ?l. \<forall>y < lh ?l. \<forall>j < lb ?l. r ! ((y * lw ?l + x) * lb ?l + j) = bs ! (texel_at ?l x y + j)"
    using detile_at[OF ok size] by blast
  have p: "same_pitch w2 w4" if "tile_kind_of (td_tiling_index t) = TkLinearAligned" using pitch that by blast
  have "\<exists>off. sampler_offset (interp_t_sharp w0 w1 w2 w3 w4) x y = Some off
         \<and> (let xx = nat (x mod int (unat (td_width t))); yy = nat (y mod int (unat (td_height t)))
            in \<forall>j < 4. r ! ((yy * unat (td_width t) + xx) * 4 + j) = bs ! (unat off + j))" for x y
  proof -
    note s = sampler_offset_texel_at[where ?w0.0 = w0 and ?w1.0 = w1 and ?w2.0 = w2 and ?w3.0 = w3 and ?w4.0 = w4,
        folded t_def, OF kind p]
    obtain off where "sampler_offset (interp_t_sharp w0 w1 w2 w3 w4) x y = Some off"
      "unat off = texel_at ?l (nat (x mod int (unat (td_width t)))) (nat (y mod int (unat (td_height t))))"
      using s(3)[where x = x and y = y] by blast
    then show ?thesis using r(2) s(1)[where x = x] s(2)[where y = y] unfolding Let_def texture_layout_fields by simp
  qed
  then show ?thesis using r(1) by blast
qed

theorem upload_matches_sampler_witness:
  "\<exists>r. detile (replicate 1024 5) (texture_surface_layout (decode_t_sharp 1 0 147464 0x100000 0)) = Some (Inr r)
    \<and> (\<exists>off. sampler_offset (interp_t_sharp 1 0 147464 0x100000 0) (- 1) 12 = Some off
      \<and> r ! ((2 * 9 + 8) * 4) = replicate 1024 5 ! unat off)"
proof -
  let ?t = "decode_t_sharp 1 0 147464 0x100000 0"
  have f: "td_width ?t = 9" "td_height ?t = 10" "td_tiling_index ?t = 1"
    by (simp_all add: decode_t_sharp_def Let_def)
  have d: "td_width ?t = 9" "td_height ?t = 10" "tile_kind_of (td_tiling_index ?t) = TkThin1d" "byte_span ?t = 1024"
    by (simp_all add: f tile_kind_of_def byte_span_def saturating_mul_def div_ceil_def)
  have len: "unat (byte_span ?t) \<le> length (replicate 1024 (5 :: u8))" by (simp add: d(4))
  have k: "tile_kind_of (td_tiling_index ?t) \<noteq> TkMacro2d"
    "tile_kind_of (td_tiling_index ?t) \<noteq> TkLinearAligned \<or> same_pitch 147464 0" by (simp_all add: d)
  obtain r where
    r: "detile (replicate 1024 5) (texture_surface_layout ?t) = Some (Inr r)"
    and o: "\<forall>x y. \<exists>off. sampler_offset (interp_t_sharp 1 0 147464 0x100000 0) x y = Some off
      \<and> (let xx = nat (x mod int (unat (td_width ?t))); yy = nat (y mod int (unat (td_height ?t)))
         in \<forall>j < 4. r ! ((yy * unat (td_width ?t) + xx) * 4 + j) = replicate 1024 5 ! (unat off + j))"
    using upload_matches_sampler[OF k len] by blast
  obtain off where
    "sampler_offset (interp_t_sharp 1 0 147464 0x100000 0) (- 1) 12 = Some off"
    "\<forall>j < 4. r ! ((nat (12 mod int (unat (td_height ?t))) * unat (td_width ?t) + nat (- 1 mod int (unat (td_width ?t)))) * 4 + j)
       = replicate 1024 5 ! (unat off + j)"
    using o[rule_format, of "- 1" 12] unfolding Let_def by blast
  note off = this
  have e: "(nat (12 mod int (unat (td_height ?t))) * unat (td_width ?t) + nat (- 1 mod int (unat (td_width ?t)))) * 4 = (2 * 9 + 8) * 4"
    unfolding d by simp
  have "r ! ((2 * 9 + 8) * 4) = replicate 1024 5 ! unat off" using off(2)[rule_format, of 0] unfolding e by simp
  then show ?thesis using r off(1) by blast
qed

text \<open>
  The exception: one texel wide, two high, linear-aligned, no pitch programmed. The upload path
  falls back to a pitch of 64 texels, the sampler takes the pitch to be one.
\<close>

theorem one_texel_pitch_differs:
  "let w2 = push_bit 14 1; w3 = push_bit 20 8
   in texel_at (texture_surface_layout (decode_t_sharp 1 0 w2 w3 0)) 0 1 = 256
      \<and> sampler_offset (interp_t_sharp 1 0 w2 w3 0) 0 1 = Some 4"
  by code_simp

end
