(* ===== verification/Gcn_Interp.thy ===== *)
theory Gcn_Interp
  imports Gcn_Cfg Gcn_Alu Surface_Tiling Guest_Memory
begin

text \<open>
  The shader interpreter: \<^verbatim>\<open>crates/gcn/src/interp.rs\<close>. A wavefront of 64 lanes executes a decoded shader
  over its control-flow graph and gives the list of its exports, or a structured error. Floats are
  their bit patterns and the arithmetic is \<open>f32_ops\<close>; the memory is the read operation of the virtual
  memory manager. An operation that fails leaves no state, since \<^verbatim>\<open>run\<close> gives the error alone; \<open>None\<close>
  is a panic. The loops over blocks, arms and iterations count down from the bounds of the source, so
  no fuel is needed.
\<close>

section \<open>State\<close>

datatype interp_error =
    UnsupportedInst inst u32
  | InvalidOperand operand u32 string
  | MemoryFault u64 nat string
  | UnsupportedTiling u8 u32
  | InvalidRegister string nat nat u32

type_synonym 'a run = "(interp_error + 'a) option"

abbreviation ok :: "'a \<Rightarrow> 'a run" where "ok x \<equiv> Some (Inr x)"
abbreviation err :: "interp_error \<Rightarrow> 'a run" where "err e \<equiv> Some (Inl e)"

definition ibind :: "'a run \<Rightarrow> ('a \<Rightarrow> 'b run) \<Rightarrow> 'b run" where
  "ibind m f = (case m of None \<Rightarrow> None | Some (Inl e) \<Rightarrow> Some (Inl e) | Some (Inr x) \<Rightarrow> f x)"

fun for_each :: "('i \<Rightarrow> 's \<Rightarrow> 's run) \<Rightarrow> 'i list \<Rightarrow> 's \<Rightarrow> 's run" where
  "for_each f [] s = ok s"
| "for_each f (i # is) s = ibind (f i s) (for_each f is)"

definition WAVE_SIZE :: nat where "WAVE_SIZE = 64"
definition NUM_SGPRS :: nat where "NUM_SGPRS = 104"
definition NUM_VGPRS :: nat where "NUM_VGPRS = 256"

record interp_env =
  ie_f :: f32_ops
  ie_read :: "u64 \<Rightarrow> u64 \<Rightarrow> u8 list result"

text \<open>\<open>attr_planes\<close> holds \<open>(P0, P1, P2)\<close> per attribute and channel.\<close>

record ps_inputs =
  attr_planes :: "(u32 \<times> u32 \<times> u32) list list"

definition plane :: "ps_inputs \<Rightarrow> u8 \<Rightarrow> u8 \<Rightarrow> u32 \<times> u32 \<times> u32" where
  "plane inp attr chan =
     (case get (attr_planes inp) (unat attr) of Some a \<Rightarrow> a ! unat (chan AND 3) | None \<Rightarrow> (0, 0, 0))"

record pixel_launch =
  px_user_sgprs :: "u32 list"
  px_inputs :: ps_inputs
  px_bary_i :: "u32 list"
  px_bary_j :: "u32 list"
  px_exec :: u64

datatype launch_abi = Vertex "u32 list" u32 nat | Pixel pixel_launch

record export_record =
  er_lane :: nat
  er_target :: export_target
  er_values :: "u32 list"

record wave_state =
  sgprs :: "u32 list"
  vgprs :: "u32 list list"
  exec :: u64
  vcc :: u64
  scc :: bool
  m0 :: u32
  pc :: u32

record interp_state =
  it_st :: wave_state
  it_inputs :: ps_inputs
  it_exports :: "export_record list"

definition wave_new :: wave_state where
  "wave_new = \<lparr>sgprs = replicate NUM_SGPRS 0, vgprs = replicate NUM_VGPRS (replicate WAVE_SIZE 0),
     exec = 0, vcc = 0, scc = False, m0 = 0, pc = 0\<rparr>"

definition lane_live :: "wave_state \<Rightarrow> nat \<Rightarrow> bool" where
  "lane_live st lane \<longleftrightarrow> exec st AND push_bit lane 1 \<noteq> 0"

text \<open>The user data fills the scalar registers from the first; the rest keeps its value.\<close>

definition load_user_sgprs :: "u32 list \<Rightarrow> u32 list \<Rightarrow> u32 list" where
  "load_user_sgprs user regs = take NUM_SGPRS user @ drop (length (take NUM_SGPRS user)) regs"

definition init_launch :: "wave_state \<Rightarrow> launch_abi \<Rightarrow> wave_state \<times> ps_inputs" where
  "init_launch st abi =
     (case abi of
        Vertex user_sgprs first_vertex num_lanes \<Rightarrow>
          (let n = min num_lanes WAVE_SIZE in
           (st\<lparr>sgprs := load_user_sgprs user_sgprs (sgprs st),
               vgprs := (vgprs st)[0 := map (\<lambda>lane. first_vertex + of_nat lane) [0..<n] @ drop n (vgprs st ! 0)],
               exec := (if n = WAVE_SIZE then - 1 else push_bit n 1 - 1)\<rparr>, \<lparr>attr_planes = []\<rparr>))
      | Pixel px \<Rightarrow>
          (st\<lparr>sgprs := load_user_sgprs (px_user_sgprs px) (sgprs st),
              vgprs := (vgprs st)[0 := map ((!) (px_bary_i px)) [0..<WAVE_SIZE], 1 := map ((!) (px_bary_j px)) [0..<WAVE_SIZE]],
              exec := px_exec px\<rparr>, px_inputs px))"

section \<open>Registers and operands\<close>

definition sgpr :: "wave_state \<Rightarrow> nat \<Rightarrow> u32 \<Rightarrow> u32 run" where
  "sgpr st n off = (case get (sgprs st) n of Some v \<Rightarrow> ok v | None \<Rightarrow> err (InvalidRegister ''sgpr'' n NUM_SGPRS off))"

definition set_sgpr :: "nat \<Rightarrow> u32 \<Rightarrow> u32 \<Rightarrow> wave_state \<Rightarrow> wave_state run" where
  "set_sgpr n v off st =
     (if n < length (sgprs st) then ok (st\<lparr>sgprs := (sgprs st)[n := v]\<rparr>)
      else err (InvalidRegister ''sgpr'' n NUM_SGPRS off))"

definition vgpr :: "wave_state \<Rightarrow> nat \<Rightarrow> nat \<Rightarrow> u32 \<Rightarrow> u32 run" where
  "vgpr st n lane off =
     (case get (vgprs st) n of Some r \<Rightarrow> ok (r ! lane) | None \<Rightarrow> err (InvalidRegister ''vgpr'' n NUM_VGPRS off))"

definition set_vgpr :: "nat \<Rightarrow> nat \<Rightarrow> u32 \<Rightarrow> u32 \<Rightarrow> wave_state \<Rightarrow> wave_state run" where
  "set_vgpr n lane v off st =
     (if n < length (vgprs st) then ok (st\<lparr>vgprs := (vgprs st)[n := (vgprs st ! n)[lane := v]]\<rparr>)
      else err (InvalidRegister ''vgpr'' n NUM_VGPRS off))"

definition read_scalar :: "wave_state \<Rightarrow> operand \<Rightarrow> u32 \<Rightarrow> u32 run" where
  "read_scalar st op off =
     (case op of
        Sgpr n \<Rightarrow> sgpr st (unat n) off
      | Special M0 \<Rightarrow> ok (m0 st)
      | Special VccLo \<Rightarrow> ok (ucast (vcc st))
      | Special VccHi \<Rightarrow> ok (ucast (drop_bit 32 (vcc st)))
      | Special ExecLo \<Rightarrow> ok (ucast (exec st))
      | Special ExecHi \<Rightarrow> ok (ucast (drop_bit 32 (exec st)))
      | Special Scc \<Rightarrow> ok (of_bool (scc st))
      | InlineInt v \<Rightarrow> ok (word_of_int v)
      | InlineFloat f \<Rightarrow> ok f
      | Literal v \<Rightarrow> ok v
      | _ \<Rightarrow> err (InvalidOperand op off ''not a scalar source''))"

definition read_src_lane :: "wave_state \<Rightarrow> operand \<Rightarrow> nat \<Rightarrow> u32 \<Rightarrow> u32 run" where
  "read_src_lane st op lane off = (case op of Vgpr n \<Rightarrow> vgpr st (unat n) lane off | _ \<Rightarrow> read_scalar st op off)"

definition write_vgpr :: "operand \<Rightarrow> nat \<Rightarrow> u32 \<Rightarrow> u32 \<Rightarrow> wave_state \<Rightarrow> wave_state run" where
  "write_vgpr vdst lane bits off st =
     (case vdst of Vgpr n \<Rightarrow> set_vgpr (unat n) lane bits off st
      | _ \<Rightarrow> err (InvalidOperand vdst off ''not a vector destination''))"

definition read_sgpr_u64 :: "wave_state \<Rightarrow> nat \<Rightarrow> u32 \<Rightarrow> u64 run" where
  "read_sgpr_u64 st base off =
     ibind (sgpr st base off) (\<lambda>lo. ibind (sgpr st (base + 1) off) (\<lambda>hi. ok (ucast lo OR push_bit 32 (ucast hi))))"

section \<open>Scalar instructions\<close>

definition read_scalar_pair :: "wave_state \<Rightarrow> operand \<Rightarrow> u32 \<Rightarrow> u64 run" where
  "read_scalar_pair st op off =
     (case op of
        Sgpr n \<Rightarrow> read_sgpr_u64 st (unat n) off
      | Special ExecLo \<Rightarrow> ok (exec st)
      | Special VccLo \<Rightarrow> ok (vcc st)
      | _ \<Rightarrow> err (InvalidOperand op off ''not a 64-bit scalar source''))"

definition write_scalar_pair :: "operand \<Rightarrow> u64 \<Rightarrow> u32 \<Rightarrow> wave_state \<Rightarrow> wave_state run" where
  "write_scalar_pair sdst v off st =
     (case sdst of
        Sgpr n \<Rightarrow> ibind (set_sgpr (unat n) (ucast v) off st) (set_sgpr (unat n + 1) (ucast (drop_bit 32 v)) off)
      | Special ExecLo \<Rightarrow> ok (st\<lparr>exec := v\<rparr>)
      | Special VccLo \<Rightarrow> ok (st\<lparr>vcc := v\<rparr>)
      | _ \<Rightarrow> err (InvalidOperand sdst off ''not a 64-bit scalar destination''))"

definition write_sgpr :: "operand \<Rightarrow> u32 \<Rightarrow> u32 \<Rightarrow> wave_state \<Rightarrow> wave_state run" where
  "write_sgpr sdst v off st =
     (case sdst of
        Sgpr n \<Rightarrow> set_sgpr (unat n) v off st
      | Special M0 \<Rightarrow> ok (st\<lparr>m0 := v\<rparr>)
      | Special VccLo \<Rightarrow> ok (st\<lparr>vcc := (vcc st AND 0xFFFFFFFF00000000) OR ucast v\<rparr>)
      | Special VccHi \<Rightarrow> ok (st\<lparr>vcc := (vcc st AND 0x00000000FFFFFFFF) OR push_bit 32 (ucast v)\<rparr>)
      | _ \<Rightarrow> err (InvalidOperand sdst off ''not a scalar destination''))"

definition exec_sop1 :: "u8 \<Rightarrow> operand \<Rightarrow> operand \<Rightarrow> u32 \<Rightarrow> wave_state \<Rightarrow> wave_state run" where
  "exec_sop1 op sdst ssrc0 off st =
     (if op = 0x03 then ibind (read_scalar st ssrc0 off) (\<lambda>v. write_sgpr sdst v off st)
      else if op = 0x04 \<or> op = 0x0A then ibind (read_scalar_pair st ssrc0 off) (\<lambda>v. write_scalar_pair sdst v off st)
      else err (UnsupportedInst (Sop1 op sdst ssrc0) off))"

section \<open>Predicates\<close>

definition pred_half :: "u8 \<Rightarrow> nat \<Rightarrow> nat \<times> nat" where
  "pred_half n lane = (if lane < 32 then (unat n, lane) else (unat n + 1, lane - 32))"

definition write_predicate_bit :: "operand \<Rightarrow> nat \<Rightarrow> bool \<Rightarrow> u32 \<Rightarrow> wave_state \<Rightarrow> wave_state run" where
  "write_predicate_bit dst lane b off st =
     (case dst of
        Special r \<Rightarrow>
          (if r = VccLo \<or> r = VccHi then
             ok (st\<lparr>vcc := (if b then vcc st OR push_bit lane 1 else vcc st AND NOT (push_bit lane 1))\<rparr>)
           else err (InvalidOperand dst off ''not a predicate (VCC / SGPR-pair) destination''))
      | Sgpr n \<Rightarrow>
          (case pred_half n lane of (reg, shift) \<Rightarrow>
             ibind (sgpr st reg off) (\<lambda>cur.
               set_sgpr reg (if b then cur OR push_bit shift 1 else cur AND NOT (push_bit shift 1)) off st))
      | _ \<Rightarrow> err (InvalidOperand dst off ''not a predicate (VCC / SGPR-pair) destination''))"

definition read_predicate_bit :: "wave_state \<Rightarrow> operand \<Rightarrow> nat \<Rightarrow> u32 \<Rightarrow> bool run" where
  "read_predicate_bit st src lane off =
     (case src of
        Special r \<Rightarrow>
          (if r = VccLo \<or> r = VccHi then ok (vcc st AND push_bit lane 1 \<noteq> 0)
           else err (InvalidOperand src off ''not a predicate (VCC / SGPR-pair) source''))
      | Sgpr n \<Rightarrow>
          (case pred_half n lane of (reg, shift) \<Rightarrow>
             ibind (sgpr st reg off) (\<lambda>cur. ok (cur AND push_bit shift 1 \<noteq> 0)))
      | _ \<Rightarrow> err (InvalidOperand src off ''not a predicate (VCC / SGPR-pair) source''))"

definition eval_f32_compare :: "f32_ops \<Rightarrow> u8 \<Rightarrow> u32 \<Rightarrow> u32 \<Rightarrow> u32 \<Rightarrow> bool run" where
  "eval_f32_compare F op a b off =
     (if op = 0x01 then ok (fo_lt F a b)
      else if op = 0x02 then ok (fo_eq F a b)
      else if op = 0x03 then ok (fo_le F a b)
      else if op = 0x04 then ok (fo_lt F b a)
      else if op = 0x06 then ok (fo_le F b a)
      else err (UnsupportedInst (Vopc op (Raw 0) (Raw 0)) off))"

section \<open>Vector instructions\<close>

text \<open>A loop over the lanes of the wave; masked-off lanes get \<open>dead\<close>, the others \<open>live\<close>.\<close>

definition lanes :: "(nat \<Rightarrow> wave_state \<Rightarrow> wave_state run) \<Rightarrow> (nat \<Rightarrow> wave_state \<Rightarrow> wave_state run) \<Rightarrow> wave_state \<Rightarrow> wave_state run" where
  "lanes dead live st = for_each (\<lambda>lane st. if \<not> lane_live st lane then dead lane st else live lane st) [0..<WAVE_SIZE] st"

abbreviation skip :: "nat \<Rightarrow> wave_state \<Rightarrow> wave_state run" where "skip \<equiv> \<lambda>lane st. ok st"

text \<open>The exact constants of the source: sixteen, one, and the \<^verbatim>\<open>f32\<close> nearest to two pi.\<close>

definition vop1_out :: "f32_ops \<Rightarrow> u8 \<Rightarrow> u32 \<Rightarrow> u32" where
  "vop1_out F op x =
     (if op = 0x01 then x
      else if op = 0x05 then fo_of_int F (sint x)
      else if op = 0x06 then fo_of_int F (uint x)
      else if op = 0x07 then fo_to_u32 F x
      else if op = 0x08 then fo_to_i32 F x
      else if op = 0x0E then fo_div F (fo_of_int F (sint (signed_drop_bit 28 (push_bit 28 (x AND 0xF))))) 0x41800000
      else if op = 0x20 then fract_f32 F x
      else if op = 0x24 then fo_floor F x
      else if op = 0x22 then fo_ceil F x
      else if op = 0x35 then fo_sin F (fo_mul F x 0x40C90FDB)
      else if op = 0x2A then fo_div F f32_one x
      else fo_sqrt F x)"

definition exec_vop1 :: "f32_ops \<Rightarrow> u8 \<Rightarrow> operand \<Rightarrow> operand \<Rightarrow> u32 \<Rightarrow> wave_state \<Rightarrow> wave_state run" where
  "exec_vop1 F op vdst src0 off st =
     (if op \<notin> {0x01, 0x05, 0x06, 0x07, 0x08, 0x0E, 0x20, 0x22, 0x24, 0x33, 0x35, 0x2A}
      then err (UnsupportedInst (Vop1 op vdst src0) off)
      else lanes skip (\<lambda>lane st.
             ibind (read_src_lane st src0 lane off) (\<lambda>x. write_vgpr vdst lane (vop1_out F op x) off st)) st)"

definition pack_half :: "f32_ops \<Rightarrow> u32 \<Rightarrow> u32 \<Rightarrow> u32" where
  "pack_half F a b = push_bit 16 (ucast (fo_to_half F b)) OR ucast (fo_to_half F a)"

text \<open>The value of a two-source instruction, with the state after the carry of \<^verbatim>\<open>v_add_i32\<close>.\<close>

definition vop2_live ::
  "f32_ops \<Rightarrow> u8 \<Rightarrow> operand \<Rightarrow> operand \<Rightarrow> operand \<Rightarrow> u32 option \<Rightarrow> u32 \<Rightarrow> nat \<Rightarrow> wave_state \<Rightarrow> wave_state run" where
  "vop2_live F op vdst src0 vsrc1 k off lane st =
     ibind (read_src_lane st src0 lane off) (\<lambda>a. ibind (read_src_lane st vsrc1 lane off) (\<lambda>b.
       if op = 0x1A then write_vgpr vdst lane (push_bit (unat (a AND 0x1F)) b) off st
       else if op = 0x16 then write_vgpr vdst lane (drop_bit (unat (a AND 0x1F)) b) off st
       else if op = 0x1B then write_vgpr vdst lane (a AND b) off st
       else if op = 0x25 then
         ibind (write_predicate_bit (Special VccLo) lane (2 ^ 32 \<le> unat a + unat b) off st) (\<lambda>st.
           write_vgpr vdst lane (a + b) off st)
       else if op = 0x00 then
         ibind (read_predicate_bit st (Special VccLo) lane off) (\<lambda>p. write_vgpr vdst lane (if p then b else a) off st)
       else if op = 0x2F then write_vgpr vdst lane (pack_half F a b) off st
       else ibind (read_src_lane st vdst lane off) (\<lambda>dst_old.
              write_vgpr vdst lane (snd (eval_vop2 (interp_alu F) () op a b dst_old k)) off st)))"

definition exec_vop2 ::
  "f32_ops \<Rightarrow> u8 \<Rightarrow> operand \<Rightarrow> operand \<Rightarrow> operand \<Rightarrow> u32 option \<Rightarrow> u32 \<Rightarrow> wave_state \<Rightarrow> wave_state run" where
  "exec_vop2 F op vdst src0 vsrc1 k off st =
     (if op \<notin> {0x03, 0x04, 0x05, 0x08, 0x1F, 0x20, 0x21, 0x0F, 0x10, 0x16, 0x1A, 0x1B, 0x25, 0x00, 0x2F}
      then err (UnsupportedInst (Vop2 op vdst src0 vsrc1 k) off)
      else lanes (\<lambda>lane st. if op = 0x25 then write_predicate_bit (Special VccLo) lane False off st else ok st)
             (vop2_live F op vdst src0 vsrc1 k off) st)"

definition interp_mods :: "u32 \<Rightarrow> u8 \<Rightarrow> u8 \<Rightarrow> nat \<Rightarrow> u32" where
  "interp_mods v am nm idx =
     (let v = (if am AND push_bit idx 1 \<noteq> 0 then f32_abs v else v)
      in if nm AND push_bit idx 1 \<noteq> 0 then f32_neg v else v)"

definition vop3_cmp :: "u16 \<Rightarrow> u8" where
  "vop3_cmp op = (if op = 0x001 then 0x01 else if op = 0x002 then 0x02 else if op = 0x003 then 0x03
     else if op = 0x006 then 0x06 else 0x04)"

definition exec_vop3_compare ::
  "f32_ops \<Rightarrow> u16 \<Rightarrow> operand \<Rightarrow> operand \<Rightarrow> operand \<Rightarrow> u8 \<Rightarrow> u8 \<Rightarrow> u32 \<Rightarrow> wave_state \<Rightarrow> wave_state run" where
  "exec_vop3_compare F op vdst src0 src1 am nm off st =
     lanes (\<lambda>lane st. write_predicate_bit vdst lane False off st)
       (\<lambda>lane st. ibind (read_src_lane st src0 lane off) (\<lambda>a. ibind (read_src_lane st src1 lane off) (\<lambda>b.
          ibind (eval_f32_compare F (vop3_cmp op) (interp_mods a am nm 0) (interp_mods b am nm 1) off) (\<lambda>r.
            write_predicate_bit vdst lane r off st)))) st"

definition vop3_live ::
  "f32_ops \<Rightarrow> u16 \<Rightarrow> operand \<Rightarrow> operand \<Rightarrow> operand \<Rightarrow> operand \<Rightarrow> u8 \<Rightarrow> u8 \<Rightarrow> u8 \<Rightarrow> bool \<Rightarrow> u32 \<Rightarrow> nat \<Rightarrow> wave_state \<Rightarrow> wave_state run" where
  "vop3_live F op vdst src0 src1 src2 am nm omod clamp off lane st =
     ibind (read_src_lane st src0 lane off) (\<lambda>a. ibind (read_src_lane st src1 lane off) (\<lambda>b.
       if op = 0x100 then
         ibind (read_predicate_bit st src2 lane off) (\<lambda>p. write_vgpr vdst lane (if p then b else a) off st)
       else if op = 0x143 then
         ibind (read_src_lane st src2 lane off) (\<lambda>c.
           write_vgpr vdst lane ((a AND 0x00FFFFFF) * (b AND 0x00FFFFFF) + c) off st)
       else if op = 0x12F then
         write_vgpr vdst lane (pack_half F (interp_mods a am nm 0) (interp_mods b am nm 1)) off st
       else
         ibind (read_src_lane st src2 lane off) (\<lambda>c. ibind (read_src_lane st vdst lane off) (\<lambda>dst_old.
           write_vgpr vdst lane (snd (eval_vop3_chain (interp_alu F) () op a b c dst_old am nm omod clamp)) off st))))"

definition exec_vop3 ::
  "f32_ops \<Rightarrow> u16 \<Rightarrow> operand \<Rightarrow> operand \<Rightarrow> operand \<Rightarrow> operand \<Rightarrow> u8 \<Rightarrow> u8 \<Rightarrow> u8 \<Rightarrow> bool \<Rightarrow> u32 \<Rightarrow> wave_state \<Rightarrow> wave_state run" where
  "exec_vop3 F op vdst src0 src1 src2 am nm omod clamp off st =
     (if op \<notin> {0x108, 0x11F, 0x141, 0x14B, 0x157, 0x1A0, 0x143, 0x12F, 0x001, 0x002, 0x003, 0x004, 0x006, 0x100}
      then err (UnsupportedInst (Vop3 op vdst src0 src1 src2 am nm omod clamp) off)
      else if op \<in> {0x001, 0x002, 0x003, 0x004, 0x006} then exec_vop3_compare F op vdst src0 src1 am nm off st
      else lanes skip (vop3_live F op vdst src0 src1 src2 am nm omod clamp off) st)"

definition exec_vopc :: "f32_ops \<Rightarrow> u8 \<Rightarrow> operand \<Rightarrow> operand \<Rightarrow> u32 \<Rightarrow> wave_state \<Rightarrow> wave_state run" where
  "exec_vopc F op src0 vsrc1 off st =
     ibind (eval_f32_compare F op 0 0 off) (\<lambda>_.
       lanes (\<lambda>lane st. write_predicate_bit (Special VccLo) lane False off st)
         (\<lambda>lane st. ibind (read_src_lane st src0 lane off) (\<lambda>a. ibind (read_src_lane st vsrc1 lane off) (\<lambda>b.
            ibind (eval_f32_compare F op a b off) (\<lambda>r. write_predicate_bit (Special VccLo) lane r off st)))) st)"

section \<open>Memory instructions\<close>

definition load :: "interp_env \<Rightarrow> u64 \<Rightarrow> nat \<Rightarrow> u8 list run" where
  "load env addr sz = (case ie_read env addr (of_nat sz) of Inr bs \<Rightarrow> ok bs | Inl reason \<Rightarrow> err (MemoryFault addr sz reason))"

text \<open>\<^verbatim>\<open>read_le_u32\<close> panics when the slice is too short.\<close>

definition read_le_u32 :: "u8 list \<Rightarrow> nat \<Rightarrow> u32 run" where
  "read_le_u32 bytes at =
     (if at + 3 < length bytes then ok (le_u32 (bytes ! at) (bytes ! (at + 1)) (bytes ! (at + 2)) (bytes ! (at + 3))) else None)"

record v_sharp =
  vs_base :: u64
  vs_stride :: u64
  vs_num_records :: u64
  vs_dfmt :: u8
  vs_nfmt :: u8

definition decode_v_sharp :: "wave_state \<Rightarrow> nat \<Rightarrow> u32 \<Rightarrow> v_sharp run" where
  "decode_v_sharp st srsrc off =
     ibind (sgpr st srsrc off) (\<lambda>w0. ibind (sgpr st (srsrc + 1) off) (\<lambda>w1. ibind (sgpr st (srsrc + 2) off) (\<lambda>w2.
       ibind (sgpr st (srsrc + 3) off) (\<lambda>w3.
         ok \<lparr>vs_base = ucast w0 OR push_bit 32 (ucast (w1 AND 0xFFFF)),
             vs_stride = ucast (drop_bit 16 w1 AND 0x3FFF), vs_num_records = ucast w2,
             vs_dfmt = ucast (drop_bit 15 w3 AND 0xF), vs_nfmt = ucast (drop_bit 12 w3 AND 0x7)\<rparr>))))"

definition exec_smrd :: "interp_env \<Rightarrow> u8 \<Rightarrow> operand \<Rightarrow> u8 \<Rightarrow> bool \<Rightarrow> u32 \<Rightarrow> u32 \<Rightarrow> wave_state \<Rightarrow> wave_state run" where
  "exec_smrd env op sdst sbase imm offset off st =
     (case smrd_dst_count op of
        None \<Rightarrow> err (UnsupportedInst (Smrd op sdst sbase imm offset) off)
      | Some count \<Rightarrow>
          ibind (if is_buffer_load op then ibind (decode_v_sharp st (unat sbase) off) (\<lambda>v. ok (vs_base v))
                 else read_sgpr_u64 st (unat sbase) off) (\<lambda>base.
          ibind (if imm then ok (ucast offset * 4) else ibind (sgpr st (unat offset) off) (\<lambda>v. ok (ucast v))) (\<lambda>byte_off.
          ibind (load env (base + byte_off) (unat count * 4)) (\<lambda>bytes.
            case sdst of
              Sgpr n \<Rightarrow>
                for_each (\<lambda>i st. ibind (read_le_u32 bytes (i * 4)) (\<lambda>w. set_sgpr (unat n + i) w off st)) [0..<unat count] st
            | _ \<Rightarrow> err (InvalidOperand sdst off ''SMRD destination must be an SGPR'')))))"

definition convert_packed_int :: "f32_ops \<Rightarrow> u32 \<Rightarrow> nat \<Rightarrow> u8 \<Rightarrow> u32 \<Rightarrow> u32" where
  "convert_packed_int F raw_u wid nfmt float_val =
     (let max_u = fo_of_int F (2 ^ wid - 1);
          half_max = fo_of_int F (2 ^ (wid - 1) - 1);
          sub = (if raw_u AND push_bit (wid - 1) 1 \<noteq> 0 then push_bit wid 1 else 0);
          s = raw_u - sub;
          uf = fo_of_int F (uint raw_u);
          sf = fo_of_int F (sint s)
      in if nfmt = 1 then fo_max F (fo_div F sf half_max) 0xBF800000
         else if nfmt = 4 then uf
         else if nfmt = 5 then sf
         else if nfmt = 7 then float_val
         else fo_div F uf max_u)"

definition fetch_component :: "f32_ops \<Rightarrow> u8 \<Rightarrow> u8 \<Rightarrow> u8 list \<Rightarrow> nat \<Rightarrow> u32 run" where
  "fetch_component F dfmt nfmt bytes i =
     (if dfmt = 1 \<or> dfmt = 3 \<or> dfmt = 10 then
        ibind (read_le_u32 bytes 0) (\<lambda>dword0. ok (convert_packed_int F (drop_bit (i * 8) dword0 AND 0xFF) 8 nfmt 0))
      else if dfmt = 2 \<or> dfmt = 5 \<or> dfmt = 12 then
        ibind (read_le_u32 bytes (i div 2 * 4)) (\<lambda>dword.
          let half_u = drop_bit (i mod 2 * 16) dword AND 0xFFFF
          in ok (convert_packed_int F half_u 16 nfmt (fo_of_half F (ucast half_u))))
      else read_le_u32 bytes (i * 4))"

text \<open>The record a lane fetches: an index at or past the end is clamped to the last.\<close>

definition clamp_index :: "u64 \<Rightarrow> u64 \<Rightarrow> u64" where
  "clamp_index num_records index = (if num_records \<noteq> 0 \<and> num_records \<le> index then num_records - 1 else index)"

definition mubuf_live ::
  "interp_env \<Rightarrow> nat \<Rightarrow> nat \<Rightarrow> operand \<Rightarrow> v_sharp \<Rightarrow> u32 \<Rightarrow> u16 \<Rightarrow> bool \<Rightarrow> nat option \<Rightarrow> u32 \<Rightarrow> nat \<Rightarrow> wave_state \<Rightarrow> wave_state run" where
  "mubuf_live env count vdata0 vaddr vs soff offset idxen offen_reg off lane st =
     ibind (if idxen then ibind (read_src_lane st vaddr lane off) (\<lambda>v. ok (ucast v)) else ok 0) (\<lambda>index.
     ibind (case offen_reg of Some reg \<Rightarrow> ibind (vgpr st reg lane off) (\<lambda>v. ok (ucast v)) | None \<Rightarrow> ok 0) (\<lambda>voffset.
     ibind (load env (vs_base vs + clamp_index (vs_num_records vs) index * vs_stride vs + ucast soff + ucast offset + voffset)
              (count * 4)) (\<lambda>bytes.
       for_each (\<lambda>i st. ibind (fetch_component (ie_f env) (vs_dfmt vs) (vs_nfmt vs) bytes i) (\<lambda>stored.
           set_vgpr (vdata0 + i) lane stored off st)) [0..<count] st)))"

definition exec_mubuf ::
  "interp_env \<Rightarrow> u8 \<Rightarrow> operand \<Rightarrow> operand \<Rightarrow> u8 \<Rightarrow> operand \<Rightarrow> u16 \<Rightarrow> bool \<Rightarrow> bool \<Rightarrow> u32 \<Rightarrow> wave_state \<Rightarrow> wave_state run" where
  "exec_mubuf env op vdata vaddr srsrc soffset offset idxen offen off st =
     (case vdata_count op of
        None \<Rightarrow> err (UnsupportedInst (Mubuf op vdata vaddr srsrc soffset offset idxen offen) off)
      | Some count \<Rightarrow>
          ibind (if soffset = Raw 255 then err (InvalidOperand soffset off ''MUBUF soffset field 255 is invalid'')
                 else read_scalar st soffset off) (\<lambda>soff.
          ibind (decode_v_sharp st (unat srsrc) off) (\<lambda>vs.
          ibind (case vdata of Vgpr n \<Rightarrow> ok (unat n) | _ \<Rightarrow> err (InvalidOperand vdata off ''MUBUF vdata must be a VGPR'')) (\<lambda>vdata0.
          ibind (if offen then
                   (case vaddr of
                      Vgpr n \<Rightarrow> ibind (vgpr st (unat n + 1) 0 off) (\<lambda>_. ok (Some (unat n + 1)))
                    | _ \<Rightarrow> err (InvalidOperand vaddr off ''MUBUF offen requires a VGPR vaddr (offset is vaddr+1)''))
                 else ok None) (\<lambda>offen_reg.
            lanes skip (mubuf_live env (unat count) vdata0 vaddr vs soff offset idxen offen_reg off) st)))))"

section \<open>Interpolation, sampling and exports\<close>

definition vintrp_out :: "f32_ops \<Rightarrow> u8 \<Rightarrow> u32 \<times> u32 \<times> u32 \<Rightarrow> u32 \<Rightarrow> u32 \<Rightarrow> u32" where
  "vintrp_out F op p bary part =
     (case p of (p0, p1, p2) \<Rightarrow>
        if op = 0x00 then fo_add F p0 (fo_mul F bary (fo_sub F p1 p0))
        else if op = 0x01 then fo_add F part (fo_mul F bary (fo_sub F p2 p0))
        else p0)"

definition exec_vintrp :: "f32_ops \<Rightarrow> ps_inputs \<Rightarrow> u8 \<Rightarrow> operand \<Rightarrow> operand \<Rightarrow> u8 \<Rightarrow> u8 \<Rightarrow> u32 \<Rightarrow> wave_state \<Rightarrow> wave_state run" where
  "exec_vintrp F inp op vdst vsrc attr chan off st =
     (if op \<notin> {0x00, 0x01, 0x02} then err (UnsupportedInst (Vintrp op vdst vsrc attr chan) off)
      else lanes skip (\<lambda>lane st.
             ibind (read_src_lane st vsrc lane off) (\<lambda>bary.
             ibind (if op = 0x01 then read_src_lane st vdst lane off else ok 0) (\<lambda>part.
               write_vgpr vdst lane (vintrp_out F op (plane inp attr chan) bary part) off st))) st)"

text \<open>\<open>interp_t_sharp\<close> and \<open>sampler_offset\<close> are shared with the tiling of surfaces.\<close>

definition read_t_sharp :: "wave_state \<Rightarrow> nat \<Rightarrow> u32 \<Rightarrow> tsharp run" where
  "read_t_sharp st base off =
     ibind (sgpr st base off) (\<lambda>w0. ibind (sgpr st (base + 1) off) (\<lambda>w1. ibind (sgpr st (base + 2) off) (\<lambda>w2.
       ibind (sgpr st (base + 3) off) (\<lambda>w3. ibind (sgpr st (base + 4) off) (\<lambda>w4.
         ibind (sgpr st (base + 5) off) (\<lambda>_. ibind (sgpr st (base + 6) off) (\<lambda>_. ibind (sgpr st (base + 7) off) (\<lambda>_.
           ok (interp_t_sharp w0 w1 w2 w3 w4)))))))))"

definition decode_s_sharp :: "wave_state \<Rightarrow> nat \<Rightarrow> u32 \<Rightarrow> bool run" where
  "decode_s_sharp st base off =
     ibind (sgpr st base off) (\<lambda>w0. ibind (sgpr st (base + 1) off) (\<lambda>w1. ibind (sgpr st (base + 2) off) (\<lambda>w2.
       ibind (sgpr st (base + 3) off) (\<lambda>w3. ok (drop_bit 20 w2 AND 1 = 1)))))"

definition texel :: "interp_env \<Rightarrow> tsharp \<Rightarrow> int \<Rightarrow> int \<Rightarrow> u32 \<Rightarrow> u32 list run" where
  "texel env t x y off =
     (case sampler_offset t x y of
        None \<Rightarrow> err (UnsupportedTiling (ts_tiling_index t) off)
      | Some texel_off \<Rightarrow>
          ibind (load env (ts_base t + texel_off) 4) (\<lambda>bytes.
            if 4 \<le> length bytes
            then ok (map (\<lambda>b. fo_div (ie_f env) (fo_of_int (ie_f env) (uint b)) 0x437F0000) (take 4 bytes)) else None))"

definition lerp :: "f32_ops \<Rightarrow> u32 \<Rightarrow> u32 \<Rightarrow> u32 \<Rightarrow> u32" where
  "lerp F a b t = fo_add F a (fo_mul F (fo_sub F b a) t)"

definition sample_bilinear :: "interp_env \<Rightarrow> tsharp \<Rightarrow> u32 \<Rightarrow> u32 \<Rightarrow> u32 \<Rightarrow> u32 list run" where
  "sample_bilinear env t fx fy off =
     (let F = ie_f env;
          x = fo_sub F fx 0x3F000000; y = fo_sub F fy 0x3F000000;
          x0 = fo_floor F x; y0 = fo_floor F y;
          tx = fo_sub F x x0; ty = fo_sub F y y0;
          xi = fo_to_i64 F x0; yi = fo_to_i64 F y0;
          xj = min (xi + 1) (2 ^ 63 - 1); yj = min (yi + 1) (2 ^ 63 - 1)
      in ibind (texel env t xi yi off) (\<lambda>c00. ibind (texel env t xj yi off) (\<lambda>c10.
         ibind (texel env t xi yj off) (\<lambda>c01. ibind (texel env t xj yj off) (\<lambda>c11.
           ok (map (\<lambda>c. lerp F (lerp F (c00 ! c) (c10 ! c) tx) (lerp F (c01 ! c) (c11 ! c) tx) ty) [0..<4]))))))"

definition sample_texture :: "interp_env \<Rightarrow> tsharp \<Rightarrow> bool \<Rightarrow> u32 \<Rightarrow> u32 \<Rightarrow> bool \<Rightarrow> u32 \<Rightarrow> u32 list run" where
  "sample_texture env t bilinear u v unrm off =
     (if ts_width t = 0 \<or> ts_height t = 0 then err (MemoryFault (ts_base t) 0 ''T# has zero extent'')
      else
        (let F = ie_f env;
             (fx, fy) = (if unrm then (u, v)
                         else (fo_mul F u (fo_of_int F (uint (ts_width t))), fo_mul F v (fo_of_int F (uint (ts_height t)))))
         in if bilinear then sample_bilinear env t fx fy off
            else texel env t (fo_to_i64 F (fo_floor F fx)) (fo_to_i64 F (fo_floor F fy)) off))"

text \<open>The enabled channels go to consecutive registers.\<close>

fun write_channels :: "u8 \<Rightarrow> nat \<Rightarrow> nat \<Rightarrow> u32 list \<Rightarrow> nat \<Rightarrow> u32 \<Rightarrow> wave_state \<Rightarrow> wave_state run" where
  "write_channels dmask ch dreg [] lane off st = ok st"
| "write_channels dmask ch dreg (t # ts) lane off st =
     (if dmask AND push_bit ch 1 = 0 then write_channels dmask (ch + 1) dreg ts lane off st
      else ibind (set_vgpr dreg lane t off st) (write_channels dmask (ch + 1) (dreg + 1) ts lane off))"

definition exec_mimg ::
  "interp_env \<Rightarrow> u8 \<Rightarrow> operand \<Rightarrow> operand \<Rightarrow> u8 \<Rightarrow> u8 \<Rightarrow> u8 \<Rightarrow> bool \<Rightarrow> u32 \<Rightarrow> wave_state \<Rightarrow> wave_state run" where
  "exec_mimg env op vdata vaddr srsrc ssamp dmask unrm off st =
     (if op \<noteq> 0x20 then err (UnsupportedInst (Mimg op vdata vaddr srsrc ssamp dmask unrm) off)
      else
        ibind (read_t_sharp st (unat srsrc) off) (\<lambda>t.
        ibind (decode_s_sharp st (unat ssamp) off) (\<lambda>bilinear.
        ibind (case vdata of Vgpr n \<Rightarrow> ok (unat n) | _ \<Rightarrow> err (InvalidOperand vdata off ''MIMG vdata must be a VGPR'')) (\<lambda>vdata0.
        ibind (case vaddr of Vgpr n \<Rightarrow> ok (unat n) | _ \<Rightarrow> err (InvalidOperand vaddr off ''MIMG vaddr must be a VGPR'')) (\<lambda>vu.
          lanes skip (\<lambda>lane st.
            ibind (vgpr st vu lane off) (\<lambda>u. ibind (vgpr st (vu + 1) lane off) (\<lambda>v.
            ibind (sample_texture env t bilinear u v unrm off) (\<lambda>rgba.
              write_channels dmask 0 vdata0 rgba lane off st)))) st)))))"

definition export_values :: "f32_ops \<Rightarrow> wave_state \<Rightarrow> operand option list \<Rightarrow> bool \<Rightarrow> nat \<Rightarrow> u32 \<Rightarrow> u32 list run" where
  "export_values F st srcs compr lane off =
     (if compr then
        for_each (\<lambda>pair values. case srcs ! pair of
            None \<Rightarrow> ok values
          | Some src \<Rightarrow> ibind (read_src_lane st src lane off) (\<lambda>packed.
              ok (values[pair * 2 := fo_of_half F (ucast packed), pair * 2 + 1 := fo_of_half F (ucast (drop_bit 16 packed))])))
          [0..<2] [0, 0, 0, 0]
      else
        for_each (\<lambda>ch values. case srcs ! ch of
            None \<Rightarrow> ok values
          | Some src \<Rightarrow> ibind (read_src_lane st src lane off) (\<lambda>v. ok (values[ch := v])))
          [0..<4] [0, 0, 0, 0])"

definition exec_exp :: "f32_ops \<Rightarrow> export_target \<Rightarrow> operand option list \<Rightarrow> bool \<Rightarrow> u32 \<Rightarrow> interp_state \<Rightarrow> interp_state run" where
  "exec_exp F target srcs compr off it =
     for_each (\<lambda>lane it.
       if \<not> lane_live (it_st it) lane then ok it
       else ibind (export_values F (it_st it) srcs compr lane off) (\<lambda>values.
              ok (it\<lparr>it_exports := it_exports it @ [\<lparr>er_lane = lane, er_target = target, er_values = values\<rparr>]\<rparr>)))
       [0..<WAVE_SIZE] it"

section \<open>One instruction\<close>

definition on_wave :: "(wave_state \<Rightarrow> wave_state run) \<Rightarrow> interp_state \<Rightarrow> interp_state run" where
  "on_wave f it = ibind (f (it_st it)) (\<lambda>st. ok (it\<lparr>it_st := st\<rparr>))"

definition exec_one :: "interp_env \<Rightarrow> decoded \<Rightarrow> interp_state \<Rightarrow> interp_state run" where
  "exec_one env d it =
     (let off = offset_dwords d; F = ie_f env in
      case inst d of
        Sop1 op sdst ssrc0 \<Rightarrow> on_wave (exec_sop1 op sdst ssrc0 off) it
      | Vop1 op vdst src0 \<Rightarrow> on_wave (exec_vop1 F op vdst src0 off) it
      | Vop2 op vdst src0 vsrc1 k \<Rightarrow> on_wave (exec_vop2 F op vdst src0 vsrc1 k off) it
      | Vop3 op vdst src0 src1 src2 am nm omod clamp \<Rightarrow>
          on_wave (exec_vop3 F op vdst src0 src1 src2 am nm omod clamp off) it
      | Vopc op src0 vsrc1 \<Rightarrow> on_wave (exec_vopc F op src0 vsrc1 off) it
      | Smrd op sdst sbase imm offset \<Rightarrow> on_wave (exec_smrd env op sdst sbase imm offset off) it
      | Mubuf op vdata vaddr srsrc soffset offset idxen offen \<Rightarrow>
          on_wave (exec_mubuf env op vdata vaddr srsrc soffset offset idxen offen off) it
      | Vintrp op vdst vsrc attr chan \<Rightarrow> on_wave (exec_vintrp F (it_inputs it) op vdst vsrc attr chan off) it
      | Mimg op vdata vaddr srsrc ssamp dmask unrm \<Rightarrow> on_wave (exec_mimg env op vdata vaddr srsrc ssamp dmask unrm off) it
      | Exp target srcs _ compr _ \<Rightarrow> exec_exp F target srcs compr off it
      | _ \<Rightarrow> err (UnsupportedInst (inst d) off))"

section \<open>The walk over the graph\<close>

definition is_cfg_branch :: "decoded \<Rightarrow> bool" where
  "is_cfg_branch d =
     (case inst d of
        Sopp op _ \<Rightarrow> op \<in> {S_BRANCH, S_CBRANCH_SCC0, S_CBRANCH_SCC1, S_CBRANCH_VCCZ, S_CBRANCH_VCCNZ, S_CBRANCH_EXECZ, S_CBRANCH_EXECNZ}
      | _ \<Rightarrow> False)"

definition cfg_error_to_interp :: "cfg_error \<Rightarrow> interp_error" where
  "cfg_error_to_interp e =
     (case e of
        IrreducibleLoop branch_off _ \<Rightarrow> UnsupportedInst (Sopp S_BRANCH 0) (of_nat branch_off)
      | TargetOutOfRange branch_off _ \<Rightarrow> UnsupportedInst (Sopp S_BRANCH 0) (of_nat branch_off)
      | UnsupportedCondBranch branch_off op \<Rightarrow> UnsupportedInst (Sopp op 0) (of_nat branch_off))"

abbreviation unsupported_branch :: "nat \<Rightarrow> 'a run" where
  "unsupported_branch off \<equiv> err (UnsupportedInst (Sopp S_BRANCH 0) (of_nat off))"

text \<open>The flag is \<open>True\<close> when an \<^verbatim>\<open>s_endpgm\<close> ended the wave.\<close>

fun run_block_body :: "interp_env \<Rightarrow> decoded list \<Rightarrow> nat list \<Rightarrow> interp_state \<Rightarrow> (bool \<times> interp_state) run" where
  "run_block_body env insts [] it = ok (False, it)"
| "run_block_body env insts (idx # idxs) it =
     (case get insts idx of
        None \<Rightarrow> None
      | Some d \<Rightarrow>
          (let it = it\<lparr>it_st := (it_st it)\<lparr>pc := offset_dwords d\<rparr>\<rparr> in
           if is_endpgm d then ok (True, it)
           else if (case inst d of Sopp op _ \<Rightarrow> op = S_WAITCNT \<or> op = S_NOP | _ \<Rightarrow> False) \<or> is_cfg_branch d
           then run_block_body env insts idxs it
           else ibind (exec_one env d it) (run_block_body env insts idxs)))"

definition set_exec :: "u64 \<Rightarrow> interp_state \<Rightarrow> interp_state" where
  "set_exec e it = it\<lparr>it_st := (it_st it)\<lparr>exec := e\<rparr>\<rparr>"

text \<open>An arm: straight-line blocks up to the merge, at most \<open>n\<close> of them.\<close>

fun run_region :: "interp_env \<Rightarrow> decoded list \<Rightarrow> cfg \<Rightarrow> nat \<Rightarrow> nat \<Rightarrow> nat \<Rightarrow> interp_state \<Rightarrow> (bool \<times> interp_state) run" where
  "run_region env insts g stop 0 cur it = (if cur = stop then ok (False, it) else unsupported_branch cur)"
| "run_region env insts g stop (Suc n) cur it =
     (if cur = stop then ok (False, it)
      else case block_index_at g cur of
             None \<Rightarrow> None
           | Some bi \<Rightarrow>
               ibind (run_block_body env insts (bb_insts (cfg_blocks g ! bi)) it) (\<lambda>(ended, it).
                 if ended then ok (True, it)
                 else case bb_term (cfg_blocks g ! bi) of
                        Fallthrough target \<Rightarrow> run_region env insts g stop n target it
                      | Branch target \<Rightarrow> run_region env insts g stop n target it
                      | _ \<Rightarrow> unsupported_branch (bb_start (cfg_blocks g ! bi))))"

text \<open>One iteration of a loop: the blocks from the header to the block of the back edge.\<close>

fun run_loop_body :: "interp_env \<Rightarrow> decoded list \<Rightarrow> cfg \<Rightarrow> loop_info \<Rightarrow> nat \<Rightarrow> nat \<Rightarrow> interp_state \<Rightarrow> (bool \<times> interp_state) run" where
  "run_loop_body env insts g li 0 cur it = unsupported_branch cur"
| "run_loop_body env insts g li (Suc n) cur it =
     (case block_index_at g cur of
        None \<Rightarrow> None
      | Some bi \<Rightarrow>
          ibind (run_block_body env insts (bb_insts (cfg_blocks g ! bi)) it) (\<lambda>(ended, it).
            if ended then ok (True, it)
            else if cur = li_back_edge_block li then ok (False, it)
            else case bb_term (cfg_blocks g ! bi) of
                   Fallthrough target \<Rightarrow> run_loop_body env insts g li n target it
                 | Branch target \<Rightarrow> run_loop_body env insts g li n target it
                 | _ \<Rightarrow> unsupported_branch (bb_start (cfg_blocks g ! bi))))"

definition LOOP_ITER_CAP :: nat where "LOOP_ITER_CAP = 65536"

definition continue_mask :: "branch_cond \<Rightarrow> wave_state \<Rightarrow> u64" where
  "continue_mask c st =
     (case c of Vccnz \<Rightarrow> exec st AND vcc st | Vccz \<Rightarrow> exec st AND NOT (vcc st) | Execnz \<Rightarrow> exec st | Execz \<Rightarrow> 0)"

fun run_loop_from ::
  "interp_env \<Rightarrow> decoded list \<Rightarrow> cfg \<Rightarrow> loop_info \<Rightarrow> nat \<Rightarrow> u64 \<Rightarrow> nat \<Rightarrow> interp_state \<Rightarrow> (bool \<times> interp_state) run" where
  "run_loop_from env insts g li visit_cap saved 0 it =
     (if continue_mask (li_cond li) (it_st it) = 0 then ok (False, set_exec saved it)
      else unsupported_branch (li_back_edge_block li))"
| "run_loop_from env insts g li visit_cap saved (Suc n) it =
     (let lmask = continue_mask (li_cond li) (it_st it) in
      if lmask = 0 then ok (False, set_exec saved it)
      else ibind (run_loop_body env insts g li visit_cap (li_header li) (set_exec lmask it)) (\<lambda>(ended, it).
             if ended then ok (True, set_exec saved it) else run_loop_from env insts g li visit_cap saved n it))"

definition run_loop ::
  "interp_env \<Rightarrow> decoded list \<Rightarrow> cfg \<Rightarrow> loop_info \<Rightarrow> nat \<Rightarrow> interp_state \<Rightarrow> (bool \<times> interp_state) run" where
  "run_loop env insts g li visit_cap it = run_loop_from env insts g li visit_cap (exec (it_st it)) LOOP_ITER_CAP it"

text \<open>The lanes of the wave that take a conditional branch.\<close>

definition taken_mask :: "branch_cond \<Rightarrow> wave_state \<Rightarrow> u64" where
  "taken_mask c st =
     (case c of
        Vccz \<Rightarrow> exec st AND NOT (vcc st)
      | Vccnz \<Rightarrow> exec st AND vcc st
      | Execz \<Rightarrow> (if exec st = 0 then exec st else 0)
      | Execnz \<Rightarrow> (if exec st \<noteq> 0 then exec st else 0))"

definition run_arm ::
  "interp_env \<Rightarrow> decoded list \<Rightarrow> cfg \<Rightarrow> nat \<Rightarrow> nat \<Rightarrow> nat \<Rightarrow> u64 \<Rightarrow> interp_state \<Rightarrow> (bool \<times> interp_state) run" where
  "run_arm env insts g visit_cap merge start lmask it =
     (if start \<noteq> merge \<and> lmask \<noteq> 0 then run_region env insts g merge visit_cap start (set_exec lmask it) else ok (False, it))"

text \<open>A conditional without a back edge: both arms under their masks, then the merge.\<close>

definition run_cond ::
  "interp_env \<Rightarrow> decoded list \<Rightarrow> cfg \<Rightarrow> nat \<Rightarrow> nat \<Rightarrow> branch_cond \<Rightarrow> nat \<Rightarrow> nat \<Rightarrow> interp_state \<Rightarrow> (nat option \<times> interp_state) run" where
  "run_cond env insts g visit_cap bi c taken fall it =
     (if fall = usize_MAX then ok (Some taken, it)
      else case merge_target g bi of
             None \<Rightarrow> None
           | Some None \<Rightarrow> unsupported_branch (bb_start (cfg_blocks g ! bi))
           | Some (Some merge) \<Rightarrow>
               (let saved = exec (it_st it);
                    lmask = taken_mask c (it_st it)
                in ibind (run_arm env insts g visit_cap merge taken lmask it) (\<lambda>(ended, it).
                     if ended then ok (None, it)
                     else ibind (run_arm env insts g visit_cap merge fall (saved AND NOT lmask) it) (\<lambda>(ended, it).
                            if ended then ok (None, it) else ok (Some merge, set_exec saved it)))))"

definition next_block ::
  "interp_env \<Rightarrow> decoded list \<Rightarrow> cfg \<Rightarrow> nat \<Rightarrow> nat \<Rightarrow> interp_state \<Rightarrow> (nat option \<times> interp_state) run" where
  "next_block env insts g visit_cap bi it =
     (case bb_term (cfg_blocks g ! bi) of
        Return \<Rightarrow> ok (None, it)
      | Fallthrough target \<Rightarrow> ok (Some target, it)
      | Branch target \<Rightarrow> ok (Some target, it)
      | Cond c taken fall \<Rightarrow>
          (case loop_of g bi of
             None \<Rightarrow> None
           | Some (Some li) \<Rightarrow>
               ibind (run_loop env insts g li visit_cap it) (\<lambda>(ended, it).
                 ok (if ended then None else Some (li_merge li), it))
           | Some None \<Rightarrow> run_cond env insts g visit_cap bi c taken fall it))"

fun walk_cfg :: "interp_env \<Rightarrow> decoded list \<Rightarrow> cfg \<Rightarrow> nat \<Rightarrow> nat \<Rightarrow> nat option \<Rightarrow> interp_state \<Rightarrow> interp_state run" where
  "walk_cfg env insts g visit_cap n None it = ok it"
| "walk_cfg env insts g visit_cap 0 (Some start) it = unsupported_branch start"
| "walk_cfg env insts g visit_cap (Suc n) (Some start) it =
     (case block_index_at g start of
        None \<Rightarrow> None
      | Some bi \<Rightarrow>
          ibind (run_block_body env insts (bb_insts (cfg_blocks g ! bi)) it) (\<lambda>(ended, it).
            if ended then ok it
            else ibind (next_block env insts g visit_cap bi it) (\<lambda>(cur, it). walk_cfg env insts g visit_cap n cur it)))"

definition execute_cfg :: "interp_env \<Rightarrow> decoded list \<Rightarrow> cfg \<Rightarrow> interp_state \<Rightarrow> interp_state run" where
  "execute_cfg env insts g it =
     (let visit_cap = max (length (cfg_blocks g) * 4) 16
      in walk_cfg env insts g visit_cap visit_cap (map_option bb_start (hd_opt (cfg_blocks g))) it)"

definition execute :: "interp_env \<Rightarrow> decoded list \<Rightarrow> interp_state \<Rightarrow> interp_state run" where
  "execute env insts it =
     (case build_cfg insts of
        None \<Rightarrow> None
      | Some (Inl e) \<Rightarrow> err (cfg_error_to_interp e)
      | Some (Inr g) \<Rightarrow> execute_cfg env insts g it)"

definition interp_run :: "interp_env \<Rightarrow> decoded list \<Rightarrow> launch_abi \<Rightarrow> export_record list run" where
  "interp_run env insts abi =
     (case init_launch wave_new abi of (st, inputs) \<Rightarrow>
        ibind (execute env insts \<lparr>it_st = st, it_inputs = inputs, it_exports = []\<rparr>) (\<lambda>it. ok (it_exports it)))"

section \<open>Runs that do not panic\<close>

definition run_ok :: "('a \<Rightarrow> bool) \<Rightarrow> 'a run \<Rightarrow> bool" where
  "run_ok P m = (case m of None \<Rightarrow> False | Some (Inl _) \<Rightarrow> True | Some (Inr x) \<Rightarrow> P x)"

lemma run_ok_simps [simp]: "run_ok P (ok x) = P x" "run_ok P (err e)" "\<not> run_ok P None"
  by (simp_all add: run_ok_def)

lemma run_okD: "run_ok P (ok x) \<Longrightarrow> P x" by simp

lemma run_ok_total: "run_ok P m \<Longrightarrow> m \<noteq> None" by (cases m) simp_all

lemma run_ok_mono: "run_ok P m \<Longrightarrow> (\<And>x. P x \<Longrightarrow> Q x) \<Longrightarrow> run_ok Q m"
  by (auto simp: run_ok_def split: option.splits sum.splits)

lemma run_ok_bind: "run_ok Q m \<Longrightarrow> (\<And>x. Q x \<Longrightarrow> run_ok P (f x)) \<Longrightarrow> run_ok P (ibind m f)"
  by (cases m) (auto simp: ibind_def split: sum.splits)

lemma run_ok_bind_any: "run_ok (\<lambda>_. True) m \<Longrightarrow> (\<And>x. run_ok P (f x)) \<Longrightarrow> run_ok P (ibind m f)"
  by (rule run_ok_bind)

lemma ibind_simps [simp]: "ibind (ok x) f = f x" "ibind (err e) f = err e" "ibind None f = None"
  by (simp_all add: ibind_def)

lemma ibind_ok: "ibind m f = ok y \<longleftrightarrow> (\<exists>x. m = ok x \<and> f x = ok y)"
  by (auto simp: ibind_def split: option.splits sum.splits)

lemma for_each_ok:
  assumes "Inv s" and "\<And>i s. i \<in> set is \<Longrightarrow> Inv s \<Longrightarrow> run_ok Inv (f i s)"
  shows "run_ok Inv (for_each f is s)"
  using assms
proof (induction "is" arbitrary: s)
  case (Cons i "is")
  then show ?case by (auto intro!: run_ok_bind[where Q = Inv])
qed simp

section \<open>The register file keeps its shape\<close>

definition wave_ok :: "wave_state \<Rightarrow> bool" where
  "wave_ok st \<longleftrightarrow> length (sgprs st) = NUM_SGPRS \<and> length (vgprs st) = NUM_VGPRS \<and> list_all (\<lambda>r. length r = WAVE_SIZE) (vgprs st)"

text \<open>From \<open>st\<close> to \<open>st'\<close> only the vector registers of the lanes in \<open>L\<close> change, and EXEC does not.\<close>

definition vframe :: "nat set \<Rightarrow> wave_state \<Rightarrow> wave_state \<Rightarrow> bool" where
  "vframe L st st' \<longleftrightarrow> wave_ok st' \<and> exec st' = exec st \<and> (\<forall>n l. l \<notin> L \<longrightarrow> vgprs st' ! n ! l = vgprs st ! n ! l)"

lemma vframe_refl: "wave_ok st \<Longrightarrow> vframe L st st"
  by (simp add: vframe_def)

lemma vframe_trans: "vframe K st st' \<Longrightarrow> vframe L st' st'' \<Longrightarrow> K \<subseteq> N \<Longrightarrow> L \<subseteq> N \<Longrightarrow> vframe N st st''"
  unfolding vframe_def by (metis subsetD)

lemma vframe_mono: "vframe K st st' \<Longrightarrow> K \<subseteq> L \<Longrightarrow> vframe L st st'"
  by (auto simp: vframe_def)

lemma vframe_ok: "vframe L st st' \<Longrightarrow> wave_ok st'" by (simp add: vframe_def)

lemma set_vgpr_frame: "wave_ok st \<Longrightarrow> lane \<in> L \<Longrightarrow> run_ok (vframe L st) (set_vgpr n lane v off st)"
proof -
  assume st: "wave_ok st" and lane: "lane \<in> L"
  have "(vgprs st)[n := (vgprs st ! n)[lane := v]] ! k ! l = vgprs st ! k ! l" if "l \<notin> L" "n < length (vgprs st)" for k l
  proof (cases "k = n")
    case True
    moreover have "lane \<noteq> l" using that(1) lane by blast
    ultimately show ?thesis using that(2) by simp
  qed simp
  then show ?thesis using st by (auto simp: set_vgpr_def vframe_def wave_ok_def list_all_length nth_list_update)
qed

lemma set_sgpr_frame: "wave_ok st \<Longrightarrow> run_ok (vframe L st) (set_sgpr n v off st)"
  by (simp add: set_sgpr_def vframe_def wave_ok_def)

lemma write_vgpr_frame: "wave_ok st \<Longrightarrow> lane \<in> L \<Longrightarrow> run_ok (vframe L st) (write_vgpr dst lane v off st)"
  by (simp add: write_vgpr_def set_vgpr_frame split: operand.splits)

text \<open>Reads neither change the state nor panic.\<close>

lemma sgpr_ok [simp]: "run_ok (\<lambda>_. True) (sgpr st n off)"
  by (simp add: sgpr_def split: option.splits)

lemma vgpr_ok [simp]: "run_ok (\<lambda>_. True) (vgpr st n lane off)"
  by (simp add: vgpr_def split: option.splits)

lemma read_scalar_ok [simp]: "run_ok (\<lambda>_. True) (read_scalar st op off)"
  by (simp add: read_scalar_def split: operand.splits special_reg.splits)

lemma read_src_lane_ok [simp]: "run_ok (\<lambda>_. True) (read_src_lane st op lane off)"
  by (simp add: read_src_lane_def split: operand.splits)

lemma read_sgpr_u64_ok [simp]: "run_ok (\<lambda>_. True) (read_sgpr_u64 st n off)"
  by (simp add: read_sgpr_u64_def run_ok_bind_any)

lemma read_scalar_pair_ok [simp]: "run_ok (\<lambda>_. True) (read_scalar_pair st op off)"
  by (simp add: read_scalar_pair_def split: operand.splits special_reg.splits)

lemma read_predicate_bit_ok [simp]: "run_ok (\<lambda>_. True) (read_predicate_bit st src lane off)"
  by (simp add: read_predicate_bit_def pred_half_def run_ok_bind_any split: operand.splits)

lemma eval_f32_compare_ok [simp]: "run_ok (\<lambda>_. True) (eval_f32_compare F op a b off)"
  by (simp add: eval_f32_compare_def)

lemma decode_v_sharp_ok [simp]: "run_ok (\<lambda>_. True) (decode_v_sharp st n off)"
  by (simp add: decode_v_sharp_def run_ok_bind_any)

lemma read_t_sharp_ok [simp]: "run_ok (\<lambda>_. True) (read_t_sharp st n off)"
  by (simp add: read_t_sharp_def run_ok_bind_any)

lemma decode_s_sharp_ok [simp]: "run_ok (\<lambda>_. True) (decode_s_sharp st n off)"
  by (simp add: decode_s_sharp_def run_ok_bind_any)

lemma write_predicate_bit_frame: "wave_ok st \<Longrightarrow> run_ok (vframe L st) (write_predicate_bit dst lane b off st)"
  by (cases dst) (simp_all add: write_predicate_bit_def pred_half_def run_ok_bind_any set_sgpr_frame, simp_all add: vframe_def wave_ok_def)

text \<open>A loop over the lanes touches the live ones.\<close>

definition live_lanes :: "wave_state \<Rightarrow> nat set" where
  "live_lanes st = {l. lane_live st l}"

lemma lanes_frame:
  assumes st: "wave_ok st" and dead: "\<And>lane st. wave_ok st \<Longrightarrow> run_ok (vframe {} st) (dead lane st)"
    and live: "\<And>lane st. lane < WAVE_SIZE \<Longrightarrow> wave_ok st \<Longrightarrow> run_ok (vframe {lane} st) (live lane st)"
  shows "run_ok (vframe (live_lanes st) st) (lanes dead live st)"
  unfolding lanes_def
proof (rule for_each_ok)
  show "vframe (live_lanes st) st st" by (rule vframe_refl[OF st])
  fix i s assume i: "i \<in> set [0..<WAVE_SIZE]" and s: "vframe (live_lanes st) st s"
  have e: "lane_live s i = lane_live st i" using s by (simp add: vframe_def lane_live_def)
  show "run_ok (vframe (live_lanes st) st) (if \<not> lane_live s i then dead i s else live i s)"
  proof (cases "lane_live st i")
    case True
    then have "{i} \<subseteq> live_lanes st" by (simp add: live_lanes_def)
    then show ?thesis using True e run_ok_mono[OF live[OF _ vframe_ok[OF s]] vframe_trans[OF s]] i by simp
  next
    case False
    then show ?thesis using e run_ok_mono[OF dead[OF vframe_ok[OF s]] vframe_trans[OF s]] by simp
  qed
qed

definition mem_ok :: "interp_env \<Rightarrow> bool" where
  "mem_ok env \<longleftrightarrow> (\<forall>a n bs. ie_read env a n = Inr bs \<longrightarrow> length bs = unat n)"

lemma load_ok: "mem_ok env \<Longrightarrow> n < 2 ^ 64 \<Longrightarrow> run_ok (\<lambda>bs. length bs = n) (load env a n)"
  by (auto simp: load_def mem_ok_def unat_of_nat split: sum.splits)

lemma load_count: "mem_ok env \<Longrightarrow> run_ok (\<lambda>bs. length bs = unat (c :: u8) * 4) (load env a (unat c * 4))"
proof -
  assume m: "mem_ok env"
  have "unat c < 256" by (rule order_less_le_trans[OF unat_lt_2p]) simp
  then have "unat c * 4 < 1024" by linarith
  also have "(1024 :: nat) < 2 ^ 64" by simp
  finally have "unat c * 4 < 2 ^ 64" .
  then show ?thesis by (rule load_ok[OF m])
qed

lemma read_le_u32_ok: "at + 3 < length bs \<Longrightarrow> run_ok (\<lambda>_. True) (read_le_u32 bs at)"
  by (simp add: read_le_u32_def)

lemma exec_vop1_frame: "wave_ok st \<Longrightarrow> run_ok (vframe (live_lanes st) st) (exec_vop1 F op vdst src0 off st)"
  unfolding exec_vop1_def by (auto intro!: lanes_frame vframe_refl run_ok_bind_any write_vgpr_frame simp del: insert_iff)

lemma vop2_live_frame: "wave_ok st \<Longrightarrow> run_ok (vframe {lane} st) (vop2_live F op vdst src0 vsrc1 k off lane st)"
proof -
  assume st: "wave_ok st"
  have c: "run_ok (vframe {lane} st) (ibind (write_predicate_bit (Special VccLo) lane p off st) (\<lambda>st. write_vgpr vdst lane v off st))" for p v
  proof (rule run_ok_bind[OF write_predicate_bit_frame[OF st]])
    fix s assume s: "vframe {} st s"
    show "run_ok (vframe {lane} st) (write_vgpr vdst lane v off s)"
      by (rule run_ok_mono[OF write_vgpr_frame[OF vframe_ok[OF s]] vframe_trans[OF s]]) auto
  qed
  show ?thesis unfolding vop2_live_def
    by (intro run_ok_bind_any read_src_lane_ok) (simp add: c write_vgpr_frame[OF st] run_ok_bind_any)
qed

lemma exec_vop2_frame: "wave_ok st \<Longrightarrow> run_ok (vframe (live_lanes st) st) (exec_vop2 F op vdst src0 vsrc1 k off st)"
  unfolding exec_vop2_def
  by (auto intro!: lanes_frame vframe_refl vop2_live_frame write_predicate_bit_frame simp del: insert_iff)

lemma vop3_live_frame:
  "wave_ok st \<Longrightarrow> run_ok (vframe {lane} st) (vop3_live F op vdst src0 src1 src2 am nm omod clamp off lane st)"
  unfolding vop3_live_def by (intro run_ok_bind_any read_src_lane_ok) (simp add: write_vgpr_frame run_ok_bind_any)

lemma exec_vop3_frame:
  "wave_ok st \<Longrightarrow> run_ok (vframe (live_lanes st) st) (exec_vop3 F op vdst src0 src1 src2 am nm omod clamp off st)"
  unfolding exec_vop3_def exec_vop3_compare_def
  by (auto intro!: lanes_frame vframe_refl vop3_live_frame write_predicate_bit_frame run_ok_bind_any simp del: insert_iff)

lemma exec_vopc_frame: "wave_ok st \<Longrightarrow> run_ok (vframe (live_lanes st) st) (exec_vopc F op src0 vsrc1 off st)"
  unfolding exec_vopc_def
  by (auto intro!: run_ok_bind_any lanes_frame write_predicate_bit_frame)

lemma exec_vintrp_frame: "wave_ok st \<Longrightarrow> run_ok (vframe (live_lanes st) st) (exec_vintrp F inp op vdst vsrc attr chan off st)"
  unfolding exec_vintrp_def
  by (auto intro!: lanes_frame vframe_refl run_ok_bind_any write_vgpr_frame simp del: insert_iff)

lemma fetch_component_ok:
  assumes "length bs = count * 4" and "i < count"
  shows "run_ok (\<lambda>_. True) (fetch_component F dfmt nfmt bs i)"
proof -
  have "i div 2 * 4 + 3 < length bs" "0 + 3 < length bs" "i * 4 + 3 < length bs" using assms by auto
  note r = this[THEN read_le_u32_ok]
  show ?thesis unfolding fetch_component_def using r by (simp add: run_ok_bind_any Let_def)
qed

lemma for_each_frame:
  assumes "wave_ok st" and "\<And>i s. i \<in> set is \<Longrightarrow> wave_ok s \<Longrightarrow> run_ok (vframe L s) (f i s)"
  shows "run_ok (vframe L st) (for_each f is st)"
proof (rule for_each_ok)
  show "vframe L st st" by (rule vframe_refl[OF assms(1)])
  fix i s assume i: "i \<in> set is" and s: "vframe L st s"
  show "run_ok (vframe L st) (f i s)"
    by (rule run_ok_mono[OF assms(2)[OF i vframe_ok[OF s]] vframe_trans[OF s]]) auto
qed

lemma mubuf_live_frame:
  assumes "mem_ok env" and "wave_ok st"
  shows "run_ok (vframe {lane} st) (mubuf_live env (unat (count :: u8)) vdata0 vaddr vs soff offset idxen offen_reg off lane st)"
proof -
  have inner: "run_ok (vframe {lane} st)
      (for_each (\<lambda>i st. ibind (fetch_component F dfmt nfmt bs i) (\<lambda>stored. set_vgpr (vdata0 + i) lane stored off st)) [0..<unat count] st)"
    if "length bs = unat count * 4" for bs F dfmt nfmt
    by (rule for_each_frame[OF assms(2)]) (simp add: run_ok_bind_any[OF fetch_component_ok[OF that]] set_vgpr_frame)
  show ?thesis unfolding mubuf_live_def
    by (rule run_ok_bind_any, simp add: run_ok_bind_any, rule run_ok_bind_any, simp add: run_ok_bind_any split: option.splits)
      (rule run_ok_bind[OF load_count[OF assms(1)]], erule inner)
qed

lemma exec_mubuf_frame:
  "mem_ok env \<Longrightarrow> wave_ok st \<Longrightarrow>
   run_ok (vframe (live_lanes st) st) (exec_mubuf env op vdata vaddr srsrc soffset offset idxen offen off st)"
  unfolding exec_mubuf_def
  by (cases "vdata_count op"; cases vdata; cases vaddr)
    (auto intro!: run_ok_bind_any lanes_frame mubuf_live_frame vframe_refl)

lemma texel_ok: "mem_ok env \<Longrightarrow> run_ok (\<lambda>_. True) (texel env t x y off)"
  unfolding texel_def by (auto intro!: run_ok_bind[OF load_ok[where n = 4]] split: option.splits)

lemma sample_texture_ok: "mem_ok env \<Longrightarrow> run_ok (\<lambda>_. True) (sample_texture env t bilinear u v unrm off)"
  unfolding sample_texture_def sample_bilinear_def Let_def
  by (auto intro!: run_ok_bind_any texel_ok split: prod.splits)

lemma write_channels_frame: "wave_ok st \<Longrightarrow> run_ok (vframe {lane} st) (write_channels dmask ch dreg ts lane off st)"
proof (induction ts arbitrary: ch dreg st)
  case (Cons t ts)
  have "run_ok (vframe {lane} st) (ibind (set_vgpr dreg lane t off st) (write_channels dmask (ch + 1) (dreg + 1) ts lane off))"
  proof (rule run_ok_bind[OF set_vgpr_frame[OF Cons.prems]])
    fix s assume s: "vframe {lane} st s"
    show "run_ok (vframe {lane} st) (write_channels dmask (ch + 1) (dreg + 1) ts lane off s)"
      by (rule run_ok_mono[OF Cons.IH[OF vframe_ok[OF s]] vframe_trans[OF s]]) auto
  qed simp
  then show ?case using Cons by simp
qed (simp add: vframe_refl)

lemma exec_mimg_frame:
  "mem_ok env \<Longrightarrow> wave_ok st \<Longrightarrow>
   run_ok (vframe (live_lanes st) st) (exec_mimg env op vdata vaddr srsrc ssamp dmask unrm off st)"
  unfolding exec_mimg_def
  by (auto intro!: run_ok_bind_any lanes_frame write_channels_frame sample_texture_ok vframe_refl split: operand.splits)

text \<open>The scalar instructions leave the vector registers alone.\<close>

lemma exec_smrd_frame: "mem_ok env \<Longrightarrow> wave_ok st \<Longrightarrow> run_ok (vframe {} st) (exec_smrd env op sdst sbase imm offset off st)"
proof -
  assume m: "mem_ok env" and st: "wave_ok st"
  have inner: "run_ok (vframe {} st)
      (for_each (\<lambda>i st. ibind (read_le_u32 bs (i * 4)) (\<lambda>w. set_sgpr (n + i) w off st)) [0..<unat (count :: u8)] st)"
    if "length bs = unat count * 4" for bs n count
    by (rule for_each_frame[OF st]) (use that in \<open>simp add: run_ok_bind_any[OF read_le_u32_ok] set_sgpr_frame\<close>)
  show ?thesis unfolding exec_smrd_def
    by (auto intro!: run_ok_bind_any run_ok_bind[OF load_count[OF m]] inner split: option.splits operand.splits)
qed

definition sop1_frame :: "wave_state \<Rightarrow> wave_state \<Rightarrow> bool" where
  "sop1_frame st st' \<longleftrightarrow> wave_ok st' \<and> vgprs st' = vgprs st"

lemma set_sgpr_sop1: "wave_ok st \<Longrightarrow> run_ok (sop1_frame st) (set_sgpr n v off st)"
  by (simp add: set_sgpr_def sop1_frame_def wave_ok_def)

lemma exec_sop1_frame: "wave_ok st \<Longrightarrow> run_ok (sop1_frame st) (exec_sop1 op sdst ssrc0 off st)"
proof -
  assume st: "wave_ok st"
  have p: "run_ok (sop1_frame st) (ibind (set_sgpr n v off st) (set_sgpr n' v' off))" for n v n' v'
    by (rule run_ok_bind[OF set_sgpr_sop1[OF st]], rule run_ok_mono[OF set_sgpr_sop1])
      (auto simp: sop1_frame_def)
  show ?thesis unfolding exec_sop1_def write_sgpr_def write_scalar_pair_def
    using st by (auto intro!: run_ok_bind_any p set_sgpr_sop1 split: operand.splits special_reg.splits)
      (simp_all add: sop1_frame_def wave_ok_def)
qed

section \<open>One instruction\<close>

definition export_ok :: "export_record \<Rightarrow> bool" where
  "export_ok r \<longleftrightarrow> er_lane r < WAVE_SIZE \<and> length (er_values r) = 4"

definition interp_ok :: "interp_state \<Rightarrow> bool" where
  "interp_ok it \<longleftrightarrow> wave_ok (it_st it) \<and> list_all export_ok (it_exports it)"

text \<open>
  From \<open>it\<close> to \<open>it'\<close> only registers of the lanes in \<open>L\<close> change and only those lanes export; with \<open>keep\<close>
  EXEC does not change.
\<close>

definition iframe :: "bool \<Rightarrow> nat set \<Rightarrow> interp_state \<Rightarrow> interp_state \<Rightarrow> bool" where
  "iframe keep L it it' \<longleftrightarrow> interp_ok it' \<and> (keep \<longrightarrow> exec (it_st it') = exec (it_st it)) \<and>
     (\<forall>n l. l \<notin> L \<longrightarrow> vgprs (it_st it') ! n ! l = vgprs (it_st it) ! n ! l) \<and>
     (\<exists>new. it_exports it' = it_exports it @ new \<and> er_lane ` set new \<subseteq> L)"

lemma iframe_refl: "interp_ok it \<Longrightarrow> iframe keep L it it"
  by (simp add: iframe_def)

lemma iframe_ok: "iframe keep L it it' \<Longrightarrow> interp_ok it'" by (simp add: iframe_def)

lemma iframe_trans:
  assumes f: "iframe keep K it it'" and g: "iframe keep L it' it''" and N: "K \<subseteq> N" "L \<subseteq> N"
  shows "iframe keep N it it''"
proof -
  obtain a where a: "it_exports it' = it_exports it @ a" "er_lane ` set a \<subseteq> K" using f unfolding iframe_def by blast
  obtain b where b: "it_exports it'' = it_exports it' @ b" "er_lane ` set b \<subseteq> L" using g unfolding iframe_def by blast
  have "it_exports it'' = it_exports it @ (a @ b)" using a(1) b(1) by simp
  moreover have "er_lane ` set (a @ b) \<subseteq> N" using a(2) b(2) N by auto
  moreover have "vgprs (it_st it'') ! n ! l = vgprs (it_st it) ! n ! l" if "l \<notin> N" for n l
  proof -
    have "l \<notin> K" "l \<notin> L" using that N by auto
    then show ?thesis using f g unfolding iframe_def by simp
  qed
  moreover have "keep \<longrightarrow> exec (it_st it'') = exec (it_st it)" "interp_ok it''" using f g unfolding iframe_def by simp_all
  ultimately show ?thesis unfolding iframe_def by blast
qed

lemma on_wave_vframe:
  assumes "interp_ok it" and "run_ok (vframe L (it_st it)) (f (it_st it))"
  shows "run_ok (iframe keep L it) (on_wave f it)"
  unfolding on_wave_def using assms
  by (intro run_ok_bind[OF assms(2)]) (simp add: iframe_def vframe_def interp_ok_def)

lemma export_values_ok: "run_ok (\<lambda>vs. length vs = 4) (export_values F st srcs compr lane off)"
  unfolding export_values_def
  by (auto intro!: for_each_ok run_ok_bind_any split: option.splits)

lemma exec_exp_records:
  assumes "interp_ok it"
  shows "run_ok (\<lambda>it'. it_st it' = it_st it \<and> interp_ok it' \<and> (\<exists>new. it_exports it' = it_exports it @ new \<and>
      map er_lane new = filter (lane_live (it_st it)) [0..<WAVE_SIZE] \<and> list_all (\<lambda>r. er_target r = target) new))
    (exec_exp F target srcs compr off it)"
proof -
  let ?f = "\<lambda>lane it. if \<not> lane_live (it_st it) lane then ok it
       else ibind (export_values F (it_st it) srcs compr lane off) (\<lambda>values.
              ok (it\<lparr>it_exports := it_exports it @ [\<lparr>er_lane = lane, er_target = target, er_values = values\<rparr>]\<rparr>))"
  have "list_all (\<lambda>l. l < WAVE_SIZE) ls \<Longrightarrow> interp_ok it \<Longrightarrow>
    run_ok (\<lambda>it'. it_st it' = it_st it \<and> interp_ok it' \<and> (\<exists>new. it_exports it' = it_exports it @ new \<and>
      map er_lane new = filter (lane_live (it_st it)) ls \<and> list_all (\<lambda>r. er_target r = target) new))
    (for_each ?f ls it)" for ls it
  proof (induction ls arbitrary: it)
    case (Cons l ls)
    show ?case
    proof (cases "lane_live (it_st it) l")
      case True
      have "run_ok (\<lambda>it'. it_st it' = it_st it \<and> interp_ok it' \<and> (\<exists>new. it_exports it' = it_exports it @ new \<and>
          map er_lane new = filter (lane_live (it_st it)) (l # ls) \<and> list_all (\<lambda>r. er_target r = target) new))
        (ibind (export_values F (it_st it) srcs compr l off) (\<lambda>values. for_each ?f ls
            (it\<lparr>it_exports := it_exports it @ [\<lparr>er_lane = l, er_target = target, er_values = values\<rparr>]\<rparr>)))"
      proof (rule run_ok_bind[OF export_values_ok])
        fix vs :: "u32 list" assume "length vs = 4"
        let ?r = "\<lparr>er_lane = l, er_target = target, er_values = vs\<rparr>"
        let ?it = "it\<lparr>it_exports := it_exports it @ [?r]\<rparr>"
        have i: "interp_ok ?it" using Cons.prems \<open>length vs = 4\<close> by (simp add: interp_ok_def export_ok_def)
        have l: "list_all (\<lambda>l. l < WAVE_SIZE) ls" using Cons.prems(1) by simp
        show "run_ok (\<lambda>it'. it_st it' = it_st it \<and> interp_ok it' \<and> (\<exists>new. it_exports it' = it_exports it @ new \<and>
          map er_lane new = filter (lane_live (it_st it)) (l # ls) \<and> list_all (\<lambda>r. er_target r = target) new)) (for_each ?f ls ?it)"
        proof (rule run_ok_mono[OF Cons.IH[OF l i]], elim conjE exE)
          fix x new assume "it_st x = it_st ?it" "interp_ok x" "it_exports x = it_exports ?it @ new"
            "map er_lane new = filter (lane_live (it_st ?it)) ls" "list_all (\<lambda>r. er_target r = target) new"
          then show "it_st x = it_st it \<and> interp_ok x \<and> (\<exists>new. it_exports x = it_exports it @ new \<and>
            map er_lane new = filter (lane_live (it_st it)) (l # ls) \<and> list_all (\<lambda>r. er_target r = target) new)"
            using True by (auto intro!: exI[of _ "?r # new"])
        qed
      qed
      then show ?thesis using True by (simp add: ibind_def split: option.splits sum.splits)
    next
      case False
      then show ?thesis using Cons by simp
    qed
  qed simp
  then show ?thesis using assms unfolding exec_exp_def by (simp add: list_all_length)
qed

definition writes_exec :: "decoded \<Rightarrow> bool" where
  "writes_exec d = (case inst d of Sop1 _ sdst _ \<Rightarrow> sdst = Special ExecLo | _ \<Rightarrow> False)"

lemma set_sgpr_exec: "set_sgpr n v off st = ok st' \<Longrightarrow> exec st' = exec st"
  by (auto simp: set_sgpr_def split: if_splits)

lemma write_sgpr_exec: "write_sgpr sdst v off st = ok st' \<Longrightarrow> exec st' = exec st"
  by (cases sdst) (auto simp: write_sgpr_def dest: set_sgpr_exec split: special_reg.splits)

lemma write_scalar_pair_exec: "sdst \<noteq> Special ExecLo \<Longrightarrow> write_scalar_pair sdst v off st = ok st' \<Longrightarrow> exec st' = exec st"
  by (cases sdst) (auto simp: write_scalar_pair_def ibind_ok dest!: set_sgpr_exec split: special_reg.splits)

lemma exec_sop1_exec:
  assumes "sdst \<noteq> Special ExecLo" and "exec_sop1 op sdst ssrc0 off st = ok st'"
  shows "exec st' = exec st"
proof (cases "op = 0x03")
  case True
  then show ?thesis using assms(2) write_sgpr_exec by (auto simp: exec_sop1_def ibind_ok)
next
  case False
  then show ?thesis using assms write_scalar_pair_exec by (auto simp: exec_sop1_def ibind_ok split: if_splits)
qed

lemma exec_one_iframe:
  assumes "mem_ok env" and "interp_ok it"
  shows "run_ok (iframe (\<not> writes_exec d) (live_lanes (it_st it)) it) (exec_one env d it)"
proof -
  have st: "wave_ok (it_st it)" using assms(2) by (simp add: interp_ok_def)
  note V = on_wave_vframe[OF assms(2)]
  have sm: "run_ok (vframe (live_lanes (it_st it)) (it_st it)) (exec_smrd env op sdst sbase imm offset off (it_st it))" for op sdst sbase imm offset off
    by (rule run_ok_mono[OF exec_smrd_frame[OF assms(1) st]]) (erule vframe_mono, simp)
  have s1: "run_ok (iframe (\<not> writes_exec d) (live_lanes (it_st it)) it) (on_wave (exec_sop1 op sdst ssrc0 off) it)"
    if "inst d = Sop1 op sdst ssrc0" for op sdst ssrc0 off
  proof -
    have "run_ok (\<lambda>st'. sop1_frame (it_st it) st' \<and> (\<not> writes_exec d \<longrightarrow> exec st' = exec (it_st it))) (exec_sop1 op sdst ssrc0 off (it_st it))"
      using exec_sop1_frame[OF st, of op sdst ssrc0 off] exec_sop1_exec[of sdst op ssrc0 off "it_st it"] that
      by (auto simp: run_ok_def writes_exec_def split: option.splits sum.splits)
    then show ?thesis unfolding on_wave_def using assms(2)
      by (elim run_ok_bind) (auto simp: iframe_def sop1_frame_def interp_ok_def)
  qed
  have ex: "run_ok (iframe (\<not> writes_exec d) (live_lanes (it_st it)) it) (exec_exp F target srcs compr off it)" for F target srcs compr off
  proof (rule run_ok_mono[OF exec_exp_records[OF assms(2)]], elim conjE exE)
    fix x new assume x: "it_st x = it_st it" "interp_ok x" "it_exports x = it_exports it @ new"
      "map er_lane new = filter (lane_live (it_st it)) [0..<WAVE_SIZE]"
    have "er_lane ` set new \<subseteq> live_lanes (it_st it)"
      using arg_cong[OF x(4), of set] by (auto simp: live_lanes_def)
    then show "iframe (\<not> writes_exec d) (live_lanes (it_st it)) it x" using x by (simp add: iframe_def)
  qed
  show ?thesis
    unfolding exec_one_def Let_def
    by (cases "inst d")
      (simp_all add: s1 ex V sm exec_vop1_frame exec_vop2_frame exec_vop3_frame exec_vopc_frame exec_vintrp_frame
        exec_mubuf_frame[OF assms(1)] exec_mimg_frame[OF assms(1)] st)
qed

section \<open>The walk stays in the graph\<close>

abbreviation starts :: "cfg \<Rightarrow> nat set" where "starts g \<equiv> bb_start ` set (cfg_blocks g)"

definition graph_ok :: "decoded list \<Rightarrow> cfg \<Rightarrow> bool" where
  "graph_ok insts g \<longleftrightarrow>
     (\<forall>b \<in> set (cfg_blocks g). list_all (\<lambda>i. i < length insts) (bb_insts b) \<and> set (term_succs (bb_term b)) \<subseteq> int ` starts g) \<and>
     (\<forall>bi li. bi < length (cfg_blocks g) \<and> loop_of g bi = Some (Some li) \<longrightarrow> li_merge li \<in> starts g)"

lemma block_index_at_start:
  assumes "s \<in> starts g"
  obtains bi where "block_index_at g s = Some bi" "bi < length (cfg_blocks g)" "bb_start (cfg_blocks g ! bi) = s"
proof -
  have "block_index_at g s \<noteq> None" using assms by (auto simp: block_index_at_def position_None_iff list_all_iff)
  then show ?thesis using that by (auto simp: block_index_at_def dest: position_SomeD)
qed

lemma build_cfg_graph_ok:
  assumes "stream_ok insts" and "build_cfg insts = Some (Inr g)"
  shows "graph_ok insts g"
proof -
  let ?live = "live_insts insts"
  obtain ix where pos: "leader_positions ?live ix" and v: "validate_loops g = Some (Inr ())" and g: "g = cut_graph ?live ix"
    using assms by (auto elim: build_cfg_graph)
  have sorted: "sorted_wrt (<) ix" "list_all (\<lambda>i. i < length ?live) ix" using pos by (simp_all add: leader_positions_def)
  have len: "length ?live \<le> length insts" using live_prefix[of insts] by auto
  have "list_all (\<lambda>i. i < length insts) (bb_insts b)" if "b \<in> set (cfg_blocks g)" for b
  proof -
    from that obtain is' where i: "is' \<in> set (cut_list ix (length ?live))" "b = block_of ?live is'"
      by (auto simp: g cut_graph_def)
    obtain i j where "is' = [i..<j]" "j \<le> length ?live" using cut_list_mem[OF sorted i(1)] by blast
    then show ?thesis using len by (simp add: i(2) block_of_def list_all_iff)
  qed
  moreover have "set (term_succs (bb_term b)) \<subseteq> int ` starts g" if "b \<in> set (cfg_blocks g)" for b
    using cut_graph_faithful[OF live_ok[OF assms(1)] pos endpgm_only_last] that unfolding g block_faithful_def by blast
  moreover have "li_merge li \<in> starts g" if "bi < length (cfg_blocks g)" "loop_of g bi = Some (Some li)" for bi li
  proof (rule block_index_atE[of g "li_merge li"])
    show "block_index_at g (li_merge li) \<noteq> None" using validate_loops_Inr(3)[OF v that] by (simp add: loop_ok_def)
  qed (metis imageI)
  ultimately show ?thesis unfolding graph_ok_def by blast
qed

lemma graph_okD:
  assumes "graph_ok insts g" and "bi < length (cfg_blocks g)"
  shows "list_all (\<lambda>i. i < length insts) (bb_insts (cfg_blocks g ! bi))"
    and "bb_term (cfg_blocks g ! bi) = Fallthrough t \<Longrightarrow> t \<in> starts g"
    and "bb_term (cfg_blocks g ! bi) = Branch t \<Longrightarrow> t \<in> starts g"
    and "bb_term (cfg_blocks g ! bi) = Cond c t f \<Longrightarrow> t \<in> starts g"
    and "bb_term (cfg_blocks g ! bi) = Cond c t f \<Longrightarrow> f \<noteq> usize_MAX \<Longrightarrow> f \<in> starts g"
    and "loop_of g bi = Some (Some li) \<Longrightarrow> li_merge li \<in> starts g"
    and "loop_of g bi = Some (Some li) \<Longrightarrow> li_header li \<in> starts g"
proof -
  let ?b = "cfg_blocks g ! bi"
  have b: "list_all (\<lambda>i. i < length insts) (bb_insts ?b)" "set (term_succs (bb_term ?b)) \<subseteq> int ` starts g"
    using assms by (simp_all add: graph_ok_def)
  show "list_all (\<lambda>i. i < length insts) (bb_insts ?b)" by (rule b(1))
  have m: "int t \<in> int ` starts g \<Longrightarrow> t \<in> starts g" for t by auto
  show "bb_term ?b = Fallthrough t \<Longrightarrow> t \<in> starts g" "bb_term ?b = Branch t \<Longrightarrow> t \<in> starts g"
    "bb_term ?b = Cond c t f \<Longrightarrow> t \<in> starts g" "bb_term ?b = Cond c t f \<Longrightarrow> f \<noteq> usize_MAX \<Longrightarrow> f \<in> starts g"
    using b(2) by (auto intro: m)
  show "loop_of g bi = Some (Some li) \<Longrightarrow> li_merge li \<in> starts g" using assms by (simp add: graph_ok_def)
  show "li_header li \<in> starts g" if "loop_of g bi = Some (Some li)"
  proof -
    from that obtain c f where "bb_term ?b = Cond c (li_header li) f"
      using assms(2) by (auto simp: loop_of_def get_def split: terminator.splits if_splits)
    then show ?thesis using b(2) by (auto intro: m)
  qed
qed

lemma merge_target_start:
  assumes "graph_ok insts g" and "bi < length (cfg_blocks g)" and "merge_target g bi = Some (Some m)"
  shows "m \<in> starts g"
proof -
  obtain c t f ti fi where t: "bb_term (cfg_blocks g ! bi) = Cond c t f" "block_index_at g t = Some ti" "block_index_at g f = Some fi"
    "min_opt (map (\<lambda>i. bb_start (cfg_blocks g ! i)) (filter (\<lambda>t. t \<in> set (reach g fi)) (reach g ti))) = Some m"
    using assms(2,3) by (auto simp: merge_target_def get_def Let_def split: terminator.splits option.splits)
  have ti: "ti < length (cfg_blocks g)" using t(2) by (auto simp: block_index_at_def dest: position_SomeD)
  have "j < length (cfg_blocks g)" if "j \<in> set (reach g ti)" for j
  proof -
    have "(ti, j) \<in> (uncond_edges g)\<^sup>*" using that reach_exact[OF ti] by simp
    then show ?thesis using ti by (induction rule: rtrancl_induct) (auto simp: uncond_edges_def dest: uncond_succ_range)
  qed
  moreover have "m \<in> set (map (\<lambda>i. bb_start (cfg_blocks g ! i)) (filter (\<lambda>t. t \<in> set (reach g fi)) (reach g ti)))"
    using t(4) by (auto simp: min_opt_def split: if_splits simp del: set_map set_filter intro: Min_in)
  ultimately show ?thesis by auto
qed

section \<open>The walk does not panic and respects EXEC\<close>

lemma lane_live_bit: "lane_live st l \<longleftrightarrow> bit (exec st) l"
proof -
  have "push_bit l 1 = (2 :: u64) ^ l" by (simp add: push_bit_eq_mult)
  then show ?thesis by (simp add: lane_live_def and_exp_eq_0_iff_not_bit)
qed

text \<open>The lanes a part of the program may touch: those of a mask when no instruction writes EXEC.\<close>

definition lane_set :: "bool \<Rightarrow> u64 \<Rightarrow> nat set" where
  "lane_set keep m = (if keep then {l. bit m l} else UNIV)"

definition quiet :: "bool \<Rightarrow> decoded list \<Rightarrow> bool" where
  "quiet keep insts \<longleftrightarrow> (keep \<longrightarrow> list_all (\<lambda>d. \<not> writes_exec d) insts)"

lemma lane_set_sub: "(\<And>l. bit m l \<Longrightarrow> bit m' l) \<Longrightarrow> lane_set keep m \<subseteq> lane_set keep m'"
  by (auto simp: lane_set_def)

lemma live_in_lane_set: "live_lanes st \<subseteq> lane_set keep (exec st)"
  by (auto simp: live_lanes_def lane_set_def lane_live_bit)

lemma iframe_mono: "iframe k K it it' \<Longrightarrow> K \<subseteq> L \<Longrightarrow> (k' \<Longrightarrow> k) \<Longrightarrow> iframe k' L it it'"
  unfolding iframe_def by (meson subsetD subset_trans)

abbreviation stays :: "bool \<Rightarrow> interp_state \<Rightarrow> bool \<times> interp_state \<Rightarrow> bool" where
  "stays keep it r \<equiv> iframe keep (lane_set keep (exec (it_st it))) it (snd r)"

lemma iframe_step:
  assumes f: "iframe keep (lane_set keep (exec (it_st it))) it it1"
    and m: "run_ok (stays keep it1) m"
  shows "run_ok (stays keep it) m"
proof (rule run_ok_mono[OF m])
  fix r assume r: "stays keep it1 r"
  have "lane_set keep (exec (it_st it1)) = lane_set keep (exec (it_st it))"
    using f by (cases keep) (simp_all add: iframe_def lane_set_def)
  then show "stays keep it r" using iframe_trans[OF f r] by simp
qed

lemma set_pc_iframe: "interp_ok it \<Longrightarrow> iframe keep L it (it\<lparr>it_st := (it_st it)\<lparr>pc := p\<rparr>\<rparr>)"
  by (simp add: iframe_def interp_ok_def wave_ok_def)

lemma run_block_body_stays:
  assumes "mem_ok env" and "quiet keep insts" and "interp_ok it" and "list_all (\<lambda>i. i < length insts) idxs"
  shows "run_ok (stays keep it) (run_block_body env insts idxs it)"
  using assms(3,4)
proof (induction idxs arbitrary: it)
  case (Cons i idxs)
  let ?d = "insts ! i"
  let ?it = "it\<lparr>it_st := (it_st it)\<lparr>pc := offset_dwords ?d\<rparr>\<rparr>"
  note pc = set_pc_iframe[OF Cons.prems(1)]
  have ok': "interp_ok ?it" by (rule iframe_ok[OF pc])
  have g: "get insts i = Some ?d" using Cons.prems by (simp add: get_def)
  have w: "keep \<Longrightarrow> \<not> writes_exec ?d" using assms(2) Cons.prems(2) by (simp add: quiet_def list_all_iff)
  have one: "run_ok (iframe keep (lane_set keep (exec (it_st ?it))) ?it) (exec_one env ?d ?it)"
    by (rule run_ok_mono[OF exec_one_iframe[OF assms(1) ok']]) (erule iframe_mono[OF _ live_in_lane_set], erule w)
  have "run_ok (stays keep ?it) (ibind (exec_one env ?d ?it) (run_block_body env insts idxs))"
    by (rule run_ok_bind[OF one], rule iframe_step, assumption, rule Cons.IH, erule iframe_ok) (use Cons.prems in simp)
  moreover have "run_ok (stays keep ?it) (run_block_body env insts idxs ?it)" using Cons.IH[OF ok'] Cons.prems by simp
  ultimately have "run_ok (stays keep ?it) (run_block_body env insts (i # idxs) it)"
    using iframe_refl[OF ok'] by (simp add: g Let_def)
  then show ?case by (rule iframe_step[OF pc])
qed (simp add: iframe_refl)

lemma run_region_stays:
  assumes "mem_ok env" and "quiet keep insts" and G: "graph_ok insts g" and "interp_ok it" and "cur \<in> starts g"
  shows "run_ok (stays keep it) (run_region env insts g stop n cur it)"
  using assms(4,5)
proof (induction n arbitrary: cur it)
  case (Suc n)
  obtain bi where bi: "block_index_at g cur = Some bi" "bi < length (cfg_blocks g)" by (rule block_index_at_start[OF Suc.prems(2)])
  note D = graph_okD[OF G bi(2)]
  have "run_ok (stays keep it) (case r of (ended, it) \<Rightarrow> if ended then ok (True, it)
      else case bb_term (cfg_blocks g ! bi) of Fallthrough target \<Rightarrow> run_region env insts g stop n target it
         | Branch target \<Rightarrow> run_region env insts g stop n target it
         | _ \<Rightarrow> unsupported_branch (bb_start (cfg_blocks g ! bi)))"
    if r: "stays keep it r" for r
    using r iframe_step[OF r Suc.IH[OF iframe_ok[OF r] D(2)]] iframe_step[OF r Suc.IH[OF iframe_ok[OF r] D(3)]]
    by (cases r) (auto split: terminator.splits)
  from run_ok_bind[OF run_block_body_stays[OF assms(1,2) Suc.prems(1) D(1)] this]
  show ?case using bi(1) iframe_refl[OF Suc.prems(1)] by simp
qed (simp add: iframe_refl)

lemma run_loop_body_stays:
  assumes "mem_ok env" and "quiet keep insts" and G: "graph_ok insts g" and "interp_ok it" and "cur \<in> starts g"
  shows "run_ok (stays keep it) (run_loop_body env insts g li n cur it)"
  using assms(4,5)
proof (induction n arbitrary: cur it)
  case (Suc n)
  obtain bi where bi: "block_index_at g cur = Some bi" "bi < length (cfg_blocks g)" by (rule block_index_at_start[OF Suc.prems(2)])
  note D = graph_okD[OF G bi(2)]
  have "run_ok (stays keep it) (case r of (ended, it) \<Rightarrow> if ended then ok (True, it)
      else if cur = li_back_edge_block li then ok (False, it)
      else case bb_term (cfg_blocks g ! bi) of Fallthrough target \<Rightarrow> run_loop_body env insts g li n target it
         | Branch target \<Rightarrow> run_loop_body env insts g li n target it
         | _ \<Rightarrow> unsupported_branch (bb_start (cfg_blocks g ! bi)))"
    if r: "stays keep it r" for r
    using r iframe_step[OF r Suc.IH[OF iframe_ok[OF r] D(2)]] iframe_step[OF r Suc.IH[OF iframe_ok[OF r] D(3)]]
    by (cases r) (auto split: terminator.splits)
  from run_ok_bind[OF run_block_body_stays[OF assms(1,2) Suc.prems(1) D(1)] this]
  show ?case using bi(1) by simp
qed simp

text \<open>Narrowing EXEC for a part of the program and putting it back:\<close>

lemma set_exec_simps [simp]:
  "exec (it_st (set_exec e it)) = e" "vgprs (it_st (set_exec e it)) = vgprs (it_st it)" "vcc (it_st (set_exec e it)) = vcc (it_st it)"
  "it_exports (set_exec e it) = it_exports it" "interp_ok (set_exec e it) = interp_ok it" "set_exec e (set_exec e' it) = set_exec e it"
  by (simp_all add: set_exec_def interp_ok_def wave_ok_def)

lemma iframe_set_exec: "iframe k L it it' \<Longrightarrow> iframe False L it (set_exec e it')"
  by (simp add: iframe_def)

lemma iframe_from_set_exec: "iframe k L (set_exec e it) it' \<Longrightarrow> iframe False L it it'"
  by (simp add: iframe_def)

lemma iframe_keep: "iframe False L it it' \<Longrightarrow> (keep \<Longrightarrow> exec (it_st it') = exec (it_st it)) \<Longrightarrow> iframe keep L it it'"
  by (simp add: iframe_def)

lemma continue_mask_sub: "bit (continue_mask c st) l \<Longrightarrow> bit (exec st) l"
  by (auto simp: continue_mask_def bit_and_iff split: branch_cond.splits)

lemma run_loop_from_stays:
  assumes "mem_ok env" and "quiet keep insts" and G: "graph_ok insts g" and "li_header li \<in> starts g" and "interp_ok it"
    and "\<And>l. keep \<Longrightarrow> bit (exec (it_st it)) l \<Longrightarrow> bit saved l"
  shows "run_ok (\<lambda>r. exec (it_st (snd r)) = saved \<and> iframe False (lane_set keep saved) it (snd r))
    (run_loop_from env insts g li cap saved n it)"
  using assms(5,6)
proof (induction n arbitrary: it)
  case 0
  then show ?case by (simp add: iframe_set_exec iframe_refl)
next
  case (Suc n)
  let ?m = "continue_mask (li_cond li) (it_st it)" and ?P = "\<lambda>r. exec (it_st (snd r)) = saved \<and> iframe False (lane_set keep saved) it (snd r)"
  have sub: "lane_set keep ?m \<subseteq> lane_set keep saved"
    using Suc.prems(2) continue_mask_sub by (auto simp: lane_set_def)
  have b: "run_ok (stays keep (set_exec ?m it)) (run_loop_body env insts g li cap (li_header li) (set_exec ?m it))"
    by (rule run_loop_body_stays[OF assms(1,2) G _ assms(4)]) (use Suc.prems(1) in simp)
  have "run_ok ?P (case r of (ended, it) \<Rightarrow> if ended then ok (True, set_exec saved it) else run_loop_from env insts g li cap saved n it)"
    if r: "stays keep (set_exec ?m it) r" for r
  proof -
    have f: "iframe False (lane_set keep saved) it (snd r)" using iframe_mono[OF iframe_from_set_exec[OF r], of "lane_set keep saved"] sub by simp
    have e: "keep \<Longrightarrow> exec (it_st (snd r)) = ?m" using r by (simp add: iframe_def)
    have "run_ok ?P (run_loop_from env insts g li cap saved n (snd r))"
      by (rule run_ok_mono[OF Suc.IH[OF iframe_ok[OF f]]])
        (use e Suc.prems(2) continue_mask_sub iframe_trans[OF f] in auto)
    then show ?thesis using iframe_set_exec[OF f] by (cases r) simp
  qed
  from run_ok_bind[OF b this] show ?case using Suc.prems(1) by (simp add: Let_def iframe_set_exec iframe_refl)
qed

lemma run_loop_stays:
  assumes "mem_ok env" and "quiet keep insts" and "graph_ok insts g" and "li_header li \<in> starts g" and "interp_ok it"
  shows "run_ok (stays keep it) (run_loop env insts g li cap it)"
  unfolding run_loop_def
  by (rule run_ok_mono[OF run_loop_from_stays[OF assms]]) (auto intro: iframe_keep)

text \<open>The two arms of a conditional partition the live lanes.\<close>

lemma taken_mask_sub: "bit (taken_mask c st) l \<Longrightarrow> bit (exec st) l"
  by (auto simp: taken_mask_def bit_and_iff split: branch_cond.splits if_splits)

lemma run_arm_stays:
  assumes "mem_ok env" and "quiet keep insts" and "graph_ok insts g" and "interp_ok it" and "start \<in> starts g"
  shows "run_ok (\<lambda>r. iframe False (lane_set keep m) it (snd r)) (run_arm env insts g cap merge start m it)"
proof -
  have "run_ok (stays keep (set_exec m it)) (run_region env insts g merge cap start (set_exec m it))"
    by (rule run_region_stays[OF assms(1-3) _ assms(5)]) (use assms(4) in simp)
  from run_ok_mono[OF this iframe_from_set_exec] show ?thesis
    using iframe_refl[OF assms(4)] by (simp add: run_arm_def)
qed

lemma run_cond_arms:
  assumes "fall \<noteq> usize_MAX" and "run_cond env insts g cap bi c taken fall it = ok (Some m, it')"
  shows "\<exists>it1 it2. run_arm env insts g cap m taken (taken_mask c (it_st it)) it = ok (False, it1) \<and>
    run_arm env insts g cap m fall (exec (it_st it) AND NOT (taken_mask c (it_st it))) it1 = ok (False, it2) \<and>
    it' = set_exec (exec (it_st it)) it2"
  using assms unfolding run_cond_def
  by (auto simp: ibind_ok Let_def split: option.splits if_splits)

definition next_ok :: "bool \<Rightarrow> cfg \<Rightarrow> interp_state \<Rightarrow> nat option \<times> interp_state \<Rightarrow> bool" where
  "next_ok keep g it r \<longleftrightarrow> iframe False (lane_set keep (exec (it_st it))) it (snd r) \<and>
     (\<forall>s. fst r = Some s \<longrightarrow> s \<in> starts g \<and> (keep \<longrightarrow> exec (it_st (snd r)) = exec (it_st it)))"

lemma run_cond_ok:
  assumes "mem_ok env" and "quiet keep insts" and G: "graph_ok insts g" and it: "interp_ok it" and bi: "bi < length (cfg_blocks g)"
    and t: "bb_term (cfg_blocks g ! bi) = Cond c taken fall"
  shows "run_ok (next_ok keep g it) (run_cond env insts g cap bi c taken fall it)"
proof (cases "fall = usize_MAX")
  case True
  then show ?thesis using graph_okD(4)[OF G bi t] iframe_refl[OF it] by (simp add: run_cond_def next_ok_def)
next
  case False
  note arms = run_arm_stays[OF assms(1-3)] and T = graph_okD(4)[OF G bi t] and F = graph_okD(5)[OF G bi t False]
  let ?e = "exec (it_st it)" and ?m = "taken_mask c (it_st it)"
  have sub: "lane_set keep ?m \<subseteq> lane_set keep ?e" "lane_set keep (?e AND NOT ?m) \<subseteq> lane_set keep ?e"
    using taken_mask_sub[of c "it_st it"] by (auto simp: lane_set_def bit_and_iff)
  obtain mt where mt: "merge_target g bi = Some mt" using bi t by (simp add: merge_target_def get_def)
  have second: "run_ok (next_ok keep g it) (case r1 of (ended, it) \<Rightarrow> if ended then ok (None, it)
      else ibind (run_arm env insts g cap merge fall (?e AND NOT ?m) it) (\<lambda>(ended, it).
        if ended then ok (None, it) else ok (Some merge, set_exec ?e it)))"
    if r1: "iframe False (lane_set keep ?m) it (snd r1)" and merge: "merge \<in> starts g" for r1 merge
  proof -
    note f1 = iframe_mono[OF r1 sub(1), of False]
    have "run_ok (next_ok keep g it) (case r2 of (ended, it) \<Rightarrow> if ended then ok (None, it) else ok (Some merge, set_exec ?e it))"
      if r2: "iframe False (lane_set keep (?e AND NOT ?m)) (snd r1) (snd r2)" for r2
    proof -
      have "iframe False (lane_set keep ?e) it (snd r2)" by (rule iframe_trans[OF f1 r2]) (use sub in auto)
      then show ?thesis using merge by (cases r2) (simp add: next_ok_def iframe_set_exec)
    qed
    from run_ok_bind[OF arms[OF iframe_ok[OF r1] F] this]
    show ?thesis using f1 by (cases r1) (simp add: next_ok_def)
  qed
  show ?thesis
  proof (cases mt)
    case (Some merge)
    have "merge \<in> starts g" by (rule merge_target_start[OF G bi]) (simp add: mt Some)
    from run_ok_bind[OF arms[OF it T] second[OF _ this]] show ?thesis
      using False mt Some by (simp add: run_cond_def Let_def)
  qed (use False mt in \<open>simp add: run_cond_def\<close>)
qed

lemma next_block_ok:
  assumes "mem_ok env" and "quiet keep insts" and G: "graph_ok insts g" and it: "interp_ok it" and bi: "bi < length (cfg_blocks g)"
  shows "run_ok (next_ok keep g it) (next_block env insts g cap bi it)"
proof (cases "bb_term (cfg_blocks g ! bi)")
  case (Cond c taken fall)
  obtain lo where lo: "loop_of g bi = Some lo" using bi loop_of_total by blast
  show ?thesis
  proof (cases lo)
    case None
    then show ?thesis using run_cond_ok[OF assms Cond] Cond lo by (simp add: next_block_def)
  next
    case (Some li)
    note L = graph_okD(6,7)[OF G bi, of li]
    have "run_ok (next_ok keep g it) (case r of (ended, it) \<Rightarrow> ok (if ended then None else Some (li_merge li), it))"
      if r: "stays keep it r" for r
      using iframe_mono[OF r subset_refl, of False] r L(1) lo Some by (cases r) (simp add: next_ok_def iframe_def)
    from run_ok_bind[OF run_loop_stays[OF assms(1,2) G L(2) it] this] show ?thesis
      using Cond lo Some by (simp add: next_block_def)
  qed
qed (use graph_okD(2,3)[OF G bi] iframe_refl[OF it] in \<open>auto simp: next_block_def next_ok_def\<close>)

lemma walk_cfg_ok:
  assumes "mem_ok env" and "quiet keep insts" and G: "graph_ok insts g" and "interp_ok it" and "\<And>s. cur = Some s \<Longrightarrow> s \<in> starts g"
  shows "run_ok (iframe False (lane_set keep (exec (it_st it))) it) (walk_cfg env insts g cap n cur it)"
  using assms(4,5)
proof (induction n arbitrary: cur it)
  case 0
  then show ?case by (cases cur) (simp_all add: iframe_refl)
next
  case (Suc n)
  show ?case
  proof (cases cur)
    case (Some s)
    obtain bi where bi: "block_index_at g s = Some bi" "bi < length (cfg_blocks g)"
      by (rule block_index_at_start[of s g]) (use Suc.prems(2) Some in auto)
    let ?P = "iframe False (lane_set keep (exec (it_st it))) it"
    have nx: "run_ok ?P (ibind (next_block env insts g cap bi it1) (\<lambda>(cur, it). walk_cfg env insts g cap n cur it))"
      if f1: "iframe keep (lane_set keep (exec (it_st it))) it it1" for it1
    proof (rule run_ok_bind[OF next_block_ok[OF assms(1,2) G iframe_ok[OF f1] bi(2)]])
      fix r assume r: "next_ok keep g it1 r"
      have e: "lane_set keep (exec (it_st it1)) = lane_set keep (exec (it_st it))"
        using f1 by (cases keep) (simp_all add: iframe_def lane_set_def)
      have f2: "?P (snd r)"
        using iframe_trans[OF iframe_mono[OF f1 subset_refl, of False] conjunct1[OF r[unfolded next_ok_def]]] e by simp
      have "run_ok ?P (walk_cfg env insts g cap n (fst r) (snd r))"
      proof (cases "fst r")
        case (Some s')
        then have st: "s' \<in> starts g" "keep \<longrightarrow> exec (it_st (snd r)) = exec (it_st it1)" using r by (simp_all add: next_ok_def)
        then have "lane_set keep (exec (it_st (snd r))) = lane_set keep (exec (it_st it))" using e by (cases keep) (simp_all add: lane_set_def)
        then show ?thesis
          using run_ok_mono[OF Suc.IH[OF iframe_ok[OF f2], of "Some s'"] iframe_trans[OF f2]] st(1) Some by simp
      qed (use f2 in simp)
      then show "run_ok ?P (case r of (cur, it) \<Rightarrow> walk_cfg env insts g cap n cur it)" by (cases r) simp
    qed
    have "run_ok ?P (case r of (ended, it1) \<Rightarrow> if ended then ok it1
        else ibind (next_block env insts g cap bi it1) (\<lambda>(cur, it). walk_cfg env insts g cap n cur it))"
      if r: "stays keep it r" for r
      using nx[OF r] iframe_mono[OF r subset_refl, of False] by (cases r) simp
    from run_ok_bind[OF run_block_body_stays[OF assms(1,2) Suc.prems(1) graph_okD(1)[OF G bi(2)]] this]
    show ?thesis using bi(1) Some by simp
  qed (use iframe_refl[OF Suc.prems(1)] in simp)
qed

section \<open>Whole runs\<close>

lemma init_launch_ok: "wave_ok (fst (init_launch wave_new abi))"
  by (cases abi)
    (auto simp: init_launch_def wave_new_def wave_ok_def load_user_sgprs_def Let_def NUM_VGPRS_def WAVE_SIZE_def list_all_length
      nth_list_update min_def)

lemma execute_ok:
  assumes "mem_ok env" and "quiet keep insts" and "stream_ok insts" and "interp_ok it"
  shows "run_ok (iframe False (lane_set keep (exec (it_st it))) it) (execute env insts it)"
proof -
  obtain r where r: "build_cfg insts = Some r" using build_cfg_total[OF assms(3)] by auto
  show ?thesis
  proof (cases r)
    case (Inr g)
    have G: "graph_ok insts g" by (rule build_cfg_graph_ok[OF assms(3)]) (simp add: r Inr)
    have s: "s \<in> starts g" if "map_option bb_start (hd_opt (cfg_blocks g)) = Some s" for s
      using that by (cases "cfg_blocks g") (auto simp: hd_opt_def)
    note w = walk_cfg_ok[OF assms(1,2) G assms(4) s]
    show ?thesis unfolding execute_def execute_cfg_def r Inr option.case sum.case Let_def by (rule w)
  qed (simp add: execute_def r)
qed

text \<open>The lanes a launch makes live.\<close>

definition launch_exec :: "launch_abi \<Rightarrow> u64" where
  "launch_exec abi = exec (fst (init_launch wave_new abi))"

lemma interp_run_ok:
  assumes "mem_ok env" and "quiet keep insts" and "stream_ok insts"
  shows "run_ok (\<lambda>rs. list_all export_ok rs \<and> er_lane ` set rs \<subseteq> lane_set keep (launch_exec abi)) (interp_run env insts abi)"
proof -
  obtain st inp where l: "init_launch wave_new abi = (st, inp)" by fastforce
  let ?it = "\<lparr>it_st = st, it_inputs = inp, it_exports = []\<rparr>"
  have "interp_ok ?it" using init_launch_ok[of abi] by (simp add: interp_ok_def l)
  from run_ok_mono[OF execute_ok[OF assms this], of "\<lambda>it. list_all export_ok (it_exports it) \<and>
      er_lane ` set (it_exports it) \<subseteq> lane_set keep (launch_exec abi)"]
  have "run_ok (\<lambda>it. list_all export_ok (it_exports it) \<and> er_lane ` set (it_exports it) \<subseteq> lane_set keep (launch_exec abi))
      (execute env insts ?it)"
    by (simp add: iframe_def interp_ok_def launch_exec_def l)
  then show ?thesis unfolding interp_run_def l prod.case by (elim run_ok_bind) simp
qed

locale shader_memory =
  fixes rd :: "u64 \<Rightarrow> u64 \<Rightarrow> u8 list result"
  assumes read_length: "rd a n = Inr bs \<Longrightarrow> length bs = unat n"
begin

lemma env_ok: "mem_ok \<lparr>ie_f = F, ie_read = rd\<rparr>"
  using read_length by (simp add: mem_ok_def)

end

text \<open>The memory manager over the arena is such a memory.\<close>

interpretation vmm: shader_memory "read_bytes (flat_ops span) s" for span s
  by unfold_locales (auto simp: read_bytes_def flat_ops_def split: option.splits if_splits)

definition small_env :: interp_env where
  "small_env = \<lparr>ie_f = ieee_ops id (\<lambda>_. 0) (\<lambda>_. 0), ie_read = read_bytes (flat_ops 0x500000000) small_vm\<rparr>"

section \<open>Comparisons\<close>

text \<open>A source that does not read the mask a comparison writes.\<close>

definition reads_vcc :: "operand \<Rightarrow> bool" where
  "reads_vcc op \<longleftrightarrow> op = Special VccLo \<or> op = Special VccHi"

lemma read_src_lane_vcc: "\<not> reads_vcc op \<Longrightarrow> read_src_lane (st\<lparr>vcc := v\<rparr>) op lane off = read_src_lane st op lane off"
  by (auto simp: read_src_lane_def read_scalar_def vgpr_def sgpr_def reads_vcc_def split: operand.splits special_reg.splits)

lemma bit_write_vcc:
  fixes w :: u64
  assumes "l < 64" "k < 64"
  shows "bit (if b then w OR push_bit l 1 else w AND NOT (push_bit l 1)) k = (if k = l then b else bit w k)"
  using assms by (auto simp: bit_or_iff bit_and_iff bit_not_iff bit_exp_iff)

definition vopc_step :: "f32_ops \<Rightarrow> u8 \<Rightarrow> operand \<Rightarrow> operand \<Rightarrow> u32 \<Rightarrow> nat \<Rightarrow> wave_state \<Rightarrow> wave_state run" where
  "vopc_step F op src0 vsrc1 off lane st =
     (if \<not> lane_live st lane then write_predicate_bit (Special VccLo) lane False off st
      else ibind (read_src_lane st src0 lane off) (\<lambda>a. ibind (read_src_lane st vsrc1 lane off) (\<lambda>b.
             ibind (eval_f32_compare F op a b off) (\<lambda>r. write_predicate_bit (Special VccLo) lane r off st))))"

text \<open>The bit a lane gets, from the operands of the state before the instruction.\<close>

definition vopc_bit :: "f32_ops \<Rightarrow> u8 \<Rightarrow> operand \<Rightarrow> operand \<Rightarrow> u32 \<Rightarrow> wave_state \<Rightarrow> nat \<Rightarrow> bool \<Rightarrow> bool" where
  "vopc_bit F op src0 vsrc1 off st lane b =
     (if lane_live st lane
      then \<exists>x y. read_src_lane st src0 lane off = ok x \<and> read_src_lane st vsrc1 lane off = ok y \<and> eval_f32_compare F op x y off = ok b
      else \<not> b)"

lemma vopc_step_mask:
  assumes "\<not> reads_vcc src0" and "\<not> reads_vcc vsrc1" and "lane < 64"
    and "vopc_step F op src0 vsrc1 off lane (st\<lparr>vcc := v\<rparr>) = ok st'"
  shows "\<exists>w b. st' = st\<lparr>vcc := w\<rparr> \<and> vopc_bit F op src0 vsrc1 off st lane b \<and> (\<forall>k < 64. bit w k = (if k = lane then b else bit v k))"
proof -
  have l: "lane_live (st\<lparr>vcc := v\<rparr>) lane = lane_live st lane" by (simp add: lane_live_def)
  have w: "st' = st\<lparr>vcc := if b then v OR push_bit lane 1 else v AND NOT (push_bit lane 1)\<rparr>"
    if "write_predicate_bit (Special VccLo) lane b off (st\<lparr>vcc := v\<rparr>) = ok st'" for b
    using that by (cases b) (auto simp: write_predicate_bit_def)
  obtain b where b: "write_predicate_bit (Special VccLo) lane b off (st\<lparr>vcc := v\<rparr>) = ok st'" "vopc_bit F op src0 vsrc1 off st lane b"
    using assms(4) unfolding vopc_step_def l vopc_bit_def
    by (auto simp: ibind_ok read_src_lane_vcc[OF assms(1)] read_src_lane_vcc[OF assms(2)] split: if_splits)
  show ?thesis using w[OF b(1)] b(2) bit_write_vcc[OF assms(3)] by blast
qed

lemma vopc_lanes:
  assumes "\<not> reads_vcc src0" and "\<not> reads_vcc vsrc1" and "distinct ls" and "list_all (\<lambda>l. l < 64) ls"
    and "for_each (vopc_step F op src0 vsrc1 off) ls (st\<lparr>vcc := v\<rparr>) = ok st'"
  shows "\<exists>w. st' = st\<lparr>vcc := w\<rparr> \<and> (\<forall>k < 64. if k \<in> set ls then vopc_bit F op src0 vsrc1 off st k (bit w k) else bit w k = bit v k)"
  using assms(3-5)
proof (induction ls arbitrary: v)
  case (Cons l ls)
  obtain s1 where s1: "vopc_step F op src0 vsrc1 off l (st\<lparr>vcc := v\<rparr>) = ok s1" "for_each (vopc_step F op src0 vsrc1 off) ls s1 = ok st'"
    using Cons.prems(3) by (auto simp: ibind_ok)
  obtain u b where u: "s1 = st\<lparr>vcc := u\<rparr>" "vopc_bit F op src0 vsrc1 off st l b" "\<forall>k < 64. bit u k = (if k = l then b else bit v k)"
    using vopc_step_mask[OF assms(1,2) _ s1(1)] Cons.prems(2) by auto
  obtain w where w: "st' = st\<lparr>vcc := w\<rparr>" "\<forall>k < 64. if k \<in> set ls then vopc_bit F op src0 vsrc1 off st k (bit w k) else bit w k = bit u k"
    using Cons.IH[of u] Cons.prems s1(2) u(1) by auto
  have "if k \<in> set (l # ls) then vopc_bit F op src0 vsrc1 off st k (bit w k) else bit w k = bit v k" if "k < 64" for k
    using w(2)[rule_format, OF that] u(2) u(3)[rule_format, OF that] Cons.prems(1) by (cases "k = l") (auto split: if_splits)
  then show ?case using w(1) by blast
qed (auto intro: exI[of _ v])

text \<open>
  A source that is VCC reads the bits the earlier lanes have already written: comparing VCC with zero
  when both are zero gives a set bit for lane 0 only, although both lanes compare the same scalar.
\<close>

lemma vopc_reads_partial_mask:
  assumes "fo_eq F 0 0" and "\<not> fo_eq F 1 0"
  shows "exec_vopc F 2 (Special VccLo) (Vgpr 0) off (wave_new\<lparr>exec := 3, vcc := 0\<rparr>) = ok (wave_new\<lparr>exec := 3, vcc := 1\<rparr>)"
proof -
  let ?st = "\<lambda>v. wave_new\<lparr>exec := 3, vcc := v\<rparr>" and ?step = "vopc_step F 2 (Special VccLo) (Vgpr 0) off"
  have "bit (3 :: u64) l \<longleftrightarrow> l < 2" for l by (cases l; cases "l - 1") (simp_all add: bit_numeral_rec(2) numeral_3_eq_3 bit_Suc)
  then have live: "lane_live (?st v) l \<longleftrightarrow> l < 2" for v l by (simp add: lane_live_bit)
  have rd: "read_src_lane (?st v) (Vgpr 0) l off = ok 0" if "l < 2" for v l
    using that by (simp add: read_src_lane_def vgpr_def wave_new_def NUM_VGPRS_def WAVE_SIZE_def get_def)
  have first: "?step 0 (?st 0) = ok (?st 1)" "?step 1 (?st 1) = ok (?st 1)"
    by (simp_all add: vopc_step_def live rd eval_f32_compare_def assms write_predicate_bit_def read_src_lane_def[of _ "Special VccLo"] read_scalar_def)
  have "(1 :: u64) AND NOT (push_bit l 1) = 1" if "2 \<le> l" for l
    by (rule bit_eqI) (use that in \<open>auto simp: bit_and_iff bit_not_iff bit_exp_iff bit_1_iff\<close>)
  then have "?step l (?st 1) = ok (?st 1)" if "2 \<le> l" for l
    using that by (simp add: vopc_step_def live write_predicate_bit_def)
  then have tail: "for_each ?step ls (?st 1) = ok (?st 1)" if "list_all (\<lambda>l. 2 \<le> l) ls" for ls
    using that by (induction ls) simp_all
  have tail: "for_each ?step [2..<64] (?st 1) = ok (?st 1)" by (rule tail) (auto simp: list_all_iff)
  have "[0..<64] = 0 # 1 # [2..<64]" by (simp add: upt_conv_Cons)
  then have "for_each ?step [0..<64] (?st 0) = ok (?st 1)" by (simp only: for_each.simps first ibind_simps tail)
  moreover have "eval_f32_compare F 2 0 0 off = ok True" by (simp add: eval_f32_compare_def assms)
  ultimately show ?thesis unfolding exec_vopc_def lanes_def vopc_step_def[symmetric] WAVE_SIZE_def by simp
qed

section \<open>Small programs\<close>

definition decoded_at :: "u32 \<Rightarrow> inst \<Rightarrow> decoded" where
  "decoded_at off i = \<lparr>inst = i, size_dwords = 1, offset_dwords = off\<rparr>"

text \<open>An export of nothing, and a branch over an instruction.\<close>

definition exp_prog :: "decoded list" where
  "exp_prog = [decoded_at 0 (Exp (Param 0) [None, None, None, None] False False False), sopp_at 1 1 0]"

definition if_prog :: "decoded list" where
  "if_prog = [sopp_at 0 6 1, sopp_at 1 0 0, sopp_at 2 1 0]"

lemma exec_exp_empty:
  "exec_exp F target [None, None, None, None] compr off it =
     ok (it\<lparr>it_exports := it_exports it @ map (\<lambda>l. \<lparr>er_lane = l, er_target = target, er_values = [0, 0, 0, 0]\<rparr>)
        (filter (lane_live (it_st it)) [0..<WAVE_SIZE])\<rparr>)"
proof -
  have v: "export_values F st [None, None, None, None] compr lane off = ok [0, 0, 0, 0]" for st lane
    by (simp add: export_values_def upt_rec numeral_2_eq_2)
  have "for_each (\<lambda>lane it. if \<not> lane_live (it_st it) lane then ok it
      else ok (it\<lparr>it_exports := it_exports it @ [\<lparr>er_lane = lane, er_target = target, er_values = [0, 0, 0, 0]\<rparr>]\<rparr>)) ls it =
    ok (it\<lparr>it_exports := it_exports it @ map (\<lambda>l. \<lparr>er_lane = l, er_target = target, er_values = [0, 0, 0, 0]\<rparr>)
        (filter (lane_live (it_st it)) ls)\<rparr>)" for ls
    by (induction ls arbitrary: it) simp_all
  then show ?thesis unfolding exec_exp_def v ibind_simps .
qed

definition exp_graph :: cfg where
  "exp_graph = \<lparr>cfg_blocks = [\<lparr>bb_start = 0, bb_insts = [0, 1], bb_term = Return\<rparr>]\<rparr>"

lemma exp_prog_graph: "build_cfg exp_prog = Some (Inr exp_graph)"
  by code_simp

definition if_graph :: cfg where
  "if_graph = \<lparr>cfg_blocks = [\<lparr>bb_start = 0, bb_insts = [0], bb_term = Cond Vccz 2 1\<rparr>,
     \<lparr>bb_start = 1, bb_insts = [1], bb_term = Fallthrough 2\<rparr>, \<lparr>bb_start = 2, bb_insts = [2], bb_term = Return\<rparr>]\<rparr>"

lemma if_prog_graph: "build_cfg if_prog = Some (Inr if_graph)"
  by code_simp

lemma if_prog_merge: "merge_target if_graph 0 = Some (Some 2)"
  by code_simp

lemma exp_prog_run:
  "interp_run env exp_prog abi = ok (map (\<lambda>l. \<lparr>er_lane = l, er_target = Param 0, er_values = [0, 0, 0, 0]\<rparr>)
     (filter (bit (launch_exec abi)) [0..<WAVE_SIZE]))"
proof -
  obtain st inp where l: "init_launch wave_new abi = (st, inp)" by fastforce
  have e: "lane_live (st\<lparr>pc := 0\<rparr>) = bit (exec st)" by (rule ext) (simp add: lane_live_bit)
  show ?thesis
    unfolding interp_run_def l prod.case execute_def exp_prog_graph option.case sum.case execute_cfg_def Let_def
    by (simp add: exp_graph_def hd_opt_def block_index_at_def numeral_eq_Suc)
      (simp add: exp_prog_def get_def decoded_at_def sopp_at_def is_endpgm_def is_cfg_branch_def exec_one_def Let_def
        exec_exp_empty e launch_exec_def l S_ENDPGM_def)
qed

lemma if_prog_arm: "run_region env if_prog if_graph 2 (Suc (Suc k)) (Suc 0) it = ok (False, it\<lparr>it_st := (it_st it)\<lparr>pc := 1\<rparr>\<rparr>)"
proof -
  have "block_index_at if_graph (Suc 0) = Some 1" by code_simp
  moreover have "run_block_body env if_prog [Suc 0] it = ok (False, it\<lparr>it_st := (it_st it)\<lparr>pc := 1\<rparr>\<rparr>)"
    by (simp add: if_prog_def get_def sopp_at_def is_endpgm_def S_ENDPGM_def S_NOP_def Let_def)
  ultimately show ?thesis by (simp add: if_graph_def)
qed

text \<open>A wave with the given EXEC and VCC, before any instruction.\<close>

definition fresh_wave :: "u64 \<Rightarrow> u64 \<Rightarrow> interp_state" where
  "fresh_wave e v = \<lparr>it_st = wave_new\<lparr>exec := e, vcc := v\<rparr>, it_inputs = snd (init_launch wave_new (Vertex [] 0 0)), it_exports = []\<rparr>"

lemma fresh_wave_ok: "interp_ok (fresh_wave e v)"
  by (simp add: fresh_wave_def interp_ok_def wave_ok_def wave_new_def list_all_length)

definition exp_after :: interp_state where
  "exp_after = (fresh_wave 5 0)\<lparr>it_exports := map (\<lambda>l. \<lparr>er_lane = l, er_target = Param 0, er_values = [0, 0, 0, 0]\<rparr>)
     (filter (lane_live (it_st (fresh_wave 5 0))) [0..<WAVE_SIZE])\<rparr>"

section \<open>Properties\<close>

text \<open>
  C20. The interpreter never panics and always ends: on every decoded stream, every launch and every
  memory whose reads give as many bytes as asked for, it returns its exports or a structured error,
  whatever operands, register numbers, branches and loops the shader has. Every export names a lane
  of the wave and has four values.
\<close>

theorem interp_never_panics:
  assumes "mem_ok env" and "stream_ok insts"
  shows "\<exists>r. interp_run env insts abi = Some r \<and> (case r of Inl _ \<Rightarrow> True | Inr rs \<Rightarrow> list_all export_ok rs)"
  using interp_run_ok[OF assms(1) _ assms(2), of False abi]
  by (auto simp: run_ok_def quiet_def split: option.splits sum.splits)

theorem interp_never_panics_witness:
  "\<exists>r. interp_run small_env loop_prog (Vertex [] 0 4) = Some r \<and> (case r of Inl _ \<Rightarrow> True | Inr rs \<Rightarrow> list_all export_ok rs)"
  unfolding small_env_def by (rule interp_never_panics[OF vmm.env_ok loop_prog_ok])

text \<open>
  C22. A lane that the launch left masked off exports nothing: in a shader without a write to EXEC, the
  branches, the loops and their reconvergence only ever narrow the mask and restore it, so every
  export comes from a lane that was live at launch.
\<close>

theorem launch_lanes_only:
  assumes "mem_ok env" and "stream_ok insts" and "list_all (\<lambda>d. \<not> writes_exec d) insts" and "interp_run env insts abi = ok rs"
  shows "\<forall>r \<in> set rs. bit (launch_exec abi) (er_lane r)"
  using interp_run_ok[OF assms(1) _ assms(2), of True abi] assms(3,4) by (auto simp: quiet_def lane_set_def)

theorem launch_lanes_only_witness:
  "\<exists>rs. interp_run small_env exp_prog (Vertex [] 0 2) = ok rs \<and> rs \<noteq> [] \<and> list_all (\<lambda>r. bit (launch_exec (Vertex [] 0 2)) (er_lane r)) rs"
proof -
  let ?abi = "Vertex [] 0 2"
  have e: "launch_exec ?abi = 3" by (simp add: launch_exec_def init_launch_def wave_new_def WAVE_SIZE_def Let_def)
  have "mem_ok small_env" unfolding small_env_def by (rule vmm.env_ok)
  moreover have "stream_ok exp_prog" "list_all (\<lambda>d. \<not> writes_exec d) exp_prog"
    by (simp_all add: exp_prog_def decoded_at_def sopp_at_def writes_exec_def)
  ultimately have "\<forall>r \<in> set (map (\<lambda>l. \<lparr>er_lane = l, er_target = Param 0, er_values = [0, 0, 0, 0]\<rparr>)
      (filter (bit (launch_exec ?abi)) [0..<WAVE_SIZE])). bit (launch_exec ?abi) (er_lane r)"
    by (rule launch_lanes_only[OF _ _ _ exp_prog_run])
  moreover have "0 \<in> set (filter (bit (launch_exec ?abi)) [0..<WAVE_SIZE])" by (simp add: e WAVE_SIZE_def)
  ultimately show ?thesis unfolding exp_prog_run list_all_iff by fastforce
qed

text \<open>
  C23. One instruction respects the shape of the register file and the execute mask: the number of
  scalar and vector registers and of lanes stays, the vector registers of a masked-off lane do not
  change, and an instruction exports exactly when it is an export, then once per live lane in the
  order of the lanes.
\<close>

theorem exec_one_masked:
  assumes "mem_ok env" and "interp_ok it" and "exec_one env d it = ok it'"
  shows "interp_ok it' \<and> (\<forall>n l. \<not> lane_live (it_st it) l \<longrightarrow> vgprs (it_st it') ! n ! l = vgprs (it_st it) ! n ! l) \<and>
    (\<exists>new. it_exports it' = it_exports it @ new \<and>
       map er_lane new = (case inst d of Exp _ _ _ _ _ \<Rightarrow> filter (lane_live (it_st it)) [0..<WAVE_SIZE] | _ \<Rightarrow> []))"
proof -
  have f: "iframe (\<not> writes_exec d) (live_lanes (it_st it)) it it'"
    using exec_one_iframe[OF assms(1,2), of d] assms(3) by simp
  have "\<exists>new. it_exports it' = it_exports it @ new \<and>
      map er_lane new = (case inst d of Exp _ _ _ _ _ \<Rightarrow> filter (lane_live (it_st it)) [0..<WAVE_SIZE] | _ \<Rightarrow> [])"
  proof (cases "inst d")
    case (Exp target srcs don compr vm)
    have "exec_exp (ie_f env) target srcs compr (offset_dwords d) it = ok it'"
      using assms(3) Exp by (simp add: exec_one_def Let_def)
    then show ?thesis using exec_exp_records[OF assms(2), of target "ie_f env" srcs compr "offset_dwords d"] Exp by auto
  qed (use assms(3) in \<open>auto simp: exec_one_def on_wave_def Let_def ibind_ok\<close>)
  then show ?thesis using f by (simp add: iframe_def live_lanes_def)
qed

theorem exec_one_masked_witness:
  "exec_one small_env (decoded_at 0 (Exp (Param 0) [None, None, None, None] False False False)) (fresh_wave 5 0) = ok exp_after \<and>
   interp_ok exp_after \<and> (\<forall>n. vgprs (it_st exp_after) ! n ! 1 = vgprs (it_st (fresh_wave 5 0)) ! n ! 1) \<and>
   (\<exists>new. it_exports exp_after = it_exports (fresh_wave 5 0) @ new \<and> map er_lane new = filter (lane_live (it_st (fresh_wave 5 0))) [0..<WAVE_SIZE])"
proof -
  let ?d = "decoded_at 0 (Exp (Param 0) [None, None, None, None] False False False)"
  have m: "mem_ok small_env" unfolding small_env_def by (rule vmm.env_ok)
  have x: "exec_one small_env ?d (fresh_wave 5 0) = ok exp_after"
    by (simp add: exec_one_def decoded_at_def exec_exp_empty exp_after_def fresh_wave_def Let_def)
  have "\<not> lane_live (it_st (fresh_wave 5 0)) 1" by (simp add: lane_live_def fresh_wave_def)
  then show ?thesis using exec_one_masked[OF m fresh_wave_ok x] x by (simp add: decoded_at_def)
qed

text \<open>
  A comparison builds the whole mask: afterwards bit $l$ of VCC is the result of comparing the
  operands of lane $l$ when that lane is live and zero when it is not, and nothing else has changed.
  The sources must not be VCC itself.
\<close>

theorem vopc_builds_mask:
  assumes "exec_vopc F op src0 vsrc1 off st = ok st'" and "\<not> reads_vcc src0" and "\<not> reads_vcc vsrc1"
  shows "\<exists>w. st' = st\<lparr>vcc := w\<rparr> \<and> (\<forall>l < 64. vopc_bit F op src0 vsrc1 off st l (bit w l))"
proof -
  have "for_each (vopc_step F op src0 vsrc1 off) [0..<64] (st\<lparr>vcc := vcc st\<rparr>) = ok st'"
    using assms(1) unfolding exec_vopc_def lanes_def vopc_step_def[symmetric] WAVE_SIZE_def by (auto simp: ibind_ok)
  from vopc_lanes[OF assms(2,3) _ _ this] show ?thesis by (auto simp: list_all_length)
qed

theorem vopc_builds_mask_witness:
  "\<exists>st' w. exec_vopc (ie_f small_env) 1 (Vgpr 0) (Vgpr 1) 0 (wave_new\<lparr>exec := 0, vcc := 7\<rparr>) = ok st' \<and>
     st' = (wave_new\<lparr>exec := 0, vcc := 7\<rparr>)\<lparr>vcc := w\<rparr> \<and>
     (\<forall>l < 64. vopc_bit (ie_f small_env) 1 (Vgpr 0) (Vgpr 1) 0 (wave_new\<lparr>exec := 0, vcc := 7\<rparr>) l (bit w l))"
proof -
  have "\<exists>st'. exec_vopc (ie_f small_env) 1 (Vgpr 0) (Vgpr 1) 0 (wave_new\<lparr>exec := 0, vcc := 7\<rparr>) = ok st'"
    by (simp add: exec_vopc_def lanes_def lane_live_def write_predicate_bit_def WAVE_SIZE_def upt_rec eval_f32_compare_def)
  then obtain st' where st': "exec_vopc (ie_f small_env) 1 (Vgpr 0) (Vgpr 1) 0 (wave_new\<lparr>exec := 0, vcc := 7\<rparr>) = ok st'" ..
  show ?thesis using vopc_builds_mask[OF st'] st' by (auto simp: reads_vcc_def)
qed

text \<open>
  C21. A divergent branch isolates its lanes: in a shader without a write to EXEC the taken arm runs
  under the lanes that take the branch and the other arm under the remaining live ones, each of them
  leaves the registers of the other's lanes and of the dead lanes alone, so that at the merge every
  lane has exactly the registers its own arm gave it, and EXEC is what it was before the branch.
\<close>

theorem branch_isolates:
  assumes "mem_ok env" and "stream_ok insts" and "list_all (\<lambda>d. \<not> writes_exec d) insts"
    and "build_cfg insts = Some (Inr g)" and "bi < length (cfg_blocks g)" and "bb_term (cfg_blocks g ! bi) = Cond c taken fall"
    and "fall \<noteq> usize_MAX" and "interp_ok it" and "run_cond env insts g cap bi c taken fall it = ok (Some m, it')"
  shows "exec (it_st it') = exec (it_st it) \<and>
    (\<exists>it1 it2. run_arm env insts g cap m taken (taken_mask c (it_st it)) it = ok (False, it1) \<and>
       run_arm env insts g cap m fall (exec (it_st it) AND NOT (taken_mask c (it_st it))) it1 = ok (False, it2) \<and>
       (\<forall>n l. bit (exec (it_st it)) l \<and> \<not> bit (taken_mask c (it_st it)) l \<longrightarrow> vgprs (it_st it1) ! n ! l = vgprs (it_st it) ! n ! l) \<and>
       (\<forall>n l. vgprs (it_st it') ! n ! l =
          (if bit (taken_mask c (it_st it)) l then vgprs (it_st it1) ! n ! l
           else if bit (exec (it_st it)) l then vgprs (it_st it2) ! n ! l else vgprs (it_st it) ! n ! l)))"
proof -
  let ?e = "exec (it_st it)" and ?m = "taken_mask c (it_st it)"
  have q: "quiet True insts" using assms(3) by (simp add: quiet_def)
  note G = build_cfg_graph_ok[OF assms(2,4)]
  note arms = run_arm_stays[OF assms(1) q G]
  obtain it1 it2 where r: "run_arm env insts g cap m taken ?m it = ok (False, it1)"
      "run_arm env insts g cap m fall (?e AND NOT ?m) it1 = ok (False, it2)" "it' = set_exec ?e it2"
    using run_cond_arms[OF assms(7,9)] by blast
  have f1: "iframe False {l. bit ?m l} it it1"
    using arms[OF assms(8) graph_okD(4)[OF G assms(5,6)], where m = ?m and merge = m and cap = cap] r(1) by (simp add: lane_set_def)
  have f2: "iframe False {l. bit (?e AND NOT ?m) l} it1 it2"
    using arms[OF iframe_ok[OF f1] graph_okD(5)[OF G assms(5,6,7)], where m = "?e AND NOT ?m" and merge = m and cap = cap] r(2)
    by (simp add: lane_set_def)
  have "vgprs (it_st it1) ! n ! l = vgprs (it_st it) ! n ! l" if "\<not> bit ?m l" for n l
    using f1 that unfolding iframe_def by simp
  moreover have "vgprs (it_st it2) ! n ! l = vgprs (it_st it1) ! n ! l" if "bit ?m l \<or> \<not> bit ?e l" for n l
    using f2 that unfolding iframe_def by (auto simp: bit_and_iff bit_not_iff)
  ultimately have "\<forall>n l. bit ?e l \<and> \<not> bit ?m l \<longrightarrow> vgprs (it_st it1) ! n ! l = vgprs (it_st it) ! n ! l"
      "\<forall>n l. vgprs (it_st it') ! n ! l = (if bit ?m l then vgprs (it_st it1) ! n ! l
         else if bit ?e l then vgprs (it_st it2) ! n ! l else vgprs (it_st it) ! n ! l)"
    unfolding r(3) set_exec_simps by simp_all
  moreover have "exec (it_st it') = ?e" by (simp add: r(3))
  ultimately show ?thesis using r(1,2) by blast
qed

theorem branch_isolates_witness:
  "\<exists>it'. run_cond small_env if_prog if_graph 16 0 Vccz 2 1 (fresh_wave 3 1) = ok (Some 2, it') \<and> exec (it_st it') = 3"
proof -
  have m: "mem_ok small_env" unfolding small_env_def by (rule vmm.env_ok)
  have s: "stream_ok if_prog" "list_all (\<lambda>d. \<not> writes_exec d) if_prog"
    by (simp_all add: if_prog_def sopp_at_def writes_exec_def)
  have b: "0 < length (cfg_blocks if_graph)" "bb_term (cfg_blocks if_graph ! 0) = Cond Vccz 2 1" "(1 :: nat) \<noteq> usize_MAX"
    by (simp_all add: if_graph_def usize_MAX_def)
  have a: "run_region small_env if_prog if_graph 2 16 (Suc 0) it = ok (False, it\<lparr>it_st := (it_st it)\<lparr>pc := 1\<rparr>\<rparr>)" for it
    using if_prog_arm[where k = 14 and it = it and env = small_env] by simp
  obtain it' where r: "run_cond small_env if_prog if_graph 16 0 Vccz 2 1 (fresh_wave 3 1) = ok (Some 2, it')"
    using b(3) by (simp add: run_cond_def if_prog_merge run_arm_def taken_mask_def fresh_wave_def Let_def a)
  show ?thesis using branch_isolates[OF m s if_prog_graph b fresh_wave_ok r] r by (simp add: fresh_wave_def)
qed

end
