(* ===== verification/Direct_Memory.thy ===== *)
theory Direct_Memory
  imports Guest_Memory
begin

text \<open>
  The process's view of memory: \<^verbatim>\<open>crates/kernel/src/process.rs\<close>. The direct-memory pool hands out
  physical offsets (\<open>DirectMemory\<close>), maps them at fixed virtual addresses and releases them by
  offset; \<open>mmap\<close> and \<open>munmap\<close> are the guest's calls on the memory manager of \<open>Guest_Memory\<close>; the
  per-thread TLS arenas are a memo table on top. The theory shows that live reservations stay
  disjoint, that an offset is never handed out twice, what a release frees and how it goes
  wrong when its end wraps, what the largest-run query promises of the allocator, and that a
  thread keeps its TLS arena.
\<close>

section \<open>The pool\<close>

definition DIRECT_MEMORY_PAGE :: u64 where "DIRECT_MEMORY_PAGE = 0x1000"

record direct_memory =
  next_off :: u64
  reservations :: "(u64, u64) btree"

definition dm_default :: direct_memory where
  "dm_default = \<lparr>next_off = 0, reservations = []\<rparr>"

definition phys_to_va :: "u64 \<Rightarrow> u64" where
  "phys_to_va off = DIRECT_MEMORY_POOL_BASE + off"

definition dm_allocate :: "direct_memory \<Rightarrow> u64 \<Rightarrow> u64 \<Rightarrow> direct_memory \<times> u64 option" where
  "dm_allocate dm len align =
     (case checked_next_multiple_of (max len DIRECT_MEMORY_PAGE) DIRECT_MEMORY_PAGE of
        None \<Rightarrow> (dm, None)
      | Some len' \<Rightarrow>
          (let align' = max align DIRECT_MEMORY_PAGE;
               off = next_multiple_of (next_off dm) align'
           in case checked_add off len' of
                None \<Rightarrow> (dm, None)
              | Some e \<Rightarrow>
                  if e \<le> DIRECT_MEMORY_POOL_SIZE
                  then (dm\<lparr>next_off := e,
                           reservations := bt_insert off len' (reservations dm)\<rparr>, Some off)
                  else (dm, None)))"

text \<open>The body of the loop over the overlapping reservations.\<close>

definition trim_one :: "u64 \<Rightarrow> u64 \<Rightarrow> u64 \<times> u64 \<Rightarrow> (u64, u64) btree \<Rightarrow> (u64, u64) btree" where
  "trim_one start e p m =
     (let (ro, rl) = p;
          m1 = bt_remove ro m;
          re = ro + rl;
          m2 = (if ro < start then bt_insert ro (start - ro) m1 else m1)
      in if re > e then bt_insert e (re - e) m2 else m2)"

definition trim_reservations :: "direct_memory \<Rightarrow> u64 \<Rightarrow> u64 \<Rightarrow> direct_memory" where
  "trim_reservations dm start e =
     (let overlapping = filter (\<lambda>(ro, rl). ro < e \<and> ro + rl > start) (bt_range_lt (reservations dm) e)
      in dm\<lparr>reservations := fold (trim_one start e) overlapping (reservations dm)\<rparr>)"

definition take_for_release :: "direct_memory \<Rightarrow> u64 \<Rightarrow> u64 \<Rightarrow> direct_memory \<times> (u64 \<times> u64) option" where
  "take_for_release dm off len =
     (if off \<ge> DIRECT_MEMORY_POOL_SIZE then (dm, None)
      else
        (let rounded = next_multiple_of len DIRECT_MEMORY_PAGE;
             free_len =
               (if rounded = 0
                then (case bt_last_le (reservations dm) off of
                        Some (ro, rl) \<Rightarrow>
                          if ro \<le> off \<and> off < ro + rl then ro + rl - off else DIRECT_MEMORY_PAGE
                      | None \<Rightarrow> DIRECT_MEMORY_PAGE)
                else rounded);
             rel_start = off;
             rel_end = min (off + free_len) DIRECT_MEMORY_POOL_SIZE
         in (trim_reservations dm rel_start rel_end, Some (phys_to_va off, rel_end - rel_start))))"

definition available_direct_memory :: "direct_memory \<Rightarrow> u64 \<Rightarrow> u64 \<Rightarrow> u64 \<Rightarrow> (u64 \<times> u64) option" where
  "available_direct_memory dm search_start search_end align =
     (let align' = max align DIRECT_MEMORY_PAGE in
      case checked_next_multiple_of (max search_start (next_off dm)) align' of
        None \<Rightarrow> None
      | Some start \<Rightarrow>
          if start < DIRECT_MEMORY_POOL_SIZE
          then (let e = (if search_end = 0 then DIRECT_MEMORY_POOL_SIZE
                         else min search_end DIRECT_MEMORY_POOL_SIZE)
                in if start < e then Some (start, e - start) else None)
          else None)"

section \<open>The process\<close>

text \<open>
  The state of \<^verbatim>\<open>Process\<close> these calls use. \<open>proc_notified\<close> records the ranges handed to the GPU
  cache's free sink, in order.
\<close>

record 'ram process =
  proc_memory :: "'ram vmm"
  direct_mem :: direct_memory
  tls_arenas :: "(u32 \<times> u64) list"
  proc_notified :: "(u64 \<times> u64) list"

definition guest_protection :: "u32 \<Rightarrow> memory_protection" where
  "guest_protection prot =
     (if prot AND 1 \<noteq> 0 then PROT_READ else 0) OR
     (if prot AND 2 \<noteq> 0 then PROT_WRITE else 0) OR
     (if prot AND 4 \<noteq> 0 then PROT_EXEC else 0)"

text \<open>
  \<^verbatim>\<open>mmap_aligned\<close>. \<open>pread\<close> is the file system's positional read: for an fd, an offset and a number
  of bytes it gives the bytes read (at most that many) or an error. The outer \<open>None\<close> is a search
  for a free region that does not end. The populated region is written through the identity
  mapping, so the write does not fail.
\<close>

definition mmap_aligned ::
  "'ram ram_ops \<Rightarrow> (u32 \<Rightarrow> u64 \<Rightarrow> nat \<Rightarrow> u32 + u8 list) \<Rightarrow> 'ram process \<Rightarrow>
   u64 \<Rightarrow> u64 \<Rightarrow> u64 \<Rightarrow> u32 \<Rightarrow> u32 \<Rightarrow> u32 \<Rightarrow> u64 \<Rightarrow> ('ram process \<times> (nat + u64)) option" where
  "mmap_aligned ops pread p addr len align prot flags fd offset =
     (let target_addr = (if flags AND 0x10 = 0x10 then addr else 0) in
      case map_aligned ops (proc_memory p) target_addr len align (guest_protection prot)
             (Some ''guest_mmap'') of
        None \<Rightarrow> None
      | Some (m, Inl _) \<Rightarrow> Some (p\<lparr>proc_memory := m\<rparr>, Inl 12)
      | Some (m, Inr ptr) \<Rightarrow>
          if 0 \<le> sint fd \<and> flags AND 0x1000 = 0 then
            (case pread fd (if sint offset < 0 then 0 else offset) (unat len) of
               Inr bs \<Rightarrow>
                 (let region = bs @ replicate (unat len - length bs) 0
                  in Some (p\<lparr>proc_memory := fst (write_bytes ops m ptr region)\<rparr>, Inr ptr))
             | Inl _ \<Rightarrow> Some (p\<lparr>proc_memory := fst (unmap ops m ptr len)\<rparr>, Inl 9))
          else Some (p\<lparr>proc_memory := m\<rparr>, Inr ptr))"

definition proc_mmap ::
  "'ram ram_ops \<Rightarrow> (u32 \<Rightarrow> u64 \<Rightarrow> nat \<Rightarrow> u32 + u8 list) \<Rightarrow> 'ram process \<Rightarrow>
   u64 \<Rightarrow> u64 \<Rightarrow> u32 \<Rightarrow> u32 \<Rightarrow> u32 \<Rightarrow> u64 \<Rightarrow> ('ram process \<times> (nat + u64)) option" where
  "proc_mmap ops pread p addr len prot flags fd offset =
     mmap_aligned ops pread p addr len 0 prot flags fd offset"

definition proc_munmap :: "'ram ram_ops \<Rightarrow> 'ram process \<Rightarrow> u64 \<Rightarrow> u64 \<Rightarrow> 'ram process \<times> (nat + nat)" where
  "proc_munmap ops p addr len =
     (case unmap ops (proc_memory p) addr len of
        (m, Inr _) \<Rightarrow> (p\<lparr>proc_memory := m, proc_notified := proc_notified p @ [(addr, len)]\<rparr>, Inr 0)
      | (m, Inl _) \<Rightarrow> (p\<lparr>proc_memory := m\<rparr>, Inl 22))"

definition allocate_direct_memory :: "'ram process \<Rightarrow> u64 \<Rightarrow> u64 \<Rightarrow> 'ram process \<times> (nat + u64)" where
  "allocate_direct_memory p len align =
     (case dm_allocate (direct_mem p) len align of
        (dm, Some off) \<Rightarrow> (p\<lparr>direct_mem := dm\<rparr>, Inr off)
      | (dm, None) \<Rightarrow> (p\<lparr>direct_mem := dm\<rparr>, Inl 12))"

definition map_direct_memory ::
  "'ram ram_ops \<Rightarrow> (u32 \<Rightarrow> u64 \<Rightarrow> nat \<Rightarrow> u32 + u8 list) \<Rightarrow> 'ram process \<Rightarrow> u64 \<Rightarrow> u64 \<Rightarrow>
   ('ram process \<times> u64) option" where
  "map_direct_memory ops pread p phys_off len =
     (let va = phys_to_va phys_off in
      case mmap_aligned ops pread p va (max len 1) 0 3 0x1012 (- 1) 0 of
        None \<Rightarrow> None
      | Some (p', _) \<Rightarrow> Some (p', va))"

definition release_direct_memory :: "'ram process \<Rightarrow> u64 \<Rightarrow> u64 \<Rightarrow> 'ram process \<times> nat" where
  "release_direct_memory p phys_off len =
     (p\<lparr>direct_mem := fst (take_for_release (direct_mem p) phys_off len)\<rparr>, 0)"

definition TLS_ARENA_SIZE :: u64 where "TLS_ARENA_SIZE = 0x10000"

text \<open>\<open>alloc\<close> runs at most once; the state it leaves is threaded through.\<close>

definition tls_arena_lookup_or_alloc ::
  "(u32 \<times> u64) list \<Rightarrow> u32 \<Rightarrow> ('s \<Rightarrow> ('s \<times> (nat + u64)) option) \<Rightarrow> 's \<Rightarrow>
   ((u32 \<times> u64) list \<times> 's \<times> (nat + u64)) option" where
  "tls_arena_lookup_or_alloc arenas tid alloc s =
     (case map_of arenas tid of
        Some base \<Rightarrow> Some (arenas, s, Inr base)
      | None \<Rightarrow>
          (case alloc s of
             None \<Rightarrow> None
           | Some (s', Inl e) \<Rightarrow> Some (arenas, s', Inl e)
           | Some (s', Inr base) \<Rightarrow> Some ((tid, base) # arenas, s', Inr base)))"

definition tls_arena_base ::
  "'ram ram_ops \<Rightarrow> (u32 \<Rightarrow> u64 \<Rightarrow> nat \<Rightarrow> u32 + u8 list) \<Rightarrow> 'ram process \<Rightarrow> u32 \<Rightarrow>
   ('ram process \<times> (nat + u64)) option" where
  "tls_arena_base ops pread p tid =
     (case tls_arena_lookup_or_alloc (tls_arenas p) tid
             (\<lambda>q. mmap_aligned ops pread q 0 TLS_ARENA_SIZE 0 3 0x1002 (- 1) 0) p of
        None \<Rightarrow> None
      | Some (arenas, q, r) \<Rightarrow> Some (q\<lparr>tls_arenas := arenas\<rparr>, r))"

record vq_region =
  vq_start :: u64
  vq_end :: u64
  vq_protection :: memory_protection
  vq_memory_type :: nat
  vq_is_flexible :: bool
  vq_name :: string

definition virtual_query :: "'ram process \<Rightarrow> u64 \<Rightarrow> bool \<Rightarrow> vq_region option" where
  "virtual_query p addr find_next =
     map_option (\<lambda>v. \<lparr>vq_start = vma_start v, vq_end = vma_end v, vq_protection = vma_protection v,
         vq_memory_type = 0,
         vq_is_flexible = (vma_name v = ''dynamic_alloc'' \<or> take 8 (vma_name v) = ''flexible''),
         vq_name = vma_name v\<rparr>)
       (query_region (allocations (proc_memory p)) addr find_next)"

section \<open>Rounding up\<close>

lemma multiple_least:
  fixes a m r k :: nat
  assumes "m dvd r" "a \<le> r" "r < a + m" "m dvd k" "a \<le> k"
  shows "r \<le> k"
proof (rule ccontr)
  assume "\<not> r \<le> k"
  then have "k < r" by simp
  obtain i j where "r = m * i" "k = m * j" using assms by (auto elim!: dvdE)
  then have "j < i" using \<open>k < r\<close> by auto
  then have "m * j + m \<le> m * i" by (metis Suc_leI mult_Suc_right add.commute mult_le_mono2)
  then show False using assms \<open>r = m * i\<close> \<open>k = m * j\<close> by linarith
qed

section \<open>Live reservations\<close>

definition rng :: "u64 \<times> u64 \<Rightarrow> nat set" where
  "rng p = {unat (fst p)..<unat (fst p) + unat (snd p)}"

definition reserved :: "(u64, u64) btree \<Rightarrow> nat set" where
  "reserved m = (\<Union>p \<in> set m. rng p)"

definition res_inv :: "(u64, u64) btree \<Rightarrow> nat \<Rightarrow> bool" where
  "res_inv m lim \<longleftrightarrow> bt_wf m \<and> (\<forall>p \<in> set m. rng p \<noteq> {} \<and> rng p \<subseteq> {..<lim})
     \<and> (\<forall>p \<in> set m. \<forall>q \<in> set m. p \<noteq> q \<longrightarrow> rng p \<inter> rng q = {})"

definition dm_inv :: "direct_memory \<Rightarrow> bool" where
  "dm_inv dm \<longleftrightarrow> res_inv (reservations dm) (unat (next_off dm)) \<and> next_off dm \<le> DIRECT_MEMORY_POOL_SIZE"

lemma res_invI:
  assumes "bt_wf m" and "\<And>p. p \<in> set m \<Longrightarrow> rng p \<noteq> {}" and "\<And>p. p \<in> set m \<Longrightarrow> rng p \<subseteq> {..<lim}"
    and "\<And>p q. p \<in> set m \<Longrightarrow> q \<in> set m \<Longrightarrow> p \<noteq> q \<Longrightarrow> rng p \<inter> rng q = {}"
  shows "res_inv m lim"
  using assms unfolding res_inv_def by blast

lemma rng_empty_iff: "rng p = {} \<longleftrightarrow> snd p = 0"
  by (auto simp: rng_def unat_eq_zero)

lemma dm_default_inv: "dm_inv dm_default"
  by (simp add: dm_inv_def dm_default_def res_inv_def)

lemma res_invD:
  assumes "res_inv m lim"
  shows "bt_wf m" and "(o1, l) \<in> set m \<Longrightarrow> 0 < unat l" and "(o1, l) \<in> set m \<Longrightarrow> unat o1 + unat l \<le> lim"
proof -
  show "bt_wf m" using assms by (simp add: res_inv_def)
  assume mem: "(o1, l) \<in> set m"
  then have ne: "rng (o1, l) \<noteq> {}" and sub: "rng (o1, l) \<subseteq> {..<lim}"
    using assms by (auto simp: res_inv_def)
  show l: "0 < unat l" using ne by (simp add: rng_empty_iff unat_gt_0)
  have "unat o1 + unat l - 1 \<in> rng (o1, l)" using l by (auto simp: rng_def)
  then have "unat o1 + unat l - 1 < lim" using sub by blast
  then show "unat o1 + unat l \<le> lim" using l by linarith
qed

text \<open>Replacing a reservation by disjoint parts of it keeps the invariant.\<close>

lemma res_inv_replace:
  assumes inv: "res_inv m lim" and p: "p \<in> set m" and set: "set m' = (set m - {p}) \<union> P" and wf: "bt_wf m'"
    and parts: "\<forall>q \<in> P. rng q \<noteq> {} \<and> rng q \<subseteq> rng p" and disj: "\<forall>q \<in> P. \<forall>q' \<in> P. q \<noteq> q' \<longrightarrow> rng q \<inter> rng q' = {}"
  shows "res_inv m' lim" and "reserved m' = (reserved m - rng p) \<union> (\<Union>q \<in> P. rng q)"
proof -
  have old: "\<forall>q \<in> set m. rng q \<noteq> {} \<and> rng q \<subseteq> {..<lim}"
    and od: "\<And>q r. q \<in> set m \<Longrightarrow> r \<in> set m \<Longrightarrow> q \<noteq> r \<Longrightarrow> rng q \<inter> rng r = {}"
    using inv by (auto simp: res_inv_def)
  have cross: "rng q \<inter> rng r = {}" if "q \<in> set m - {p}" "r \<in> P" for q r
    using od[of q p] p that parts by blast
  have bounds: "rng q \<noteq> {} \<and> rng q \<subseteq> {..<lim}" if "q \<in> set m'" for q
    using that old parts p unfolding set by blast
  have "rng q \<inter> rng r = {}" if "q \<in> set m'" "r \<in> set m'" "q \<noteq> r" for q r
    using that od cross disj unfolding set by (metis Diff_iff Int_commute Un_iff)
  then show "res_inv m' lim" using wf bounds by (simp add: res_inv_def)
  show "reserved m' = (reserved m - rng p) \<union> (\<Union>q \<in> P. rng q)"
    using od p unfolding reserved_def set by blast
qed


section \<open>Allocation\<close>

abbreviation pool_size :: nat where "pool_size \<equiv> unat DIRECT_MEMORY_POOL_SIZE"

lemma dm_consts [simp]: "unat DIRECT_MEMORY_PAGE = 4096" "unat DIRECT_MEMORY_POOL_SIZE = 5368709120"
  "DIRECT_MEMORY_PAGE \<noteq> 0"
  by (simp_all add: DIRECT_MEMORY_PAGE_def DIRECT_MEMORY_POOL_SIZE_def)

lemma unat_max: "unat (max a b) = max (unat a) (unat b)" for a b :: "'a::len word"
  by (simp add: max_def word_le_nat_alt)

lemma unat_min: "unat (min a b) = min (unat a) (unat b)" for a b :: "'a::len word"
  by (simp add: min_def word_le_nat_alt)

lemma res_inv_insert_above:
  assumes inv: "res_inv m lim" and above: "lim \<le> unat off" and l: "0 < unat l" and fits: "unat off + unat l \<le> lim'"
  shows "res_inv (bt_insert off l m) lim'"
    and "reserved (bt_insert off l m) = reserved m \<union> {unat off..<unat off + unat l}"
    and "reserved m \<inter> {unat off..<unat off + unat l} = {}"
proof -
  have wf: "bt_wf m" using inv by (simp add: res_inv_def)
  have fresh: "k \<noteq> off" if "(k, v) \<in> set m" for k v
    using res_invD(2,3)[OF inv that] above by auto
  have set: "set (bt_insert off l m) = insert (off, l) (set m)"
    using fresh by (auto simp: bt_insert_set[OF wf])
  have r: "rng (off, l) = {unat off..<unat off + unat l}" by (simp add: rng_def)
  have new: "rng (off, l) \<noteq> {}" "rng (off, l) \<subseteq> {..<lim'}" using l fits by (auto simp: r)
  have old: "rng p \<noteq> {}" "rng p \<subseteq> {..<lim}" if "p \<in> set m" for p
    using inv that by (auto simp: res_inv_def)
  have apart: "rng p \<inter> rng (off, l) = {}" if "p \<in> set m" for p
    using old(2)[OF that] above by (auto simp: r)
  have "lim \<le> lim'" using above fits by linarith
  then have bound: "rng p \<subseteq> {..<lim'}" if "p \<in> set m" for p using old(2)[OF that] by (auto dest: subsetD)
  have "rng p \<inter> rng q = {}" if "p \<noteq> q" "p \<in> insert (off, l) (set m)" "q \<in> insert (off, l) (set m)" for p q
    using that inv apart unfolding res_inv_def by (metis Int_commute insertE)
  note disj = this
  show "res_inv (bt_insert off l m) lim'"
  proof (rule res_invI)
    show "bt_wf (bt_insert off l m)" by (rule bt_insert_wf[OF wf])
    show "rng p \<noteq> {}" if "p \<in> set (bt_insert off l m)" for p using that new(1) old(1) unfolding set by blast
    show "rng p \<subseteq> {..<lim'}" if "p \<in> set (bt_insert off l m)" for p
      using that new(2) bound unfolding set by blast
    show "rng p \<inter> rng q = {}" if "p \<in> set (bt_insert off l m)" "q \<in> set (bt_insert off l m)" "p \<noteq> q" for p q
      using disj[of p q] that unfolding set by blast
  qed
  show "reserved (bt_insert off l m) = reserved m \<union> {unat off..<unat off + unat l}"
    unfolding reserved_def set by (auto simp: r)
  show "reserved m \<inter> {unat off..<unat off + unat l} = {}"
    using apart unfolding reserved_def r by blast
qed

text \<open>The length and the offset \<open>allocate\<close> works with.\<close>

definition fits_at :: "direct_memory \<Rightarrow> u64 \<Rightarrow> u64 \<Rightarrow> nat \<Rightarrow> nat \<Rightarrow> bool" where
  "fits_at dm len align off n \<longleftrightarrow>
     max (unat align) 4096 dvd off \<and> unat (next_off dm) \<le> off \<and> 4096 dvd n \<and> unat len \<le> n \<and> 0 < n
     \<and> off + n \<le> pool_size"

lemma allocate_off:
  fixes align :: u64
  assumes "next_off dm \<le> DIRECT_MEMORY_POOL_SIZE"
  defines "off \<equiv> next_multiple_of (next_off dm) (max align DIRECT_MEMORY_PAGE)"
  shows "max (unat align) 4096 dvd unat off" and "unat (next_off dm) \<le> unat off"
    and "unat off < unat (next_off dm) + max (unat align) 4096"
proof -
  have "max align DIRECT_MEMORY_PAGE \<noteq> 0" by (auto simp: max_def DIRECT_MEMORY_PAGE_def split: if_splits)
  moreover have "unat (next_off dm) < unat (max align DIRECT_MEMORY_PAGE)
      \<or> unat (next_off dm) + unat (max align DIRECT_MEMORY_PAGE) < 2 ^ 64"
    using assms(1) by (auto simp: word_le_nat_alt)
  ultimately show "max (unat align) 4096 dvd unat off" "unat (next_off dm) \<le> unat off"
    "unat off < unat (next_off dm) + max (unat align) 4096"
    using next_multiple_of_unat[of "max align DIRECT_MEMORY_PAGE" "next_off dm"]
    by (simp_all add: off_def unat_max)
qed

lemma dm_allocate_Some:
  assumes inv: "dm_inv dm" and al: "dm_allocate dm len align = (dm', Some off)"
  shows "dm_inv dm'"
    and "\<exists>n. fits_at dm len align (unat off) n \<and> n < max (unat len) 4096 + 4096
      \<and> unat (next_off dm') = unat off + n
      \<and> reserved (reservations dm') = reserved (reservations dm) \<union> {unat off..<unat off + n}
      \<and> reserved (reservations dm) \<inter> {unat off..<unat off + n} = {}"
proof -
  obtain n e where n: "checked_next_multiple_of (max len DIRECT_MEMORY_PAGE) DIRECT_MEMORY_PAGE = Some n"
    and off: "off = next_multiple_of (next_off dm) (max align DIRECT_MEMORY_PAGE)"
    and e: "checked_add off n = Some e" "e \<le> DIRECT_MEMORY_POOL_SIZE"
    and dm': "dm' = dm\<lparr>next_off := e, reservations := bt_insert off n (reservations dm)\<rparr>"
    using al by (auto simp: dm_allocate_def Let_def split: option.splits if_splits)
  note nn = checked_next_multiple_of_unat[OF n, unfolded unat_max dm_consts]
  have lim: "next_off dm \<le> DIRECT_MEMORY_POOL_SIZE" and res: "res_inv (reservations dm) (unat (next_off dm))"
    using inv by (simp_all add: dm_inv_def)
  note oo = allocate_off[OF lim, of align, folded off]
  have ee: "unat e = unat off + unat n" "unat off + unat n \<le> pool_size"
    using e by (auto simp: unat_add_nowrap word_le_nat_alt)
  have n0: "0 < unat n" using nn(2) by linarith
  note ins = res_inv_insert_above[OF res oo(2) n0, of "unat e"]
  show "dm_inv dm'" using ins(1) ee e(2) by (simp add: dm_inv_def dm')
  show "\<exists>n. fits_at dm len align (unat off) n \<and> n < max (unat len) 4096 + 4096
      \<and> unat (next_off dm') = unat off + n
      \<and> reserved (reservations dm') = reserved (reservations dm) \<union> {unat off..<unat off + n}
      \<and> reserved (reservations dm) \<inter> {unat off..<unat off + n} = {}"
    using ins(2,3) ee oo nn n0
    by (intro exI[of _ "unat n"]) (auto simp: fits_at_def dm')
qed

lemma dm_allocate_None:
  assumes inv: "dm_inv dm" and al: "dm_allocate dm len align = (dm', None)"
  shows "dm' = dm" and "\<not> fits_at dm len align off n"
proof -
  show "dm' = dm" using al by (auto simp: dm_allocate_def Let_def split: option.splits if_splits)
  have lim: "next_off dm \<le> DIRECT_MEMORY_POOL_SIZE" using inv by (simp add: dm_inv_def)
  let ?o = "next_multiple_of (next_off dm) (max align DIRECT_MEMORY_PAGE)"
  note oo = allocate_off[OF lim, of align]
  show "\<not> fits_at dm len align off n"
  proof
    assume f: "fits_at dm len align off n"
    then have "unat ?o \<le> off" using multiple_least[OF oo] by (auto simp: fits_at_def)
    have big: "max (unat len) 4096 \<le> n" using f by (auto simp: fits_at_def dest: dvd_imp_le)
    have lt: "n \<le> pool_size" using f by (simp add: fits_at_def)
    have "checked_next_multiple_of (max len DIRECT_MEMORY_PAGE) DIRECT_MEMORY_PAGE \<noteq> None"
    proof
      let ?l = "max len DIRECT_MEMORY_PAGE"
      assume "checked_next_multiple_of ?l DIRECT_MEMORY_PAGE = None"
      then have "2 ^ 64 \<le> unat ?l + unat (DIRECT_MEMORY_PAGE - ?l mod DIRECT_MEMORY_PAGE)"
        by (auto simp: checked_next_multiple_of_def split: if_splits)
      moreover have "unat (DIRECT_MEMORY_PAGE - ?l mod DIRECT_MEMORY_PAGE) \<le> 4096"
        by (subst unat_sub_le) (auto simp: word_le_nat_alt unat_mod intro: less_imp_le)
      ultimately show False using big lt by (simp add: unat_max)
    qed
    then obtain k where k: "checked_next_multiple_of (max len DIRECT_MEMORY_PAGE) DIRECT_MEMORY_PAGE = Some k"
      by auto
    note kk = checked_next_multiple_of_unat[OF k, unfolded unat_max dm_consts]
    have "unat k \<le> n" using multiple_least[OF kk] f big by (auto simp: fits_at_def)
    then have "unat ?o + unat k \<le> pool_size" using f \<open>unat ?o \<le> off\<close> by (auto simp: fits_at_def)
    then show False
      using al k by (auto simp: dm_allocate_def Let_def word_le_nat_alt unat_add_nowrap split: option.splits if_splits)
  qed
qed


section \<open>Release\<close>

lemma trim_one_set:
  assumes inv: "res_inv m lim" and lim: "lim < 2 ^ 64" and p: "(ro, rl) \<in> set m"
    and le: "start \<le> e" and over: "ro < e" "unat start < unat ro + unat rl"
  defines "P \<equiv> (if ro < start then {(ro, start - ro)} else {}) \<union> (if e < ro + rl then {(e, ro + rl - e)} else {})"
  shows "set (trim_one start e (ro, rl) m) = (set m - {(ro, rl)}) \<union> P"
    and "bt_wf (trim_one start e (ro, rl) m)"
proof -
  have wf: "bt_wf m" using inv by (simp add: res_inv_def)
  have re: "unat (ro + rl) = unat ro + unat rl"
    using res_invD(3)[OF inv p] lim by (intro unat_add_nowrap) simp
  have m1: "set (bt_remove ro m) = set m - {(ro, rl)}"
    using bt_keys_unique[OF wf p] by (auto simp: bt_remove_set)
  have wf1: "bt_wf (bt_remove ro m)" by (rule bt_remove_wf[OF wf])
  have no_ro: "(ro, v) \<notin> set m - {(ro, rl)}" for v using bt_keys_unique[OF wf p] by auto
  have no_e: "(e, v) \<notin> set m - {(ro, rl)}" if "e < ro + rl" for v
  proof
    assume v: "(e, v) \<in> set m - {(ro, rl)}"
    then have "unat e \<in> rng (e, v)" using res_invD(2)[OF inv, of e v] by (auto simp: rng_def)
    moreover have "unat e \<in> rng (ro, rl)"
      using that over(1) re by (auto simp: rng_def word_less_nat_alt)
    moreover have "rng (e, v) \<inter> rng (ro, rl) = {}" using v p inv by (auto simp: res_inv_def)
    ultimately show False by blast
  qed
  define m2 where "m2 = (if ro < start then bt_insert ro (start - ro) (bt_remove ro m) else bt_remove ro m)"
  have wf2: "bt_wf m2" by (simp add: m2_def wf1 bt_insert_wf)
  have set2: "set m2 = (set m - {(ro, rl)}) \<union> (if ro < start then {(ro, start - ro)} else {})"
    using no_ro by (auto simp: m2_def bt_insert_set[OF wf1] m1)
  have eq: "trim_one start e (ro, rl) m = (if e < ro + rl then bt_insert e (ro + rl - e) m2 else m2)"
    by (simp add: trim_one_def Let_def m2_def)
  show "bt_wf (trim_one start e (ro, rl) m)" by (simp add: eq wf2 bt_insert_wf)
  have "(e, v) \<notin> set m2" if "e < ro + rl" for v
    using no_e[OF that, of v] over(1) by (cases "ro < start") (auto simp: set2 simp del: Diff_iff)
  then show "set (trim_one start e (ro, rl) m) = (set m - {(ro, rl)}) \<union> P"
    using over(1) by (auto simp: eq bt_insert_set[OF wf2] set2 P_def)
qed

lemma trim_one_effect:
  assumes inv: "res_inv m lim" and lim: "lim < 2 ^ 64" and p: "(ro, rl) \<in> set m"
    and le: "start \<le> e" and over: "ro < e" "unat start < unat ro + unat rl"
  shows "res_inv (trim_one start e (ro, rl) m) lim"
    and "reserved (trim_one start e (ro, rl) m) = reserved m - (rng (ro, rl) \<inter> {unat start..<unat e})"
    and "q \<in> set m \<Longrightarrow> q \<noteq> (ro, rl) \<Longrightarrow> q \<in> set (trim_one start e (ro, rl) m)"
proof -
  let ?P = "(if ro < start then {(ro, start - ro)} else {}) \<union> (if e < ro + rl then {(e, ro + rl - e)} else {})"
  note t = trim_one_set[OF assms]
  have re: "unat (ro + rl) = unat ro + unat rl"
    using res_invD(3)[OF inv p] lim by (intro unat_add_nowrap) simp
  have r1: "rng (ro, start - ro) = {unat ro..<unat start}" if "ro < start"
    using that by (auto simp: rng_def unat_sub_le word_less_nat_alt word_le_nat_alt)
  have r2: "rng (e, ro + rl - e) = {unat e..<unat ro + unat rl}" if "e < ro + rl"
    using that by (simp add: rng_def unat_sub_le less_imp_le re) (simp add: word_less_nat_alt re)
  have le': "unat start \<le> unat e" and o1: "unat ro < unat e"
    using le over by (simp_all add: word_le_nat_alt word_less_nat_alt)
  have parts: "\<forall>q \<in> ?P. rng q \<noteq> {} \<and> rng q \<subseteq> rng (ro, rl)"
    using r1 r2 over(2) o1 re by (auto simp: word_less_nat_alt rng_def[of "(ro, rl)"])
  have disj: "\<forall>q \<in> ?P. \<forall>q' \<in> ?P. q \<noteq> q' \<longrightarrow> rng q \<inter> rng q' = {}"
    using r1 r2 le' by auto
  note rep = res_inv_replace[OF inv p t parts disj]
  show "res_inv (trim_one start e (ro, rl) m) lim" by (rule rep(1))
  have c: "ro < start \<longleftrightarrow> unat ro < unat start" "e < ro + rl \<longleftrightarrow> unat e < unat ro + unat rl"
    by (simp_all add: word_less_nat_alt re)
  have "(\<Union>q \<in> ?P. rng q) = (if ro < start then {unat ro..<unat start} else {})
      \<union> (if e < ro + rl then {unat e..<unat ro + unat rl} else {})"
    by (simp add: r1 r2)
  also have "\<dots> = rng (ro, rl) - {unat start..<unat e}"
    unfolding c rng_def fst_conv snd_conv using over(2) o1 le' by (auto split: if_splits)
  finally have "(\<Union>q \<in> ?P. rng q) = rng (ro, rl) - {unat start..<unat e}" .
  moreover have "rng (ro, rl) \<subseteq> reserved m" using p by (auto simp: reserved_def)
  ultimately show "reserved (trim_one start e (ro, rl) m) = reserved m - (rng (ro, rl) \<inter> {unat start..<unat e})"
    unfolding rep(2) by blast
  show "q \<in> set m \<Longrightarrow> q \<noteq> (ro, rl) \<Longrightarrow> q \<in> set (trim_one start e (ro, rl) m)"
    unfolding t(1) by blast
qed

lemma fold_trim:
  assumes "res_inv m lim" and "lim < 2 ^ 64" and "start \<le> e" and "distinct ps" and "set ps \<subseteq> set m"
    and "\<forall>(ro, rl) \<in> set ps. ro < e \<and> unat start < unat ro + unat rl"
  shows "res_inv (fold (trim_one start e) ps m) lim
    \<and> reserved (fold (trim_one start e) ps m) = reserved m - ((\<Union>p \<in> set ps. rng p) \<inter> {unat start..<unat e})"
  using assms
proof (induction ps arbitrary: m)
  case (Cons p ps)
  obtain ro rl where p: "p = (ro, rl)" by (cases p)
  have mem: "(ro, rl) \<in> set m" "ro < e" "unat start < unat ro + unat rl"
    using Cons.prems(5,6) p by auto
  note t = trim_one_effect[OF Cons.prems(1,2) mem(1) Cons.prems(3) mem(2,3)]
  have "res_inv (fold (trim_one start e) ps (trim_one start e p m)) lim
    \<and> reserved (fold (trim_one start e) ps (trim_one start e p m))
      = reserved (trim_one start e p m) - ((\<Union>p \<in> set ps. rng p) \<inter> {unat start..<unat e})"
  proof (rule Cons.IH)
    show "set ps \<subseteq> set (trim_one start e p m)"
      using Cons.prems(4,5) t(3) by (auto simp: p)
  qed (use Cons.prems t(1) p in auto)
  then show ?case using t(2) by (auto simp: p)
qed simp


lemma trim_reservations_effect:
  assumes inv: "dm_inv dm" and le: "start \<le> e"
  shows "dm_inv (trim_reservations dm start e)"
    and "reserved (reservations (trim_reservations dm start e)) = reserved (reservations dm) - {unat start..<unat e}"
    and "next_off (trim_reservations dm start e) = next_off dm"
proof -
  let ?m = "reservations dm"
  let ?ps = "filter (\<lambda>(ro, rl). ro < e \<and> ro + rl > start) (bt_range_lt ?m e)"
  have res: "res_inv ?m (unat (next_off dm))" and pool: "unat (next_off dm) \<le> pool_size"
    using inv by (auto simp: dm_inv_def word_le_nat_alt)
  have wf: "bt_wf ?m" using res by (simp add: res_inv_def)
  have re: "unat (ro + rl) = unat ro + unat rl" if "(ro, rl) \<in> set ?m" for ro rl
    using res_invD(3)[OF res that] pool by (intro unat_add_nowrap) simp
  have ps: "set ?ps = {(ro, rl) \<in> set ?m. ro < e \<and> unat start < unat ro + unat rl}"
    using re by (auto simp: bt_range_lt_def word_less_nat_alt)
  have "distinct ?m" using bt_wf_distinct[OF wf] by (simp add: distinct_map)
  then have dist: "distinct ?ps" by (simp add: bt_range_lt_def)
  have f: "res_inv (fold (trim_one start e) ?ps ?m) (unat (next_off dm))
    \<and> reserved (fold (trim_one start e) ?ps ?m) = reserved ?m - ((\<Union>p \<in> set ?ps. rng p) \<inter> {unat start..<unat e})"
  proof (rule fold_trim[OF res _ le dist])
    show "set ?ps \<subseteq> set ?m" and "\<forall>(ro, rl) \<in> set ?ps. ro < e \<and> unat start < unat ro + unat rl"
      unfolding ps by auto
  qed (use pool in simp)
  show "dm_inv (trim_reservations dm start e)"
    using f inv by (simp add: dm_inv_def trim_reservations_def Let_def)
  have "rng p \<inter> {unat start..<unat e} = {}" if "p \<in> set ?m" "p \<notin> set ?ps" for p
    using that unfolding ps by (cases p) (auto simp: rng_def word_less_nat_alt)
  then have "reserved ?m \<inter> {unat start..<unat e} \<subseteq> (\<Union>p \<in> set ?ps. rng p)"
    unfolding reserved_def by blast
  then show "reserved (reservations (trim_reservations dm start e)) = reserved ?m - {unat start..<unat e}"
    using f by (auto simp: trim_reservations_def Let_def)
  show "next_off (trim_reservations dm start e) = next_off dm"
    by (simp add: trim_reservations_def Let_def)
qed

text \<open>The length a release asks for: rounded up to pages; zero asks for the rest of the
  reservation that holds the offset.\<close>

definition release_len :: "direct_memory \<Rightarrow> u64 \<Rightarrow> u64 \<Rightarrow> nat" where
  "release_len dm off len =
     (if len = 0
      then (case bt_last_le (reservations dm) off of
              Some (ro, rl) \<Rightarrow> if unat off < unat ro + unat rl then unat ro + unat rl - unat off else 4096
            | None \<Rightarrow> 4096)
      else (unat len + 4095) div 4096 * 4096)"

lemma rounded_len:
  assumes "unat len + 4096 \<le> 2 ^ 64"
  shows "unat (next_multiple_of len DIRECT_MEMORY_PAGE) = (unat len + 4095) div 4096 * 4096"
proof -
  note n = next_multiple_of_unat[of DIRECT_MEMORY_PAGE len, unfolded dm_consts]
  have fits: "unat len + 4096 < 2 ^ 64 \<or> unat len + 4096 = 2 ^ 64" using assms by linarith
  let ?r = "unat (next_multiple_of len DIRECT_MEMORY_PAGE)"
  have "4096 dvd ?r \<and> unat len \<le> ?r \<and> ?r < unat len + 4096"
    using fits
  proof
    assume e: "unat len + 4096 = 2 ^ 64"
    then have l: "unat len = 2 ^ 64 - 4096" by simp
    then have "unat (len mod DIRECT_MEMORY_PAGE) = 0" by (simp add: unat_mod)
    then have "len mod DIRECT_MEMORY_PAGE = 0" by (simp add: unat_eq_zero)
    then show ?thesis using l by (simp add: next_multiple_of_def)
  qed (use n in simp)
  then show ?thesis
    using round_up_bounds[of 4096 "unat len"] multiple_least[of 4096 ?r "unat len" "(unat len + 4095) div 4096 * 4096"]
      multiple_least[of 4096 "(unat len + 4095) div 4096 * 4096" "unat len" ?r]
    by auto
qed

lemma take_for_release_effect:
  assumes inv: "dm_inv dm" and fits: "unat off + unat len + 4096 \<le> 2 ^ 64"
  defines "n \<equiv> release_len dm off len"
  shows "take_for_release dm off len =
    (if unat off < pool_size
     then (trim_reservations dm off (of_nat (min (unat off + n) pool_size)),
           Some (phys_to_va off, of_nat (min n (pool_size - unat off))))
     else (dm, None))"
proof (cases "unat off < pool_size")
  case False
  then show ?thesis by (simp add: take_for_release_def word_le_nat_alt)
next
  case True
  have res: "res_inv (reservations dm) (unat (next_off dm))" and pool: "unat (next_off dm) \<le> pool_size"
    using inv by (auto simp: dm_inv_def word_le_nat_alt)
  have wf: "bt_wf (reservations dm)" using res by (simp add: res_inv_def)
  have r: "unat (next_multiple_of len DIRECT_MEMORY_PAGE) = (unat len + 4095) div 4096 * 4096"
    using fits by (intro rounded_len) simp
  have zero: "next_multiple_of len DIRECT_MEMORY_PAGE = 0 \<longleftrightarrow> len = 0"
  proof -
    have "(unat len + 4095) div 4096 * 4096 = 0 \<longleftrightarrow> unat len = 0" by (simp add: div_eq_0_iff)
    then show ?thesis using r by (metis unat_eq_zero)
  qed
  define fl where "fl = (if next_multiple_of len DIRECT_MEMORY_PAGE = 0
      then (case bt_last_le (reservations dm) off of
              Some (ro, rl) \<Rightarrow> if ro \<le> off \<and> off < ro + rl then ro + rl - off else DIRECT_MEMORY_PAGE
            | None \<Rightarrow> DIRECT_MEMORY_PAGE)
      else next_multiple_of len DIRECT_MEMORY_PAGE)"
  have fl: "unat fl = n"
  proof (cases "len = 0")
    case False
    then show ?thesis using zero r by (simp add: fl_def n_def release_len_def)
  next
    case len0: True
    show ?thesis
    proof (cases "bt_last_le (reservations dm) off")
      case None
      then show ?thesis using len0 zero by (simp add: fl_def n_def release_len_def)
    next
      case (Some p)
      obtain ro rl where p: "p = (ro, rl)" by (cases p)
      have mem: "(ro, rl) \<in> set (reservations dm)" "ro \<le> off" using bt_last_le_Some[OF wf] Some p by auto
      have re: "unat (ro + rl) = unat ro + unat rl"
        using res_invD(3)[OF res mem(1)] pool by (intro unat_add_nowrap) simp
      then show ?thesis
        using len0 zero Some p mem(2)
        by (auto simp: fl_def n_def release_len_def word_less_nat_alt unat_sub_le less_imp_le word_le_nat_alt)
    qed
  qed
  have n_le: "n < unat len + 4096 \<or> n \<le> pool_size"
  proof (cases "len = 0")
    case False
    then show ?thesis using round_up_bounds(2)[of 4096 "unat len"] by (simp add: n_def release_len_def add.commute)
  next
    case len0: True
    have "unat ro + unat rl - unat off \<le> pool_size" if "bt_last_le (reservations dm) off = Some (ro, rl)" for ro rl
      using res_invD(3)[OF res bt_last_le_Some(1)[OF wf that]] pool by linarith
    then show ?thesis
      using len0 by (auto simp: n_def release_len_def split: option.splits)
  qed
  have "unat off + n < 2 ^ 64" using n_le fits True by auto
  then have sum: "unat (off + fl) = unat off + n" by (simp add: unat_add_nowrap fl)
  define re where "re = min (off + fl) DIRECT_MEMORY_POOL_SIZE"
  have re: "unat re = min (unat off + n) pool_size" by (simp add: re_def unat_min sum)
  have re_of: "re = of_nat (min (unat off + n) pool_size)" unfolding re[symmetric] by simp
  have "off \<le> re" using re True by (simp add: word_le_nat_alt)
  then have d: "unat (re - off) = min n (pool_size - unat off)" using re by (simp add: unat_sub_le)
  have "re - off = of_nat (min n (pool_size - unat off))" unfolding d[symmetric] by simp
  moreover have "take_for_release dm off len = (trim_reservations dm off re, Some (phys_to_va off, re - off))"
    using True by (simp add: take_for_release_def Let_def word_le_nat_alt re_def fl_def)
  ultimately show ?thesis using True re_of by simp
qed

section \<open>Properties of the pool\<close>

text \<open>
  C25. Allocation from the direct-memory pool. From a pool whose live reservations are disjoint,
  \<open>allocate\<close> either fails, leaves the pool as it was, and then no page-multiple of the asked
  length fits at any offset of the asked alignment above the cursor; or it hands out an aligned
  offset at or above the cursor and reserves at least the asked length there, less than a page
  more than the larger of the asked length and one page: exactly that range is added to the
  reserved bytes, none of it was reserved before, and the pool's invariant is kept.
\<close>

theorem dm_allocate_correct:
  assumes "dm_inv dm"
  shows "case dm_allocate dm len align of (dm', r) \<Rightarrow>
    dm_inv dm' \<and>
    (case r of
       None \<Rightarrow> dm' = dm \<and> (\<forall>off n. \<not> fits_at dm len align off n)
     | Some off \<Rightarrow> (\<exists>n. fits_at dm len align (unat off) n \<and> n < max (unat len) 4096 + 4096
         \<and> unat (next_off dm') = unat off + n
         \<and> reserved (reservations dm') = reserved (reservations dm) \<union> {unat off..<unat off + n}
         \<and> reserved (reservations dm) \<inter> {unat off..<unat off + n} = {}))"
  using dm_allocate_None[OF assms] dm_allocate_Some[OF assms] assms
  by (auto split: prod.split option.split)

lemma example_pool: "dm_allocate dm_default 0x4000 0 = (\<lparr>next_off = 0x4000, reservations = [(0, 0x4000)]\<rparr>, Some 0)"
  by (simp add: dm_allocate_def dm_default_def checked_next_multiple_of_def next_multiple_of_def
      DIRECT_MEMORY_PAGE_def DIRECT_MEMORY_POOL_SIZE_def checked_add_def)

theorem dm_allocate_correct_witness:
  "dm_inv \<lparr>next_off = 0x4000, reservations = [(0, 0x4000)]\<rparr>
   \<and> reserved [(0, 0x4000)] = {0..<0x4000}"
  using dm_allocate_correct[OF dm_default_inv, of "0x4000" 0]
  by (simp add: example_pool dm_default_inv) (simp add: reserved_def rng_def)

text \<open>
  Release. From a pool whose live reservations are disjoint, and for a range that ends at least
  a page below the top of the 64-bit address space, a release of an offset of the pool keeps the
  invariant and the cursor, removes exactly the released bytes (the asked length in whole pages,
  or for length zero the rest of the reservation that holds the offset, cut at the end of the
  pool) from the reserved bytes, and reports the range's virtual address and length; a release
  of an offset beyond the pool changes nothing.
\<close>

theorem take_for_release_correct:
  assumes inv: "dm_inv dm" and fits: "unat off + unat len + 4096 \<le> 2 ^ 64"
  shows "dm_inv (fst (take_for_release dm off len))
    \<and> next_off (fst (take_for_release dm off len)) = next_off dm
    \<and> (if unat off < pool_size
       then reserved (reservations (fst (take_for_release dm off len)))
              = reserved (reservations dm) - {unat off..<min (unat off + release_len dm off len) pool_size}
            \<and> snd (take_for_release dm off len)
              = Some (phys_to_va off, of_nat (min (release_len dm off len) (pool_size - unat off)))
       else take_for_release dm off len = (dm, None))"
proof (cases "unat off < pool_size")
  case False
  then show ?thesis using take_for_release_effect[OF assms] inv by simp
next
  case True
  let ?e = "min (unat off + release_len dm off len) pool_size"
  have e: "unat (of_nat ?e :: u64) = ?e" by (rule unat_of_nat_small) simp
  have le: "off \<le> of_nat ?e" using e True by (simp add: word_le_nat_alt)
  note t = trim_reservations_effect[OF inv le, unfolded e]
  show ?thesis using take_for_release_effect[OF assms] t True by simp
qed

theorem take_for_release_correct_witness:
  "reserved (reservations (fst (take_for_release (fst (dm_allocate dm_default 0x4000 0)) 0x1000 0x2000)))
   = reserved (reservations (fst (dm_allocate dm_default 0x4000 0))) - {0x1000..<0x3000}"
proof -
  have "dm_inv (fst (dm_allocate dm_default 0x4000 0))"
    using dm_allocate_Some(1)[OF dm_default_inv example_pool] by (simp add: example_pool)
  then show ?thesis using take_for_release_correct[of _ "0x1000" "0x2000"] by (simp add: release_len_def)
qed

text \<open>
  A history of calls on the pool: the ranges handed out, in order, each with the length it
  reserved.
\<close>

datatype dm_op = Allocate u64 u64 | Release u64 u64

fun dm_exec :: "direct_memory \<Rightarrow> dm_op list \<Rightarrow> direct_memory \<times> (u64 \<times> u64) list" where
  "dm_exec dm [] = (dm, [])"
| "dm_exec dm (Allocate len align # ops) =
     (case dm_allocate dm len align of
        (dm', None) \<Rightarrow> dm_exec dm' ops
      | (dm', Some off) \<Rightarrow> (case dm_exec dm' ops of (dm'', rs) \<Rightarrow> (dm'', (off, next_off dm' - off) # rs)))"
| "dm_exec dm (Release off len # ops) = dm_exec (fst (take_for_release dm off len)) ops"

lemma take_for_release_cursor [simp]: "next_off (fst (take_for_release dm off len)) = next_off dm"
  by (simp add: take_for_release_def trim_reservations_def Let_def)

lemma dm_allocate_cursor:
  assumes lim: "next_off dm \<le> DIRECT_MEMORY_POOL_SIZE" and al: "dm_allocate dm len align = (dm', r)"
  shows "next_off dm' \<le> DIRECT_MEMORY_POOL_SIZE"
    and "r = Some off \<Longrightarrow> unat (next_off dm) \<le> unat off \<and> 4096 dvd unat (next_off dm' - off)
      \<and> max (unat len) 1 \<le> unat (next_off dm' - off) \<and> unat off + unat (next_off dm' - off) = unat (next_off dm')"
    and "r = None \<Longrightarrow> dm' = dm"
proof -
  show "r = None \<Longrightarrow> dm' = dm" using al by (auto simp: dm_allocate_def Let_def split: option.splits if_splits)
  show "next_off dm' \<le> DIRECT_MEMORY_POOL_SIZE"
    using al lim by (auto simp: dm_allocate_def Let_def split: option.splits if_splits)
  assume "r = Some off"
  then obtain n e where n: "checked_next_multiple_of (max len DIRECT_MEMORY_PAGE) DIRECT_MEMORY_PAGE = Some n"
    and off: "off = next_multiple_of (next_off dm) (max align DIRECT_MEMORY_PAGE)"
    and e: "checked_add off n = Some e" and e': "next_off dm' = e"
    using al by (auto simp: dm_allocate_def Let_def split: option.splits if_splits)
  note nn = checked_next_multiple_of_unat[OF n, unfolded unat_max dm_consts]
  have "e = off + n" "unat e = unat off + unat n" using e by (auto simp: checked_add_def unat_add_nowrap split: if_splits)
  then show "unat (next_off dm) \<le> unat off \<and> 4096 dvd unat (next_off dm' - off)
      \<and> max (unat len) 1 \<le> unat (next_off dm' - off) \<and> unat off + unat (next_off dm' - off) = unat (next_off dm')"
    using nn allocate_off(2)[OF lim, of align] by (auto simp: e' off)
qed

lemma dm_exec_ranges:
  assumes "next_off dm \<le> DIRECT_MEMORY_POOL_SIZE"
  shows "sorted_wrt (\<lambda>p q. unat (fst p) + unat (snd p) \<le> unat (fst q)) (snd (dm_exec dm ops))
    \<and> list_all (\<lambda>p. unat (next_off dm) \<le> unat (fst p) \<and> 0 < unat (snd p) \<and> 4096 dvd unat (snd p)
        \<and> unat (fst p) + unat (snd p) \<le> pool_size) (snd (dm_exec dm ops))"
  using assms
proof (induction dm ops rule: dm_exec.induct)
  case (2 dm len align ops)
  obtain dm' r where a: "dm_allocate dm len align = (dm', r)" by (cases "dm_allocate dm len align")
  note c = dm_allocate_cursor[OF "2.prems" a]
  show ?case
  proof (cases r)
    case None
    then show ?thesis using "2.IH"(1)[OF a[symmetric] None] c(3) "2.prems" by (simp add: a)
  next
    case (Some off)
    obtain dm'' rs where d: "dm_exec dm' ops = (dm'', rs)" by (cases "dm_exec dm' ops")
    note cc = c(2)[OF Some]
    have le: "unat (next_off dm') \<le> pool_size" using c(1) by (simp add: word_le_nat_alt)
    have ih: "sorted_wrt (\<lambda>p q. unat (fst p) + unat (snd p) \<le> unat (fst q)) rs"
      "list_all (\<lambda>p. unat (next_off dm') \<le> unat (fst p) \<and> 0 < unat (snd p) \<and> 4096 dvd unat (snd p)
        \<and> unat (fst p) + unat (snd p) \<le> pool_size) rs"
      using "2.IH"(2)[OF a[symmetric] Some c(1)] by (simp_all add: d)
    show ?thesis using cc le ih by (auto simp: a Some d list_all_iff)
  qed
qed simp_all


text \<open>
  \<open>take_for_release\<close> adds the length to the offset without a check. A length close to the top of
  the address space wraps the end of the range below its start: releasing the second half of a
  four-page reservation with such a length leaves two overlapping reservations behind, so the
  pool's invariant is lost.
\<close>

theorem release_wraps:
  "reservations (fst (take_for_release (fst (dm_allocate dm_default 0x4000 0)) 0x2000 0xFFFFFFFFFFFFF000))
   = [(0, 0x2000), (0x1000, 0x3000)]
   \<and> \<not> dm_inv (fst (take_for_release (fst (dm_allocate dm_default 0x4000 0)) 0x2000 0xFFFFFFFFFFFFF000))"
proof -
  have r: "fst (take_for_release (fst (dm_allocate dm_default 0x4000 0)) 0x2000 0xFFFFFFFFFFFFF000)
    = \<lparr>next_off = 0x4000, reservations = [(0, 0x2000), (0x1000, 0x3000)]\<rparr>"
    by (simp add: example_pool take_for_release_def trim_reservations_def trim_one_def next_multiple_of_def
        DIRECT_MEMORY_PAGE_def DIRECT_MEMORY_POOL_SIZE_def bt_range_lt_def bt_remove_def)
  have "0x1000 \<in> rng (0, 0x2000) \<inter> rng (0x1000, 0x3000)" by (simp add: rng_def)
  then have "\<not> dm_inv \<lparr>next_off = 0x4000, reservations = [(0, 0x2000), (0x1000, 0x3000)]\<rparr>"
    unfolding dm_inv_def res_inv_def by (auto simp del: Int_iff)
  then show ?thesis by (simp add: r)
qed

lemma checked_next_multiple_of_eq:
  fixes a m :: u64
  assumes m: "m \<noteq> 0" and fits: "unat a < unat m \<or> unat a + unat m < 2 ^ 64"
  shows "checked_next_multiple_of a m = Some (next_multiple_of a m)"
proof -
  have le: "a mod m \<le> m" using m by (simp add: word_le_nat_alt unat_mod unat_gt_0 less_imp_le)
  have "unat (m - a mod m) = unat m - unat a mod unat m" by (simp add: unat_sub_le[OF le] unat_mod)
  then have "unat a + unat (m - a mod m) < 2 ^ 64" if "a mod m \<noteq> 0"
  proof -
    have "unat (a mod m) \<noteq> 0" using that by (simp add: unat_eq_zero)
    then have "unat a mod unat m \<noteq> 0" by (simp add: unat_mod)
    then show ?thesis
      using fits unat_lt_2p[of m] \<open>unat (m - a mod m) = _\<close> by (cases "unat a < unat m") auto
  qed
  then show ?thesis
    using m by (auto simp: checked_next_multiple_of_def next_multiple_of_def checked_add_def)
qed

text \<open>Below a page boundary a length fits exactly when its page-rounded length does.\<close>

lemma rounded_fits:
  fixes n r l :: nat
  assumes "4096 dvd r" "max l 4096 \<le> r" "r < max l 4096 + 4096" "4096 dvd k" "0 < l"
  shows "r \<le> k \<longleftrightarrow> l \<le> k"
proof
  assume "l \<le> k"
  then have "max l 4096 \<le> k" using assms(4,5) by (auto dest: dvd_imp_le)
  then show "r \<le> k" using multiple_least[OF assms(1-3) assms(4)] by simp
qed (use assms in simp)

text \<open>
  The largest-run query is exact for the allocator. On a pool with the invariant, and a search
  range left open, \<open>available_direct_memory\<close> with an alignment that is a multiple of the page
  size answers the very offset at which the next allocation of that alignment goes, and an
  allocation of the same alignment and a positive length succeeds if and only if the query has an
  answer and the length is at most the reported size.
\<close>

theorem available_exact:
  assumes inv: "dm_inv dm" and al: "4096 dvd unat align" and len: "0 < unat len"
  shows "snd (dm_allocate dm len align) =
    (case available_direct_memory dm 0 0 align of
       None \<Rightarrow> None
     | Some (off, n) \<Rightarrow> if unat len \<le> unat n then Some off else None)"
proof -
  let ?a = "max align DIRECT_MEMORY_PAGE"
  define off where "off = next_multiple_of (next_off dm) ?a"
  have lim: "next_off dm \<le> DIRECT_MEMORY_POOL_SIZE" using inv by (simp add: dm_inv_def)
  note oo = allocate_off[OF lim, of align, folded off_def]
  have a0: "?a \<noteq> 0" by (auto simp: max_def DIRECT_MEMORY_PAGE_def split: if_splits)
  have "unat (next_off dm) < unat ?a \<or> unat (next_off dm) + unat ?a < 2 ^ 64"
    using lim by (auto simp: word_le_nat_alt)
  then have c: "checked_next_multiple_of (next_off dm) ?a = Some off"
    unfolding off_def by (rule checked_next_multiple_of_eq[OF a0])
  have page: "4096 dvd unat off" using oo(1) al by (auto simp: max_def split: if_splits intro: dvd_trans)
  have avail: "available_direct_memory dm 0 0 align =
      (if unat off < pool_size then Some (off, DIRECT_MEMORY_POOL_SIZE - off) else None)"
  proof -
    have "max 0 (next_off dm) = next_off dm" by (simp add: max_def)
    then show ?thesis by (simp add: available_direct_memory_def c word_less_nat_alt)
  qed
  have "(4096::nat) dvd 5368709120" by simp
  then have room: "4096 dvd pool_size - unat off" using page unfolding dm_consts by (rule dvd_diff_nat)
  show ?thesis
  proof (cases "checked_next_multiple_of (max len DIRECT_MEMORY_PAGE) DIRECT_MEMORY_PAGE")
    case None
    have "\<not> (unat (max len DIRECT_MEMORY_PAGE) < unat DIRECT_MEMORY_PAGE
      \<or> unat (max len DIRECT_MEMORY_PAGE) + unat DIRECT_MEMORY_PAGE < 2 ^ 64)"
      using checked_next_multiple_of_eq[of DIRECT_MEMORY_PAGE "max len DIRECT_MEMORY_PAGE"] None by auto
    then have "pool_size < unat len" by (auto simp: unat_max max_def split: if_splits)
    then show ?thesis
      unfolding dm_allocate_def None by (auto simp: avail unat_sub_le word_le_nat_alt less_imp_le)
  next
    case (Some k)
    note kk = checked_next_multiple_of_unat[OF Some, unfolded unat_max dm_consts]
    have fit: "unat k \<le> pool_size - unat off \<longleftrightarrow> unat len \<le> pool_size - unat off"
      by (rule rounded_fits[OF kk room len])
    have k0: "0 < unat k" using kk by simp
    have "snd (dm_allocate dm len align) = (if unat off + unat k \<le> pool_size then Some off else None)"
      by (auto simp: dm_allocate_def Some Let_def off_def[symmetric] checked_add_def word_le_nat_alt unat_add_nowrap)
    also have "\<dots> = (if unat off < pool_size \<and> unat len \<le> pool_size - unat off then Some off else None)"
      using fit k0 len by auto
    finally show ?thesis by (auto simp: avail unat_sub_le word_le_nat_alt less_imp_le)
  qed
qed

theorem available_exact_witness:
  "snd (dm_allocate dm_default 0x140000000 0x10000) = Some 0 \<and> snd (dm_allocate dm_default 0x140000001 0x10000) = None"
proof -
  have "available_direct_memory dm_default 0 0 0x10000 = Some (0, 0x140000000)"
    by (simp add: available_direct_memory_def dm_default_def checked_next_multiple_of_def
        DIRECT_MEMORY_PAGE_def DIRECT_MEMORY_POOL_SIZE_def)
  then show ?thesis
    using available_exact[OF dm_default_inv, of "0x10000" "0x140000000"]
      available_exact[OF dm_default_inv, of "0x10000" "0x140000001"]
    by simp
qed

text \<open>A thread keeps its TLS arena: once a call has returned a base, the same thread's next call
  returns it again and maps nothing; other threads' arenas are untouched by either call.\<close>

lemma tls_arena_stable:
  assumes "tls_arena_base ops pread p tid = Some (q, Inr base)"
  shows "tls_arena_base ops pread' q tid = Some (q, Inr base)"
    and "t \<noteq> tid \<Longrightarrow> map_of (tls_arenas q) t = map_of (tls_arenas p) t"
  using assms
  by (auto simp: tls_arena_base_def tls_arena_lookup_or_alloc_def mmap_aligned_def Let_def
      split: option.splits sum.splits prod.splits if_splits)

end
