(* ===== verification/File_System.thy ===== *)
theory File_System
  imports Rust_Prelude "HOL-Library.List_Lexorder" "HOL-Library.Sublist" "HOL-Library.AList"
begin

text \<open>
  The guest's file system: \<^verbatim>\<open>crates/kernel/src/fs.rs\<close> and the save-data mounts of
  \<^verbatim>\<open>crates/kernel/src/process.rs\<close>. Guest paths are resolved through a table of mounts to host paths;
  the operations keep a table of open descriptors. The host's file system is not part of the
  sources: it is the record \<open>host_ops\<close>, one field for each call of the standard library the code makes,
  over a host state of any type that the mutating calls return updated.
\<close>

section \<open>Paths\<close>

text \<open>
  A \<^verbatim>\<open>PathBuf\<close> is the list of its \<^verbatim>\<open>components()\<close>: a root directory at most in front, the names, and the
  \<^verbatim>\<open>..\<close> components the standard library keeps. Appending a string parses it the same way: empty
  parts and dots vanish, and a string that starts with a slash replaces the path.
\<close>

datatype path_comp = RootDir | ParentDir | Normal string

type_synonym path = "path_comp list"

fun split_slash :: "string \<Rightarrow> string list" where
  "split_slash [] = [[]]"
| "split_slash (c # cs) =
     (if c = CHR ''/'' then [] # split_slash cs
      else (case split_slash cs of p # ps \<Rightarrow> (c # p) # ps | [] \<Rightarrow> [[c]]))"

fun path_comps :: "string list \<Rightarrow> path" where
  "path_comps [] = []"
| "path_comps (s # ss) =
     (if s = [] \<or> s = ''.'' then path_comps ss
      else (if s = ''..'' then ParentDir else Normal s) # path_comps ss)"

definition path_join :: "path \<Rightarrow> string \<Rightarrow> path" where
  "path_join p s =
     (if s \<noteq> [] \<and> hd s = CHR ''/'' then RootDir # path_comps (split_slash s)
      else p @ path_comps (split_slash s))"

definition path_parent :: "path \<Rightarrow> path option" where
  "path_parent p = (if p = [] \<or> last p = RootDir then None else Some (butlast p))"

definition path_file_name :: "path \<Rightarrow> string option" where
  "path_file_name p = (case p of [] \<Rightarrow> None | _ \<Rightarrow> (case last p of Normal s \<Rightarrow> Some s | _ \<Rightarrow> None))"

section \<open>The host\<close>

datatype io_kind = NotFound | PermissionDenied | AlreadyExists | OtherKind

record io_error =
  io_err_kind :: io_kind
  raw_os_error :: "nat option"

datatype file_kind = KDir | KSymlink | KFile | KOther

text \<open>\<open>de_os_name\<close> is the entry's name as the host has it, \<open>de_name\<close> its lossy conversion to text.\<close>

record dir_entry =
  de_os_name :: string
  de_name :: string
  de_file_type :: "io_error + file_kind"
  de_ino :: u64

record open_options =
  opt_read :: bool
  opt_write :: bool
  opt_append :: bool
  opt_create :: bool
  opt_truncate :: bool

datatype seek_from = SeekStart u64 | SeekCurrent u64 | SeekEnd u64

record ('h, 'f) host_ops =
  h_canonicalize :: "'h \<Rightarrow> path \<Rightarrow> path option"
  h_exists :: "'h \<Rightarrow> path \<Rightarrow> bool"
  h_is_dir :: "'h \<Rightarrow> path \<Rightarrow> bool"
  h_metadata :: "'h \<Rightarrow> path \<Rightarrow> io_error + (bool \<times> u64)"
  h_read_dir :: "'h \<Rightarrow> path \<Rightarrow> io_error + (io_error + dir_entry) list"
  h_create_dir :: "'h \<Rightarrow> path \<Rightarrow> 'h \<times> (io_error + unit)"
  h_create_dir_all :: "'h \<Rightarrow> path \<Rightarrow> 'h \<times> (io_error + unit)"
  h_remove_dir :: "'h \<Rightarrow> path \<Rightarrow> 'h \<times> (io_error + unit)"
  h_remove_file :: "'h \<Rightarrow> path \<Rightarrow> 'h \<times> (io_error + unit)"
  h_rename :: "'h \<Rightarrow> path \<Rightarrow> path \<Rightarrow> 'h \<times> (io_error + unit)"
  h_open :: "'h \<Rightarrow> path \<Rightarrow> open_options \<Rightarrow> 'h \<times> (io_error + 'f)"
  h_read :: "'h \<Rightarrow> 'f \<Rightarrow> nat \<Rightarrow> 'h \<times> (io_error + u8 list)"
  h_write :: "'h \<Rightarrow> 'f \<Rightarrow> u8 list \<Rightarrow> 'h \<times> (io_error + nat)"
  h_read_at :: "'h \<Rightarrow> 'f \<Rightarrow> nat \<Rightarrow> u64 \<Rightarrow> 'h \<times> (io_error + u8 list)"
  h_write_at :: "'h \<Rightarrow> 'f \<Rightarrow> u8 list \<Rightarrow> u64 \<Rightarrow> 'h \<times> (io_error + nat)"
  h_seek :: "'h \<Rightarrow> 'f \<Rightarrow> seek_from \<Rightarrow> 'h \<times> (io_error + u64)"
  h_file_metadata :: "'h \<Rightarrow> 'f \<Rightarrow> io_error + (bool \<times> u64)"
  h_stdout :: "'h \<Rightarrow> u8 list \<Rightarrow> 'h"

text \<open>The errno of a host error; the numbers the host and the guest disagree on are remapped.\<close>

definition io_errno :: "io_error \<Rightarrow> nat" where
  "io_errno e =
     (case io_err_kind e of
        NotFound \<Rightarrow> 2 | PermissionDenied \<Rightarrow> 13 | AlreadyExists \<Rightarrow> 17
      | OtherKind \<Rightarrow>
          (case raw_os_error e of
             None \<Rightarrow> 5
           | Some n \<Rightarrow> if n = 20 then 20 else if n = 21 then 21 else if n = 36 then 63
                       else if n = 39 then 66 else if n = 40 then 62 else 5))"

section \<open>The state\<close>

record dirent_info =
  di_name :: string
  di_type :: u8
  di_fileno :: u32

record dir_cursor =
  dc_entries :: "dirent_info list"
  dc_pos :: nat

record 'f file_description =
  fd_file :: 'f
  fd_path :: string
  fd_flags :: u32
  fd_dir :: "dir_cursor option"

record 'f file_system =
  mounts :: "(string \<times> path) list"
  files :: "u32 \<rightharpoonup> 'f file_description"
  next_fd :: u32

definition fs_new :: "'f file_system" where
  "fs_new = \<lparr>mounts = [], files = Map.empty, next_fd = 3\<rparr>"

text \<open>\<^verbatim>\<open>sort_by_key\<close> is stable, as \<open>sort_key\<close> is: longest prefix first, in the order of mounting.\<close>

definition fs_mount :: "'f file_system \<Rightarrow> string \<Rightarrow> path \<Rightarrow> 'f file_system" where
  "fs_mount fs guest host =
     fs\<lparr>mounts := sort_key (\<lambda>m. - int (length (fst m))) (mounts fs @ [(guest, host)])\<rparr>"

definition fs_unmount :: "'f file_system \<Rightarrow> string \<Rightarrow> 'f file_system" where
  "fs_unmount fs guest = fs\<lparr>mounts := filter (\<lambda>m. fst m \<noteq> guest) (mounts fs)\<rparr>"

section \<open>Resolving a guest path\<close>

function canonicalize_existing_prefix :: "(path \<Rightarrow> path option) \<Rightarrow> path \<Rightarrow> path option" where
  "canonicalize_existing_prefix canon p =
     (case canon p of
        Some c \<Rightarrow> Some c
      | None \<Rightarrow>
          (case path_parent p of
             None \<Rightarrow> None
           | Some parent \<Rightarrow>
               (case path_file_name p of
                  None \<Rightarrow> None
                | Some f \<Rightarrow> map_option (\<lambda>q. q @ [Normal f]) (canonicalize_existing_prefix canon parent))))"
  by pat_completeness auto
termination
  by (relation "measure (length \<circ> snd)") (auto simp: path_parent_def split: if_splits)

declare canonicalize_existing_prefix.simps [simp del]

definition contain :: "(path \<Rightarrow> path option) \<Rightarrow> path \<Rightarrow> path \<Rightarrow> path option" where
  "contain canon host_path host_root =
     (case canon host_root of
        None \<Rightarrow> None
      | Some root \<Rightarrow>
          (case canonicalize_existing_prefix canon host_path of
             None \<Rightarrow> None
           | Some c \<Rightarrow> if prefix root c then Some c else None))"

definition mount_prefix_matches :: "string \<Rightarrow> string \<Rightarrow> bool" where
  "mount_prefix_matches guest pre =
     (if prefix pre guest
      then (let rest = drop (length pre) guest
            in rest = [] \<or> hd rest = CHR ''/'' \<or> (pre \<noteq> [] \<and> last pre = CHR ''/''))
      else False)"

fun normalize_comps :: "string list \<Rightarrow> string list \<Rightarrow> string list option" where
  "normalize_comps out [] = Some out"
| "normalize_comps out (c # cs) =
     (if c = [] \<or> c = ''.'' then normalize_comps out cs
      else if c = ''..'' then (if out = [] then None else normalize_comps (butlast out) cs)
      else normalize_comps (out @ [c]) cs)"

definition normalize_relative :: "string \<Rightarrow> string list option" where
  "normalize_relative relative = normalize_comps [] (split_slash relative)"

definition ascii_lower :: "char \<Rightarrow> char" where
  "ascii_lower c = (if 65 \<le> (of_char c :: nat) \<and> (of_char c :: nat) \<le> 90 then char_of ((of_char c :: nat) + 32) else c)"

definition eq_ignore_ascii_case :: "string \<Rightarrow> string \<Rightarrow> bool" where
  "eq_ignore_ascii_case a b \<longleftrightarrow> map ascii_lower a = map ascii_lower b"

definition byte_key :: "string \<Rightarrow> nat list" where
  "byte_key s = map of_char s"

text \<open>
  The scan of one directory. The hits have the same parent, so sorting the paths sorts them by
  the bytes of their last component.
\<close>

definition scan_dir :: "('h, 'f) host_ops \<Rightarrow> 'h \<Rightarrow> path \<Rightarrow> string \<Rightarrow> path option" where
  "scan_dir ho h cur nm =
     (case h_read_dir ho h cur of
        Inl _ \<Rightarrow> None
      | Inr rs \<Rightarrow>
          (let ents = concat (map (\<lambda>r. case r of Inl _ \<Rightarrow> [] | Inr e \<Rightarrow> [e]) rs);
               hits = map de_os_name (filter (\<lambda>e. eq_ignore_ascii_case (de_name e) nm) ents)
           in map_option (\<lambda>n. path_join cur n) (hd_opt (sort_key byte_key hits))))"

fun resolve_case_insensitive :: "('h, 'f) host_ops \<Rightarrow> 'h \<Rightarrow> path \<Rightarrow> string list \<Rightarrow> path option" where
  "resolve_case_insensitive ho h cur [] = Some cur"
| "resolve_case_insensitive ho h cur (nm # nms) =
     (if h_exists ho h (path_join cur nm) then resolve_case_insensitive ho h (path_join cur nm) nms
      else (case scan_dir ho h cur nm of
              None \<Rightarrow> None
            | Some q \<Rightarrow> resolve_case_insensitive ho h q nms))"

text \<open>The loop over the mounts: a hit ends it; the first inside candidate is the fallback.\<close>

fun translate_loop ::
  "('h, 'f) host_ops \<Rightarrow> 'h \<Rightarrow> string \<Rightarrow> (string \<times> path) list \<Rightarrow> path option \<Rightarrow> path option" where
  "translate_loop ho h guest [] fallback = fallback"
| "translate_loop ho h guest ((pre, root) # ms) fallback =
     (if mount_prefix_matches guest pre then
        (case normalize_relative (dropWhile (\<lambda>c. c = CHR ''/'') (drop (length pre) guest)) of
           None \<Rightarrow> translate_loop ho h guest ms fallback
         | Some components \<Rightarrow>
             (case contain (h_canonicalize ho h) (foldl path_join root components) root of
                None \<Rightarrow> translate_loop ho h guest ms fallback
              | Some inside \<Rightarrow>
                  if h_exists ho h inside then Some inside
                  else
                    (case Option.bind (resolve_case_insensitive ho h root components)
                            (\<lambda>ci. case contain (h_canonicalize ho h) ci root of
                                     None \<Rightarrow> None
                                   | Some q \<Rightarrow> if h_exists ho h q then Some q else None) of
                       Some q \<Rightarrow> Some q
                     | None \<Rightarrow> translate_loop ho h guest ms
                                 (case fallback of None \<Rightarrow> Some inside | Some _ \<Rightarrow> fallback))))
      else translate_loop ho h guest ms fallback)"

definition translate :: "('h, 'f) host_ops \<Rightarrow> 'h \<Rightarrow> 'f file_system \<Rightarrow> string \<Rightarrow> path option" where
  "translate ho h fs guest = translate_loop ho h guest (mounts fs) None"

function trim_dot_slash :: "string \<Rightarrow> string" where
  "trim_dot_slash s = (if prefix ''./'' s then trim_dot_slash (drop 2 s) else s)"
  by pat_completeness auto
termination
  by (relation "measure length") (auto dest!: prefix_length_le)

declare trim_dot_slash.simps [simp del]

definition resolve :: "('h, 'f) host_ops \<Rightarrow> 'h \<Rightarrow> 'f file_system \<Rightarrow> string \<Rightarrow> path option" where
  "resolve ho h fs p =
     (case translate ho h fs p of
        Some host \<Rightarrow> Some host
      | None \<Rightarrow>
          if p \<noteq> [] \<and> hd p = CHR ''/'' then None
          else translate ho h fs (''/app0/'' @ dropWhile (\<lambda>c. c = CHR ''/'') (trim_dot_slash p)))"

section \<open>Operations on paths\<close>

type_synonym ('h, 'f, 'r) fs_result = "'h \<times> 'f file_system \<times> (nat + 'r)"

definition host_unit :: "'h \<times> (io_error + unit) \<Rightarrow> 'f file_system \<Rightarrow> ('h, 'f, nat) fs_result" where
  "host_unit r fs = (case r of (h, Inr _) \<Rightarrow> (h, fs, Inr 0) | (h, Inl e) \<Rightarrow> (h, fs, Inl (io_errno e)))"

definition fs_mkdir :: "('h, 'f) host_ops \<Rightarrow> 'h \<Rightarrow> 'f file_system \<Rightarrow> string \<Rightarrow> ('h, 'f, nat) fs_result" where
  "fs_mkdir ho h fs p =
     (if p = [] then (h, fs, Inl 2)
      else
        (let trimmed = rev (dropWhile (\<lambda>c. c = CHR ''/'') (rev p))
         in if trimmed = [] \<or> trimmed = ''.'' then (h, fs, Inl 17)
            else (case resolve ho h fs p of
                    None \<Rightarrow> (h, fs, Inl 2)
                  | Some host \<Rightarrow> host_unit (h_create_dir ho h host) fs)))"

definition fs_rmdir :: "('h, 'f) host_ops \<Rightarrow> 'h \<Rightarrow> 'f file_system \<Rightarrow> string \<Rightarrow> ('h, 'f, nat) fs_result" where
  "fs_rmdir ho h fs p =
     (case resolve ho h fs p of
        None \<Rightarrow> (h, fs, Inl 2)
      | Some host \<Rightarrow> host_unit (h_remove_dir ho h host) fs)"

definition fs_unlink :: "('h, 'f) host_ops \<Rightarrow> 'h \<Rightarrow> 'f file_system \<Rightarrow> string \<Rightarrow> ('h, 'f, nat) fs_result" where
  "fs_unlink ho h fs p =
     (case resolve ho h fs p of
        None \<Rightarrow> (h, fs, Inl 2)
      | Some host \<Rightarrow> host_unit (h_remove_file ho h host) fs)"

definition fs_rename ::
  "('h, 'f) host_ops \<Rightarrow> 'h \<Rightarrow> 'f file_system \<Rightarrow> string \<Rightarrow> string \<Rightarrow> ('h, 'f, nat) fs_result" where
  "fs_rename ho h fs old new =
     (case resolve ho h fs old of
        None \<Rightarrow> (h, fs, Inl 2)
      | Some host_old \<Rightarrow>
          (case resolve ho h fs new of
             None \<Rightarrow> (h, fs, Inl 2)
           | Some host_new \<Rightarrow> host_unit (h_rename ho h host_old host_new) fs))"

definition fs_stat :: "('h, 'f) host_ops \<Rightarrow> 'h \<Rightarrow> 'f file_system \<Rightarrow> string \<Rightarrow> nat + (bool \<times> u64)" where
  "fs_stat ho h fs p =
     (case resolve ho h fs p of
        None \<Rightarrow> Inl 2
      | Some host \<Rightarrow> (case h_metadata ho h host of Inl _ \<Rightarrow> Inl 2 | Inr md \<Rightarrow> Inr md))"

definition host_path :: "('h, 'f) host_ops \<Rightarrow> 'h \<Rightarrow> 'f file_system \<Rightarrow> string \<Rightarrow> path option" where
  "host_path ho h fs p = resolve ho h fs p"

section \<open>Open descriptors\<close>

definition O_RDONLY :: u32 where "O_RDONLY = 0x0000"
definition O_WRONLY :: u32 where "O_WRONLY = 0x0001"
definition O_RDWR :: u32 where "O_RDWR = 0x0002"
definition O_CREAT :: u32 where "O_CREAT = 0x0200"
definition O_TRUNC :: u32 where "O_TRUNC = 0x0400"
definition O_APPEND :: u32 where "O_APPEND = 0x0008"

definition open_opts :: "u32 \<Rightarrow> open_options option" where
  "open_opts flags =
     (let access_mode = flags AND 3 in
      if access_mode = O_RDONLY \<or> access_mode = O_WRONLY \<or> access_mode = O_RDWR
      then Some \<lparr>opt_read = (access_mode = O_RDONLY \<or> access_mode = O_RDWR),
                 opt_write = (access_mode = O_WRONLY \<or> access_mode = O_RDWR),
                 opt_append = (flags AND O_APPEND \<noteq> 0),
                 opt_create = (flags AND O_CREAT \<noteq> 0),
                 opt_truncate = (flags AND O_TRUNC \<noteq> 0)\<rparr>
      else None)"

definition fs_open ::
  "('h, 'f) host_ops \<Rightarrow> 'h \<Rightarrow> 'f file_system \<Rightarrow> string \<Rightarrow> u32 \<Rightarrow> ('h, 'f, u32) fs_result" where
  "fs_open ho h fs p flags =
     (case resolve ho h fs p of
        None \<Rightarrow> (h, fs, Inl 2)
      | Some host \<Rightarrow>
          (case open_opts flags of
             None \<Rightarrow> (h, fs, Inl 22)
           | Some opts \<Rightarrow>
               (case h_open ho h host opts of
                  (h', Inl _) \<Rightarrow> (h', fs, Inl 2)
                | (h', Inr f) \<Rightarrow>
                    (let fd = next_fd fs;
                         entry = \<lparr>fd_file = f, fd_path = p, fd_flags = flags, fd_dir = None\<rparr>
                     in (h', fs\<lparr>next_fd := fd + 1, files := (files fs)(fd \<mapsto> entry)\<rparr>, Inr fd)))))"

definition fs_close :: "'f file_system \<Rightarrow> u32 \<Rightarrow> 'f file_system \<times> (nat + nat)" where
  "fs_close fs fd =
     (case files fs fd of
        Some _ \<Rightarrow> (fs\<lparr>files := (files fs)(fd := None)\<rparr>, Inr 0)
      | None \<Rightarrow> (fs, Inl 9))"

definition fs_read :: "('h, 'f) host_ops \<Rightarrow> 'h \<Rightarrow> 'f file_system \<Rightarrow> u32 \<Rightarrow> nat \<Rightarrow> 'h \<times> (nat + u8 list)" where
  "fs_read ho h fs fd n =
     (case files fs fd of
        None \<Rightarrow> (h, Inl 9)
      | Some entry \<Rightarrow>
          if fd_flags entry AND 3 = O_WRONLY then (h, Inl 9)
          else (case h_read ho h (fd_file entry) n of
                  (h', Inl _) \<Rightarrow> (h', Inl 5)
                | (h', Inr bs) \<Rightarrow> (h', Inr bs)))"

definition fs_pread ::
  "('h, 'f) host_ops \<Rightarrow> 'h \<Rightarrow> 'f file_system \<Rightarrow> u32 \<Rightarrow> u64 \<Rightarrow> nat \<Rightarrow> 'h \<times> (nat + u8 list)" where
  "fs_pread ho h fs fd offset n =
     (case files fs fd of
        None \<Rightarrow> (h, Inl 9)
      | Some entry \<Rightarrow>
          (case h_read_at ho h (fd_file entry) n offset of
             (h', Inl e) \<Rightarrow> (h', Inl (io_errno e))
           | (h', Inr bs) \<Rightarrow> (h', Inr bs)))"

definition fs_fstat :: "('h, 'f) host_ops \<Rightarrow> 'h \<Rightarrow> 'f file_system \<Rightarrow> u32 \<Rightarrow> nat + (bool \<times> u64)" where
  "fs_fstat ho h fs fd =
     (case files fs fd of
        None \<Rightarrow> Inl 9
      | Some entry \<Rightarrow>
          (case h_file_metadata ho h (fd_file entry) of Inl e \<Rightarrow> Inl (io_errno e) | Inr md \<Rightarrow> Inr md))"

definition fs_write :: "('h, 'f) host_ops \<Rightarrow> 'h \<Rightarrow> 'f file_system \<Rightarrow> u32 \<Rightarrow> u8 list \<Rightarrow> 'h \<times> (nat + nat)" where
  "fs_write ho h fs fd buf =
     (if fd = 1 \<or> fd = 2 then (h_stdout ho h buf, Inr (length buf))
      else
        (case files fs fd of
           None \<Rightarrow> (h, Inl 9)
         | Some entry \<Rightarrow>
             if fd_flags entry AND 3 = O_RDONLY then (h, Inl 9)
             else (case h_write ho h (fd_file entry) buf of
                     (h', Inl _) \<Rightarrow> (h', Inl 5)
                   | (h', Inr n) \<Rightarrow> (h', Inr n))))"

definition fs_pwrite ::
  "('h, 'f) host_ops \<Rightarrow> 'h \<Rightarrow> 'f file_system \<Rightarrow> u32 \<Rightarrow> u8 list \<Rightarrow> u64 \<Rightarrow> 'h \<times> (nat + nat)" where
  "fs_pwrite ho h fs fd buf offset =
     (case files fs fd of
        None \<Rightarrow> (h, Inl 9)
      | Some entry \<Rightarrow>
          if fd_flags entry AND 3 = O_RDONLY then (h, Inl 9)
          else (case h_write_at ho h (fd_file entry) buf offset of
                  (h', Inl _) \<Rightarrow> (h', Inl 5)
                | (h', Inr n) \<Rightarrow> (h', Inr n)))"

definition fs_lseek ::
  "('h, 'f) host_ops \<Rightarrow> 'h \<Rightarrow> 'f file_system \<Rightarrow> u32 \<Rightarrow> u64 \<Rightarrow> u32 \<Rightarrow> 'h \<times> (nat + u64)" where
  "fs_lseek ho h fs fd offset whence =
     (case files fs fd of
        None \<Rightarrow> (h, Inl 9)
      | Some entry \<Rightarrow>
          (let seek = (\<lambda>sf. case h_seek ho h (fd_file entry) sf of
                              (h', Inl _) \<Rightarrow> (h', Inl 22)
                            | (h', Inr pos) \<Rightarrow> (h', Inr pos))
           in if whence = 0 then seek (SeekStart offset)
              else if whence = 1 then seek (SeekCurrent offset)
              else if whence = 2 then seek (SeekEnd offset)
              else (h, Inl 22)))"

section \<open>Directory entries\<close>

definition kind_d_type :: "file_kind \<Rightarrow> u8" where
  "kind_d_type k = (case k of KDir \<Rightarrow> 4 | KSymlink \<Rightarrow> 10 | KFile \<Rightarrow> 8 | KOther \<Rightarrow> 0)"

definition dot_entries :: "dirent_info list" where
  "dot_entries = [\<lparr>di_name = ''.'', di_type = 4, di_fileno = 1\<rparr>, \<lparr>di_name = ''..'', di_type = 4, di_fileno = 1\<rparr>]"

fun snapshot_entries :: "(io_error + dir_entry) list \<Rightarrow> dirent_info list \<Rightarrow> nat + dirent_info list" where
  "snapshot_entries [] acc = Inr acc"
| "snapshot_entries (rd # rds) acc =
     (case rd of
        Inl e \<Rightarrow> Inl (io_errno e)
      | Inr de \<Rightarrow>
          (case de_file_type de of
             Inl e \<Rightarrow> Inl (io_errno e)
           | Inr k \<Rightarrow>
               snapshot_entries rds
                 (acc @ [\<lparr>di_name = de_name de, di_type = kind_d_type k, di_fileno = max (ucast (de_ino de)) 2\<rparr>])))"

definition snapshot_dir :: "('h, 'f) host_ops \<Rightarrow> 'h \<Rightarrow> 'f file_system \<Rightarrow> string \<Rightarrow> nat + dir_cursor" where
  "snapshot_dir ho h fs p =
     (case resolve ho h fs p of
        None \<Rightarrow> Inl 9
      | Some host \<Rightarrow>
          (case h_metadata ho h host of
             Inl e \<Rightarrow> Inl (io_errno e)
           | Inr (is_dir, _) \<Rightarrow>
               if \<not> is_dir then Inl 20
               else
                 (case h_read_dir ho h host of
                    Inl e \<Rightarrow> Inl (io_errno e)
                  | Inr rds \<Rightarrow>
                      (case snapshot_entries rds dot_entries of
                         Inl e \<Rightarrow> Inl e
                       | Inr es \<Rightarrow> Inr \<lparr>dc_entries = es, dc_pos = 0\<rparr>))))"

definition name_bytes :: "string \<Rightarrow> u8 list" where
  "name_bytes s = map (\<lambda>c. of_nat (of_char c)) s"

definition dirent_namlen :: "dirent_info \<Rightarrow> nat" where
  "dirent_namlen e = min (length (name_bytes (di_name e))) 255"

definition dirent_reclen :: "dirent_info \<Rightarrow> nat" where
  "dirent_reclen e = (8 + dirent_namlen e + 1 + 7) div 8 * 8"

text \<open>One record: file number, record length, type, name length, the name, zeros to the end.\<close>

definition dirent_record :: "dirent_info \<Rightarrow> u8 list" where
  "dirent_record e =
     (let namlen = dirent_namlen e; reclen = dirent_reclen e in
      u32_bytes (di_fileno e) @ [ucast (of_nat reclen :: u16), ucast (drop_bit 8 (of_nat reclen :: u16))]
      @ [di_type e, of_nat namlen] @ take namlen (name_bytes (di_name e))
      @ replicate (reclen - (8 + namlen)) 0)"

text \<open>
  The loop of \<^verbatim>\<open>getdents\<close> over the entries not yet read: the bytes written so far, the number of
  entries consumed. \<open>None\<close> is the buffer too small for one entry.
\<close>

fun pack_dirents :: "nat \<Rightarrow> dirent_info list \<Rightarrow> u8 list \<Rightarrow> nat \<Rightarrow> (u8 list \<times> nat) option" where
  "pack_dirents cap [] out k = Some (out, k)"
| "pack_dirents cap (e # es) out k =
     (if length out + dirent_reclen e > cap then (if out = [] then None else Some (out, k))
      else pack_dirents cap es (out @ dirent_record e) (k + 1))"

text \<open>\<open>fs_getdents\<close> returns the bytes it wrote at the front of the buffer.\<close>

definition fs_getdents ::
  "('h, 'f) host_ops \<Rightarrow> 'h \<Rightarrow> 'f file_system \<Rightarrow> u32 \<Rightarrow> nat \<Rightarrow> 'f file_system \<times> (nat + u8 list)" where
  "fs_getdents ho h fs fd cap =
     (case files fs fd of
        None \<Rightarrow> (fs, Inl 9)
      | Some entry \<Rightarrow>
          (case (case fd_dir entry of Some c \<Rightarrow> Inr c | None \<Rightarrow> snapshot_dir ho h fs (fd_path entry)) of
             Inl e \<Rightarrow> (fs, Inl e)
           | Inr cur \<Rightarrow>
               (let put = (\<lambda>c. fs\<lparr>files := (files fs)(fd \<mapsto> entry\<lparr>fd_dir := Some c\<rparr>)\<rparr>)
                in case pack_dirents cap (drop (dc_pos cur) (dc_entries cur)) [] 0 of
                     None \<Rightarrow> (put cur, Inl 22)
                   | Some (out, k) \<Rightarrow> (put (cur\<lparr>dc_pos := dc_pos cur + k\<rparr>), Inr out))))"

section \<open>Save-data mounts\<close>
text \<open>
  \<^verbatim>\<open>format!("/savedata{idx}")\<close>: the decimal digits of a number. The live mounts are the entries of
  the hash map in its iteration order.
\<close>

fun digits :: "nat \<Rightarrow> string" where
  "digits n = (if n < 10 then [char_of (48 + n)] else digits (n div 10) @ [char_of (48 + n mod 10)])"

declare digits.simps [simp del]

definition savedata_point :: "nat \<Rightarrow> string" where
  "savedata_point idx = ''/savedata'' @ digits idx"

text \<open>The scan for the lowest free index; at most as many steps as there are mounts, plus one.\<close>

fun free_index :: "string list \<Rightarrow> nat \<Rightarrow> nat \<Rightarrow> nat option" where
  "free_index live 0 idx = None"
| "free_index live (Suc fuel) idx =
     (if savedata_point idx \<in> set live then free_index live fuel (idx + 1) else Some idx)"

definition alloc_savedata_mount_point :: "(string \<times> string) list \<Rightarrow> string \<Rightarrow> string option" where
  "alloc_savedata_mount_point sms dir_name =
     (case filter (\<lambda>(_, d). d = dir_name) sms of
        (mp, _) # _ \<Rightarrow> Some mp
      | [] \<Rightarrow> map_option savedata_point (free_index (map fst sms) (Suc (length sms)) 0))"

text \<open>The parts of \<^verbatim>\<open>Process\<close> the mounts use: the file system and the table of save-data mount points.\<close>

record 'f save_process =
  sp_fs :: "'f file_system"
  savedata_mounts :: "(string \<times> string) list"

definition beside_eboot :: "('h, 'f) host_ops \<Rightarrow> 'h \<Rightarrow> 'f file_system \<Rightarrow> string \<Rightarrow> path option" where
  "beside_eboot ho h fs name =
     Option.bind (host_path ho h fs ''/app0/eboot.bin'') (\<lambda>p. map_option (\<lambda>d. path_join d name) (path_parent p))"

definition savedata_root :: "('h, 'f) host_ops \<Rightarrow> 'h \<Rightarrow> 'f file_system \<Rightarrow> path option" where
  "savedata_root ho h fs = beside_eboot ho h fs ''savedata''"

definition tempdata_mount ::
  "('h, 'f) host_ops \<Rightarrow> 'h \<Rightarrow> 'f save_process \<Rightarrow> 'h \<times> 'f save_process \<times> (nat + string)" where
  "tempdata_mount ho h p =
     (case beside_eboot ho h (sp_fs p) ''tempdata'' of
        None \<Rightarrow> (h, p, Inl 0x16)
      | Some root \<Rightarrow>
          (case (if h_is_dir ho h root then (h, Inr ()) else h_create_dir_all ho h root) of
             (h', Inl _) \<Rightarrow> (h', p, Inl 5)
           | (h', Inr _) \<Rightarrow> (h', p\<lparr>sp_fs := fs_mount (sp_fs p) ''/temp0'' root\<rparr>, Inr ''/temp0'')))"

text \<open>The outer \<open>None\<close> is a scan for a free mount point that does not end.\<close>

definition savedata_mount ::
  "('h, 'f) host_ops \<Rightarrow> 'h \<Rightarrow> 'f save_process \<Rightarrow> string \<Rightarrow> u64 \<Rightarrow>
   ('h \<times> 'f save_process \<times> (nat + string \<times> nat \<times> u64)) option" where
  "savedata_mount ho h p dir_name requested_blocks =
     (case savedata_root ho h (sp_fs p) of
        None \<Rightarrow> Some (h, p, Inl 0x16)
      | Some root \<Rightarrow>
          (let host_dir = path_join root dir_name;
               existed = h_is_dir ho h host_dir
           in case (if existed then (h, Inr ()) else h_create_dir_all ho h host_dir) of
                (h', Inl _) \<Rightarrow> Some (h', p, Inl 5)
              | (h', Inr _) \<Rightarrow>
                  (case alloc_savedata_mount_point (savedata_mounts p) dir_name of
                     None \<Rightarrow> None
                   | Some mp \<Rightarrow>
                       Some (h', p\<lparr>sp_fs := fs_mount (sp_fs p) mp host_dir,
                                   savedata_mounts := AList.update mp dir_name (savedata_mounts p)\<rparr>,
                             Inr (mp, if existed then 0 else 1,
                                  if requested_blocks = 0 then 4096 else requested_blocks)))))"

definition savedata_umount :: "'f save_process \<Rightarrow> string \<Rightarrow> 'f save_process \<times> (nat + unit)" where
  "savedata_umount p mp =
     (case map_of (savedata_mounts p) mp of
        None \<Rightarrow> (p, Inl 0x13)
      | Some _ \<Rightarrow> (p\<lparr>sp_fs := fs_unmount (sp_fs p) mp, savedata_mounts := AList.delete mp (savedata_mounts p)\<rparr>, Inr ()))"

section \<open>A small host\<close>

text \<open>
  A host with the files of a list, on which one name is a symbolic link: \<^verbatim>\<open>/srv/link\<close> points to
  \<^verbatim>\<open>/etc/new\<close>. As on the host's own file system, a path is canonical only when its target exists,
  and opening a link with the create flag creates its target.
\<close>

abbreviation srv :: path where "srv \<equiv> [RootDir, Normal ''srv'']"

definition follow :: "path \<Rightarrow> path" where
  "follow p = (if p = srv @ [Normal ''link''] then [RootDir, Normal ''etc'', Normal ''new''] else p)"

definition small_host :: "(path list, nat) host_ops" where
  "small_host =
    \<lparr>h_canonicalize = \<lambda>h p. if follow p \<in> set h then Some (follow p) else None,
     h_exists = \<lambda>h p. follow p \<in> set h, h_is_dir = \<lambda>h p. follow p \<in> set h,
     h_metadata = \<lambda>h p. Inr (True, 0),
     h_read_dir = \<lambda>h p. Inr [Inr \<lparr>de_os_name = ''a'', de_name = ''a'', de_file_type = Inr KFile, de_ino = 7\<rparr>],
     h_create_dir = \<lambda>h p. (p # h, Inr ()), h_create_dir_all = \<lambda>h p. (p # h, Inr ()),
     h_remove_dir = \<lambda>h p. (remove1 p h, Inr ()), h_remove_file = \<lambda>h p. (remove1 p h, Inr ()),
     h_rename = \<lambda>h p q. (q # remove1 p h, Inr ()),
     h_open = \<lambda>h p opts. if follow p \<in> set h then (h, Inr 0)
        else if opt_create opts then (follow p # h, Inr 0)
        else (h, Inl \<lparr>io_err_kind = NotFound, raw_os_error = None\<rparr>),
     h_read = \<lambda>h f n. (h, Inr []), h_write = \<lambda>h f b. (h, Inr (length b)),
     h_read_at = \<lambda>h f n off. (h, Inr []), h_write_at = \<lambda>h f b off. (h, Inr (length b)),
     h_seek = \<lambda>h f s. (h, Inr 0), h_file_metadata = \<lambda>h f. Inr (True, 0), h_stdout = \<lambda>h b. h\<rparr>"

definition app_fs :: "nat file_system" where "app_fs = fs_mount fs_new ''/app0'' srv"

definition small_files :: "path list" where
  "small_files = [[RootDir], srv, srv @ [Normal ''eboot.bin'']]"

definition dir_fs :: "dir_cursor option \<Rightarrow> nat file_system" where
  "dir_fs c = app_fs\<lparr>files := [3 \<mapsto> \<lparr>fd_file = 0, fd_path = ''/app0'', fd_flags = O_RDONLY, fd_dir = c\<rparr>]\<rparr>"

section \<open>Confinement\<close>

text \<open>A host path that lies under the canonical root of a mount.\<close>

definition inside_mounts :: "('h, 'f) host_ops \<Rightarrow> 'h \<Rightarrow> 'f file_system \<Rightarrow> path \<Rightarrow> bool" where
  "inside_mounts ho h fs p =
     list_ex (\<lambda>(pre, root). case h_canonicalize ho h root of None \<Rightarrow> False | Some r \<Rightarrow> prefix r p) (mounts fs)"

lemma contain_SomeD:
  assumes "contain canon p root = Some c"
  shows "\<exists>r. canon root = Some r \<and> prefix r c" and "canonicalize_existing_prefix canon p = Some c"
  using assms by (auto simp: contain_def split: option.splits if_splits)

definition mount_hit :: "('h, 'f) host_ops \<Rightarrow> 'h \<Rightarrow> string \<Rightarrow> (string \<times> path) list \<Rightarrow> path \<Rightarrow> bool" where
  "mount_hit ho h guest ms p \<longleftrightarrow> (\<exists>pre root q. (pre, root) \<in> set ms \<and> mount_prefix_matches guest pre
    \<and> contain (h_canonicalize ho h) q root = Some p)"

lemma mount_hitI:
  "mount_prefix_matches guest pre \<Longrightarrow> contain (h_canonicalize ho h) q root = Some p \<Longrightarrow>
   mount_hit ho h guest ((pre, root) # ms) p"
  by (auto simp: mount_hit_def)

lemma mount_hit_Cons: "mount_hit ho h guest ms p \<Longrightarrow> mount_hit ho h guest (m # ms) p"
  by (auto simp: mount_hit_def)

lemma translate_loop_source:
  assumes "translate_loop ho h guest ms fallback = Some p"
  shows "fallback = Some p \<or> mount_hit ho h guest ms p"
  using assms
proof (induction ms arbitrary: fallback)
  case (Cons m ms)
  obtain pre root where m: "m = (pre, root)" by (cases m)
  have rest: "fb = Some p \<or> mount_hit ho h guest (m # ms) p" if "translate_loop ho h guest ms fb = Some p" for fb
    using Cons.IH[OF that] by (auto intro: mount_hit_Cons)
  show ?case
    using Cons.prems unfolding m
    by (auto split: option.splits if_splits bind_splits dest: mount_hitI[of guest pre] rest[unfolded m])
qed simp

lemma translate_source: "translate ho h fs guest = Some p \<Longrightarrow> mount_hit ho h guest (mounts fs) p"
  by (auto simp: translate_def dest: translate_loop_source)

lemma mount_hit_inside: "mount_hit ho h guest (mounts fs) p \<Longrightarrow> inside_mounts ho h fs p"
proof -
  assume "mount_hit ho h guest (mounts fs) p"
  then obtain pre root q where m: "(pre, root) \<in> set (mounts fs)" and c: "contain (h_canonicalize ho h) q root = Some p"
    by (auto simp: mount_hit_def)
  obtain r where "h_canonicalize ho h root = Some r" "prefix r p" using contain_SomeD(1)[OF c] by blast
  then show ?thesis using m by (auto simp: inside_mounts_def list_ex_iff intro!: bexI[of _ "(pre, root)"])
qed

lemma resolve_source:
  "resolve ho h fs p = Some host \<Longrightarrow>
   mount_hit ho h p (mounts fs) host \<or>
   \<not> (p \<noteq> [] \<and> hd p = CHR ''/'') \<and>
     mount_hit ho h (''/app0/'' @ dropWhile (\<lambda>c. c = CHR ''/'') (trim_dot_slash p)) (mounts fs) host"
  by (auto simp: resolve_def dest!: translate_source split: option.splits if_splits)

lemma resolve_inside: "resolve ho h fs p = Some host \<Longrightarrow> inside_mounts ho h fs host"
  by (drule resolve_source) (auto intro: mount_hit_inside)

text \<open>
  A host that refuses every mutating call on a path outside the mounts. The queries are those of
  the host.
\<close>

definition denied :: io_error where
  "denied = \<lparr>io_err_kind = PermissionDenied, raw_os_error = None\<rparr>"

definition jail :: "'f file_system \<Rightarrow> ('h, 'f) host_ops \<Rightarrow> ('h, 'f) host_ops" where
  "jail fs ho = ho\<lparr>
     h_create_dir := \<lambda>h p. if inside_mounts ho h fs p then h_create_dir ho h p else (h, Inl denied),
     h_remove_dir := \<lambda>h p. if inside_mounts ho h fs p then h_remove_dir ho h p else (h, Inl denied),
     h_remove_file := \<lambda>h p. if inside_mounts ho h fs p then h_remove_file ho h p else (h, Inl denied),
     h_rename := \<lambda>h p q. if inside_mounts ho h fs p \<and> inside_mounts ho h fs q then h_rename ho h p q else (h, Inl denied),
     h_open := \<lambda>h p o'. if inside_mounts ho h fs p then h_open ho h p o' else (h, Inl denied)\<rparr>"

lemma jail_queries [simp]:
  "h_canonicalize (jail fs ho) = h_canonicalize ho" "h_exists (jail fs ho) = h_exists ho"
  "h_read_dir (jail fs ho) = h_read_dir ho"
  by (simp_all add: jail_def)

lemma jail_scan_dir [simp]: "scan_dir (jail fs ho) = scan_dir ho"
  by (intro ext) (simp add: scan_dir_def)

lemma jail_resolve_case_insensitive [simp]:
  "resolve_case_insensitive (jail fs ho) h cur nms = resolve_case_insensitive ho h cur nms"
  by (induction nms arbitrary: cur) (simp_all split: option.split)

lemma jail_translate_loop [simp]:
  "translate_loop (jail fs ho) h guest ms fb = translate_loop ho h guest ms fb"
proof (induction ms arbitrary: fb)
  case (Cons m ms)
  obtain pre root where m: "m = (pre, root)" by (cases m)
  show ?case unfolding m translate_loop.simps jail_queries jail_resolve_case_insensitive Cons.IH ..
qed simp

lemma jail_translate [simp]: "translate (jail fs ho) h fs' p = translate ho h fs' p"
  by (simp add: translate_def)

lemma jail_resolve [simp]: "resolve (jail fs ho) h fs' p = resolve ho h fs' p"
  unfolding resolve_def jail_translate ..

lemma jail_mutations:
  assumes "inside_mounts ho h fs p"
  shows "h_create_dir (jail fs ho) h p = h_create_dir ho h p" "h_remove_dir (jail fs ho) h p = h_remove_dir ho h p"
    "h_remove_file (jail fs ho) h p = h_remove_file ho h p" "h_open (jail fs ho) h p o' = h_open ho h p o'"
    "inside_mounts ho h fs q \<Longrightarrow> h_rename (jail fs ho) h p q = h_rename ho h p q"
  using assms by (simp_all add: jail_def)

text \<open>
  C26. The sandbox. Every mutating call the guest makes by path (creating or removing a directory,
  removing or renaming a file, opening one in any mode) gives the same result, the same host state
  and the same descriptor table over the host as over a host that refuses every mutation of a
  path outside the canonical roots of the mounts: none of them ever hands the host a path that
  is not below a mount's root.
\<close>

theorem mutations_confined:
  "fs_mkdir ho h fs p = fs_mkdir (jail fs ho) h fs p \<and>
   fs_rmdir ho h fs p = fs_rmdir (jail fs ho) h fs p \<and>
   fs_unlink ho h fs p = fs_unlink (jail fs ho) h fs p \<and>
   fs_rename ho h fs p q = fs_rename (jail fs ho) h fs p q \<and>
   fs_open ho h fs p flags = fs_open (jail fs ho) h fs p flags"
  by (auto simp: fs_mkdir_def fs_rmdir_def fs_unlink_def fs_rename_def fs_open_def jail_mutations[OF resolve_inside]
      resolve_inside split: option.split)

section \<open>Collapsing dots\<close>

definition is_name :: "string \<Rightarrow> bool" where
  "is_name c \<longleftrightarrow> c \<noteq> [] \<and> c \<noteq> ''.'' \<and> c \<noteq> ''..''"

definition names :: "string list \<Rightarrow> nat" where "names cs = length (filter is_name cs)"

definition ups :: "string list \<Rightarrow> nat" where "ups cs = length (filter (\<lambda>c. c = ''..'') cs)"

lemma counts_simps [simp]:
  "names [] = 0" "ups [] = 0" "names (c # cs) = (if is_name c then 1 else 0) + names cs"
  "ups (c # cs) = (if c = ''..'' then 1 else 0) + ups cs"
  by (simp_all add: names_def ups_def)

lemma ex_take_Cons: "(\<exists>k. P (take k (c # cs))) \<longleftrightarrow> P [] \<or> (\<exists>k. P (c # take k cs))"
proof
  assume "\<exists>k. P (take k (c # cs))"
  then obtain k where "P (take k (c # cs))" ..
  then show "P [] \<or> (\<exists>k. P (c # take k cs))" by (cases k) auto
next
  assume "P [] \<or> (\<exists>k. P (c # take k cs))"
  then show "\<exists>k. P (take k (c # cs))" by (metis take_0 take_Suc_Cons)
qed

lemma normalize_comps_None:
  "normalize_comps out cs = None \<longleftrightarrow> (\<exists>k. length out + names (take k cs) < ups (take k cs))"
proof (induction cs arbitrary: out)
  case (Cons c cs)
  have ex: "(\<exists>k. length out + names (take k (c # cs)) < ups (take k (c # cs)))
    \<longleftrightarrow> (\<exists>k. length out + names (c # take k cs) < ups (c # take k cs))"
    using ex_take_Cons[of "\<lambda>ds. length out + names ds < ups ds"] by simp
  consider "c = [] \<or> c = ''.''" | "c = ''..''" | "is_name c" by (auto simp: is_name_def)
  then have "normalize_comps out (c # cs) = None
    \<longleftrightarrow> (\<exists>k. length out + names (c # take k cs) < ups (c # take k cs))"
  proof cases
    case 1
    then show ?thesis by (auto simp: Cons.IH is_name_def)
  next
    case 2
    show ?thesis
    proof (cases "out = []")
      case True
      then show ?thesis using 2 by (auto simp: is_name_def intro: exI[of _ 0])
    next
      case False
      have "length (butlast out) + n < m \<longleftrightarrow> length out + n < Suc m" for n m
        using False by (cases out rule: rev_cases) auto
      then show ?thesis using 2 False by (simp add: Cons.IH is_name_def)
    qed
  next
    case 3
    then show ?thesis by (simp add: Cons.IH is_name_def)
  qed
  then show ?case unfolding ex .
qed simp

lemma normalize_comps_names:
  assumes "normalize_comps out cs = Some r" "\<forall>c \<in> set out. is_name c \<and> CHR ''/'' \<notin> set c"
    "\<forall>c \<in> set cs. CHR ''/'' \<notin> set c"
  shows "\<forall>c \<in> set r. is_name c \<and> CHR ''/'' \<notin> set c"
  using assms
proof (induction cs arbitrary: out)
  case (Cons c cs)
  have cs: "\<forall>c \<in> set cs. CHR ''/'' \<notin> set c" using Cons.prems(3) by simp
  consider "c = [] \<or> c = ''.''" | "c = ''..''" | "is_name c" by (auto simp: is_name_def)
  then show ?case
  proof cases
    case 1
    then have "normalize_comps out cs = Some r" using Cons.prems(1) by auto
    then show ?thesis by (rule Cons.IH[OF _ Cons.prems(2) cs])
  next
    case 2
    then have "normalize_comps (butlast out) cs = Some r" using Cons.prems(1) by (simp split: if_splits)
    then show ?thesis by (rule Cons.IH[OF _ _ cs]) (use Cons.prems(2) in \<open>auto dest: in_set_butlastD\<close>)
  next
    case 3
    then have "normalize_comps (out @ [c]) cs = Some r" using Cons.prems(1) by (simp add: is_name_def)
    then show ?thesis by (rule Cons.IH[OF _ _ cs]) (use Cons.prems(2,3) 3 in auto)
  qed
qed simp

lemma normalize_comps_plain:
  "\<forall>c \<in> set cs. is_name c \<Longrightarrow> normalize_comps out cs = Some (out @ cs)"
  by (induction cs arbitrary: out) (auto simp: is_name_def)

lemma split_slash_plain: "c \<in> set (split_slash s) \<Longrightarrow> CHR ''/'' \<notin> set c"
  by (induction s arbitrary: c) (auto split: if_splits list.splits)

fun join_slash :: "string list \<Rightarrow> string" where
  "join_slash [] = []"
| "join_slash [c] = c"
| "join_slash (c # d # cs) = c @ CHR ''/'' # join_slash (d # cs)"

lemma split_slash_ne [simp]: "split_slash s \<noteq> []"
  by (induction s) (auto split: list.splits)

lemma split_slash_append:
  "CHR ''/'' \<notin> set c \<Longrightarrow> split_slash (c @ s) = (c @ hd (split_slash s)) # tl (split_slash s)"
  by (induction c) (auto split: list.splits)

lemma split_join_slash:
  "cs \<noteq> [] \<Longrightarrow> \<forall>c \<in> set cs. CHR ''/'' \<notin> set c \<Longrightarrow> split_slash (join_slash cs) = cs"
proof (induction cs rule: join_slash.induct)
  case (2 c)
  then show ?case using split_slash_append[of c "[]"] by simp
next
  case (3 c d cs)
  then show ?case by (simp add: split_slash_append)
qed simp

text \<open>
  The lexical collapse of a guest path. \<open>normalize_relative\<close> rejects a path exactly when some
  prefix of its components has more \<^verbatim>\<open>..\<close> than names, that is when it climbs above the mount's
  root on the way. Otherwise every component it returns is a real name, with no slash, none of
  them empty, a dot or two dots, and the path made of them is its own normal form.
\<close>

theorem normalize_relative_correct:
  "case normalize_relative s of
     None \<Rightarrow> (\<exists>k. names (take k (split_slash s)) < ups (take k (split_slash s)))
   | Some cs \<Rightarrow> (\<forall>k. ups (take k (split_slash s)) \<le> names (take k (split_slash s)))
       \<and> list_all (\<lambda>c. is_name c \<and> CHR ''/'' \<notin> set c) cs
       \<and> normalize_relative (join_slash cs) = Some cs"
proof (cases "normalize_relative s")
  case None
  then show ?thesis using normalize_comps_None[of "[]" "split_slash s"] by (simp add: normalize_relative_def)
next
  case (Some cs)
  then have n: "normalize_comps [] (split_slash s) = Some cs" by (simp add: normalize_relative_def)
  have ok: "\<forall>c \<in> set cs. is_name c \<and> CHR ''/'' \<notin> set c"
    by (rule normalize_comps_names[OF n]) (auto dest: split_slash_plain)
  have "normalize_relative (join_slash cs) = Some cs"
  proof (cases "cs = []")
    case False
    then show ?thesis
      using ok normalize_comps_plain[of cs "[]"] by (simp add: normalize_relative_def split_join_slash)
  qed (simp add: normalize_relative_def)
  moreover have "\<forall>k. ups (take k (split_slash s)) \<le> names (take k (split_slash s))"
    using normalize_comps_None[of "[]" "split_slash s"] n by (auto simp: not_less)
  ultimately show ?thesis using Some ok by (simp add: list_all_iff)
qed

section \<open>Reading a directory\<close>

text \<open>
  The reader of the records, the way a FreeBSD \<^verbatim>\<open>readdir\<close> walks them: each record says how long it
  is. It gives the file number, the type and the bytes of the name.
\<close>

function parse_dents :: "u8 list \<Rightarrow> (u32 \<times> u8 \<times> u8 list) list" where
  "parse_dents bs =
     (if length bs < 8 then []
      else
        (let reclen = unat (le_u16 (bs ! 4) (bs ! 5)); namlen = unat (bs ! 7)
         in if reclen < 8 then []
            else (le_u32 (bs ! 0) (bs ! 1) (bs ! 2) (bs ! 3), bs ! 6, take namlen (drop 8 bs))
                 # parse_dents (drop reclen bs)))"
  by pat_completeness auto
termination
  by (relation "measure length") auto

declare parse_dents.simps [simp del]

definition dirent_view :: "dirent_info \<Rightarrow> u32 \<times> u8 \<times> u8 list" where
  "dirent_view e = (di_fileno e, di_type e, take 255 (name_bytes (di_name e)))"

lemma u16_le_bytes_roundtrip [simp]: "le_u16 (ucast w) (ucast (drop_bit 8 w)) = (w :: u16)"
proof (rule bit_word_eqI)
  fix n assume "n < LENGTH(16)"
  then have "n < 16" "8 \<le> n \<Longrightarrow> 8 + (n - 8) = n" by simp_all
  then show "bit (le_u16 (ucast w) (ucast (drop_bit 8 w))) n = bit w n"
    by (cases "n < 8") (auto simp: le_u16_def bit_simps)
qed

lemma dirent_reclen_bounds:
  "8 + dirent_namlen e + 1 \<le> dirent_reclen e" "dirent_reclen e \<le> 264" "dirent_namlen e \<le> 255"
proof -
  show n: "dirent_namlen e \<le> 255" by (simp add: dirent_namlen_def)
  show "8 + dirent_namlen e + 1 \<le> dirent_reclen e"
    using round_up_bounds(1)[of 8 "8 + dirent_namlen e + 1"] by (simp add: dirent_reclen_def)
  have "(8 + dirent_namlen e + 1 + 7) div 8 \<le> 271 div 8" using n by (intro div_le_mono) simp
  then show "dirent_reclen e \<le> 264" by (simp add: dirent_reclen_def)
qed

lemma length_dirent_record [simp]: "length (dirent_record e) = dirent_reclen e"
  using dirent_reclen_bounds[of e]
  by (simp add: dirent_record_def Let_def u32_bytes_def dirent_namlen_def)

lemma parse_dirent_record:
  "parse_dents (dirent_record e @ rest) = dirent_view e # parse_dents rest"
proof -
  define r where "r = dirent_reclen e"
  define n where "n = dirent_namlen e"
  define w where "w = (of_nat r :: u16)"
  note b = dirent_reclen_bounds[of e, folded r_def n_def]
  have w: "unat w = r" unfolding w_def using b(2) by (intro unat_of_nat_small) simp
  have n: "unat (of_nat n :: u8) = n" using b(3) by (intro unat_of_nat_small) simp
  let ?f = "di_fileno e" and ?nm = "take n (name_bytes (di_name e))"
  have rec: "dirent_record e @ rest =
      ucast ?f # ucast (drop_bit 8 ?f) # ucast (drop_bit 16 ?f) # ucast (drop_bit 24 ?f)
      # ucast w # ucast (drop_bit 8 w) # di_type e # of_nat n # ?nm @ replicate (r - (8 + n)) 0 @ rest"
    by (simp add: dirent_record_def Let_def u32_bytes_def r_def n_def w_def)
  define bs where "bs = dirent_record e @ rest"
  have at: "bs ! 0 = ucast ?f" "bs ! 1 = ucast (drop_bit 8 ?f)" "bs ! 2 = ucast (drop_bit 16 ?f)"
    "bs ! 3 = ucast (drop_bit 24 ?f)" "bs ! 4 = ucast w" "bs ! 5 = ucast (drop_bit 8 w)" "bs ! 6 = di_type e"
    "bs ! 7 = of_nat n"
    unfolding bs_def rec by simp_all
  have drop: "drop r bs = rest" by (simp add: r_def bs_def)
  have ln: "length ?nm = n" by (simp add: n_def dirent_namlen_def)
  have name: "take n (drop 8 bs) = ?nm" unfolding bs_def rec using ln by simp
  have len: "\<not> length bs < 8" using b(1) by (simp add: r_def bs_def)
  have "parse_dents bs = (?f, di_type e, ?nm) # parse_dents rest"
    using len b(1) by (subst parse_dents.simps) (simp only: at Let_def u16_le_bytes_roundtrip u32_le_bytes_roundtrip w n name drop if_False, simp)
  moreover have "?nm = take 255 (name_bytes (di_name e))" by (simp add: n_def dirent_namlen_def min_def)
  ultimately show ?thesis by (simp add: dirent_view_def bs_def)
qed

lemma parse_dirents: "parse_dents (concat (map dirent_record es)) = map dirent_view es"
proof (induction es)
  case Nil
  then show ?case by (simp add: parse_dents.simps)
qed (simp add: parse_dirent_record)

lemma pack_dirents_Some:
  assumes "pack_dirents cap es out k = Some (out', k')" "length out \<le> cap"
  shows "\<exists>m. m \<le> length es \<and> k' = k + m \<and> out' = out @ concat (map dirent_record (take m es))
    \<and> length out' \<le> cap \<and> (m < length es \<longrightarrow> cap < length out' + dirent_reclen (es ! m))
    \<and> (out = [] \<longrightarrow> es \<noteq> [] \<longrightarrow> 0 < m)"
  using assms
proof (induction es arbitrary: out k)
  case (Cons e es)
  show ?case
  proof (cases "length out + dirent_reclen e > cap")
    case True
    then show ?thesis using Cons.prems by (auto intro!: exI[of _ 0] split: if_splits)
  next
    case False
    then obtain m where "m \<le> length es" "k' = k + 1 + m" "out' = (out @ dirent_record e) @ concat (map dirent_record (take m es))"
      "length out' \<le> cap" "m < length es \<longrightarrow> cap < length out' + dirent_reclen (es ! m)"
      using Cons.IH[of "out @ dirent_record e" "k + 1"] Cons.prems by auto
    then show ?thesis by (intro exI[of _ "Suc m"]) auto
  qed
qed simp

lemma pack_dirents_None:
  "pack_dirents cap es out k = None \<longleftrightarrow> out = [] \<and> es \<noteq> [] \<and> cap < dirent_reclen (hd es)"
proof (induction es arbitrary: out k)
  case (Cons e es)
  have "dirent_record e \<noteq> []" using length_dirent_record[of e] dirent_reclen_bounds(1)[of e] by fastforce
  then show ?case using Cons.IH by auto
qed simp

text \<open>The guest's loop: call \<open>getdents\<close> until it returns no bytes, and read the records.\<close>

fun read_all :: "('h, 'f) host_ops \<Rightarrow> 'h \<Rightarrow> u32 \<Rightarrow> nat \<Rightarrow> nat \<Rightarrow> 'f file_system \<Rightarrow> (u32 \<times> u8 \<times> u8 list) list option" where
  "read_all ho h fd cap 0 fs = None"
| "read_all ho h fd cap (Suc fuel) fs =
     (case fs_getdents ho h fs fd cap of
        (fs', Inl _) \<Rightarrow> None
      | (fs', Inr out) \<Rightarrow>
          if out = [] then Some [] else map_option (append (parse_dents out)) (read_all ho h fd cap fuel fs'))"

lemma getdents_step:
  assumes fd: "files fs fd = Some entry" and cap: "264 \<le> cap"
    and cur: "(case fd_dir entry of Some c \<Rightarrow> Inr c | None \<Rightarrow> snapshot_dir ho h fs (fd_path entry)) = Inr c"
  obtains m where "m \<le> length (drop (dc_pos c) (dc_entries c))" and "drop (dc_pos c) (dc_entries c) \<noteq> [] \<Longrightarrow> 0 < m"
    and "fs_getdents ho h fs fd cap =
      (fs\<lparr>files := (files fs)(fd \<mapsto> entry\<lparr>fd_dir := Some (c\<lparr>dc_pos := dc_pos c + m\<rparr>)\<rparr>)\<rparr>,
       Inr (concat (map dirent_record (take m (drop (dc_pos c) (dc_entries c))))))"
proof -
  let ?es = "drop (dc_pos c) (dc_entries c)"
  have "pack_dirents cap ?es [] 0 \<noteq> None"
    using dirent_reclen_bounds(2)[of "hd ?es"] cap unfolding pack_dirents_None by linarith
  then obtain out k where p: "pack_dirents cap ?es [] 0 = Some (out, k)" by auto
  obtain m where "m \<le> length ?es" "k = m" "out = concat (map dirent_record (take m ?es))" "?es \<noteq> [] \<longrightarrow> 0 < m"
    using pack_dirents_Some[OF p] by auto
  then show ?thesis using fd cur p by (intro that[of m]) (simp_all add: fs_getdents_def)
qed

lemma read_all_rest:
  assumes "files fs fd = Some entry" and cap: "264 \<le> cap"
    and "(case fd_dir entry of Some c \<Rightarrow> Inr c | None \<Rightarrow> snapshot_dir ho h fs (fd_path entry)) = Inr c"
    and "length (dc_entries c) - dc_pos c < fuel"
  shows "read_all ho h fd cap fuel fs = Some (map dirent_view (drop (dc_pos c) (dc_entries c)))"
  using assms
proof (induction fuel arbitrary: fs entry c)
  case (Suc fuel)
  let ?es = "drop (dc_pos c) (dc_entries c)"
  obtain m where m: "m \<le> length ?es" "?es \<noteq> [] \<Longrightarrow> 0 < m"
    and g: "fs_getdents ho h fs fd cap =
      (fs\<lparr>files := (files fs)(fd \<mapsto> entry\<lparr>fd_dir := Some (c\<lparr>dc_pos := dc_pos c + m\<rparr>)\<rparr>)\<rparr>,
       Inr (concat (map dirent_record (take m ?es))))"
    using getdents_step[OF Suc.prems(1,2,3)] by blast
  show ?case
  proof (cases "?es = []")
    case True
    then show ?thesis using g by simp
  next
    case False
    have ne: "concat (map dirent_record (take m ?es)) \<noteq> []"
    proof -
      have "take m ?es \<noteq> []" using m False by simp
      then obtain e es where "take m ?es = e # es" by (cases "take m ?es") auto
      moreover have "dirent_record e \<noteq> []" using length_dirent_record[of e] dirent_reclen_bounds(1)[of e] by fastforce
      ultimately show ?thesis by simp
    qed
    have "read_all ho h fd cap fuel (fs\<lparr>files := (files fs)(fd \<mapsto> entry\<lparr>fd_dir := Some (c\<lparr>dc_pos := dc_pos c + m\<rparr>)\<rparr>)\<rparr>)
      = Some (map dirent_view (drop (dc_pos (c\<lparr>dc_pos := dc_pos c + m\<rparr>)) (dc_entries (c\<lparr>dc_pos := dc_pos c + m\<rparr>))))"
      by (rule Suc.IH[OF _ cap]) (use m False Suc.prems(4) in auto)
    moreover have "take m ?es @ drop (dc_pos c + m) (dc_entries c) = ?es"
      using append_take_drop_id[of m ?es] by (simp add: add.commute)
    then have "map dirent_view (take m ?es) @ map dirent_view (drop (dc_pos c + m) (dc_entries c)) = map dirent_view ?es"
      by (metis map_append)
    ultimately show ?thesis using ne by (simp only: read_all.simps g prod.case sum.case if_False parse_dirents) simp
  qed
qed simp

text \<open>
  One \<open>getdents\<close> call. For an open directory the call packs a run of the entries not yet read,
  whole records only and never more bytes than the buffer has, and moves the cursor past exactly
  those; reading the records back gives the file number, type and name (cut at 255 bytes) of each
  of them in order, and the next entry would not have fitted. It fails with \<^verbatim>\<open>EINVAL\<close> exactly when
  not even the next entry fits, and then the cursor stays.
\<close>

theorem getdents_packs:
  assumes fd: "files fs fd = Some entry" and cur: "fd_dir entry = Some c"
  defines "es \<equiv> drop (dc_pos c) (dc_entries c)"
  shows "case fs_getdents ho h fs fd cap of (fs', r) \<Rightarrow>
    (\<exists>c'. files fs' = (files fs)(fd \<mapsto> entry\<lparr>fd_dir := Some c'\<rparr>) \<and> dc_entries c' = dc_entries c \<and>
      (case r of
         Inl err \<Rightarrow> err = 22 \<and> c' = c \<and> es \<noteq> [] \<and> cap < dirent_reclen (hd es)
       | Inr out \<Rightarrow>
           (\<exists>m \<le> length es. dc_pos c' = dc_pos c + m \<and> parse_dents out = map dirent_view (take m es)
             \<and> length out \<le> cap \<and> (if m < length es then cap < length out + dirent_reclen (es ! m) else True))))"
proof (cases "pack_dirents cap es [] 0")
  case None
  then have n: "es \<noteq> []" "cap < dirent_reclen (hd es)" by (simp_all add: pack_dirents_None)
  have "fs_getdents ho h fs fd cap = (fs\<lparr>files := (files fs)(fd \<mapsto> entry\<lparr>fd_dir := Some c\<rparr>)\<rparr>, Inl 22)"
    using None fd cur by (simp add: fs_getdents_def es_def)
  then show ?thesis using n by auto
next
  case (Some p)
  obtain out k where p: "p = (out, k)" by (cases p)
  obtain m where m: "m \<le> length es" "k = m" "out = concat (map dirent_record (take m es))" "length out \<le> cap"
    "m < length es \<longrightarrow> cap < length out + dirent_reclen (es ! m)"
    using pack_dirents_Some[of cap es "[]" 0 out k] Some p by auto
  have "fs_getdents ho h fs fd cap =
      (fs\<lparr>files := (files fs)(fd \<mapsto> entry\<lparr>fd_dir := Some (c\<lparr>dc_pos := dc_pos c + m\<rparr>)\<rparr>)\<rparr>, Inr out)"
    using Some p fd cur m(2) by (simp add: fs_getdents_def es_def)
  moreover have "parse_dents out = map dirent_view (take m es)" unfolding m(3) by (rule parse_dirents)
  ultimately show ?thesis
    using m(1,4,5) by (auto intro!: exI[of _ "c\<lparr>dc_pos := dc_pos c + m\<rparr>"] exI[of _ m])
qed

theorem getdents_packs_witness:
  "\<exists>fs' c'. fs_getdents small_host small_files (dir_fs (Some \<lparr>dc_entries = dot_entries, dc_pos = 1\<rparr>)) 3 16
     = (fs', Inr (dirent_record (dot_entries ! 1)))
   \<and> files fs' 3 = Some \<lparr>fd_file = 0, fd_path = ''/app0'', fd_flags = O_RDONLY, fd_dir = Some c'\<rparr>
   \<and> dc_entries c' = dot_entries"
proof -
  let ?c = "\<lparr>dc_entries = dot_entries, dc_pos = 1\<rparr>"
  have "snd (fs_getdents small_host small_files (dir_fs (Some ?c)) 3 16) = Inr (dirent_record (dot_entries ! 1))"
    by code_simp
  then show ?thesis
    using getdents_packs[where fs = "dir_fs (Some ?c)" and fd = 3 and c = ?c and ho = small_host and h = small_files and cap = 16]
    by (cases "fs_getdents small_host small_files (dir_fs (Some ?c)) 3 16") (auto simp: dir_fs_def)
qed

text \<open>
  Reading a whole directory. A guest that opens a directory and calls \<open>getdents\<close> with a buffer of
  at least 264 bytes until no bytes come back sees every entry of the snapshot exactly once and
  in order, the two dot entries first, and is done after at most one call more than there are
  entries.
\<close>

theorem read_all_complete:
  assumes fd: "files fs fd = Some entry" "fd_dir entry = None" and cap: "264 \<le> cap"
    and snap: "snapshot_dir ho h fs (fd_path entry) = Inr c"
  shows "read_all ho h fd cap (Suc (length (dc_entries c))) fs = Some (map dirent_view (dc_entries c))
    \<and> take 2 (dc_entries c) = dot_entries"
proof -
  have pos: "dc_pos c = 0" and dots: "\<exists>rds. snapshot_entries rds dot_entries = Inr (dc_entries c)"
    using snap by (auto simp: snapshot_dir_def split: option.splits sum.splits if_splits prod.splits)
  have "\<exists>ys. es = acc @ ys" if "snapshot_entries rds acc = Inr es" for rds acc es
    using that by (induction rds arbitrary: acc) (fastforce split: sum.splits)+
  then have "take 2 (dc_entries c) = dot_entries" using dots by (fastforce simp: dot_entries_def)
  moreover have "read_all ho h fd cap (Suc (length (dc_entries c))) fs
      = Some (map dirent_view (drop (dc_pos c) (dc_entries c)))"
    by (rule read_all_rest[OF fd(1) cap]) (simp_all add: fd(2) snap)
  ultimately show ?thesis by (simp add: pos)
qed

theorem read_all_complete_witness:
  "read_all small_host small_files 3 264 4 (dir_fs None)
   = Some [(1, 4, name_bytes ''.''), (1, 4, name_bytes ''..''), (7, 8, name_bytes ''a'')]"
proof -
  let ?c = "\<lparr>dc_entries = dot_entries @ [\<lparr>di_name = ''a'', di_type = 8, di_fileno = 7\<rparr>], dc_pos = 0\<rparr>"
  have snap: "snapshot_dir small_host small_files (dir_fs None) ''/app0'' = Inr ?c" by code_simp
  have all: "read_all small_host small_files 3 264 (Suc (length (dc_entries ?c))) (dir_fs None)
    = Some (map dirent_view (dc_entries ?c))"
    using read_all_complete[where fs = "dir_fs None" and fd = 3 and cap = 264 and ho = small_host and h = small_files and c = ?c] snap by (simp add: dir_fs_def)
  have len: "Suc (length (dc_entries ?c)) = 4" by (simp add: dot_entries_def)
  show ?thesis using all unfolding len by (simp add: dot_entries_def dirent_view_def name_bytes_def)
qed

section \<open>Descriptors\<close>

text \<open>A run of calls on the descriptor table: the descriptors the opens returned, in order.\<close>

datatype fs_op = Open string u32 | Close u32 | GetDents u32 nat

fun fs_exec :: "('h, 'f) host_ops \<Rightarrow> 'h \<Rightarrow> 'f file_system \<Rightarrow> fs_op list \<Rightarrow> 'f file_system \<times> u32 list" where
  "fs_exec ho h fs [] = (fs, [])"
| "fs_exec ho h fs (Open p flags # ops) =
     (case fs_open ho h fs p flags of
        (h', fs', Inl _) \<Rightarrow> fs_exec ho h' fs' ops
      | (h', fs', Inr fd) \<Rightarrow> (case fs_exec ho h' fs' ops of (fs'', fds) \<Rightarrow> (fs'', fd # fds)))"
| "fs_exec ho h fs (Close fd # ops) = fs_exec ho h (fst (fs_close fs fd)) ops"
| "fs_exec ho h fs (GetDents fd cap # ops) = fs_exec ho h (fst (fs_getdents ho h fs fd cap)) ops"

lemma next_fd_kept [simp]:
  "next_fd (fst (fs_close fs fd)) = next_fd fs" "next_fd (fst (fs_getdents ho h fs fd cap)) = next_fd fs"
  by (simp_all add: fs_close_def fs_getdents_def Let_def split: option.split sum.split)

lemma fs_open_next:
  "fs_open ho h fs p flags = (h', fs', r) \<Longrightarrow>
   (case r of Inl _ \<Rightarrow> fs' = fs | Inr fd \<Rightarrow> fd = next_fd fs \<and> next_fd fs' = fd + 1)"
  by (auto simp: fs_open_def Let_def split: option.splits sum.splits prod.splits)

lemma fs_exec_fds:
  assumes "unat (next_fd fs) + length ops < 2 ^ 31"
  shows "sorted_wrt (\<lambda>a b. unat a < unat b) (snd (fs_exec ho h fs ops))
    \<and> list_all (\<lambda>fd. unat (next_fd fs) \<le> unat fd \<and> unat fd < 2 ^ 31) (snd (fs_exec ho h fs ops))"
  using assms
proof (induction ho h fs ops rule: fs_exec.induct)
  case (2 ho h fs p flags ops)
  obtain h' fs' r where o: "fs_open ho h fs p flags = (h', fs', r)" by (cases "fs_open ho h fs p flags") auto
  note n = fs_open_next[OF o]
  show ?case
  proof (cases r)
    case (Inl e)
    then show ?thesis using "2.IH"(1)[OF o[symmetric] refl Inl] n "2.prems" by (simp add: o)
  next
    case (Inr fd)
    obtain fs'' fds where e: "fs_exec ho h' fs' ops = (fs'', fds)" by (cases "fs_exec ho h' fs' ops")
    have fd: "fd = next_fd fs" "unat (next_fd fs') = unat (next_fd fs) + 1"
      using n "2.prems" by (simp_all add: Inr unat_add_nowrap)
    have ih: "sorted_wrt (\<lambda>a b. unat a < unat b) fds" "\<forall>x \<in> set fds. unat (next_fd fs) < unat x \<and> unat x < 2 ^ 31"
      using "2.IH"(2)[OF o[symmetric] refl Inr] "2.prems" by (auto simp: fd e list_all_iff)
    show ?thesis using ih "2.prems" by (auto simp: o Inr e fd list_all_iff intro: less_imp_le)
  qed
qed simp_all

text \<open>
  Descriptors are never reused: over any run of fewer than $2^{31} - 3$ opens, closes and directory
  reads on a fresh file system, the descriptors handed out are positive, past the three standard
  ones, and strictly increasing.
\<close>

theorem fds_increase:
  assumes "length ops < 2 ^ 31 - 3"
  shows "sorted_wrt (\<lambda>a b. unat a < unat b) (snd (fs_exec ho h fs_new ops))
    \<and> list_all (\<lambda>fd. 3 \<le> unat fd \<and> unat fd < 2 ^ 31) (snd (fs_exec ho h fs_new ops))"
  using fs_exec_fds[of fs_new ops ho h] assms by (simp add: fs_new_def)

section \<open>Save-data slots\<close>

definition digit_value :: "string \<Rightarrow> nat" where
  "digit_value s = foldl (\<lambda>a c. 10 * a + (of_char c - 48)) 0 s"

lemma digit_value_digits: "digit_value (digits n) = n"
proof (induction n rule: digits.induct)
  case (1 n)
  show ?case
  proof (cases "n < 10")
    case True
    then show ?thesis by (subst digits.simps) (simp add: digit_value_def of_char_of)
  next
    case False
    have "(of_char (char_of (48 + n mod 10)) :: nat) = 48 + n mod 10" by (simp add: of_char_of)
    then show ?thesis
      using 1 False by (subst digits.simps) (simp add: digit_value_def)
  qed
qed

lemma savedata_point_inj [simp]: "savedata_point i = savedata_point j \<longleftrightarrow> i = j"
  by (auto simp: savedata_point_def dest: arg_cong[of _ _ digit_value] simp: digit_value_digits)

lemma free_index_Some:
  "free_index live fuel idx = Some j \<Longrightarrow>
   idx \<le> j \<and> savedata_point j \<notin> set live \<and> (\<forall>i. idx \<le> i \<longrightarrow> i < j \<longrightarrow> savedata_point i \<in> set live)"
proof (induction fuel arbitrary: idx)
  case (Suc fuel)
  show ?case
  proof (cases "savedata_point idx \<in> set live")
    case True
    then have "free_index live fuel (idx + 1) = Some j" using Suc.prems by simp
    note ih = Suc.IH[OF this]
    have "savedata_point i \<in> set live" if "idx \<le> i" "i < j" for i
      using ih True that by (cases "i = idx") auto
    then show ?thesis using ih by simp
  qed (use Suc.prems in auto)
qed simp

lemma free_index_None: "free_index live fuel idx = None \<Longrightarrow> savedata_point ` {idx..<idx + fuel} \<subseteq> set live"
proof (induction fuel arbitrary: idx)
  case (Suc fuel)
  then have "savedata_point idx \<in> set live" "savedata_point ` {Suc idx..<Suc idx + fuel} \<subseteq> set live"
    using Suc.IH[of "Suc idx"] by (simp_all split: if_splits)
  moreover have "{idx..<idx + Suc fuel} = insert idx {Suc idx..<Suc idx + fuel}" by auto
  ultimately show ?case by simp
qed simp

lemma free_index_found: "length live < fuel \<Longrightarrow> free_index live fuel idx \<noteq> None"
proof
  assume l: "length live < fuel" and "free_index live fuel idx = None"
  then have "card (savedata_point ` {idx..<idx + fuel}) \<le> card (set live)"
    by (intro card_mono free_index_None) simp_all
  also have "\<dots> \<le> length live" by (rule card_length)
  finally show False using l by (simp add: card_image inj_on_def)
qed

lemma alloc_savedata_cases:
  obtains mp where "alloc_savedata_mount_point sms d = Some mp" "(mp, d) \<in> set sms"
  | j where "alloc_savedata_mount_point sms d = Some (savedata_point j)" "d \<notin> snd ` set sms"
      "savedata_point j \<notin> fst ` set sms" "\<And>i. i < j \<Longrightarrow> savedata_point i \<in> fst ` set sms"
proof (cases "filter (\<lambda>(_, d'). d' = d) sms")
  case Nil
  then have d: "d \<notin> snd ` set sms" by (auto simp: filter_empty_conv)
  obtain j where j: "free_index (map fst sms) (Suc (length sms)) 0 = Some j"
    using free_index_found[of "map fst sms" "Suc (length sms)" 0] by auto
  show ?thesis using that(2)[of j] free_index_Some[OF j] d Nil j by (simp add: alloc_savedata_mount_point_def)
next
  case (Cons x xs)
  obtain mp d' where x: "x = (mp, d')" by (cases x)
  have "x \<in> set (filter (\<lambda>(_, d'). d' = d) sms)" unfolding Cons by simp
  then have "(mp, d) \<in> set sms" by (auto simp: x)
  then show ?thesis using that(1)[of mp] Cons x by (simp add: alloc_savedata_mount_point_def)
qed

definition sd_inv :: "(string \<times> string) list \<Rightarrow> bool" where
  "sd_inv sms \<longleftrightarrow> distinct (map fst sms) \<and> distinct (map snd sms)"

lemma update_same: "distinct (map fst sms) \<Longrightarrow> (mp, d) \<in> set sms \<Longrightarrow> AList.update mp d sms = sms"
  by (induction sms) (auto simp: rev_image_eqI)

lemma update_fresh: "mp \<notin> fst ` set sms \<Longrightarrow> AList.update mp d sms = sms @ [(mp, d)]"
  by (induction sms) auto

lemma set_fs_mount [simp]: "set (mounts (fs_mount fs g p)) = insert (g, p) (set (mounts fs))"
  by (auto simp: fs_mount_def)

text \<open>The mount point a directory gets: the one it has, or the lowest that is not in use.\<close>

definition slot_for :: "(string \<times> string) list \<Rightarrow> string \<Rightarrow> string \<Rightarrow> bool" where
  "slot_for sms d mp \<longleftrightarrow>
     (if d \<in> snd ` set sms then (mp, d) \<in> set sms
      else (\<exists>j. mp = savedata_point j \<and> mp \<notin> fst ` set sms
        \<and> (\<forall>i < j. savedata_point i \<in> fst ` set sms)))"

lemma alloc_savedata_slot:
  assumes inv: "sd_inv sms"
  obtains mp where "alloc_savedata_mount_point sms d = Some mp" "slot_for sms d mp"
    "sd_inv (AList.update mp d sms)" "set (AList.update mp d sms) = insert (mp, d) (set sms)"
proof (cases rule: alloc_savedata_cases[of sms d])
  case (1 mp)
  then have "d \<in> snd ` set sms" by force
  moreover have "AList.update mp d sms = sms" using update_same 1(2) inv by (auto simp: sd_inv_def)
  ultimately show ?thesis using that[of mp] 1 inv by (auto simp: slot_for_def)
next
  case (2 j)
  then have "slot_for sms d (savedata_point j)" by (auto simp: slot_for_def)
  then show ?thesis using that[of "savedata_point j"] 2 inv by (auto simp: sd_inv_def update_fresh)
qed

text \<open>
  Save-data slots. With a slot table in which no two directories share a mount point and no
  directory has two, mounting a directory always returns and keeps the table so: an error changes
  nothing; a success returns the directory's mount point if it had one and otherwise the lowest
  \<open>/savedataN\<close> that is not in use, records it, mounts the directory's host path there, and leaves
  every other slot as it was.
\<close>

theorem savedata_mount_slots:
  assumes inv: "sd_inv (savedata_mounts p)"
  shows "case savedata_mount ho h p d blocks of
      None \<Rightarrow> False
    | Some (h', p', r) \<Rightarrow> sd_inv (savedata_mounts p') \<and>
        (case r of
           Inl _ \<Rightarrow> p' = p
         | Inr (mp, _) \<Rightarrow>
             slot_for (savedata_mounts p) d mp
             \<and> set (savedata_mounts p') = insert (mp, d) (set (savedata_mounts p))
             \<and> (\<exists>root. savedata_root ho h (sp_fs p) = Some root
                  \<and> set (mounts (sp_fs p')) = insert (mp, path_join root d) (set (mounts (sp_fs p)))))"
proof -
  obtain mp where "alloc_savedata_mount_point (savedata_mounts p) d = Some mp"
    "slot_for (savedata_mounts p) d mp" "sd_inv (AList.update mp d (savedata_mounts p))"
    "set (AList.update mp d (savedata_mounts p)) = insert (mp, d) (set (savedata_mounts p))"
    using alloc_savedata_slot[OF inv] by blast
  then show ?thesis
    using inv by (auto simp: savedata_mount_def Let_def split: option.split sum.split prod.split)
qed

theorem savedata_mount_slots_witness:
  "\<exists>h p. savedata_mount small_host small_files \<lparr>sp_fs = app_fs, savedata_mounts = [(''/savedata1'', ''B'')]\<rparr> ''A'' 0
     = Some (h, p, Inr (''/savedata0'', 1, 4096)) \<and> sd_inv (savedata_mounts p)"
proof -
  let ?p = "\<lparr>sp_fs = app_fs, savedata_mounts = [(''/savedata1'', ''B'')]\<rparr> :: nat save_process"
  have r: "map_option (\<lambda>x. snd (snd x)) (savedata_mount small_host small_files ?p ''A'' 0)
    = Some (Inr (''/savedata0'', 1, 4096))" by code_simp
  have "sd_inv (savedata_mounts ?p)" by (simp add: sd_inv_def)
  from savedata_mount_slots[OF this, where ho = small_host and h = small_files and d = "''A''" and blocks = 0] r show ?thesis
    by (auto split: option.splits prod.splits)
qed

text \<open>Unmounting frees exactly the named slot and fails with \<^verbatim>\<open>ENODEV\<close> when nothing is mounted there.\<close>

lemma savedata_umount_slots:
  assumes inv: "sd_inv (savedata_mounts p)"
  shows "case savedata_umount p mp of (p', r) \<Rightarrow> sd_inv (savedata_mounts p') \<and>
        (case r of
           Inl e \<Rightarrow> e = 0x13 \<and> mp \<notin> fst ` set (savedata_mounts p) \<and> p' = p
         | Inr _ \<Rightarrow> mp \<in> fst ` set (savedata_mounts p)
             \<and> set (savedata_mounts p') = {m \<in> set (savedata_mounts p). fst m \<noteq> mp}
             \<and> set (mounts (sp_fs p')) = {m \<in> set (mounts (sp_fs p)). fst m \<noteq> mp})"
proof (cases "map_of (savedata_mounts p) mp")
  case None
  then have "mp \<notin> fst ` set (savedata_mounts p)" by (simp add: map_of_eq_None_iff)
  then show ?thesis using inv None by (simp add: savedata_umount_def)
next
  case (Some d)
  then have "(mp, d) \<in> set (savedata_mounts p)" by (rule map_of_SomeD)
  moreover have "sd_inv (AList.delete mp (savedata_mounts p))"
    using inv by (auto simp: sd_inv_def AList.delete_eq intro: distinct_map_filter)
  ultimately show ?thesis
    using Some by (auto simp: savedata_umount_def fs_unmount_def AList.delete_eq rev_image_eqI)
qed

text \<open>
  \<open>contain\<close> takes a path whose last component does not resolve to be a file yet to be created. A
  dangling link is such a path: it passes the check as \<^verbatim>\<open>/srv/link\<close>, and creating it makes the
  target, outside every mount.
\<close>

theorem dangling_link_escapes:
  "case fs_open small_host small_files app_fs ''/app0/link'' (O_WRONLY OR O_CREAT) of
     (h, fs, r) \<Rightarrow> r = Inr 3 \<and> hd h = [RootDir, Normal ''etc'', Normal ''new'']
       \<and> \<not> inside_mounts small_host small_files app_fs (hd h)"
  by code_simp

text \<open>
  The directory name of a save slot is the guest's, up to 32 bytes of it, and is appended to the
  host path as it is: two dots in it lead out of the save area, and the slot is mounted there.
\<close>

theorem savedata_name_escapes:
  "case savedata_mount small_host small_files \<lparr>sp_fs = app_fs, savedata_mounts = []\<rparr> ''../../etc'' 0 of
     Some (h, p, Inr (mp, _)) \<Rightarrow>
       mp = ''/savedata0''
       \<and> hd (mounts (sp_fs p)) = (mp, srv @ [Normal ''savedata'', ParentDir, ParentDir, Normal ''etc''])
   | _ \<Rightarrow> False"
  by code_simp

end
