(* ===== verification/Self_Container.thy ===== *)
theory Self_Container
  imports Rust_Prelude "HOL-Library.Code_Target_Nat"
begin

unbundle bit_operations_syntax

text \<open>
  Unwrapping an executable: \<^verbatim>\<open>crates/loader/src/container.rs\<close> (a plain ELF, or the SELF container
  whose segment table says where the pieces of the inner ELF are) and the identifier encoding of
  \<^verbatim>\<open>crates/loader/src/nid.rs\<close>. The input is any byte string. A slice out of range is a panic, the
  outer \<open>None\<close>; the errors of the source are values of \<open>container_error\<close>, without the numbers their
  messages print. Sizes are the naturals, with the checks the source makes at 64 bits; whether the
  host can allocate the image is the parameter \<open>can_alloc\<close>.
\<close>

section \<open>Results\<close>

datatype container_error =
    TooShort string
  | UnknownMagic u32
  | Malformed string
  | Compressed nat
  | Encrypted

type_synonym 'a outcome = "(container_error + 'a) option"

definition and_then :: "'a outcome \<Rightarrow> ('a \<Rightarrow> 'b outcome) \<Rightarrow> 'b outcome" where
  "and_then m f = (case m of None \<Rightarrow> None | Some (Inl e) \<Rightarrow> Some (Inl e) | Some (Inr x) \<Rightarrow> f x)"

abbreviation fail :: "container_error \<Rightarrow> 'a outcome" where "fail e \<equiv> Some (Inl e)"
abbreviation return :: "'a \<Rightarrow> 'a outcome" where "return x \<equiv> Some (Inr x)"

text \<open>\<^verbatim>\<open>&xs[a..b]\<close>, and the little-endian fields at an offset.\<close>

definition index_range :: "nat \<Rightarrow> nat \<Rightarrow> u8 list \<Rightarrow> u8 list option" where
  "index_range a b xs = (if a \<le> b \<and> b \<le> length xs then Some (slice a b xs) else None)"

definition get_u64 :: "u8 list \<Rightarrow> nat \<Rightarrow> u64 option" where
  "get_u64 xs a = map_option le_u64 (index_range a (a + 8) xs)"

definition get_u16 :: "u8 list \<Rightarrow> nat \<Rightarrow> u16 option" where
  "get_u16 xs a = (if a + 2 \<le> length xs then Some (le_u16 (xs ! a) (xs ! (a + 1))) else None)"

definition get_u32 :: "u8 list \<Rightarrow> nat \<Rightarrow> u32 option" where
  "get_u32 xs a =
     (if a + 4 \<le> length xs then Some (le_u32 (xs ! a) (xs ! (a + 1)) (xs ! (a + 2)) (xs ! (a + 3))) else None)"

definition checked_sum :: "nat \<Rightarrow> nat \<Rightarrow> string \<Rightarrow> nat outcome" where
  "checked_sum a b msg = (if a + b < 2 ^ 64 then return (a + b) else fail (Malformed msg))"

section \<open>The container\<close>

definition ELF_MAGIC :: u32 where "ELF_MAGIC = 0x464c457f"
definition SELF_MAGIC :: u32 where "SELF_MAGIC = 0x1d3d154f"
definition SCE_HEADER_SIZE :: nat where "SCE_HEADER_SIZE = 0x20"
definition SELF_SEGMENT_SIZE :: nat where "SELF_SEGMENT_SIZE = 0x20"
definition ELF_HEADER_SIZE :: nat where "ELF_HEADER_SIZE = 0x40"
definition SELF_SEG_BLOCKED_BIT :: u64 where "SELF_SEG_BLOCKED_BIT = push_bit 11 1"
definition SELF_SEG_ID_SHIFT :: nat where "SELF_SEG_ID_SHIFT = 20"
definition SELF_SEG_ID_MASK :: u64 where "SELF_SEG_ID_MASK = 0xFFF"

datatype container_kind = RawElf | SelfContainer

record container_meta =
  cm_num_segments :: "u16 option"
  cm_sce_program_type :: "u16 option"
  cm_module_attributes :: "u64 option"

definition container_meta_default :: container_meta where
  "container_meta_default = \<lparr>cm_num_segments = None, cm_sce_program_type = None, cm_module_attributes = None\<rparr>"

record container =
  c_kind :: container_kind
  c_elf_bytes :: "u8 list"
  c_meta :: container_meta

record self_segment =
  seg_flags :: u64
  seg_offset :: u64
  seg_compressed_size :: u64
  seg_uncompressed_size :: u64

definition is_blocked :: "self_segment \<Rightarrow> bool" where
  "is_blocked s \<longleftrightarrow> seg_flags s AND SELF_SEG_BLOCKED_BIT \<noteq> 0"

definition program_header_id :: "self_segment \<Rightarrow> nat" where
  "program_header_id s = unat (drop_bit SELF_SEG_ID_SHIFT (seg_flags s) AND SELF_SEG_ID_MASK)"

definition is_compressed :: "self_segment \<Rightarrow> bool" where
  "is_compressed s \<longleftrightarrow> seg_compressed_size s \<noteq> seg_uncompressed_size s"

text \<open>One entry of the segment table: four words read in sequence.\<close>

definition read_segment :: "u8 list \<Rightarrow> nat \<Rightarrow> self_segment option" where
  "read_segment raw base =
     (case (get_u64 raw base, get_u64 raw (base + 8), get_u64 raw (base + 16), get_u64 raw (base + 24)) of
        (Some f, Some off, Some cs, Some us) \<Rightarrow>
          Some \<lparr>seg_flags = f, seg_offset = off, seg_compressed_size = cs, seg_uncompressed_size = us\<rparr>
      | _ \<Rightarrow> None)"

definition read_segments :: "u8 list \<Rightarrow> nat \<Rightarrow> self_segment list outcome" where
  "read_segments raw num_segments =
     (let table_end = SCE_HEADER_SIZE + num_segments * SELF_SEGMENT_SIZE in
      if length raw < table_end then fail (TooShort ''segment table truncated'')
      else map_option Inr
        (those (map (\<lambda>i. read_segment raw (SCE_HEADER_SIZE + i * SELF_SEGMENT_SIZE)) [0..<num_segments])))"

record program_header =
  file_offset :: u64
  file_size :: u64

definition phdr_table_info :: "u8 list \<Rightarrow> (u64 \<times> nat \<times> nat) option" where
  "phdr_table_info ehdr =
     (case (get_u64 ehdr 0x20, get_u16 ehdr 0x36, get_u16 ehdr 0x38) of
        (Some phoff, Some entsize, Some phnum) \<Rightarrow> Some (phoff, unat entsize, unat phnum)
      | _ \<Rightarrow> None)"

definition phdr_extent :: "u8 list \<Rightarrow> (u64 \<times> u64) option" where
  "phdr_extent phdr =
     (case (get_u64 phdr 0x08, get_u64 phdr 0x20) of
        (Some off, Some sz) \<Rightarrow> Some (off, sz)
      | _ \<Rightarrow> None)"

definition elf_header_info :: "u8 list \<Rightarrow> nat \<Rightarrow> (u64 \<times> nat \<times> nat) option" where
  "elf_header_info raw elf_base =
     Option.bind (index_range elf_base (elf_base + ELF_HEADER_SIZE) raw) phdr_table_info"

definition read_program_header :: "u8 list \<Rightarrow> nat \<Rightarrow> nat \<Rightarrow> program_header option" where
  "read_program_header raw base entsize =
     (case Option.bind (index_range base (base + entsize) raw) phdr_extent of
        Some (off, sz) \<Rightarrow> Some \<lparr>file_offset = off, file_size = sz\<rparr>
      | None \<Rightarrow> None)"

definition read_program_headers :: "u8 list \<Rightarrow> nat \<Rightarrow> program_header list outcome" where
  "read_program_headers raw elf_base =
     (if length raw < elf_base + ELF_HEADER_SIZE then fail (TooShort ''inner ELF header truncated'')
      else case elf_header_info raw elf_base of
        None \<Rightarrow> None
      | Some (e_phoff, e_phentsize, e_phnum) \<Rightarrow>
          if e_phentsize < 0x38 then fail (Malformed ''e_phentsize too small for ELF64 program header'')
          else
            and_then (checked_sum elf_base (unat e_phoff) ''e_phoff overflow'') (\<lambda>table_start.
            and_then (if e_phnum * e_phentsize < 2 ^ 64 then return (e_phnum * e_phentsize)
                      else fail (Malformed ''phdr table size overflow'')) (\<lambda>table_len.
            and_then (checked_sum table_start table_len ''phdr table end overflow'') (\<lambda>table_end.
            if length raw < table_end then fail (TooShort ''inner ELF program header table truncated'')
            else map_option Inr
              (those (map (\<lambda>i. read_program_header raw (table_start + i * e_phentsize) e_phentsize) [0..<e_phnum]))))))"

text \<open>The size of the image: the header region and the furthest end of a program header.\<close>

fun image_size :: "nat \<Rightarrow> program_header list \<Rightarrow> nat \<Rightarrow> nat outcome" where
  "image_size raw_len [] out_size = return out_size"
| "image_size raw_len (ph # phs) out_size =
     (if unat (file_size ph) > raw_len then fail (Malformed ''phdr file size exceeds source size'')
      else and_then (checked_sum (unat (file_offset ph)) (unat (file_size ph)) ''phdr extent overflow'') (\<lambda>e.
        image_size raw_len phs (max out_size e)))"

fun fill_segments ::
  "u8 list \<Rightarrow> program_header list \<Rightarrow> nat \<Rightarrow> self_segment list \<Rightarrow> u8 list \<Rightarrow> u8 list outcome" where
  "fill_segments raw phdrs idx [] out = return out"
| "fill_segments raw phdrs idx (seg # segs) out =
     (if \<not> is_blocked seg then fill_segments raw phdrs (idx + 1) segs out
      else if is_compressed seg then fail (Compressed idx)
      else if \<not> program_header_id seg < length phdrs then fail (Malformed ''segment targets phdr out of range'')
      else
        (let ph = phdrs ! program_header_id seg;
             copy_len = unat (min (seg_uncompressed_size seg) (file_size ph))
         in if copy_len = 0 then fill_segments raw phdrs (idx + 1) segs out
            else
              and_then (checked_sum (unat (seg_offset seg)) copy_len ''segment source overflow'') (\<lambda>src_end.
              if length raw < src_end then fail (TooShort ''SELF segment data out of file bounds'')
              else
              and_then (checked_sum (unat (file_offset ph)) copy_len ''phdr destination overflow'') (\<lambda>dst_end.
              if length out < dst_end then fail (Malformed ''phdr destination out of buffer'')
              else
                case index_range (unat (seg_offset seg)) src_end raw of
                  None \<Rightarrow> None
                | Some bytes \<Rightarrow>
                    fill_segments raw phdrs (idx + 1) segs
                      (take (unat (file_offset ph)) out @ bytes @ drop dst_end out)))))"

text \<open>\<^verbatim>\<open>extract_from_self\<close> from the program headers on: the image of the inner ELF at \<open>elf_base\<close>.\<close>

definition extract_image :: "(nat \<Rightarrow> bool) \<Rightarrow> u8 list \<Rightarrow> self_segment list \<Rightarrow> nat \<Rightarrow> u8 list outcome" where
  "extract_image can_alloc raw segments elf_base =
     and_then (read_program_headers raw elf_base) (\<lambda>phdrs.
     case elf_header_info raw elf_base of
       None \<Rightarrow> None
     | Some (e_phoff, e_phentsize, e_phnum) \<Rightarrow>
         (let phdr_region_end = unat e_phoff + e_phnum * e_phentsize in
          and_then (image_size (length raw) phdrs (max phdr_region_end ELF_HEADER_SIZE)) (\<lambda>out_size.
          if \<not> can_alloc out_size then fail (Malformed ''reconstructed image too large'')
          else if length raw < elf_base + phdr_region_end
          then fail (TooShort ''inner ELF header region truncated'')
          else
            case index_range elf_base (elf_base + phdr_region_end) raw of
              None \<Rightarrow> None
            | Some header \<Rightarrow>
                if phdr_region_end > out_size then None
                else fill_segments raw phdrs 0 segments (header @ replicate (out_size - phdr_region_end) 0))))"

definition extract_from_self :: "(nat \<Rightarrow> bool) \<Rightarrow> u8 list \<Rightarrow> (u8 list \<times> container_meta) outcome" where
  "extract_from_self can_alloc raw =
     (if length raw < SCE_HEADER_SIZE then fail (TooShort ''SCE header truncated'')
      else case (get_u16 raw 0x18, get_u16 raw 0x08) of
        (Some n16, Some program_type) \<Rightarrow>
          (let num_segments = unat n16 in
           if num_segments = 0 then fail (Malformed ''SELF has zero segments'')
           else and_then (read_segments raw num_segments) (\<lambda>segments.
             let meta = \<lparr>cm_num_segments = Some n16, cm_sce_program_type = Some program_type, cm_module_attributes = None\<rparr>;
                 elf_base = SCE_HEADER_SIZE + num_segments * SELF_SEGMENT_SIZE
             in if length raw < elf_base + 4 then fail (TooShort ''no room for inner ELF header'')
                else case get_u32 raw elf_base of
                  None \<Rightarrow> None
                | Some inner_magic \<Rightarrow>
                    if inner_magic \<noteq> ELF_MAGIC then fail Encrypted
                    else and_then (extract_image can_alloc raw segments elf_base) (\<lambda>out. return (out, meta))))
      | _ \<Rightarrow> None)"

definition container_open :: "(nat \<Rightarrow> bool) \<Rightarrow> u8 list \<Rightarrow> container outcome" where
  "container_open can_alloc raw =
     (if length raw < 4 then fail (TooShort ''less than 4 bytes'')
      else case get_u32 raw 0 of
        None \<Rightarrow> None
      | Some magic \<Rightarrow>
          if magic = ELF_MAGIC
          then return \<lparr>c_kind = RawElf, c_elf_bytes = raw, c_meta = container_meta_default\<rparr>
          else if magic = SELF_MAGIC
          then and_then (extract_from_self can_alloc raw) (\<lambda>(elf_bytes, meta).
                 return \<lparr>c_kind = SelfContainer, c_elf_bytes = elf_bytes, c_meta = meta\<rparr>)
          else fail (UnknownMagic magic))"

section \<open>Identifiers\<close>

definition CODES :: string where
  "CODES = ''ABCDEFGHIJKLMNOPQRSTUVWXYZabcdefghijklmnopqrstuvwxyz0123456789+-''"

definition encode_id :: "u64 \<Rightarrow> string" where
  "encode_id i =
     (if i < 0x40 then [CODES ! unat i]
      else if i < 0x1000 then [CODES ! unat (drop_bit 6 i AND 0x3f), CODES ! unat (i AND 0x3f)]
      else [CODES ! unat (drop_bit 12 i AND 0x3f), CODES ! unat (drop_bit 6 i AND 0x3f), CODES ! unat (i AND 0x3f)])"

section \<open>No panic\<close>

lemma and_then_simps [simp]:
  "and_then None f = None" "and_then (fail e) f = fail e" "and_then (return x) f = f x"
  by (simp_all add: and_then_def)

lemma and_then_None: "and_then m f = None \<longleftrightarrow> m = None \<or> (\<exists>x. m = return x \<and> f x = None)"
  by (auto simp: and_then_def split: option.splits sum.splits)

lemma and_then_return: "and_then m f = return y \<longleftrightarrow> (\<exists>x. m = return x \<and> f x = return y)"
  by (auto simp: and_then_def split: option.splits sum.splits)

lemma index_range_Some [simp]: "a \<le> b \<Longrightarrow> b \<le> length xs \<Longrightarrow> index_range a b xs = Some (slice a b xs)"
  by (simp add: index_range_def)

lemma get_Some [simp]:
  "a + 8 \<le> length xs \<Longrightarrow> get_u64 xs a = Some (le_u64 (slice a (a + 8) xs))"
  "a + 2 \<le> length xs \<Longrightarrow> get_u16 xs a = Some (le_u16 (xs ! a) (xs ! (a + 1)))"
  "a + 4 \<le> length xs \<Longrightarrow> get_u32 xs a = Some (le_u32 (xs ! a) (xs ! (a + 1)) (xs ! (a + 2)) (xs ! (a + 3)))"
  by (simp_all add: get_u64_def get_u16_def get_u32_def)

lemma checked_sum_not_None [simp]: "checked_sum a b m \<noteq> None"
  by (simp add: checked_sum_def)

lemma checked_sum_return [simp]: "checked_sum a b m = return c \<longleftrightarrow> a + b < 2 ^ 64 \<and> c = a + b"
  by (auto simp: checked_sum_def)

lemma those_not_None: "(\<And>x. x \<in> set xs \<Longrightarrow> f x \<noteq> None) \<Longrightarrow> those (map f xs) \<noteq> None"
  by (induction xs) (auto split: option.split)

lemma those_length: "those ys = Some xs \<Longrightarrow> length xs = length ys"
  by (induction ys arbitrary: xs) (auto split: option.splits)

lemma entry_bound: "i < n \<Longrightarrow> i * m + m \<le> n * m" for i n m :: nat
  using mult_le_mono1[of "Suc i" n m] by simp

lemma read_segments_not_None: "read_segments raw n \<noteq> None"
proof (cases "length raw < SCE_HEADER_SIZE + n * SELF_SEGMENT_SIZE")
  case False
  have "read_segment raw (SCE_HEADER_SIZE + i * SELF_SEGMENT_SIZE) \<noteq> None" if "i < n" for i
    using entry_bound[OF that, of SELF_SEGMENT_SIZE] False
    by (simp add: read_segment_def SCE_HEADER_SIZE_def SELF_SEGMENT_SIZE_def)
  then have "those (map (\<lambda>i. read_segment raw (SCE_HEADER_SIZE + i * SELF_SEGMENT_SIZE)) [0..<n]) \<noteq> None"
    by (intro those_not_None) simp
  then show ?thesis using False by (simp add: read_segments_def)
qed (simp add: read_segments_def)

lemma elf_header_info_not_None: "base + ELF_HEADER_SIZE \<le> length raw \<Longrightarrow> elf_header_info raw base \<noteq> None"
  by (simp add: elf_header_info_def phdr_table_info_def ELF_HEADER_SIZE_def)

lemma read_program_header_not_None:
  "0x38 \<le> entsize \<Longrightarrow> base + entsize \<le> length raw \<Longrightarrow> read_program_header raw base entsize \<noteq> None"
  by (simp add: read_program_header_def phdr_extent_def)

lemma read_program_headers_not_None: "read_program_headers raw base \<noteq> None"
proof (cases "length raw < base + ELF_HEADER_SIZE")
  case False
  then obtain phoff entsize phnum where i: "elf_header_info raw base = Some (phoff, entsize, phnum)"
    using elf_header_info_not_None[of base raw] by auto
  have "those (map (\<lambda>i. read_program_header raw (base + unat phoff + i * entsize) entsize) [0..<phnum]) \<noteq> None"
    if e: "\<not> entsize < 0x38" "\<not> length raw < base + unat phoff + phnum * entsize"
  proof (rule those_not_None)
    fix j assume "j \<in> set [0..<phnum]"
    then have "j * entsize + entsize \<le> phnum * entsize" by (intro entry_bound) simp
    then show "read_program_header raw (base + unat phoff + j * entsize) entsize \<noteq> None"
      using e by (intro read_program_header_not_None) linarith+
  qed
  then show ?thesis using False i by (auto simp: read_program_headers_def and_then_None simp del: not_None_eq)
qed (simp add: read_program_headers_def)

lemma image_size_props:
  "image_size n phs sz \<noteq> None"
  "image_size n phs sz = return r \<Longrightarrow> sz \<le> r \<and> (\<forall>ph \<in> set phs. unat (file_size ph) \<le> n \<and> unat (file_offset ph) + unat (file_size ph) \<le> r)"
proof (induction phs arbitrary: sz)
  case (Cons ph phs)
  { case 1
    show ?case using Cons.IH(1) by (auto simp: and_then_None simp del: not_None_eq) }
  { case 2
    then have *: "unat (file_size ph) \<le> n"
      "image_size n phs (max sz (unat (file_offset ph) + unat (file_size ph))) = return r"
      by (auto simp: and_then_return split: if_splits)
    show ?case using Cons.IH(2)[OF *(2)] *(1) by auto }
qed simp_all

lemma fill_segments_not_None: "fill_segments raw phdrs idx segs out \<noteq> None"
proof (induction segs arbitrary: idx out)
  case (Cons seg segs)
  then show ?case
    by (simp add: and_then_None Let_def del: not_None_eq)
qed simp

lemma read_program_headers_return:
  assumes "read_program_headers raw base = return phs"
  obtains phoff entsize phnum where "elf_header_info raw base = Some (phoff, entsize, phnum)"
    "base + ELF_HEADER_SIZE \<le> length raw" "base + (unat phoff + phnum * entsize) \<le> length raw" "length phs = phnum"
proof -
  have l: "base + ELF_HEADER_SIZE \<le> length raw"
    using assms by (simp add: read_program_headers_def split: if_splits)
  then obtain phoff entsize phnum where i: "elf_header_info raw base = Some (phoff, entsize, phnum)"
    using elf_header_info_not_None[OF l] by auto
  have r: "those (map (\<lambda>i. read_program_header raw (base + unat phoff + i * entsize) entsize) [0..<phnum]) = Some phs"
    "base + unat phoff + phnum * entsize \<le> length raw"
    using assms l i by (simp_all add: read_program_headers_def and_then_return not_less split: if_splits)
  show ?thesis using that[OF i l] r(2) those_length[OF r(1)] by simp
qed

lemma extract_image_not_None: "extract_image can_alloc raw segs base \<noteq> None"
proof (cases "\<exists>phs. read_program_headers raw base = return phs")
  case False
  then show ?thesis using read_program_headers_not_None[of raw base]
    by (auto simp: extract_image_def and_then_None simp del: not_None_eq)
next
  case True
  then obtain phs where phs: "read_program_headers raw base = return phs" ..
  obtain phoff entsize phnum where i: "elf_header_info raw base = Some (phoff, entsize, phnum)"
    "base + (unat phoff + phnum * entsize) \<le> length raw"
    using read_program_headers_return[OF phs] by blast
  have "\<not> sz < unat phoff + phnum * entsize"
    if "image_size (length raw) phs (max (unat phoff + phnum * entsize) ELF_HEADER_SIZE) = return sz" for sz
    using image_size_props(2)[OF that] by simp
  then show ?thesis
    using i phs by (auto simp: extract_image_def and_then_None Let_def image_size_props(1) fill_segments_not_None
        simp del: not_None_eq)
qed

lemma container_open_not_None: "container_open can_alloc raw \<noteq> None"
proof -
  have "extract_from_self can_alloc raw \<noteq> None"
    by (auto simp: extract_from_self_def SCE_HEADER_SIZE_def and_then_None Let_def read_segments_not_None
        extract_image_not_None simp del: not_None_eq)
  then show ?thesis by (auto simp: container_open_def and_then_None simp del: not_None_eq)
qed

text \<open>
  C33. Opening a file never panics. For every byte string, of any length and content, unwrapping
  returns a container or one of the named errors: no table entry, header field or segment that
  the file declares makes it read or write out of range.
\<close>

theorem container_open_total: "container_open can_alloc raw \<noteq> None"
  by (rule container_open_not_None)

section \<open>The image\<close>

text \<open>
  What a byte of the image is: the last segment whose copy covers it gives it, otherwise the
  header region, otherwise it is zero.
\<close>

definition seg_len :: "program_header list \<Rightarrow> self_segment \<Rightarrow> nat" where
  "seg_len phdrs s = unat (min (seg_uncompressed_size s) (file_size (phdrs ! program_header_id s)))"

definition seg_dst :: "program_header list \<Rightarrow> self_segment \<Rightarrow> nat" where
  "seg_dst phdrs s = unat (file_offset (phdrs ! program_header_id s))"

definition covers :: "program_header list \<Rightarrow> nat \<Rightarrow> self_segment \<Rightarrow> bool" where
  "covers phdrs k s \<longleftrightarrow> is_blocked s \<and> seg_dst phdrs s \<le> k \<and> k < seg_dst phdrs s + seg_len phdrs s"

definition covered_byte :: "u8 list \<Rightarrow> program_header list \<Rightarrow> self_segment list \<Rightarrow> nat \<Rightarrow> u8 \<Rightarrow> u8" where
  "covered_byte raw phdrs segs k d =
     (case last_opt (filter (covers phdrs k) segs) of
        Some s \<Rightarrow> raw ! (unat (seg_offset s) + (k - seg_dst phdrs s))
      | None \<Rightarrow> d)"

definition image_byte :: "u8 list \<Rightarrow> nat \<Rightarrow> nat \<Rightarrow> program_header list \<Rightarrow> self_segment list \<Rightarrow> nat \<Rightarrow> u8" where
  "image_byte raw base region phdrs segs k =
     covered_byte raw phdrs segs k (if k < region then raw ! (base + k) else 0)"

definition seg_fits :: "u8 list \<Rightarrow> program_header list \<Rightarrow> self_segment \<Rightarrow> bool" where
  "seg_fits raw phdrs s \<longleftrightarrow> \<not> is_compressed s \<and> program_header_id s < length phdrs
     \<and> (seg_len phdrs s \<noteq> 0 \<longrightarrow> unat (seg_offset s) + seg_len phdrs s \<le> length raw)"

lemma covered_byte_Cons:
  "covered_byte raw phdrs (s # segs) k d =
     covered_byte raw phdrs segs k
       (if covers phdrs k s then raw ! (unat (seg_offset s) + (k - seg_dst phdrs s)) else d)"
  by (cases "filter (covers phdrs k) segs") (auto simp: covered_byte_def last_opt_def)

lemma fill_segments_return:
  assumes "fill_segments raw phdrs idx segs out = return r"
  shows "length r = length out" and "\<forall>s \<in> set segs. is_blocked s \<longrightarrow> seg_fits raw phdrs s"
    and "\<forall>k < length out. r ! k = covered_byte raw phdrs segs k (out ! k)"
proof -
  have "length r = length out \<and> (\<forall>s \<in> set segs. is_blocked s \<longrightarrow> seg_fits raw phdrs s)
    \<and> (\<forall>k < length out. r ! k = covered_byte raw phdrs segs k (out ! k))"
    using assms
  proof (induction segs arbitrary: idx out)
    case Nil
    then show ?case by (simp add: covered_byte_def last_opt_def)
  next
    case (Cons s segs)
    let ?d = "seg_dst phdrs s" and ?n = "seg_len phdrs s" and ?o = "unat (seg_offset s)"
    show ?case
    proof (cases "is_blocked s \<and> ?n \<noteq> 0")
      case False
      then have f: "fill_segments raw phdrs (idx + 1) segs out = return r"
        and "is_blocked s \<Longrightarrow> seg_fits raw phdrs s" and "\<not> covers phdrs k s" for k
        using Cons.prems by (auto simp: seg_len_def seg_fits_def covers_def Let_def split: if_splits)
      then show ?thesis using Cons.IH[OF f] by (simp add: covered_byte_Cons)
    next
      case True
      define out' where "out' = take ?d out @ slice ?o (?o + ?n) raw @ drop (?d + ?n) out"
      have fit: "seg_fits raw phdrs s" "?o + ?n \<le> length raw" "?d + ?n \<le> length out"
        and f: "fill_segments raw phdrs (idx + 1) segs out' = return r"
        using Cons.prems True
        by (auto simp: and_then_return Let_def seg_len_def seg_dst_def seg_fits_def out'_def not_less split: if_splits)
      have len: "length out' = length out" using fit by (simp add: out'_def)
      have "out' ! k = (if covers phdrs k s then raw ! (?o + (k - ?d)) else out ! k)" if "k < length out" for k
        using that True fit by (auto simp: out'_def covers_def nth_append nth_slice)
      then show ?thesis using Cons.IH[OF f] fit(1) len by (simp add: covered_byte_Cons)
    qed
  qed
  then show "length r = length out" "\<forall>s \<in> set segs. is_blocked s \<longrightarrow> seg_fits raw phdrs s"
    "\<forall>k < length out. r ! k = covered_byte raw phdrs segs k (out ! k)"
    by blast+
qed

lemma extract_image_return:
  assumes "extract_image can_alloc raw segs base = return out"
  obtains phdrs phoff entsize phnum where
    "read_program_headers raw base = return phdrs" "elf_header_info raw base = Some (phoff, entsize, phnum)"
    "unat phoff + phnum * entsize \<le> length out" "base + (unat phoff + phnum * entsize) \<le> length raw"
    "\<forall>ph \<in> set phdrs. unat (file_offset ph) + unat (file_size ph) \<le> length out"
    "\<forall>s \<in> set segs. is_blocked s \<longrightarrow> seg_fits raw phdrs s"
    "out = map (image_byte raw base (unat phoff + phnum * entsize) phdrs segs) [0..<length out]"
proof -
  obtain phdrs where p: "read_program_headers raw base = return phdrs"
    using assms by (auto simp: extract_image_def and_then_return)
  obtain phoff entsize phnum where i: "elf_header_info raw base = Some (phoff, entsize, phnum)"
    "base + (unat phoff + phnum * entsize) \<le> length raw"
    using read_program_headers_return[OF p] by blast
  define R where "R = unat phoff + phnum * entsize"
  obtain sz where sz: "image_size (length raw) phdrs (max R ELF_HEADER_SIZE) = return sz"
    and f: "fill_segments raw phdrs 0 segs (slice base (base + R) raw @ replicate (sz - R) 0) = return out"
    using assms p i by (auto simp: extract_image_def and_then_return R_def Let_def split: if_splits)
  note s = image_size_props(2)[OF sz]
  have len0: "length (slice base (base + R) raw @ replicate (sz - R) 0) = sz" using i(2) s by (simp add: R_def)
  note fr = fill_segments_return[OF f, unfolded len0]
  have "out ! k = image_byte raw base R phdrs segs k" if "k < length out" for k
  proof -
    have "(slice base (base + R) raw @ replicate (sz - R) 0) ! k = (if k < R then raw ! (base + k) else 0)"
      using that fr(1) i(2) s by (auto simp: nth_append nth_slice R_def)
    then show ?thesis using fr(1,3) that by (simp add: image_byte_def)
  qed
  then have "out = map (image_byte raw base R phdrs segs) [0..<length out]" by (intro nth_equalityI) simp_all
  then show ?thesis using that[OF p i(1)] s fr(1,2) i(2) by (simp add: R_def)
qed

text \<open>
  C34. What unwrapping gives. A plain ELF comes back byte for byte. From a SELF container the result
  is exactly the described image: every blocked segment is uncompressed, names a program header
  and lies in the file; the image reaches to the end of every program header; and each of its bytes is
  the byte of the last blocked segment whose copy covers it, else that of the ELF header and the
  program-header table embedded after the segment table, else zero.
\<close>

theorem container_open_image:
  assumes "container_open can_alloc raw = return c"
  shows "case c_kind c of
      RawElf \<Rightarrow> get_u32 raw 0 = Some ELF_MAGIC \<and> c_elf_bytes c = raw
    | SelfContainer \<Rightarrow> (\<exists>n segs phdrs phoff entsize phnum.
        get_u16 raw 0x18 = Some n \<and> cm_num_segments (c_meta c) = Some n
        \<and> read_segments raw (unat n) = return segs
        \<and> get_u32 raw (0x20 + unat n * 0x20) = Some ELF_MAGIC
        \<and> read_program_headers raw (0x20 + unat n * 0x20) = return phdrs
        \<and> elf_header_info raw (0x20 + unat n * 0x20) = Some (phoff, entsize, phnum)
        \<and> list_all (\<lambda>s. \<not> is_blocked s \<or> seg_fits raw phdrs s) segs
        \<and> list_all (\<lambda>ph. unat (file_offset ph) + unat (file_size ph) \<le> length (c_elf_bytes c)) phdrs
        \<and> unat phoff + phnum * entsize \<le> length (c_elf_bytes c)
        \<and> c_elf_bytes c = map (image_byte raw (0x20 + unat n * 0x20) (unat phoff + phnum * entsize) phdrs segs)
            [0..<length (c_elf_bytes c)])"
proof (cases "c_kind c")
  case RawElf
  then show ?thesis using assms
    by (auto simp: container_open_def and_then_return split: if_splits option.splits)
next
  case SelfContainer
  then obtain out meta where e: "extract_from_self can_alloc raw = return (out, meta)"
    and c: "c_elf_bytes c = out" "c_meta c = meta"
    using assms by (auto simp: container_open_def and_then_return split: if_splits option.splits)
  have l: "0x20 \<le> length raw" using e by (auto simp: extract_from_self_def SCE_HEADER_SIZE_def split: if_splits)
  define n where "n = le_u16 (raw ! 0x18) (raw ! 0x19)"
  have n: "get_u16 raw 0x18 = Some n" using l by (simp add: n_def)
  obtain segs where segs: "read_segments raw (unat n) = return segs"
    "get_u32 raw (0x20 + unat n * 0x20) = Some ELF_MAGIC"
    "extract_image can_alloc raw segs (0x20 + unat n * 0x20) = return out" "cm_num_segments meta = Some n"
    using e l n
    by (auto simp: extract_from_self_def SCE_HEADER_SIZE_def SELF_SEGMENT_SIZE_def and_then_return Let_def not_less
        split: if_splits option.splits)
  obtain phdrs phoff entsize phnum where img:
    "read_program_headers raw (0x20 + unat n * 0x20) = return phdrs"
    "elf_header_info raw (0x20 + unat n * 0x20) = Some (phoff, entsize, phnum)"
    "unat phoff + phnum * entsize \<le> length out"
    "0x20 + unat n * 0x20 + (unat phoff + phnum * entsize) \<le> length raw"
    "\<forall>ph \<in> set phdrs. unat (file_offset ph) + unat (file_size ph) \<le> length out"
    "\<forall>s \<in> set segs. is_blocked s \<longrightarrow> seg_fits raw phdrs s"
    "out = map (image_byte raw (0x20 + unat n * 0x20) (unat phoff + phnum * entsize) phdrs segs) [0..<length out]"
    by (rule extract_image_return[OF segs(3)])
  have "list_all (\<lambda>s. \<not> is_blocked s \<or> seg_fits raw phdrs s) segs"
    "list_all (\<lambda>ph. unat (file_offset ph) + unat (file_size ph) \<le> length out) phdrs"
    using img(5,6) by (auto simp: list_all_iff)
  then show ?thesis
    unfolding SelfContainer container_kind.case c
    using n segs(1,2,4) img(1,2,3,7) by blast
qed

text \<open>A container with one segment, the four bytes at offset 184, for an ELF of 124 bytes.\<close>

definition small_self :: "u8 list" where
  "small_self =
     [0x4f, 0x15, 0x3d, 0x1d] @ replicate 20 0 @ [1, 0] @ replicate 6 0
     @ [0, 8, 0, 0, 0, 0, 0, 0] @ [184, 0, 0, 0, 0, 0, 0, 0] @ [4, 0, 0, 0, 0, 0, 0, 0] @ [4, 0, 0, 0, 0, 0, 0, 0]
     @ [0x7f, 0x45, 0x4c, 0x46] @ replicate 28 0 @ [64, 0, 0, 0, 0, 0, 0, 0] @ replicate 14 0 @ [56, 0, 1, 0]
     @ replicate 6 0
     @ replicate 8 0 @ [120, 0, 0, 0, 0, 0, 0, 0] @ replicate 16 0 @ [4, 0, 0, 0, 0, 0, 0, 0] @ replicate 16 0
     @ [1, 2, 3, 4]"

theorem container_open_image_witness:
  "\<exists>c n segs phdrs region. container_open (\<lambda>_. True) small_self = return c \<and> c_kind c = SelfContainer
     \<and> c_elf_bytes c = map (image_byte small_self (0x20 + unat (n :: u16) * 0x20) region phdrs segs) [0..<length (c_elf_bytes c)]
     \<and> drop 120 (c_elf_bytes c) = [1, 2, 3, 4]"
proof -
  have "(case container_open (\<lambda>_. True) small_self of
      Some (Inr c) \<Rightarrow> c_kind c = SelfContainer \<and> drop 120 (c_elf_bytes c) = [1, 2, 3, 4] | _ \<Rightarrow> False)"
    by code_simp
  then obtain c where c: "container_open (\<lambda>_. True) small_self = return c" "c_kind c = SelfContainer"
    "drop 120 (c_elf_bytes c) = [1, 2, 3, 4]"
    by (auto split: option.splits sum.splits)
  from container_open_image[OF c(1)] c(2) obtain n segs phdrs phoff entsize phnum where
    "c_elf_bytes c = map (image_byte small_self (0x20 + unat (n :: u16) * 0x20) (unat (phoff :: u64) + phnum * entsize) phdrs segs)
       [0..<length (c_elf_bytes c)]"
    by (simp only: container_kind.case) blast
  then show ?thesis using c by blast
qed

section \<open>Identifiers\<close>

lemma and_3f: "unat (w AND 0x3f) = unat w mod 64" for w :: u64
proof -
  have "w AND 0x3f = take_bit 6 w" by (simp add: take_bit_eq_mask mask_eq_exp_minus_1)
  then have "unat (w AND 0x3f) = take_bit 6 (unat w)" by (simp add: unsigned_take_bit_eq)
  then show ?thesis by (simp add: take_bit_eq_mod)
qed

lemma unat_drop: "unat (drop_bit n w) = unat w div 2 ^ n" for w :: u64
proof -
  have "unat (drop_bit n w) = drop_bit n (unat w)"
    using u64_bound[of w] by (simp add: unsigned_drop_bit_eq take_bit_nat_eq_self)
  then show ?thesis by (simp add: drop_bit_eq_div)
qed

lemma CODES_inj: "i < 64 \<Longrightarrow> j < 64 \<Longrightarrow> CODES ! i = CODES ! j \<longleftrightarrow> i = j"
proof -
  have "distinct CODES" "length CODES = 64" unfolding CODES_def by code_simp+
  then show "i < 64 \<Longrightarrow> j < 64 \<Longrightarrow> CODES ! i = CODES ! j \<longleftrightarrow> i = j" by (simp add: nth_eq_iff_index_eq)
qed

text \<open>
  The encoding of library and module identifiers is injective below $2^{18}$, hence on the 16-bit
  identifiers the dynamic section has: a decoded name matches the entry of exactly one of them.
\<close>

theorem encode_id_injective:
  assumes "unat i < 2 ^ 18" "unat j < 2 ^ 18" "encode_id i = encode_id j"
  shows "i = j"
proof -
  define x y where "x = unat i" and "y = unat j"
  have enc: "encode_id w = (if unat w < 64 then [CODES ! unat w]
      else if unat w < 4096 then [CODES ! (unat w div 64 mod 64), CODES ! (unat w mod 64)]
      else [CODES ! (unat w div 4096 mod 64), CODES ! (unat w div 64 mod 64), CODES ! (unat w mod 64)])" for w
    by (simp add: encode_id_def word_less_nat_alt and_3f unat_drop)
  have b: "x < 2 ^ 18" "y < 2 ^ 18" using assms by (simp_all add: x_def y_def)
  have digits: "n = 4096 * (n div 4096) + 64 * (n div 64 mod 64) + n mod 64" for n :: nat
  proof -
    have "n div 4096 = n div 64 div 64" using div_mult2_eq[of n 64 64] by simp
    then show ?thesis using mult_div_mod_eq[of 64 n] mult_div_mod_eq[of 64 "n div 64"] by linarith
  qed
  have top: "n div 4096 mod 64 = n div 4096" if "n < 2 ^ 18" for n :: nat
    using that less_mult_imp_div_less[of n 64 4096] by simp
  have low: "n < 4096 \<Longrightarrow> n div 4096 = 0" for n :: nat by simp
  have e: "encode_id i = encode_id j" by fact
  consider "x < 64" "y < 64" | "\<not> x < 64" "x < 4096" "\<not> y < 64" "y < 4096" | "\<not> x < 4096" "\<not> y < 4096"
    using e unfolding enc x_def[symmetric] y_def[symmetric] by (auto split: if_splits)
  then have "x = y"
  proof cases
    case 1
    then show ?thesis using e unfolding enc x_def[symmetric] y_def[symmetric] by (simp add: CODES_inj)
  next
    case 2
    then have "x div 64 mod 64 = y div 64 mod 64" "x mod 64 = y mod 64"
      using e unfolding enc x_def[symmetric] y_def[symmetric] by (simp_all add: CODES_inj)
    then show ?thesis using digits[of x] digits[of y] low[OF 2(2)] low[OF 2(4)] by linarith
  next
    case 3
    then have "x div 4096 mod 64 = y div 4096 mod 64" "x div 64 mod 64 = y div 64 mod 64" "x mod 64 = y mod 64"
      using e unfolding enc x_def[symmetric] y_def[symmetric] by (simp_all add: CODES_inj)
    then show ?thesis using digits[of x] digits[of y] top[OF b(1)] top[OF b(2)] by linarith
  qed
  then show ?thesis by (simp add: x_def y_def word_unat_eq_iff)
qed

end
