(* ===== verification/Sce_Dynamic.thy ===== *)
theory Sce_Dynamic
  imports Self_Container
begin

unbundle bit_operations_syntax

text \<open>
  The dynamic-linking view of an executable: \<^verbatim>\<open>crates/loader/src/dynamic.rs\<close> (the retail tables in the
  dynlib segment, and the standard ones), the image of \<^verbatim>\<open>crates/loader/src/image.rs\<close> built on it, and
  the record types of \<^verbatim>\<open>crates/core/src/img.rs\<close>. The ELF library that reads headers and the standard
  tables is a parameter: the record \<open>elf_view\<close> is what it hands over. A Rust string is its UTF-8 bytes.
  A \<^verbatim>\<open>usize\<close> is a natural below \<open>2 ^ 64\<close>; the additions the source does not check wrap, and a slice that
  would panic is the outer \<open>None\<close>. An addend, an \<^verbatim>\<open>i64\<close>, is its bit pattern.
\<close>

section \<open>Strings\<close>

type_synonym rstr = "u8 list"

definition ascii :: "string \<Rightarrow> rstr" where
  "ascii s = map of_char s"

text \<open>\<^verbatim>\<open>String::from_utf8_lossy\<close>: each maximal invalid piece becomes the replacement character.\<close>

definition byte_at :: "u8 list \<Rightarrow> nat \<Rightarrow> u8" where
  "byte_at bs i = (if i < length bs then bs ! i else 0)"

definition utf8_cont :: "u8 \<Rightarrow> bool" where
  "utf8_cont b \<longleftrightarrow> 0x80 \<le> b \<and> b \<le> 0xBF"

definition utf8_second :: "u8 \<Rightarrow> u8 \<Rightarrow> bool" where
  "utf8_second b c \<longleftrightarrow>
     (if b = 0xE0 then 0xA0 \<le> c \<and> c \<le> 0xBF
      else if b = 0xED then 0x80 \<le> c \<and> c \<le> 0x9F
      else if b = 0xF0 then 0x90 \<le> c \<and> c \<le> 0xBF
      else if b = 0xF4 then 0x80 \<le> c \<and> c \<le> 0x8F
      else utf8_cont c)"

definition utf8_seq :: "u8 \<Rightarrow> u8 list \<Rightarrow> nat \<times> bool" where
  "utf8_seq b bs =
     (if b < 0x80 then (1, True)
      else if 0xC2 \<le> b \<and> b \<le> 0xDF then (if utf8_cont (byte_at bs 0) then (2, True) else (1, False))
      else if 0xE0 \<le> b \<and> b \<le> 0xEF then
        (if \<not> utf8_second b (byte_at bs 0) then (1, False)
         else if \<not> utf8_cont (byte_at bs 1) then (2, False) else (3, True))
      else if 0xF0 \<le> b \<and> b \<le> 0xF4 then
        (if \<not> utf8_second b (byte_at bs 0) then (1, False)
         else if \<not> utf8_cont (byte_at bs 1) then (2, False)
         else if \<not> utf8_cont (byte_at bs 2) then (3, False) else (4, True))
      else (1, False))"

lemma utf8_seq_pos: "0 < fst (utf8_seq b bs)"
  by (auto simp: utf8_seq_def)

function from_utf8_lossy :: "u8 list \<Rightarrow> rstr" where
  "from_utf8_lossy [] = []"
| "from_utf8_lossy (b # bs) =
     (case utf8_seq b bs of (n, ok) \<Rightarrow>
        (if ok then take n (b # bs) else [0xEF, 0xBF, 0xBD]) @ from_utf8_lossy (drop n (b # bs)))"
  by pat_completeness auto
termination
proof (relation "measure length", goal_cases)
  case (2 b bs)
  then show ?case using utf8_seq_pos[of b bs] by (cases "utf8_seq b bs") auto
qed simp

fun split_on :: "u8 \<Rightarrow> rstr \<Rightarrow> rstr list" where
  "split_on c [] = [[]]"
| "split_on c (b # bs) =
     (if b = c then [] # split_on c bs
      else case split_on c bs of p # ps \<Rightarrow> (b # p) # ps | [] \<Rightarrow> [[b]])"

section \<open>The records of an image\<close>

record import_rec =
  imp_lib_name :: rstr
  imp_symbol_name :: rstr
  imp_symbol_id :: nat

datatype relocation_kind =
    RelNone | Absolute64 | Pc32 | Got32 | Plt32 | Copy | GlobDat | JumpSlot | Relative | GotPcRel
  | Absolute32 | Absolute32S | Absolute16 | Pc16 | Absolute8 | Pc8
  | DtpMod64 | DtpOff64 | TpOff64 | TlsGd | TlsLd | DtpOff32 | GotTpOff | TpOff32
  | Pc64 | GotOff64 | GotPc32 | Size32 | Size64 | GotPc32TlsDesc | TlsDescCall | TlsDesc | IRelative
  | UnknownRel u32

record relocation =
  rel_offset :: u64
  rel_kind :: relocation_kind
  rel_symbol_index :: "nat option"
  rel_addend :: u64
  rel_symbol_name :: "rstr option"
  rel_symbol_value :: "u64 option"

record tls_info =
  tls_data :: "u8 list"
  tls_mem_size :: u64
  tls_align :: u64

record loadable_segment =
  ls_offset :: u64
  ls_data :: "u8 list"
  ls_protection :: u32
  ls_bss_size :: u64

datatype loader_error = IoError | ContainerErr | FormatErr string | MemoryErr string | RelocationErr string

type_synonym 'a loader = "(loader_error + 'a) option"

abbreviation lfail :: "loader_error \<Rightarrow> 'a loader" where "lfail e \<equiv> Some (Inl e)"
abbreviation lok :: "'a \<Rightarrow> 'a loader" where "lok x \<equiv> Some (Inr x)"

definition lbind :: "'a loader \<Rightarrow> ('a \<Rightarrow> 'b loader) \<Rightarrow> 'b loader" where
  "lbind m f = (case m of None \<Rightarrow> None | Some (Inl e) \<Rightarrow> Some (Inl e) | Some (Inr x) \<Rightarrow> f x)"

text \<open>What the ELF library reads: headers, and the standard dynamic tables.\<close>

record elf_phdr =
  p_type :: u32
  p_flags :: u32
  p_offset :: u64
  p_vaddr :: u64
  p_filesz :: u64
  p_memsz :: u64
  p_align :: u64

record elf_symbol =
  es_name :: nat
  es_shndx :: nat
  es_value :: u64

record elf_reloc =
  er_offset :: u64
  er_addend :: "u64 option"
  er_sym :: nat
  er_type :: u32

record elf_view =
  ev_e_type :: u16
  ev_entry :: u64
  ev_phdrs :: "elf_phdr list"
  ev_dynsyms :: "elf_symbol list"
  ev_dynrelas :: "elf_reloc list"
  ev_pltrelocs :: "elf_reloc list"
  ev_libraries :: "rstr list"
  ev_str_at :: "nat \<Rightarrow> rstr option"

definition map_goblin_to_kind :: "u32 \<Rightarrow> relocation_kind" where
  "map_goblin_to_kind t =
     (case map_of
        [(0 :: u32, RelNone), (1, Absolute64), (2, Pc32), (3, Got32), (4, Plt32), (5, Copy), (6, GlobDat),
         (7, JumpSlot), (8, Relative), (9, GotPcRel), (10, Absolute32), (11, Absolute32S), (12, Absolute16),
         (13, Pc16), (14, Absolute8), (15, Pc8), (16, DtpMod64), (17, DtpOff64), (18, TpOff64), (19, TlsGd),
         (20, TlsLd), (21, DtpOff32), (22, GotTpOff), (23, TpOff32), (24, Pc64), (25, GotOff64), (26, GotPc32),
         (32, Size32), (33, Size64), (34, GotPc32TlsDesc), (35, TlsDescCall), (36, TlsDesc), (37, IRelative)] t of
        Some k \<Rightarrow> k
      | None \<Rightarrow> UnknownRel t)"

section \<open>The standard tables\<close>

definition std_imports :: "elf_view \<Rightarrow> import_rec list" where
  "std_imports elf =
     List.map_filter (\<lambda>(i, sym).
       if es_shndx sym = 0 then
         (case ev_str_at elf (es_name sym) of
            Some name \<Rightarrow>
              if name \<noteq> [] then Some \<lparr>imp_lib_name = [], imp_symbol_name = name, imp_symbol_id = i\<rparr> else None
          | None \<Rightarrow> None)
       else None) (enumerate 0 (ev_dynsyms elf))"

definition std_exports :: "elf_view \<Rightarrow> (rstr \<rightharpoonup> u64)" where
  "std_exports elf =
     fold (\<lambda>sym m.
       if es_shndx sym \<noteq> 0 then
         (case ev_str_at elf (es_name sym) of
            Some name \<Rightarrow> if name \<noteq> [] then m(name \<mapsto> es_value sym) else m
          | None \<Rightarrow> m)
       else m) (ev_dynsyms elf) Map.empty"

definition map_reloc :: "elf_view \<Rightarrow> elf_reloc \<Rightarrow> relocation" where
  "map_reloc elf r =
     (let sym = (if er_sym r > 0 \<and> er_sym r < length (ev_dynsyms elf) then Some (ev_dynsyms elf ! er_sym r) else None)
      in \<lparr>rel_offset = er_offset r, rel_kind = map_goblin_to_kind (er_type r),
          rel_symbol_index = (if er_sym r > 0 then Some (er_sym r) else None),
          rel_addend = (case er_addend r of Some a \<Rightarrow> a | None \<Rightarrow> 0),
          rel_symbol_name = Option.bind sym (\<lambda>s. ev_str_at elf (es_name s)),
          rel_symbol_value = Option.bind sym (\<lambda>s. if es_shndx s \<noteq> 0 then Some (es_value s) else None)\<rparr>)"

definition std_relocations :: "elf_view \<Rightarrow> relocation list" where
  "std_relocations elf = map (map_reloc elf) (ev_dynrelas elf) @ map (map_reloc elf) (ev_pltrelocs elf)"

section \<open>The retail tables\<close>

definition PT_SCE_DYNLIBDATA :: u32 where "PT_SCE_DYNLIBDATA = 0x61000000"
definition PT_DYNAMIC :: u32 where "PT_DYNAMIC = 2"
definition DT_SCE_JMPREL :: u64 where "DT_SCE_JMPREL = 0x61000029"
definition DT_SCE_PLTRELSZ :: u64 where "DT_SCE_PLTRELSZ = 0x6100002d"
definition DT_SCE_RELA :: u64 where "DT_SCE_RELA = 0x6100002f"
definition DT_SCE_RELASZ :: u64 where "DT_SCE_RELASZ = 0x61000031"
definition DT_SCE_STRTAB :: u64 where "DT_SCE_STRTAB = 0x61000035"
definition DT_SCE_STRSZ :: u64 where "DT_SCE_STRSZ = 0x61000037"
definition DT_SCE_SYMTAB :: u64 where "DT_SCE_SYMTAB = 0x61000039"
definition DT_SCE_SYMTABSZ :: u64 where "DT_SCE_SYMTABSZ = 0x6100003f"
definition DT_SCE_NEEDED_MODULE :: u64 where "DT_SCE_NEEDED_MODULE = 0x6100000f"
definition DT_SCE_IMPORT_LIB :: u64 where "DT_SCE_IMPORT_LIB = 0x61000015"
definition DT_SCE_EXPORT_LIB :: u64 where "DT_SCE_EXPORT_LIB = 0x61000013"
definition SYM_ENT :: nat where "SYM_ENT = 24"
definition RELA_ENT :: nat where "RELA_ENT = 24"

record sce_tables =
  st_symtab :: nat
  st_symtab_sz :: nat
  st_strtab :: nat
  st_strtab_sz :: nat
  st_rela :: nat
  st_rela_sz :: nat
  st_jmprel :: nat
  st_jmprel_sz :: nat

definition sce_tables_default :: sce_tables where
  "sce_tables_default = \<lparr>st_symtab = 0, st_symtab_sz = 0, st_strtab = 0, st_strtab_sz = 0, st_rela = 0,
     st_rela_sz = 0, st_jmprel = 0, st_jmprel_sz = 0\<rparr>"

record named_id =
  ni_name_offset :: u32
  ni_id :: u16

definition named_id_from_val :: "u64 \<Rightarrow> named_id" where
  "named_id_from_val val =
     \<lparr>ni_name_offset = ucast (val AND 0xffffffff), ni_id = ucast (drop_bit 48 val AND 0xffff)\<rparr>"

record sce_dynamic =
  sd_dynlib :: "u8 list"
  sd_tables :: sce_tables
  sd_libraries_by_enc :: "rstr \<rightharpoonup> rstr"
  sd_library_names :: "rstr list"
  sd_module_names :: "rstr list"

definition read_cstr :: "u8 list \<Rightarrow> nat \<Rightarrow> nat \<Rightarrow> rstr" where
  "read_cstr dynlib strtab_base offset =
     (if 2 ^ 64 \<le> strtab_base + offset then []
      else if length dynlib \<le> strtab_base + offset then []
      else from_utf8_lossy (takeWhile (\<lambda>b. b \<noteq> 0) (drop (strtab_base + offset) dynlib)))"

fun chunks_exact :: "nat \<Rightarrow> u8 list \<Rightarrow> u8 list list" where
  "chunks_exact n xs =
     (if n = 0 \<or> length xs < n then [] else take n xs # chunks_exact n (drop n xs))"

declare chunks_exact.simps [simp del]

text \<open>One entry of the dynamic section: the tables, the library entries and the needed modules.\<close>

definition dyn_entry ::
  "u8 list \<Rightarrow> sce_tables \<times> named_id list \<times> named_id list \<Rightarrow> sce_tables \<times> named_id list \<times> named_id list" where
  "dyn_entry chunk = (\<lambda>(t, libs, mods).
     let d_tag = le_u64 (slice 0 8 chunk); d_val = le_u64 (slice 8 16 chunk) in
     if d_tag = DT_SCE_SYMTAB then (t\<lparr>st_symtab := unat d_val\<rparr>, libs, mods)
     else if d_tag = DT_SCE_SYMTABSZ then (t\<lparr>st_symtab_sz := unat d_val\<rparr>, libs, mods)
     else if d_tag = DT_SCE_STRTAB then (t\<lparr>st_strtab := unat d_val\<rparr>, libs, mods)
     else if d_tag = DT_SCE_STRSZ then (t\<lparr>st_strtab_sz := unat d_val\<rparr>, libs, mods)
     else if d_tag = DT_SCE_RELA then (t\<lparr>st_rela := unat d_val\<rparr>, libs, mods)
     else if d_tag = DT_SCE_RELASZ then (t\<lparr>st_rela_sz := unat d_val\<rparr>, libs, mods)
     else if d_tag = DT_SCE_JMPREL then (t\<lparr>st_jmprel := unat d_val\<rparr>, libs, mods)
     else if d_tag = DT_SCE_PLTRELSZ then (t\<lparr>st_jmprel_sz := unat d_val\<rparr>, libs, mods)
     else if d_tag = DT_SCE_IMPORT_LIB \<or> d_tag = DT_SCE_EXPORT_LIB then (t, libs @ [named_id_from_val d_val], mods)
     else if d_tag = DT_SCE_NEEDED_MODULE then (t, libs, mods @ [named_id_from_val d_val])
     else (t, libs, mods))"

definition push_new :: "rstr \<Rightarrow> rstr list \<Rightarrow> rstr list" where
  "push_new x xs = (if x \<in> set xs then xs else xs @ [x])"

definition phdr_bytes :: "string \<Rightarrow> string \<Rightarrow> elf_phdr \<Rightarrow> u8 list \<Rightarrow> u8 list loader" where
  "phdr_bytes overflow outside ph bs =
     (let start = unat (p_offset ph); e = start + unat (p_filesz ph) in
      if 2 ^ 64 \<le> e then lfail (FormatErr overflow)
      else if length bs < e then lfail (FormatErr outside)
      else map_option Inr (index_range start e bs))"

definition note_library :: "(named_id \<Rightarrow> rstr) \<Rightarrow> named_id \<Rightarrow> (rstr \<rightharpoonup> rstr) \<times> rstr list \<Rightarrow> (rstr \<rightharpoonup> rstr) \<times> rstr list" where
  "note_library name = (\<lambda>l (m, ns).
     if name l \<noteq> [] then (m(ascii (encode_id (ucast (ni_id l))) \<mapsto> name l), push_new (name l) ns) else (m, ns))"

definition sce_names :: "u8 list \<Rightarrow> u8 list \<Rightarrow> sce_dynamic" where
  "sce_names dynlib dyn_bytes =
     (let (t, libs, mods) = fold dyn_entry (chunks_exact 16 dyn_bytes) (sce_tables_default, [], []);
          name = (\<lambda>n. read_cstr dynlib (st_strtab t) (unat (ni_name_offset n)));
          module_names = fold (\<lambda>m ns. if name m \<noteq> [] then push_new (name m) ns else ns) mods [];
          (by_enc, library_names) = fold (note_library name) libs (Map.empty, [])
      in \<lparr>sd_dynlib = dynlib, sd_tables = t, sd_libraries_by_enc = by_enc, sd_library_names = library_names,
          sd_module_names = module_names\<rparr>)"

definition sce_new :: "elf_view \<Rightarrow> u8 list \<Rightarrow> sce_dynamic option loader" where
  "sce_new elf elf_bytes =
     (case find (\<lambda>ph. p_type ph = PT_SCE_DYNLIBDATA) (ev_phdrs elf) of
        None \<Rightarrow> lok None
      | Some dynlib_ph \<Rightarrow>
          lbind (phdr_bytes ''PT_SCE_DYNLIBDATA extent overflow'' ''PT_SCE_DYNLIBDATA out of file bounds''
                   dynlib_ph elf_bytes) (\<lambda>dynlib.
          case find (\<lambda>ph. p_type ph = PT_DYNAMIC) (ev_phdrs elf) of
            None \<Rightarrow> lfail (FormatErr ''SCE image has no PT_DYNAMIC'')
          | Some dyn_ph \<Rightarrow>
              lbind (phdr_bytes ''PT_DYNAMIC extent overflow'' ''PT_DYNAMIC out of file bounds'' dyn_ph elf_bytes)
                (\<lambda>dyn_bytes. lok (Some (sce_names dynlib dyn_bytes)))))"

record sce_sym =
  sy_name :: u32
  sy_shndx :: u16
  sy_value :: u64

definition sce_sym_parse :: "u8 list \<Rightarrow> sce_sym" where
  "sce_sym_parse raw =
     \<lparr>sy_name = le_u32 (raw ! 0) (raw ! 1) (raw ! 2) (raw ! 3), sy_shndx = le_u16 (raw ! 6) (raw ! 7),
      sy_value = le_u64 (slice 8 16 raw)\<rparr>"

record decoded_name =
  dn_nid :: rstr
  dn_lib_name :: rstr

definition decode_name :: "sce_dynamic \<Rightarrow> rstr \<Rightarrow> decoded_name" where
  "decode_name sd encoded =
     (case split_on 0x23 encoded of
        nid # lib_enc # mod_enc # _ \<Rightarrow>
          \<lparr>dn_nid = nid, dn_lib_name = (case sd_libraries_by_enc sd lib_enc of Some l \<Rightarrow> l | None \<Rightarrow> [])\<rparr>
      | nid # _ \<Rightarrow> \<lparr>dn_nid = nid, dn_lib_name = []\<rparr>
      | [] \<Rightarrow> \<lparr>dn_nid = [], dn_lib_name = []\<rparr>)"

definition sym_name :: "sce_dynamic \<Rightarrow> sce_sym \<Rightarrow> decoded_name" where
  "sym_name sd y = decode_name sd (read_cstr (sd_dynlib sd) (st_strtab (sd_tables sd)) (unat (sy_name y)))"

definition sce_symbols :: "sce_dynamic \<Rightarrow> (nat \<times> sce_sym \<times> decoded_name) list" where
  "sce_symbols sd =
     (let base = st_symtab (sd_tables sd);
          count = min (st_symtab_sz (sd_tables sd) div SYM_ENT) ((length (sd_dynlib sd) - base) div SYM_ENT)
      in List.map_filter (\<lambda>i.
           case index_range (base + i * SYM_ENT) (base + i * SYM_ENT + SYM_ENT) (sd_dynlib sd) of
             None \<Rightarrow> None
           | Some raw \<Rightarrow> Some (i, sce_sym_parse raw, sym_name sd (sce_sym_parse raw))) [0..<count])"

text \<open>\<^verbatim>\<open>dynlib.get(off..off + n)\<close> with the end computed at 64 bits:\<close>

definition get_wrapping :: "nat \<Rightarrow> nat \<Rightarrow> u8 list \<Rightarrow> u8 list option" where
  "get_wrapping off n bs = index_range off ((off + n) mod 2 ^ 64) bs"

definition reloc_symbol :: "sce_dynamic \<Rightarrow> nat \<Rightarrow> rstr option \<times> u64 option" where
  "reloc_symbol sd r_sym =
     (if r_sym > 0 then
        (let off = st_symtab (sd_tables sd) + r_sym * SYM_ENT in
         case (if off + SYM_ENT < 2 ^ 64 then index_range off (off + SYM_ENT) (sd_dynlib sd) else None) of
           Some sraw \<Rightarrow>
             (let sym = sce_sym_parse sraw
              in (Some (dn_nid (sym_name sd sym)), if sy_shndx sym \<noteq> 0 then Some (sy_value sym) else None))
         | None \<Rightarrow> (None, None))
      else (None, None))"

definition parse_rela :: "sce_dynamic \<Rightarrow> u8 list \<Rightarrow> relocation" where
  "parse_rela sd raw =
     (let r_info = le_u64 (slice 8 16 raw);
          r_sym = unat (drop_bit 32 r_info);
          (name, value) = reloc_symbol sd r_sym
      in \<lparr>rel_offset = le_u64 (slice 0 8 raw), rel_kind = map_goblin_to_kind (ucast (r_info AND 0xffffffff)),
          rel_symbol_index = (if r_sym > 0 then Some r_sym else None), rel_addend = le_u64 (slice 16 24 raw),
          rel_symbol_name = name, rel_symbol_value = value\<rparr>)"

fun relocs_loop :: "sce_dynamic \<Rightarrow> nat \<Rightarrow> nat \<Rightarrow> relocation list" where
  "relocs_loop sd 0 off = []"
| "relocs_loop sd (Suc n) off =
     (case get_wrapping off RELA_ENT (sd_dynlib sd) of
        None \<Rightarrow> []
      | Some raw \<Rightarrow> parse_rela sd raw # relocs_loop sd n ((off + RELA_ENT) mod 2 ^ 64))"

definition relocs_in :: "sce_dynamic \<Rightarrow> nat \<Rightarrow> nat \<Rightarrow> relocation list" where
  "relocs_in sd base sz = relocs_loop sd (sz div RELA_ENT) base"

definition sce_imports :: "sce_dynamic \<Rightarrow> import_rec list" where
  "sce_imports sd =
     List.map_filter (\<lambda>(i, sym, decoded).
       if sy_shndx sym = 0 \<and> dn_nid decoded \<noteq> []
       then Some \<lparr>imp_lib_name = dn_lib_name decoded, imp_symbol_name = dn_nid decoded, imp_symbol_id = i\<rparr>
       else None) (sce_symbols sd)"

definition sce_exports :: "sce_dynamic \<Rightarrow> (rstr \<rightharpoonup> u64)" where
  "sce_exports sd =
     fold (\<lambda>(i, sym, decoded) m.
       if sy_shndx sym \<noteq> 0 \<and> dn_nid decoded \<noteq> [] then m(dn_nid decoded \<mapsto> sy_value sym) else m)
       (sce_symbols sd) Map.empty"

definition sce_relocations :: "sce_dynamic \<Rightarrow> relocation list" where
  "sce_relocations sd =
     (let t = sd_tables sd
      in relocs_in sd (st_rela t) (st_rela_sz t) @ relocs_in sd (st_jmprel t) (st_jmprel_sz t))"

section \<open>The image\<close>

definition ET_SCE_DYNEXEC :: u16 where "ET_SCE_DYNEXEC = 0xfe10"
definition ET_SCE_DYNAMIC :: u16 where "ET_SCE_DYNAMIC = 0xfe18"
definition PT_SCE_RELRO :: u32 where "PT_SCE_RELRO = 0x61000010"
definition PT_SCE_PROCPARAM :: u32 where "PT_SCE_PROCPARAM = 0x61000001"
definition PT_LOAD :: u32 where "PT_LOAD = 1"
definition PT_TLS :: u32 where "PT_TLS = 7"

definition is_sce_image :: "elf_view \<Rightarrow> bool" where
  "is_sce_image elf \<longleftrightarrow>
     ev_e_type elf = ET_SCE_DYNEXEC \<or> ev_e_type elf = ET_SCE_DYNAMIC \<or>
     list_ex (\<lambda>ph. p_type ph = PT_SCE_DYNLIBDATA) (ev_phdrs elf)"

text \<open>\<^verbatim>\<open>raw[a..a + n].copy_from_slice(&0.to_le_bytes())\<close>:\<close>

definition zero_field :: "nat \<Rightarrow> nat \<Rightarrow> u8 list \<Rightarrow> u8 list" where
  "zero_field a n raw = take a raw @ replicate n 0 @ drop (a + n) raw"

definition section_table_end :: "u8 list \<Rightarrow> nat" where
  "section_table_end raw =
     (let e_shoff = unat (le_u64 (slice 0x28 0x30 raw));
          e_shentsize = unat (le_u16 (raw ! 0x3a) (raw ! 0x3b));
          e_shnum = unat (le_u16 (raw ! 0x3c) (raw ! 0x3d))
      in min (e_shoff + min (e_shnum * e_shentsize) (2 ^ 64 - 1)) (2 ^ 64 - 1))"

definition sanitize_out_of_bounds_section_table :: "u8 list \<Rightarrow> u8 list" where
  "sanitize_out_of_bounds_section_table raw =
     (if length raw < 0x40 then raw
      else if le_u64 (slice 0x28 0x30 raw) = 0 then raw
      else if section_table_end raw \<le> length raw then raw
      else zero_field 0x3e 2 (zero_field 0x3c 2 (zero_field 0x28 8 raw)))"

definition segment_protection :: "u32 \<Rightarrow> u32" where
  "segment_protection flags =
     (if flags AND 4 \<noteq> 0 then 1 else 0) OR (if flags AND 2 \<noteq> 0 then 2 else 0) OR
     (if flags AND 1 \<noteq> 0 then 4 else 0)"

fun extract_segments :: "elf_phdr list \<Rightarrow> u8 list \<Rightarrow> loadable_segment list loader" where
  "extract_segments [] raw = lok []"
| "extract_segments (ph # phs) raw =
     (if p_type ph = PT_LOAD \<or> p_type ph = PT_SCE_RELRO then
        (let start = unat (p_offset ph); sz = unat (p_filesz ph) in
         if length raw < start \<or> length raw - start < sz
         then lfail (FormatErr ''Segment outside of file bounds'')
         else case index_range start (start + sz) raw of
                None \<Rightarrow> None
              | Some data \<Rightarrow>
                  lbind (extract_segments phs raw) (\<lambda>segs.
                    lok (\<lparr>ls_offset = p_vaddr ph, ls_data = data, ls_protection = segment_protection (p_flags ph),
                          ls_bss_size = (if p_filesz ph < p_memsz ph then p_memsz ph - p_filesz ph else 0)\<rparr> # segs)))
      else extract_segments phs raw)"

definition extract_tls :: "elf_phdr list \<Rightarrow> u8 list \<Rightarrow> tls_info option loader" where
  "extract_tls phs raw =
     (case find (\<lambda>ph. p_type ph = PT_TLS) phs of
        None \<Rightarrow> lok None
      | Some ph \<Rightarrow>
          (let start = unat (p_offset ph); filesz = unat (p_filesz ph) in
           if length raw < start \<or> length raw - start < filesz
           then lfail (FormatErr ''TLS segment out of bounds'')
           else case index_range start (start + filesz) raw of
                  None \<Rightarrow> None
                | Some data \<Rightarrow> lok (Some \<lparr>tls_data = data, tls_mem_size = p_memsz ph, tls_align = p_align ph\<rparr>)))"

definition segment_end :: "loadable_segment \<Rightarrow> u64" where
  "segment_end s = saturating_add (saturating_add (ls_offset s) (of_nat (length (ls_data s)))) (ls_bss_size s)"

definition image_memory_size :: "loadable_segment list \<Rightarrow> u64" where
  "image_memory_size segs = fold max (map segment_end segs) 0"

record parsed_image =
  pi_entry :: u64
  pi_memory_size :: u64
  pi_segments :: "loadable_segment list"
  pi_tls :: "tls_info option"
  pi_libraries :: "rstr list"
  pi_needed_modules :: "rstr list"
  pi_imports :: "import_rec list"
  pi_exports :: "rstr \<rightharpoonup> u64"
  pi_relocations :: "relocation list"
  pi_proc_param_vaddr :: "u64 option"

definition parsed_image_parse :: "(u8 list \<Rightarrow> elf_view option) \<Rightarrow> u8 list \<Rightarrow> parsed_image loader" where
  "parsed_image_parse elf_parse bytes =
     (let raw = sanitize_out_of_bounds_section_table bytes in
      case elf_parse raw of
        None \<Rightarrow> lfail (FormatErr ''Goblin parse error'')
      | Some elf \<Rightarrow>
          lbind (extract_segments (ev_phdrs elf) raw) (\<lambda>segments.
          lbind (extract_tls (ev_phdrs elf) raw) (\<lambda>tls.
          lbind (if is_sce_image elf then sce_new elf raw else lok None) (\<lambda>sce.
            let (libraries, needed, imports, exports, relocations) =
                  (case sce of
                     Some sd \<Rightarrow> (sd_library_names sd, sd_module_names sd, sce_imports sd, sce_exports sd, sce_relocations sd)
                   | None \<Rightarrow> (ev_libraries elf, ev_libraries elf, std_imports elf, std_exports elf, std_relocations elf))
            in lok \<lparr>pi_entry = ev_entry elf, pi_memory_size = image_memory_size segments, pi_segments = segments,
                 pi_tls = tls, pi_libraries = libraries, pi_needed_modules = needed, pi_imports = imports,
                 pi_exports = exports, pi_relocations = relocations,
                 pi_proc_param_vaddr = map_option p_vaddr (find (\<lambda>ph. p_type ph = PT_SCE_PROCPARAM) (ev_phdrs elf))\<rparr>))))"

section \<open>No panic, and what a segment is\<close>

lemma lbind_simps [simp]:
  "lbind None f = None" "lbind (lfail e) f = lfail e" "lbind (lok x) f = f x"
  by (simp_all add: lbind_def)

lemma lbind_None: "lbind m f = None \<longleftrightarrow> m = None \<or> (\<exists>x. m = lok x \<and> f x = None)"
  by (auto simp: lbind_def split: option.splits sum.splits)

lemma lbind_lok: "lbind m f = lok y \<longleftrightarrow> (\<exists>x. m = lok x \<and> f x = lok y)"
  by (auto simp: lbind_def split: option.splits sum.splits)

definition loadable :: "elf_phdr \<Rightarrow> bool" where
  "loadable ph \<longleftrightarrow> p_type ph = PT_LOAD \<or> p_type ph = PT_SCE_RELRO"

definition in_file :: "u8 list \<Rightarrow> elf_phdr \<Rightarrow> bool" where
  "in_file raw ph \<longleftrightarrow> unat (p_offset ph) + unat (p_filesz ph) \<le> length raw"

definition segment_of :: "u8 list \<Rightarrow> elf_phdr \<Rightarrow> loadable_segment" where
  "segment_of raw ph =
     \<lparr>ls_offset = p_vaddr ph, ls_data = slice (unat (p_offset ph)) (unat (p_offset ph) + unat (p_filesz ph)) raw,
      ls_protection = segment_protection (p_flags ph), ls_bss_size = saturating_sub (p_memsz ph) (p_filesz ph)\<rparr>"

lemma extract_segments_spec:
  "extract_segments phs raw =
     (if list_all (in_file raw) (filter loadable phs) then lok (map (segment_of raw) (filter loadable phs))
      else lfail (FormatErr ''Segment outside of file bounds''))"
proof (induction phs)
  case (Cons ph phs)
  have fits: "(length raw < unat (p_offset ph) \<or> length raw - unat (p_offset ph) < unat (p_filesz ph))
      = (\<not> in_file raw ph)"
    by (auto simp: in_file_def)
  have bss: "(if p_filesz ph < p_memsz ph then p_memsz ph - p_filesz ph else 0)
      = saturating_sub (p_memsz ph) (p_filesz ph)"
    by (auto simp: saturating_sub_def)
  show ?case
  proof (cases "loadable ph")
    case True
    then have "extract_segments (ph # phs) raw =
      (if in_file raw ph then lbind (extract_segments phs raw) (\<lambda>segs. lok (segment_of raw ph # segs))
       else lfail (FormatErr ''Segment outside of file bounds''))"
      unfolding extract_segments.simps Let_def fits bss
      by (auto simp: loadable_def in_file_def segment_of_def)
    then show ?thesis using True Cons.IH by simp
  next
    case False
    then have "extract_segments (ph # phs) raw = extract_segments phs raw" by (simp add: loadable_def)
    then show ?thesis using Cons.IH False by simp
  qed
qed simp

lemma extract_tls_total: "extract_tls phs raw \<noteq> None"
  by (auto simp: extract_tls_def Let_def index_range_def split: option.splits)

lemma phdr_bytes_total: "phdr_bytes o1 o2 ph bs \<noteq> None"
  by (auto simp: phdr_bytes_def Let_def index_range_def)

lemma sce_new_total: "sce_new elf bs \<noteq> None"
  using phdr_bytes_total by (simp add: sce_new_def lbind_None split: option.splits del: not_None_eq)

lemma fold_max_le: "x \<in> set xs \<or> x \<le> a \<Longrightarrow> x \<le> fold max xs a" for x a :: "'a::linorder"
proof (induction xs arbitrary: a)
  case (Cons y ys)
  have "x \<le> fold max ys (max y a)" by (rule Cons.IH) (use Cons.prems in \<open>auto simp: le_max_iff_disj\<close>)
  then show ?case by simp
qed simp

lemma segment_end_le_memory_size: "s \<in> set segs \<Longrightarrow> segment_end s \<le> image_memory_size segs"
  unfolding image_memory_size_def by (rule fold_max_le) simp

lemma segment_end_saturates:
  "length (ls_data s) < 2 ^ 64 \<Longrightarrow>
   unat (segment_end s) = min (unat (ls_offset s) + length (ls_data s) + unat (ls_bss_size s)) (2 ^ 64 - 1)"
  by (simp add: segment_end_def unat_saturating_add unat_of_nat_small)

lemma parsed_image_parse_not_None: "parsed_image_parse elf_parse bytes \<noteq> None"
proof -
  let ?raw = "sanitize_out_of_bounds_section_table bytes"
  have "extract_segments phs ?raw \<noteq> None" for phs by (simp add: extract_segments_spec)
  moreover have "(if is_sce_image elf then sce_new elf ?raw else lok None) \<noteq> None" for elf
    using sce_new_total[of elf ?raw] by simp
  ultimately show ?thesis
    using extract_tls_total by (auto simp: parsed_image_parse_def Let_def lbind_None split: option.splits prod.splits simp del: not_None_eq)
qed

section \<open>Tables that end where the blob ends\<close>

lemma get_wrapping_fits:
  "length bs < 2 ^ 64 \<Longrightarrow> off < 2 ^ 64 \<Longrightarrow> n < 2 ^ 64 \<Longrightarrow> 0 < n \<Longrightarrow>
   get_wrapping off n bs = (if off + n \<le> length bs then Some (slice off (off + n) bs) else None)"
  by (cases "off + n < 2 ^ 64") (auto simp: get_wrapping_def index_range_def mod_if)

lemma relocs_loop_eq:
  assumes "length (sd_dynlib sd) < 2 ^ 64" and "off < 2 ^ 64"
  shows "relocs_loop sd n off =
    map (\<lambda>i. parse_rela sd (slice (off + i * RELA_ENT) (off + i * RELA_ENT + RELA_ENT) (sd_dynlib sd)))
      [0..<min n ((length (sd_dynlib sd) - off) div RELA_ENT)]"
  using assms(2)
proof (induction n arbitrary: off)
  case (Suc n)
  let ?bs = "sd_dynlib sd"
  have g: "get_wrapping off RELA_ENT ?bs = (if off + RELA_ENT \<le> length ?bs then Some (slice off (off + RELA_ENT) ?bs) else None)"
    by (rule get_wrapping_fits) (use assms(1) Suc.prems in \<open>auto simp: RELA_ENT_def\<close>)
  show ?case
  proof (cases "off + RELA_ENT \<le> length ?bs")
    case True
    then have m: "(off + RELA_ENT) mod 2 ^ 64 = off + RELA_ENT" using assms(1) by simp
    have q: "(length ?bs - off) div RELA_ENT = Suc ((length ?bs - (off + RELA_ENT)) div RELA_ENT)"
    proof -
      have eq: "length ?bs - off = RELA_ENT + (length ?bs - (off + RELA_ENT))" using True by simp
      show ?thesis unfolding eq by (subst div_add_self1) (simp_all add: RELA_ENT_def)
    qed
    have "relocs_loop sd n (off + RELA_ENT) =
      map (\<lambda>i. parse_rela sd (slice (off + RELA_ENT + i * RELA_ENT) (off + RELA_ENT + i * RELA_ENT + RELA_ENT) ?bs))
        [0..<min n ((length ?bs - (off + RELA_ENT)) div RELA_ENT)]"
      by (rule Suc.IH) (use True assms(1) in simp)
    moreover have "[0..<min (Suc n) (Suc x)] = 0 # map Suc [0..<min n x]" for x
      by (simp only: min_Suc_Suc upt_conv_Cons[OF zero_less_Suc] map_Suc_upt One_nat_def)
    ultimately show ?thesis
      unfolding relocs_loop.simps g m q if_P[OF True] option.case by (simp add: comp_def add.assoc)
  next
    case False
    then have "(length ?bs - off) div RELA_ENT = 0" by (simp add: RELA_ENT_def)
    then show ?thesis using g False by simp
  qed
qed simp

lemma map_filter_all_Some:
  "(\<And>x. x \<in> set xs \<Longrightarrow> f x = Some (g x)) \<Longrightarrow> List.map_filter f xs = map g xs"
  by (induction xs) (auto simp: List.map_filter_simps)

lemma sce_symbols_eq:
  "sce_symbols sd =
     (let base = st_symtab (sd_tables sd);
          count = min (st_symtab_sz (sd_tables sd) div SYM_ENT) ((length (sd_dynlib sd) - base) div SYM_ENT);
          entry = (\<lambda>i. sce_sym_parse (slice (base + i * SYM_ENT) (base + i * SYM_ENT + SYM_ENT) (sd_dynlib sd)))
      in map (\<lambda>i. (i, entry i, sym_name sd (entry i))) [0..<count])"
proof -
  let ?base = "st_symtab (sd_tables sd)" and ?bs = "sd_dynlib sd"
  have "?base + i * SYM_ENT + SYM_ENT \<le> length ?bs"
    if "i < (length ?bs - ?base) div SYM_ENT" for i
  proof -
    have "Suc i \<le> (length ?bs - ?base) div SYM_ENT" using that by simp
    then have "Suc i * SYM_ENT \<le> length ?bs - ?base" by (simp add: SYM_ENT_def less_eq_div_iff_mult_less_eq)
    moreover have "0 < SYM_ENT" by (simp add: SYM_ENT_def)
    ultimately show ?thesis unfolding mult_Suc by linarith
  qed
  then show ?thesis
    unfolding sce_symbols_def Let_def by (intro map_filter_all_Some) (auto simp: index_range_def)
qed

section \<open>The tables as bytes\<close>

definition u16_bytes :: "u16 \<Rightarrow> u8 list" where
  "u16_bytes w = [ucast w, ucast (drop_bit 8 w)]"

definition u64_bytes :: "u64 \<Rightarrow> u8 list" where
  "u64_bytes w = map (\<lambda>i. ucast (drop_bit (8 * i) w)) [0..<8]"

lemma le_u16_bytes [simp]: "le_u16 (ucast w) (ucast (drop_bit 8 w)) = w" for w :: u16
proof (rule bit_word_eqI)
  fix n assume "n < LENGTH(16)"
  then have "n < 16" "8 \<le> n \<Longrightarrow> 8 + (n - 8) = n" by simp_all
  then show "bit (le_u16 (ucast w) (ucast (drop_bit 8 w))) n = bit w n"
    by (cases "n < 8") (auto simp: le_u16_def bit_simps)
qed

lemma unat_byte: "unat (ucast (drop_bit (8 * k) w) :: u8) = unat w div 256 ^ k mod 256" for w :: u64
proof -
  have "unat (ucast x :: u8) = unat x mod 256" for x :: u64
    by (simp add: unsigned_ucast_eq take_bit_eq_mod)
  moreover have "unat (drop_bit (8 * k) w) = unat w div 256 ^ k"
    using u64_bound[of w] by (subst unsigned_drop_bit_eq) (simp add: drop_bit_eq_div power_mult take_bit_nat_eq_self)
  ultimately show ?thesis by simp
qed

lemma le_nat_bytes:
  "le_nat (map (\<lambda>i. ucast (drop_bit (8 * i) w) :: u8) [k..<k + n]) = unat w div 256 ^ k mod 256 ^ n" for w :: u64
proof (induction n arbitrary: k)
  case (Suc n)
  have "[k..<k + Suc n] = k # [Suc k..<Suc k + n]" by (simp add: upt_conv_Cons)
  then have "le_nat (map (\<lambda>i. ucast (drop_bit (8 * i) w) :: u8) [k..<k + Suc n])
      = unat w div 256 ^ k mod 256 + 256 * (unat w div 256 ^ Suc k mod 256 ^ n)"
    using Suc.IH[of "Suc k"] by (simp only: list.map le_nat.simps unat_byte)
  also have "unat w div 256 ^ Suc k = unat w div 256 ^ k div 256"
    by (simp only: power_Suc2 div_mult2_eq)
  also have "unat w div 256 ^ k mod 256 + 256 * (unat w div 256 ^ k div 256 mod 256 ^ n)
      = unat w div 256 ^ k mod 256 ^ Suc n"
    by (simp add: mod_mult2_eq)
  finally show ?case .
qed simp

lemma length_u64_bytes [simp]: "length (u64_bytes w) = 8"
  by (simp add: u64_bytes_def)

lemma le_u64_bytes [simp]: "le_u64 (u64_bytes w) = w"
proof -
  have "le_nat (u64_bytes w) = unat w"
    using le_nat_bytes[of w 0 8] u64_bound[of w] by (simp add: u64_bytes_def)
  then show ?thesis by (simp add: le_u64_def)
qed

text \<open>An entry of a symbol table (the fields the loader skips beside it) and of a relocation table.\<close>

definition sym_entry :: "sce_sym \<times> u8 \<times> u8 \<times> u64 \<Rightarrow> u8 list" where
  "sym_entry = (\<lambda>(y, info, other, sz).
     u32_bytes (sy_name y) @ [info, other] @ u16_bytes (sy_shndx y) @ u64_bytes (sy_value y) @ u64_bytes sz)"

definition rela_entry :: "u64 \<times> u32 \<times> u32 \<times> u64 \<Rightarrow> u8 list" where
  "rela_entry = (\<lambda>(off, ty, si, addend).
     u64_bytes off @ u64_bytes (push_bit 32 (ucast si) OR ucast ty) @ u64_bytes addend)"

lemma length_entries [simp]: "length (sym_entry y) = 24" "length (rela_entry r) = 24"
  by (simp_all add: sym_entry_def rela_entry_def u32_bytes_def u16_bytes_def split: prod.splits)

lemma sce_sym_parse_entry: "sce_sym_parse (sym_entry (y, info, other, sz)) = y"
proof -
  let ?h = "u32_bytes (sy_name y) @ [info, other] @ u16_bytes (sy_shndx y)"
  have "sym_entry (y, info, other, sz) = ?h @ u64_bytes (sy_value y) @ u64_bytes sz"
    by (simp add: sym_entry_def)
  moreover have "slice 8 16 (?h @ u64_bytes (sy_value y) @ u64_bytes sz) = u64_bytes (sy_value y)"
    by (simp add: slice_def u32_bytes_def u16_bytes_def)
  ultimately show ?thesis
    by (simp add: sce_sym_parse_def u32_bytes_def u16_bytes_def)
qed

lemma r_info_fields:
  "drop_bit 32 (push_bit 32 (ucast si) OR ucast ty :: u64) = ucast si"
  "ucast ((push_bit 32 (ucast si) OR ucast ty :: u64) AND 0xffffffff) = ty" for si ty :: u32
proof -
  have m: "(0xffffffff :: u64) = mask 32" by (simp add: mask_eq_exp_minus_1)
  show "drop_bit 32 (push_bit 32 (ucast si) OR ucast ty :: u64) = ucast si"
    by (rule bit_word_eqI) (auto simp: bit_simps dest: bit_imp_le_length)
  show "ucast ((push_bit 32 (ucast si) OR ucast ty :: u64) AND 0xffffffff) = ty"
    unfolding m by (rule bit_word_eqI) (auto simp: bit_simps)
qed

lemma parse_rela_entry:
  "parse_rela sd (rela_entry (off, ty, si, addend)) =
     (case reloc_symbol sd (unat si) of (name, val) \<Rightarrow>
        \<lparr>rel_offset = off, rel_kind = map_goblin_to_kind ty, rel_symbol_index = (if 0 < unat si then Some (unat si) else None),
         rel_addend = addend, rel_symbol_name = name, rel_symbol_value = val\<rparr>)"
proof -
  let ?i = "push_bit 32 (ucast si) OR ucast ty :: u64"
  have sl: "slice 0 8 (u64_bytes a @ u64_bytes b @ u64_bytes c) = u64_bytes a"
    "slice 8 16 (u64_bytes a @ u64_bytes b @ u64_bytes c) = u64_bytes b"
    "slice 16 24 (u64_bytes a @ u64_bytes b @ u64_bytes c) = u64_bytes c" for a b c
    by (simp_all add: slice_def)
  have "unat (ucast si :: u64) = unat si" using u32_bound[of si] by (simp add: unsigned_ucast_eq take_bit_nat_eq_self)
  then show ?thesis
    unfolding parse_rela_def rela_entry_def prod.case Let_def sl le_u64_bytes r_info_fields by simp
qed

text \<open>A table of 24-byte blocks inside a blob:\<close>

definition table_at :: "nat \<Rightarrow> u8 list list \<Rightarrow> u8 list \<Rightarrow> bool" where
  "table_at base blocks blob \<longleftrightarrow> (\<exists>pre suf. blob = pre @ concat blocks @ suf \<and> length pre = base)"

definition cstr_at :: "nat \<Rightarrow> rstr \<Rightarrow> u8 list \<Rightarrow> bool" where
  "cstr_at base t blob \<longleftrightarrow> (\<exists>pre suf. blob = pre @ t @ 0 # suf \<and> length pre = base) \<and>
     list_all (\<lambda>b. b \<noteq> 0 \<and> b < 0x80) t"

lemma length_concat_24: "\<forall>b \<in> set blocks. length b = 24 \<Longrightarrow> length (concat blocks) = 24 * length blocks"
  by (induction blocks) auto

lemma slice_block:
  assumes "table_at base blocks blob" and "\<forall>b \<in> set blocks. length b = 24" and "i < length blocks"
  shows "slice (base + i * 24) (base + i * 24 + 24) blob = blocks ! i"
    and "base + length blocks * 24 \<le> length blob"
proof -
  obtain pre suf where blob: "blob = pre @ concat blocks @ suf" "length pre = base"
    using assms(1) by (auto simp: table_at_def)
  have split: "blocks = take i blocks @ blocks ! i # drop (Suc i) blocks"
    using assms(3) by (simp add: id_take_nth_drop)
  have l: "length (concat (take i blocks)) = i * 24"
  proof -
    have "\<forall>b \<in> set (take i blocks). length b = 24" using assms(2) by (meson in_set_takeD)
    then show ?thesis using length_concat_24[of "take i blocks"] assms(3) by simp
  qed
  have n: "length (blocks ! i) = 24" using assms(2,3) by simp
  have "concat blocks = concat (take i blocks) @ blocks ! i @ concat (drop (Suc i) blocks)"
    by (subst split) simp
  then show "slice (base + i * 24) (base + i * 24 + 24) blob = blocks ! i"
    using blob l n by (simp add: slice_def)
  show "base + length blocks * 24 \<le> length blob"
    using blob length_concat_24[OF assms(2)] by simp
qed

lemma from_utf8_lossy_ascii: "list_all (\<lambda>b. b < 0x80) t \<Longrightarrow> from_utf8_lossy t = t"
  by (induction t rule: from_utf8_lossy.induct) (auto simp: utf8_seq_def)

lemma read_cstr_at:
  assumes "cstr_at (base + off) t blob" and "length blob < 2 ^ 64"
  shows "read_cstr blob base off = t"
proof -
  obtain pre suf where blob: "blob = pre @ t @ 0 # suf" "length pre = base + off"
    and t: "list_all (\<lambda>b. b \<noteq> 0 \<and> b < 0x80) t"
    using assms(1) by (auto simp: cstr_at_def)
  have "takeWhile (\<lambda>b. b \<noteq> 0) (t @ 0 # suf) = t"
    using t by (simp add: takeWhile_append list_all_iff)
  moreover have "from_utf8_lossy t = t" using t by (intro from_utf8_lossy_ascii) (auto simp: list_all_iff)
  ultimately show ?thesis using assms(2) blob by (simp add: read_cstr_def)
qed

lemma split_on_append:
  "c \<notin> set p \<Longrightarrow> split_on c (p @ c # q) = p # split_on c q" "c \<notin> set p \<Longrightarrow> split_on c p = [p]"
  by (induction p) auto

lemma split_on_nonempty: "split_on c p \<noteq> []"
  by (induction p) (auto split: list.splits)

definition rela_meaning :: "sce_dynamic \<Rightarrow> (sce_sym \<Rightarrow> rstr) \<Rightarrow> sce_sym list \<Rightarrow> u64 \<times> u32 \<times> u32 \<times> u64 \<Rightarrow> relocation" where
  "rela_meaning sd name ys = (\<lambda>(off, ty, si, addend).
     \<lparr>rel_offset = off, rel_kind = map_goblin_to_kind ty, rel_symbol_index = (if 0 < unat si then Some (unat si) else None),
      rel_addend = addend,
      rel_symbol_name = (if 0 < unat si then Some (dn_nid (decode_name sd (name (ys ! unat si)))) else None),
      rel_symbol_value = (if 0 < unat si \<and> sy_shndx (ys ! unat si) \<noteq> 0 then Some (sy_value (ys ! unat si)) else None)\<rparr>)"

lemma sym_name_entry:
  assumes "length (sd_dynlib sd) < 2 ^ 64"
    and "cstr_at (st_strtab (sd_tables sd) + unat (sy_name y)) (name y) (sd_dynlib sd)"
  shows "sym_name sd y = decode_name sd (name y)"
  using read_cstr_at[OF assms(2,1)] by (simp add: sym_name_def)

lemma table_symbol:
  assumes "table_at (st_symtab (sd_tables sd)) (map sym_entry ys) (sd_dynlib sd)" and "i < length ys"
  shows "sce_sym_parse (slice (st_symtab (sd_tables sd) + i * SYM_ENT)
      (st_symtab (sd_tables sd) + i * SYM_ENT + SYM_ENT) (sd_dynlib sd)) = fst (ys ! i)"
    and "st_symtab (sd_tables sd) + i * SYM_ENT + SYM_ENT \<le> length (sd_dynlib sd)"
    and "length ys \<le> (length (sd_dynlib sd) - st_symtab (sd_tables sd)) div SYM_ENT"
proof -
  note block = slice_block[OF assms(1), of i]
  have e: "map sym_entry ys ! i = sym_entry (fst (ys ! i), snd (ys ! i))" using assms(2) by simp
  obtain info other sz where "snd (ys ! i) = (info, other, sz)" by (metis prod_cases3)
  then show "sce_sym_parse (slice (st_symtab (sd_tables sd) + i * SYM_ENT)
      (st_symtab (sd_tables sd) + i * SYM_ENT + SYM_ENT) (sd_dynlib sd)) = fst (ys ! i)"
    using block(1) assms(2) e sce_sym_parse_entry by (simp add: SYM_ENT_def)
  have le: "st_symtab (sd_tables sd) + length ys * 24 \<le> length (sd_dynlib sd)"
    using block(2) assms(2) by simp
  then show "length ys \<le> (length (sd_dynlib sd) - st_symtab (sd_tables sd)) div SYM_ENT"
    by (simp add: SYM_ENT_def less_eq_div_iff_mult_less_eq)
  show "st_symtab (sd_tables sd) + i * SYM_ENT + SYM_ENT \<le> length (sd_dynlib sd)"
    using le assms(2) by (simp add: SYM_ENT_def)
qed

lemma reloc_symbol_table:
  assumes len: "length (sd_dynlib sd) < 2 ^ 64"
    and ys: "table_at (st_symtab (sd_tables sd)) (map sym_entry ys) (sd_dynlib sd)"
    and names: "list_all (\<lambda>y. cstr_at (st_strtab (sd_tables sd) + unat (sy_name (fst y))) (name (fst y)) (sd_dynlib sd)) ys"
    and i: "i < length ys" "0 < i"
  shows "reloc_symbol sd i = (Some (dn_nid (decode_name sd (name (fst (ys ! i))))),
    if sy_shndx (fst (ys ! i)) \<noteq> 0 then Some (sy_value (fst (ys ! i))) else None)"
proof -
  note sym = table_symbol[OF ys i(1)]
  have "cstr_at (st_strtab (sd_tables sd) + unat (sy_name (fst (ys ! i)))) (name (fst (ys ! i))) (sd_dynlib sd)"
    using names i(1) by (simp add: list_all_iff)
  then have "sym_name sd (fst (ys ! i)) = decode_name sd (name (fst (ys ! i)))" by (rule sym_name_entry[OF len])
  then show ?thesis
    using sym(1,2) len i(2) by (simp add: reloc_symbol_def index_range_def Let_def)
qed

lemma relocs_in_table:
  assumes len: "length (sd_dynlib sd) < 2 ^ 64"
    and rs: "table_at base (map rela_entry rs) (sd_dynlib sd)"
  shows "relocs_in sd base (24 * length rs) = map (\<lambda>r. parse_rela sd (rela_entry r)) rs"
proof (cases "rs = []")
  case True
  then show ?thesis by (simp add: relocs_in_def RELA_ENT_def)
next
  case False
  have block: "slice (base + i * 24) (base + i * 24 + 24) (sd_dynlib sd) = rela_entry (rs ! i)" if "i < length rs" for i
    using slice_block(1)[OF rs, of i] that by simp
  have le: "base + length rs * 24 \<le> length (sd_dynlib sd)"
    using slice_block(2)[OF rs, of 0] False by simp
  then have "length rs \<le> (length (sd_dynlib sd) - base) div 24" by (simp add: less_eq_div_iff_mult_less_eq)
  moreover have "base < 2 ^ 64" using le len by linarith
  ultimately have "relocs_in sd base (24 * length rs) =
      map (\<lambda>i. parse_rela sd (slice (base + i * 24) (base + i * 24 + 24) (sd_dynlib sd))) [0..<length rs]"
    using relocs_loop_eq[OF len, of base "length rs"] by (simp add: relocs_in_def RELA_ENT_def min_absorb1)
  also have "\<dots> = map (\<lambda>i. parse_rela sd (rela_entry (rs ! i))) [0..<length rs]"
    by (rule map_cong[OF refl]) (simp add: block)
  also have "\<dots> = map (\<lambda>r. parse_rela sd (rela_entry r)) rs"
    by (rule nth_equalityI) simp_all
  finally show ?thesis .
qed

text \<open>The dynamic section as bytes, and the libraries it names:\<close>

definition dyn_pair :: "u64 \<times> u64 \<Rightarrow> u8 list" where
  "dyn_pair = (\<lambda>(tag, val). u64_bytes tag @ u64_bytes val)"

definition library_tag :: "u64 \<times> u64 \<Rightarrow> bool" where
  "library_tag = (\<lambda>(tag, val). tag = DT_SCE_IMPORT_LIB \<or> tag = DT_SCE_EXPORT_LIB)"

lemma chunks_exact_pairs: "chunks_exact 16 (concat (map dyn_pair es)) = map dyn_pair es"
proof (induction es)
  case Nil
  then show ?case by (simp add: chunks_exact.simps)
next
  case (Cons e es)
  have "length (dyn_pair e) = 16" by (simp add: dyn_pair_def split: prod.splits)
  then show ?case using Cons.IH by (subst chunks_exact.simps) simp
qed

lemma dyn_entry_pair:
  "dyn_entry (dyn_pair (tag, val)) (t, libs, mods) =
    (if tag = DT_SCE_SYMTAB then (t\<lparr>st_symtab := unat val\<rparr>, libs, mods)
     else if tag = DT_SCE_SYMTABSZ then (t\<lparr>st_symtab_sz := unat val\<rparr>, libs, mods)
     else if tag = DT_SCE_STRTAB then (t\<lparr>st_strtab := unat val\<rparr>, libs, mods)
     else if tag = DT_SCE_STRSZ then (t\<lparr>st_strtab_sz := unat val\<rparr>, libs, mods)
     else if tag = DT_SCE_RELA then (t\<lparr>st_rela := unat val\<rparr>, libs, mods)
     else if tag = DT_SCE_RELASZ then (t\<lparr>st_rela_sz := unat val\<rparr>, libs, mods)
     else if tag = DT_SCE_JMPREL then (t\<lparr>st_jmprel := unat val\<rparr>, libs, mods)
     else if tag = DT_SCE_PLTRELSZ then (t\<lparr>st_jmprel_sz := unat val\<rparr>, libs, mods)
     else if library_tag (tag, val) then (t, libs @ [named_id_from_val val], mods)
     else if tag = DT_SCE_NEEDED_MODULE then (t, libs, mods @ [named_id_from_val val])
     else (t, libs, mods))"
proof -
  have d: "slice 0 8 (u64_bytes tag @ u64_bytes val) = u64_bytes tag"
    "slice 8 16 (u64_bytes tag @ u64_bytes val) = u64_bytes val"
    by (simp_all add: slice_def)
  show ?thesis
    unfolding dyn_entry_def dyn_pair_def library_tag_def prod.case Let_def d le_u64_bytes by simp
qed

lemmas dt_tags = DT_SCE_SYMTAB_def DT_SCE_SYMTABSZ_def DT_SCE_STRTAB_def DT_SCE_STRSZ_def DT_SCE_RELA_def
  DT_SCE_RELASZ_def DT_SCE_JMPREL_def DT_SCE_PLTRELSZ_def DT_SCE_IMPORT_LIB_def DT_SCE_EXPORT_LIB_def
  DT_SCE_NEEDED_MODULE_def

lemma dyn_entry_libs:
  "fst (snd (dyn_entry (dyn_pair e) st)) = fst (snd st) @ (if library_tag e then [named_id_from_val (snd e)] else [])"
proof -
  obtain tag val t libs mods where e: "e = (tag, val)" "st = (t, libs, mods)" by (metis prod_cases3 surj_pair)
  show ?thesis unfolding e dyn_entry_pair by (simp add: library_tag_def dt_tags)
qed

lemma fold_dyn_entry_libs:
  "fst (snd (fold dyn_entry (map dyn_pair es) st)) =
     fst (snd st) @ map (named_id_from_val \<circ> snd) (filter library_tag es)"
  by (induction es arbitrary: st) (auto simp: dyn_entry_libs)

lemma ascii_encode_inj:
  "ascii (encode_id (ucast (i :: u16))) = ascii (encode_id (ucast j)) \<Longrightarrow> i = j"
proof -
  assume a: "ascii (encode_id (ucast i)) = ascii (encode_id (ucast j))"
  have "inj (of_char :: char \<Rightarrow> u8)"
  proof (rule injI)
    fix c d :: char assume "of_char c = (of_char d :: u8)"
    then have "unat (of_nat (of_char c) :: u8) = unat (of_nat (of_char d) :: u8)" by (simp only: of_nat_of_char)
    moreover have "unat (of_nat (of_char x) :: u8) = (of_char x :: nat)" for x :: char
      by (rule unat_of_nat_small) (use nat_of_char_less_256[of x] in simp)
    ultimately show "c = d" by simp
  qed
  then have e: "encode_id (ucast i) = encode_id (ucast j)"
    using a unfolding ascii_def by (simp add: inj_map_eq_map)
  have u: "unat (ucast k :: u64) = unat k" "unat k < 2 ^ 16" for k :: u16
    using unat_lt_2p[of k] by (simp_all add: unsigned_ucast_eq take_bit_nat_eq_self)
  have "(ucast i :: u64) = ucast j"
    by (rule encode_id_injective[OF _ _ e]) (use u(1)[of i] u(2)[of i] u(1)[of j] u(2)[of j] in simp_all)
  then show "i = j" using u(1) by (metis word_unat_eq_iff)
qed

lemma library_other:
  "l \<notin> set libs \<Longrightarrow> ni_id l \<notin> ni_id ` set libs \<Longrightarrow>
   fst (fold (note_library name) libs st) (ascii (encode_id (ucast (ni_id l)))) = fst st (ascii (encode_id (ucast (ni_id l))))"
proof (induction libs arbitrary: st)
  case (Cons l' libs)
  have "ascii (encode_id (ucast (ni_id l))) \<noteq> ascii (encode_id (ucast (ni_id l')))"
    using ascii_encode_inj Cons.prems(2) by auto
  then have "fst (note_library name l' st) (ascii (encode_id (ucast (ni_id l)))) = fst st (ascii (encode_id (ucast (ni_id l))))"
    by (auto simp: note_library_def split: prod.splits)
  then show ?case using Cons.IH[of "note_library name l' st"] Cons.prems by simp
qed simp

lemma library_fold:
  assumes "distinct (map ni_id libs)" and "l \<in> set libs" and "name l \<noteq> []"
  shows "fst (fold (note_library name) libs st) (ascii (encode_id (ucast (ni_id l)))) = Some (name l)"
proof -
  obtain xs ys where libs: "libs = xs @ l # ys" using assms(2) by (auto dest: split_list)
  have "ni_id l \<notin> ni_id ` set ys" "l \<notin> set ys" using assms(1) by (auto simp: libs)
  then have "fst (fold (note_library name) libs st) (ascii (encode_id (ucast (ni_id l))))
      = fst (note_library name l (fold (note_library name) xs st)) (ascii (encode_id (ucast (ni_id l))))"
    using library_other by (simp add: libs)
  then show ?thesis using assms(3) by (auto simp: note_library_def split: prod.splits)
qed

lemma ascii_encode_no_hash: "0x23 \<notin> set (ascii (encode_id i))"
proof -
  have "list_all (\<lambda>c. (of_char c :: u8) \<noteq> 0x23) CODES" by (simp add: CODES_def)
  moreover have "set (encode_id i) \<subseteq> set CODES"
  proof -
    have "CODES ! unat (x AND 0x3f) \<in> set CODES" for x :: u64
      by (rule nth_mem) (simp add: and_3f CODES_def)
    moreover have "i < 0x40 \<Longrightarrow> CODES ! unat i \<in> set CODES"
      by (rule nth_mem) (simp add: CODES_def word_less_nat_alt)
    ultimately show ?thesis by (auto simp: encode_id_def)
  qed
  ultimately show ?thesis by (auto simp: ascii_def list_all_iff)
qed

lemma sce_names_library:
  assumes "distinct (map (ni_id \<circ> named_id_from_val \<circ> snd) (filter library_tag es))"
    and "e \<in> set es" and "library_tag e" and "l = named_id_from_val (snd e)"
    and "read_cstr dynlib (st_strtab (sd_tables (sce_names dynlib (concat (map dyn_pair es))))) (unat (ni_name_offset l)) \<noteq> []"
  shows "sd_libraries_by_enc (sce_names dynlib (concat (map dyn_pair es))) (ascii (encode_id (ucast (ni_id l)))) =
    Some (read_cstr dynlib (st_strtab (sd_tables (sce_names dynlib (concat (map dyn_pair es))))) (unat (ni_name_offset l)))"
proof -
  obtain t libs mods where f: "fold dyn_entry (map dyn_pair es) (sce_tables_default, [], []) = (t, libs, mods)"
    by (metis prod_cases3)
  then have libs: "libs = map (named_id_from_val \<circ> snd) (filter library_tag es)"
    using fold_dyn_entry_libs[of es "(sce_tables_default, [], [])"] by simp
  let ?name = "\<lambda>n. read_cstr dynlib (st_strtab t) (unat (ni_name_offset n))"
  have sd: "sd_tables (sce_names dynlib (concat (map dyn_pair es))) = t"
    "sd_libraries_by_enc (sce_names dynlib (concat (map dyn_pair es))) = fst (fold (note_library ?name) libs (Map.empty, []))"
    unfolding sce_names_def chunks_exact_pairs f by (simp_all add: Let_def split: prod.splits)
  have "distinct (map ni_id libs)" using assms(1) by (simp add: libs comp_assoc)
  moreover have "l \<in> set libs" using assms(2-4) by (auto simp: libs)
  ultimately show ?thesis
    using library_fold[of libs l ?name] assms(5) unfolding sd by blast
qed

section \<open>Properties\<close>

text \<open>
  C35. Parsing an image never panics, whatever the bytes and the headers say. It fails when a loadable
  segment, the thread-local segment or a retail table lies outside the file; otherwise its segments
  are exactly the loadable headers in order with the file's bytes, and its size covers each of them
  (capped at the top of the address space).
\<close>

theorem image_parse_total:
  "\<exists>res. parsed_image_parse elf_parse bytes = Some res \<and>
    (case (res, elf_parse (sanitize_out_of_bounds_section_table bytes)) of
       (Inl _, _) \<Rightarrow> True
     | (Inr img, None) \<Rightarrow> False
     | (Inr img, Some elf) \<Rightarrow>
         (let raw = sanitize_out_of_bounds_section_table bytes in
          list_all (in_file raw) (filter loadable (ev_phdrs elf)) \<and>
          pi_segments img = map (segment_of raw) (filter loadable (ev_phdrs elf)) \<and>
          list_all (\<lambda>s. segment_end s \<le> pi_memory_size img) (pi_segments img)))"
proof -
  let ?raw = "sanitize_out_of_bounds_section_table bytes"
  show ?thesis
  proof (cases "elf_parse ?raw")
    case None
    then show ?thesis by (simp add: parsed_image_parse_def)
  next
    case (Some elf)
    show ?thesis
    proof (cases "list_all (in_file ?raw) (filter loadable (ev_phdrs elf))")
      case False
      then show ?thesis using Some by (simp add: parsed_image_parse_def extract_segments_spec)
    next
      case True
      obtain t where t: "extract_tls (ev_phdrs elf) ?raw = Some t" using extract_tls_total by auto
      obtain d where d: "(if is_sce_image elf then sce_new elf ?raw else lok None) = Some d"
        using sce_new_total[of elf ?raw] by (cases "is_sce_image elf") auto
      show ?thesis
        using Some True t d segment_end_le_memory_size
        by (cases t; cases d)
          (auto simp: parsed_image_parse_def extract_segments_spec Let_def list_all_iff split: prod.splits)
    qed
  qed
qed

text \<open>
  C36. The retail tables, read back: from a blob that holds symbol entries, names and both relocation
  tables, the reader recovers every symbol with its decoded name and every relocation with its kind,
  addend, symbol name and, for a symbol defined here, its value - in order, and nothing else.
\<close>

theorem sce_tables_roundtrip:
  assumes "length (sd_dynlib sd) < 2 ^ 64"
    and "table_at (st_symtab (sd_tables sd)) (map sym_entry ys) (sd_dynlib sd)"
    and "st_symtab_sz (sd_tables sd) = 24 * length ys"
    and "list_all (\<lambda>y. cstr_at (st_strtab (sd_tables sd) + unat (sy_name (fst y))) (name (fst y)) (sd_dynlib sd)) ys"
    and "table_at (st_rela (sd_tables sd)) (map rela_entry rs) (sd_dynlib sd)"
    and "st_rela_sz (sd_tables sd) = 24 * length rs"
    and "table_at (st_jmprel (sd_tables sd)) (map rela_entry js) (sd_dynlib sd)"
    and "st_jmprel_sz (sd_tables sd) = 24 * length js"
    and "list_all (\<lambda>(off, ty, si, addend). unat si < length ys) (rs @ js)"
  shows "sce_symbols sd = map (\<lambda>i. (i, fst (ys ! i), decode_name sd (name (fst (ys ! i))))) [0..<length ys] \<and>
    sce_relocations sd = map (rela_meaning sd name (map fst ys)) (rs @ js)"
proof
  note len = assms(1)
  have nm: "sym_name sd (fst (ys ! i)) = decode_name sd (name (fst (ys ! i)))" if "i < length ys" for i
    by (rule sym_name_entry[OF len]) (use assms(4) that in \<open>simp add: list_all_iff\<close>)
  have count: "min (st_symtab_sz (sd_tables sd) div SYM_ENT)
      ((length (sd_dynlib sd) - st_symtab (sd_tables sd)) div SYM_ENT) = length ys"
    using assms(3) table_symbol(3)[OF assms(2), of 0] by (cases ys) (auto simp: SYM_ENT_def)
  show "sce_symbols sd = map (\<lambda>i. (i, fst (ys ! i), decode_name sd (name (fst (ys ! i))))) [0..<length ys]"
    unfolding sce_symbols_eq Let_def count
    by (rule map_cong[OF refl]) (simp add: table_symbol(1)[OF assms(2)] nm)
  have "parse_rela sd (rela_entry r) = rela_meaning sd name (map fst ys) r" if r: "r \<in> set (rs @ js)" for r
  proof -
    obtain off ty si addend where r': "r = (off, ty, si, addend)" by (metis prod_cases4)
    have si: "unat si < length ys" using assms(9)[unfolded list_all_iff, rule_format, OF r] by (simp add: r')
    show ?thesis
    proof (cases "unat si = 0")
      case True
      then show ?thesis by (simp add: r' parse_rela_entry rela_meaning_def reloc_symbol_def)
    next
      case False
      then show ?thesis
        using reloc_symbol_table[OF assms(1,2,4) si] si by (simp add: r' parse_rela_entry rela_meaning_def)
    qed
  qed
  then show "sce_relocations sd = map (rela_meaning sd name (map fst ys)) (rs @ js)"
    using relocs_in_table[OF len assms(5)] relocs_in_table[OF len assms(7)] assms(6,8)
    by (simp add: sce_relocations_def Let_def)
qed

theorem sce_tables_roundtrip_witness:
  "let y = \<lparr>sy_name = 1, sy_shndx = 0, sy_value = 0\<rparr>; z = \<lparr>sy_name = 0, sy_shndx = 1, sy_value = 0x40\<rparr>;
       blob = [0, 0x61, 0] @ sym_entry (z, 0, 0, 0) @ sym_entry (y, 0, 0, 0) @ rela_entry (8, 1, 1, 5);
       sd = \<lparr>sd_dynlib = blob, sd_tables = sce_tables_default\<lparr>st_symtab := 3, st_symtab_sz := 48, st_rela := 51,
               st_rela_sz := 24\<rparr>, sd_libraries_by_enc = Map.empty, sd_library_names = [], sd_module_names = []\<rparr>
   in sce_relocations sd = [\<lparr>rel_offset = 8, rel_kind = Absolute64, rel_symbol_index = Some 1, rel_addend = 5,
        rel_symbol_name = Some [0x61], rel_symbol_value = None\<rparr>]"
proof -
  define y z :: sce_sym where "y = \<lparr>sy_name = 1, sy_shndx = 0, sy_value = 0\<rparr>" and "z = \<lparr>sy_name = 0, sy_shndx = 1, sy_value = 0x40\<rparr>"
  define blob where "blob = [0, 0x61, 0] @ sym_entry (z, 0, 0, 0) @ sym_entry (y, 0, 0, 0) @ rela_entry (8, 1, 1, 5)"
  define sd where "sd = \<lparr>sd_dynlib = blob, sd_tables = sce_tables_default\<lparr>st_symtab := 3, st_symtab_sz := 48, st_rela := 51,
    st_rela_sz := 24\<rparr>, sd_libraries_by_enc = Map.empty, sd_library_names = [], sd_module_names = []\<rparr>"
  let ?ys = "[(z, 0, 0, 0), (y, 0, 0, 0)] :: (sce_sym \<times> u8 \<times> u8 \<times> u64) list" and ?name = "\<lambda>s. if s = y then [0x61] else []"
  have fields: "sd_dynlib sd = blob" "st_symtab (sd_tables sd) = 3" "st_strtab (sd_tables sd) = 0"
    "st_rela (sd_tables sd) = 51" "st_jmprel (sd_tables sd) = 0" "st_symtab_sz (sd_tables sd) = 48"
    "st_rela_sz (sd_tables sd) = 24" "st_jmprel_sz (sd_tables sd) = 0"
    by (simp_all add: sd_def sce_tables_default_def)
  have syms: "table_at 3 (map sym_entry ?ys) blob"
    unfolding table_at_def by (rule exI[of _ "[0, 0x61, 0]"]) (simp add: blob_def)
  have relas: "table_at 51 (map rela_entry [(8, 1, 1, 5)]) blob"
    unfolding table_at_def
    by (rule exI[of _ "[0, 0x61, 0] @ sym_entry (z, 0, 0, 0) @ sym_entry (y, 0, 0, 0)"]) (simp add: blob_def)
  have none: "table_at 0 (map rela_entry []) blob" by (simp add: table_at_def)
  have names: "cstr_at 0 [] blob" unfolding cstr_at_def by (simp add: blob_def)
  have name1: "cstr_at 1 [0x61] blob" unfolding cstr_at_def
    by (rule conjI, rule exI[of _ "[0]"], rule exI[of _ "drop 3 blob"]) (simp_all add: blob_def)
  have zy: "z \<noteq> y" "sy_name z = 0" "sy_name y = 1" by (simp_all add: y_def z_def)
  have "sce_relocations sd = map (rela_meaning sd ?name (map fst ?ys)) ([(8, 1, 1, 5)] @ [])"
    by (rule sce_tables_roundtrip[where ys = ?ys and js = "[]", THEN conjunct2], unfold fields)
      (use syms relas none names name1 zy in \<open>simp_all add: blob_def\<close>)
  then have "sce_relocations sd = [\<lparr>rel_offset = 8, rel_kind = Absolute64, rel_symbol_index = Some 1, rel_addend = 5,
      rel_symbol_name = Some [0x61], rel_symbol_value = None\<rparr>]"
    by (simp add: rela_meaning_def map_goblin_to_kind_def decode_name_def y_def)
  then show ?thesis unfolding Let_def sd_def blob_def y_def z_def .
qed

text \<open>
  An import names its library: from the bytes of a dynamic section, each library entry with a
  non-empty name is the library of exactly the names \<open>nid#id#module\<close> that carry its encoded id, and the
  symbol is resolved by the bare \<open>nid\<close>.
\<close>

theorem library_names_resolve:
  fixes dynlib :: "u8 list" and es :: "(u64 \<times> u64) list"
  defines "sd \<equiv> sce_names dynlib (concat (map dyn_pair es))"
  assumes "distinct (map (ni_id \<circ> named_id_from_val \<circ> snd) (filter library_tag es))"
    and "e \<in> set es" and "library_tag e" and "l = named_id_from_val (snd e)"
    and "read_cstr dynlib (st_strtab (sd_tables sd)) (unat (ni_name_offset l)) = name" and "name \<noteq> []"
    and "0x23 \<notin> set nid"
  shows "decode_name sd (nid @ 0x23 # ascii (encode_id (ucast (ni_id l))) @ 0x23 # m) = \<lparr>dn_nid = nid, dn_lib_name = name\<rparr>"
proof -
  have "sd_libraries_by_enc sd (ascii (encode_id (ucast (ni_id l)))) = Some name"
    using sce_names_library[OF assms(2-5)] assms(6,7) by (simp add: sd_def)
  moreover obtain p ps where "split_on 0x23 m = p # ps" using split_on_nonempty[of "0x23" m] by (meson neq_Nil_conv)
  ultimately show ?thesis
    using assms(8) ascii_encode_no_hash by (simp add: decode_name_def split_on_append)
qed

theorem library_names_resolve_witness:
  "decode_name (sce_names [0, 0x6c, 0x63, 0] (concat (map dyn_pair [(DT_SCE_STRTAB, 1), (DT_SCE_IMPORT_LIB, 0x0002000000000000)])))
     ([0x61] @ 0x23 # ascii (encode_id 2) @ 0x23 # [0x41]) = \<lparr>dn_nid = [0x61], dn_lib_name = [0x6c, 0x63]\<rparr>"
proof -
  let ?es = "[(DT_SCE_STRTAB, 1), (DT_SCE_IMPORT_LIB, 0x0002000000000000)]"
  have l: "named_id_from_val 0x0002000000000000 = \<lparr>ni_name_offset = 0, ni_id = 2\<rparr>"
    by (simp add: named_id_from_val_def)
  have t: "st_strtab (sd_tables (sce_names bs (concat (map dyn_pair ?es)))) = 1" for bs
    unfolding sce_names_def chunks_exact_pairs
    by (simp add: dyn_entry_pair dt_tags library_tag_def sce_tables_default_def split: prod.splits)
  have "decode_name (sce_names [0, 0x6c, 0x63, 0] (concat (map dyn_pair ?es)))
      ([0x61] @ 0x23 # ascii (encode_id (ucast (ni_id (named_id_from_val 0x0002000000000000)))) @ 0x23 # [0x41])
      = \<lparr>dn_nid = [0x61], dn_lib_name = [0x6c, 0x63]\<rparr>"
    by (rule library_names_resolve[where e = "(DT_SCE_IMPORT_LIB, 0x0002000000000000)"])
      (simp_all only: t snd_conv, simp_all add: l library_tag_def dt_tags read_cstr_def utf8_seq_def)
  then show ?thesis by (simp add: l)
qed

end
