(* ===== verification/Linker.thy ===== *)
theory Linker
  imports Sce_Dynamic Guest_Memory "HOL-Library.AList"
begin

unbundle bit_operations_syntax

text \<open>
  The dynamic linker: \<^verbatim>\<open>crates/loader/src/linker.rs\<close> and the module table of
  \<^verbatim>\<open>crates/loader/src/manager.rs\<close>, over the guest memory of \<open>Guest_Memory\<close> and the images of
  \<open>Sce_Dynamic\<close>. The linker's lock and the process-wide list of missing symbols
  (\<^verbatim>\<open>crates/core/src/debug.rs\<close>) are fields of one state. The order in which a \<^verbatim>\<open>HashMap\<close> is walked is
  the order of the association list that stands for it, and nothing is assumed of it. The generated
  table from symbol hashes to names is the parameter \<open>from_nid\<close>. The outer \<open>None\<close> is a loop that does
  not end or a store outside the arena.
\<close>

section \<open>Modules\<close>

type_synonym i32 = "32 word"
type_synonym module_handle = i32

record loaded_module =
  m_id :: module_handle
  m_name :: string
  m_path :: string
  m_base_addr :: u64
  m_memory_size :: u64
  m_entry_point :: u64
  m_exports :: "rstr \<rightharpoonup> u64"
  m_imports :: "import_rec list"
  m_is_hle :: bool

definition module_new :: "module_handle \<Rightarrow> string \<Rightarrow> (rstr \<rightharpoonup> u64) \<Rightarrow> loaded_module" where
  "module_new i name exports =
     \<lparr>m_id = i, m_name = name, m_path = ''/system/common/lib/'' @ name, m_base_addr = 0, m_memory_size = 0,
      m_entry_point = 0, m_exports = exports, m_imports = [], m_is_hle = False\<rparr>"

definition new_hle :: "module_handle \<Rightarrow> string \<Rightarrow> (rstr \<rightharpoonup> u64) \<Rightarrow> loaded_module" where
  "new_hle i name exports =
     \<lparr>m_id = i, m_name = name, m_path = ''/system/common/lib/'' @ name, m_base_addr = 0, m_memory_size = 0,
      m_entry_point = 0, m_exports = exports, m_imports = [], m_is_hle = True\<rparr>"

record module_allocator =
  current_addr :: u64
  alloc_align :: u64

definition allocator_new :: "u64 \<Rightarrow> module_allocator" where
  "allocator_new start = \<lparr>current_addr = start, alloc_align = 0x4000\<rparr>"

definition allocate :: "module_allocator \<Rightarrow> u64 \<Rightarrow> module_allocator \<times> u64" where
  "allocate a sz =
     (let addr = current_addr a;
          size_aligned = (sz + alloc_align a - 1) AND NOT (alloc_align a - 1)
      in (a\<lparr>current_addr := addr + size_aligned\<rparr>, addr))"

record module_manager =
  modules :: "(module_handle \<times> loaded_module) list"
  name_map :: "(string \<times> module_handle) list"
  allocator :: module_allocator
  hle_exports :: "(string \<times> (string \<times> u32) list) list"
  next_id :: module_handle

definition manager_new :: module_manager where
  "manager_new = \<lparr>modules = [], name_map = [], allocator = allocator_new 0x400000, hle_exports = [], next_id = 1\<rparr>"

definition get_next_handle :: "module_manager \<Rightarrow> module_manager \<times> module_handle" where
  "get_next_handle m = (m\<lparr>next_id := next_id m + 1\<rparr>, next_id m)"

definition register_module :: "loaded_module \<Rightarrow> module_manager \<Rightarrow> module_manager" where
  "register_module md m =
     m\<lparr>modules := AList.update (m_id md) md (modules m), name_map := AList.update (m_name md) (m_id md) (name_map m)\<rparr>"

definition get_by_name :: "module_manager \<Rightarrow> string \<Rightarrow> loaded_module option" where
  "get_by_name m name = Option.bind (map_of (name_map m) name) (map_of (modules m))"

fun resolve_in :: "(module_handle \<times> loaded_module) list \<Rightarrow> rstr \<Rightarrow> u64 option" where
  "resolve_in [] symbol = None"
| "resolve_in ((_, md) # ms) symbol =
     (case m_exports md symbol of Some addr \<Rightarrow> Some addr | None \<Rightarrow> resolve_in ms symbol)"

definition resolve_symbol :: "module_manager \<Rightarrow> rstr \<Rightarrow> u64 option" where
  "resolve_symbol m symbol = resolve_in (modules m) symbol"

definition register_hle_export :: "string \<Rightarrow> string \<Rightarrow> u32 \<Rightarrow> module_manager \<Rightarrow> module_manager" where
  "register_hle_export lib name i m =
     (let group = (case map_of (hle_exports m) lib of Some g \<Rightarrow> g | None \<Rightarrow> [])
      in m\<lparr>hle_exports := AList.update lib (AList.update name i group) (hle_exports m)\<rparr>)"

section \<open>Names of missing symbols\<close>

definition MAGIC_MASK :: u64 where "MAGIC_MASK = 0xC0000000"

definition register_missing_symbol :: "rstr \<Rightarrow> rstr list \<Rightarrow> rstr list \<times> u64" where
  "register_missing_symbol name syms = (syms @ [name], MAGIC_MASK OR of_nat (length syms))"

definition get_missing_symbol :: "rstr list \<Rightarrow> u64 \<Rightarrow> rstr option" where
  "get_missing_symbol syms i =
     (if i AND MAGIC_MASK \<noteq> MAGIC_MASK then None
      else (let index = unat (i AND NOT MAGIC_MASK) in if index < length syms then Some (syms ! index) else None))"

definition nid_key :: "rstr \<Rightarrow> rstr" where
  "nid_key symbol_name = (case split_on 0x23 symbol_name of p # _ \<Rightarrow> p | [] \<Rightarrow> symbol_name)"

definition missing_symbol_display_name ::
  "(rstr \<Rightarrow> rstr option) \<Rightarrow> rstr \<Rightarrow> (rstr \<rightharpoonup> rstr) \<Rightarrow> rstr" where
  "missing_symbol_display_name from_nid symbol import_libs =
     (let raw = (case import_libs symbol of
                   Some lib \<Rightarrow> symbol @ ascii '' (unnamed NID, from '' @ lib @ ascii '')''
                 | None \<Rightarrow> symbol)
      in case from_nid (nid_key symbol) of
           Some n \<Rightarrow> if n \<noteq> [] \<and> n \<noteq> ascii ''Unknown'' then n @ ascii '' [NID '' @ symbol @ ascii '']'' else raw
         | None \<Rightarrow> raw)"

section \<open>Mapping\<close>

definition SEGMENT_PAGE_MASK :: u64 where "SEGMENT_PAGE_MASK = 0xFFF"
definition LAZY_STUBS_SIZE :: u64 where "LAZY_STUBS_SIZE = 0x10000"
definition LAZY_STUB_SIZE :: u64 where "LAZY_STUB_SIZE = 32"

type_synonym ('s, 'a) outcome = "('s \<times> (loader_error + 'a)) option"

definition obind :: "('s, 'a) outcome \<Rightarrow> ('s \<Rightarrow> 'a \<Rightarrow> ('s, 'b) outcome) \<Rightarrow> ('s, 'b) outcome" where
  "obind m f = (case m of None \<Rightarrow> None | Some (s, Inl e) \<Rightarrow> Some (s, Inl e) | Some (s, Inr x) \<Rightarrow> f s x)"

text \<open>\<^verbatim>\<open>.map_err(|e| LoaderError::Memory(e.to_string()))\<close> and its kind:\<close>

definition map_err :: "(string \<Rightarrow> loader_error) \<Rightarrow> 's \<times> 'a result \<Rightarrow> ('s, 'a) outcome" where
  "map_err f = (\<lambda>(s, r). Some (s, case r of Inl e \<Rightarrow> Inl (f e) | Inr x \<Rightarrow> Inr x))"

partial_function (option) free_run :: "(u64, vma) btree \<Rightarrow> u64 \<Rightarrow> u64 \<Rightarrow> u64 option" where
  "free_run al addr e =
     (if addr < e \<and> is_memory_free al addr (SEGMENT_PAGE_MASK + 1)
      then free_run al (addr + (SEGMENT_PAGE_MASK + 1)) e else Some addr)"

partial_function (option) map_free_pages ::
  "'ram ram_ops \<Rightarrow> 'ram vmm \<Rightarrow> u64 \<Rightarrow> u64 \<Rightarrow> memory_protection \<Rightarrow> string \<Rightarrow> ('ram vmm, unit) outcome" where
  "map_free_pages ops s addr e prot name =
     (if addr < e then
        (if is_memory_free (allocations s) addr (SEGMENT_PAGE_MASK + 1) then
           (case free_run (allocations s) addr e of
              None \<Rightarrow> None
            | Some stop \<Rightarrow>
                (case vmm_map ops s addr (stop - addr) prot (Some name) of
                   None \<Rightarrow> None
                 | Some (s', r) \<Rightarrow>
                     (case r of
                        Inl err \<Rightarrow> Some (s', Inl (MemoryErr err))
                      | Inr _ \<Rightarrow> map_free_pages ops s' stop e prot name)))
         else map_free_pages ops s (addr + (SEGMENT_PAGE_MASK + 1)) e prot name)
      else Some (s, Inr ()))"

definition segment_span :: "u64 \<Rightarrow> u64 \<Rightarrow> u64 \<Rightarrow> (u64 \<times> u64) option" where
  "segment_span vaddr data_len bss_size =
     (case checked_add vaddr data_len of
        None \<Rightarrow> None
      | Some a \<Rightarrow>
          (case checked_add a bss_size of
             None \<Rightarrow> None
           | Some b \<Rightarrow>
               (case checked_add b SEGMENT_PAGE_MASK of
                  None \<Rightarrow> None
                | Some e \<Rightarrow> Some (vaddr AND NOT SEGMENT_PAGE_MASK, e AND NOT SEGMENT_PAGE_MASK))))"

abbreviation seg_len :: "loadable_segment \<Rightarrow> u64" where
  "seg_len seg \<equiv> of_nat (length (ls_data seg))"

definition map_segment ::
  "'ram ram_ops \<Rightarrow> u64 \<Rightarrow> string \<Rightarrow> loadable_segment \<Rightarrow> 'ram vmm \<Rightarrow> ('ram vmm, unit) outcome" where
  "map_segment ops base_addr name seg s =
     (case checked_add base_addr (ls_offset seg) of
        None \<Rightarrow> Some (s, Inl (FormatErr ''segment offset overflows module base''))
      | Some vaddr \<Rightarrow>
          (case segment_span vaddr (seg_len seg) (ls_bss_size seg) of
             None \<Rightarrow> Some (s, Inl (FormatErr ''segment has an out-of-range span''))
           | Some (span_start, span_end) \<Rightarrow>
               obind (map_free_pages ops s span_start span_end (ls_protection seg OR PROT_WRITE) name) (\<lambda>s _.
               obind (if ls_data seg \<noteq> [] then map_err MemoryErr (write_bytes ops s vaddr (ls_data seg))
                      else Some (s, Inr ())) (\<lambda>s _.
                 if 0 < ls_bss_size seg
                 then map_err MemoryErr (zero_memory ops s (vaddr + seg_len seg) (ls_bss_size seg))
                 else Some (s, Inr ())))))"

fun map_segments ::
  "'ram ram_ops \<Rightarrow> u64 \<Rightarrow> string \<Rightarrow> loadable_segment list \<Rightarrow> 'ram vmm \<Rightarrow> ('ram vmm, unit) outcome" where
  "map_segments ops base_addr name [] s = Some (s, Inr ())"
| "map_segments ops base_addr name (seg # segs) s =
     obind (map_segment ops base_addr name seg s) (\<lambda>s _. map_segments ops base_addr name segs s)"

definition image_module :: "parsed_image \<Rightarrow> module_handle \<Rightarrow> u64 \<Rightarrow> string \<Rightarrow> loaded_module" where
  "image_module img i base_addr name =
     \<lparr>m_id = i, m_name = name, m_path = ''/app0/'' @ name, m_base_addr = base_addr,
      m_memory_size = pi_memory_size img, m_entry_point = base_addr + pi_entry img,
      m_exports = (\<lambda>n. map_option (\<lambda>offset. base_addr + offset) (pi_exports img n)),
      m_imports = pi_imports img, m_is_hle = False\<rparr>"

definition map_image ::
  "'ram ram_ops \<Rightarrow> parsed_image \<Rightarrow> string \<Rightarrow> module_manager \<times> 'ram vmm \<Rightarrow>
   (module_manager \<times> 'ram vmm, module_handle) outcome" where
  "map_image ops img name = (\<lambda>(m, s).
     let total_size = pi_memory_size img;
         (m1, module_id) = get_next_handle m;
         (al, base_addr) = (if 0 < total_size then allocate (allocator m1) total_size else (allocator m1, 0));
         m2 = m1\<lparr>allocator := al\<rparr>
     in case map_segments ops base_addr name (pi_segments img) s of
          None \<Rightarrow> None
        | Some (s', Inl e) \<Rightarrow> Some ((m2, s'), Inl e)
        | Some (s', Inr _) \<Rightarrow>
            Some ((register_module (image_module img module_id base_addr name) m2, s'), Inr module_id))"

section \<open>Relocation\<close>

record 'ram link_state =
  lk_mem :: "'ram vmm"
  stubs_base :: u64
  stubs_cursor :: u64
  missing_symbols :: "rstr list"

definition init_stubs :: "'ram ram_ops \<Rightarrow> 'ram link_state \<Rightarrow> ('ram link_state \<times> unit result) option" where
  "init_stubs ops st =
     (case vmm_map ops (lk_mem st) 0 LAZY_STUBS_SIZE (PROT_READ OR PROT_WRITE OR PROT_EXEC) (Some ''Lazy_Stubs'') of
        None \<Rightarrow> None
      | Some (s, Inl e) \<Rightarrow> Some (st\<lparr>lk_mem := s\<rparr>, Inl e)
      | Some (s, Inr addr) \<Rightarrow> Some (st\<lparr>lk_mem := s, stubs_base := addr\<rparr>, Inr ()))"

text \<open>\<^verbatim>\<open>memory.write::<usize>\<close>: the address is checked, the eight bytes are not.\<close>

definition write_usize :: "'ram ram_ops \<Rightarrow> u64 \<Rightarrow> u64 \<Rightarrow> 'ram vmm \<Rightarrow> ('ram vmm \<times> unit result) option" where
  "write_usize ops addr val s =
     (case get_host_ptr s addr of
        None \<Rightarrow> Some (s, Err ''Segmentation Fault (write<T>)'')
      | Some p \<Rightarrow> map_option (\<lambda>r. (set_ram r s, Ok ())) (ram_write ops (vmm_ram s) p (u64_bytes val)))"

definition put_usize ::
  "'ram ram_ops \<Rightarrow> (string \<Rightarrow> loader_error) \<Rightarrow> u64 \<Rightarrow> u64 \<Rightarrow> 'ram link_state \<Rightarrow> ('ram link_state, unit) outcome" where
  "put_usize ops f addr val st =
     (case write_usize ops addr val (lk_mem st) of
        None \<Rightarrow> None
      | Some (s, r) \<Rightarrow> map_err f (st\<lparr>lk_mem := s\<rparr>, r))"

definition stub_code :: "u32 \<Rightarrow> u8 list" where
  "stub_code i = [0x49, 0x89, 0xCA] @ [0xB8] @ u32_bytes i @ [0x0F, 0x05] @ [0xC3]"

definition alloc_missing_stub :: "'ram ram_ops \<Rightarrow> rstr \<Rightarrow> 'ram link_state \<Rightarrow> ('ram link_state, u64) outcome" where
  "alloc_missing_stub ops display_name st =
     (if stubs_base st = 0 then Some (st, Inl (RelocationErr ''Linker not initialized (stubs heap missing)''))
      else if LAZY_STUBS_SIZE < stubs_cursor st + LAZY_STUB_SIZE
      then Some (st, Inl (RelocationErr ''Lazy_Stubs region exhausted''))
      else
        (let (syms, magic_id) = register_missing_symbol display_name (missing_symbols st);
             stub_addr = stubs_base st + stubs_cursor st;
             st1 = st\<lparr>missing_symbols := syms, stubs_cursor := stubs_cursor st + LAZY_STUB_SIZE\<rparr>;
             (s, r) = write_bytes ops (lk_mem st1) stub_addr (stub_code (ucast magic_id))
         in obind (map_err MemoryErr (st1\<lparr>lk_mem := s\<rparr>, r)) (\<lambda>st _. Some (st, Inr stub_addr))))"

text \<open>The symbol an \<^verbatim>\<open>R_X86_64_64\<close> relocation adds its addend to:\<close>

definition absolute_symbol ::
  "'ram ram_ops \<Rightarrow> (rstr \<Rightarrow> rstr) \<Rightarrow> module_manager \<Rightarrow> u64 \<Rightarrow> relocation \<Rightarrow> 'ram link_state \<Rightarrow> ('ram link_state, u64) outcome" where
  "absolute_symbol ops display m base_addr reloc st =
     (case rel_symbol_value reloc of
        Some v \<Rightarrow> Some (st, Inr (base_addr + v))
      | None \<Rightarrow>
          (case rel_symbol_name reloc of
             None \<Rightarrow> Some (st, Inr 0)
           | Some n \<Rightarrow>
               (case resolve_symbol m n of
                  Some addr \<Rightarrow> Some (st, Inr addr)
                | None \<Rightarrow> alloc_missing_stub ops (display n) st)))"

definition apply_reloc ::
  "'ram ram_ops \<Rightarrow> (rstr \<Rightarrow> rstr) \<Rightarrow> module_manager \<Rightarrow> module_handle \<Rightarrow> u64 \<Rightarrow> relocation \<Rightarrow> 'ram link_state \<Rightarrow>
   ('ram link_state, unit) outcome" where
  "apply_reloc ops display m module_id base_addr reloc st =
     (let target_vaddr = base_addr + rel_offset reloc in
      case rel_kind reloc of
        Relative \<Rightarrow> put_usize ops RelocationErr target_vaddr (base_addr + rel_addend reloc) st
      | Absolute64 \<Rightarrow>
          obind (absolute_symbol ops display m base_addr reloc st) (\<lambda>st s.
            put_usize ops RelocationErr target_vaddr (s + rel_addend reloc) st)
      | k \<Rightarrow>
          if k = JumpSlot \<or> k = GlobDat then
            (case rel_symbol_name reloc of
               None \<Rightarrow> Some (st, Inr ())
             | Some n \<Rightarrow>
                 (case resolve_symbol m n of
                    Some target_addr \<Rightarrow> put_usize ops MemoryErr target_vaddr target_addr st
                  | None \<Rightarrow>
                      obind (alloc_missing_stub ops (display n) st) (\<lambda>st stub_addr.
                        put_usize ops MemoryErr target_vaddr stub_addr st)))
          else if k = DtpMod64 \<or> k = DtpOff64 then put_usize ops RelocationErr target_vaddr (scast module_id) st
          else if k = TpOff64 then put_usize ops RelocationErr target_vaddr (rel_addend reloc) st
          else Some (st, Inr ()))"

fun apply_relocs ::
  "'ram ram_ops \<Rightarrow> (rstr \<Rightarrow> rstr) \<Rightarrow> module_manager \<Rightarrow> module_handle \<Rightarrow> u64 \<Rightarrow> relocation list \<Rightarrow> 'ram link_state \<Rightarrow>
   ('ram link_state, unit) outcome" where
  "apply_relocs ops display m module_id base_addr [] st = Some (st, Inr ())"
| "apply_relocs ops display m module_id base_addr (r # rs) st =
     obind (apply_reloc ops display m module_id base_addr r st) (\<lambda>st _.
       apply_relocs ops display m module_id base_addr rs st)"

definition protect_segment :: "u64 \<Rightarrow> loadable_segment \<Rightarrow> 'ram vmm \<Rightarrow> 'ram vmm \<times> unit result" where
  "protect_segment base_addr seg s =
     (case checked_add base_addr (ls_offset seg) of
        None \<Rightarrow> (s, Ok ())
      | Some vaddr \<Rightarrow>
          (case segment_span vaddr (seg_len seg) (ls_bss_size seg) of
             None \<Rightarrow> (s, Ok ())
           | Some (span_start, span_end) \<Rightarrow>
               if ls_protection seg \<noteq> PROT_READ OR PROT_WRITE
               then protect s span_start (span_end - span_start) (ls_protection seg) else (s, Ok ())))"

fun protect_segments :: "u64 \<Rightarrow> loadable_segment list \<Rightarrow> 'ram vmm \<Rightarrow> ('ram vmm, unit) outcome" where
  "protect_segments base_addr [] s = Some (s, Inr ())"
| "protect_segments base_addr (seg # segs) s =
     obind (map_err MemoryErr (protect_segment base_addr seg s)) (\<lambda>s _. protect_segments base_addr segs s)"

definition import_libs :: "parsed_image \<Rightarrow> (rstr \<rightharpoonup> rstr)" where
  "import_libs img =
     fold (\<lambda>i m. if imp_lib_name i \<noteq> [] then m(imp_symbol_name i \<mapsto> imp_lib_name i) else m) (pi_imports img) Map.empty"

definition relocate_image ::
  "'ram ram_ops \<Rightarrow> (rstr \<Rightarrow> rstr option) \<Rightarrow> module_manager \<Rightarrow> parsed_image \<Rightarrow> module_handle \<Rightarrow> 'ram link_state \<Rightarrow>
   ('ram link_state, unit) outcome" where
  "relocate_image ops from_nid m img handle st =
     (case map_of (modules m) handle of
        None \<Rightarrow> Some (st, Inl (RelocationErr ''relocate_image: module handle is not registered''))
      | Some md \<Rightarrow>
          obind (apply_relocs ops (\<lambda>n. missing_symbol_display_name from_nid n (import_libs img)) m handle
                   (m_base_addr md) (pi_relocations img) st) (\<lambda>st _.
            case protect_segments (m_base_addr md) (pi_segments img) (lk_mem st) of
              None \<Rightarrow> None
            | Some (s, r) \<Rightarrow> Some (st\<lparr>lk_mem := s\<rparr>, r)))"

definition load_image ::
  "'ram ram_ops \<Rightarrow> (rstr \<Rightarrow> rstr option) \<Rightarrow> parsed_image \<Rightarrow> string \<Rightarrow> module_manager \<times> 'ram link_state \<Rightarrow>
   (module_manager \<times> 'ram link_state, module_handle) outcome" where
  "load_image ops from_nid img name = (\<lambda>(m, st).
     case map_image ops img name (m, lk_mem st) of
       None \<Rightarrow> None
     | Some ((m', s), Inl e) \<Rightarrow> Some ((m', st\<lparr>lk_mem := s\<rparr>), Inl e)
     | Some ((m', s), Inr handle) \<Rightarrow>
         (case relocate_image ops from_nid m' img handle (st\<lparr>lk_mem := s\<rparr>) of
            None \<Rightarrow> None
          | Some (st', Inl e) \<Rightarrow> Some ((m', st'), Inl e)
          | Some (st', Inr _) \<Rightarrow> Some ((m', st'), Inr handle)))"

text \<open>The entry point of the executable, read back from the table; the inner \<open>None\<close> is its \<^verbatim>\<open>expect\<close>.\<close>

definition load_executable ::
  "'ram ram_ops \<Rightarrow> (rstr \<Rightarrow> rstr option) \<Rightarrow> parsed_image \<Rightarrow> string \<Rightarrow> module_manager \<times> 'ram link_state \<Rightarrow>
   (module_manager \<times> 'ram link_state, u64) outcome" where
  "load_executable ops from_nid img name ms =
     obind (load_image ops from_nid img name ms) (\<lambda>(m, st) i.
       case map_of (modules m) i of
         None \<Rightarrow> None
       | Some md \<Rightarrow> Some ((m, st), Inr (m_entry_point md)))"

section \<open>Pages\<close>

abbreviation page_of :: "u64 \<Rightarrow> u64" where
  "page_of x \<equiv> x AND NOT SEGMENT_PAGE_MASK"

lemma page_of_unat: "unat (page_of x) = unat x div 4096 * 4096"
  using page_start_unat[of x] by (simp add: SEGMENT_PAGE_MASK_def PAGE_def)

lemma segment_span_eq:
  "segment_span v d b =
     (if unat v + unat d + unat b + 4095 < 2 ^ 64 then Some (page_of v, page_of (v + d + b + SEGMENT_PAGE_MASK)) else None)"
  by (auto simp: segment_span_def SEGMENT_PAGE_MASK_def unat_add_nowrap split: option.splits)

lemma segment_span_Some:
  assumes "segment_span v d b = Some (lo, hi)"
  shows "4096 dvd unat lo" and "4096 dvd unat hi" and "unat lo \<le> unat v"
    and "unat v + unat d + unat b \<le> unat hi" and "unat hi < unat v + unat d + unat b + 4096"
    and "lo \<le> hi" and "unat v < unat lo + 4096"
proof -
  let ?n = "unat v + unat d + unat b + 4095"
  have lt: "?n < 2 ^ 64" and lo: "lo = page_of v" and hi: "hi = page_of (v + d + b + SEGMENT_PAGE_MASK)"
    using assms by (simp_all add: segment_span_eq split: if_splits)
  have "unat (v + d + b + SEGMENT_PAGE_MASK) = ?n"
    using lt by (simp add: unat_add_nowrap SEGMENT_PAGE_MASK_def)
  then have uhi: "unat hi = ?n div 4096 * 4096" by (simp add: hi page_of_unat)
  have ulo: "unat lo = unat v div 4096 * 4096" by (simp add: lo page_of_unat)
  show "4096 dvd unat lo" "4096 dvd unat hi" by (simp_all add: ulo uhi)
  show "unat lo \<le> unat v" "unat v < unat lo + 4096" unfolding ulo by linarith+
  show "unat v + unat d + unat b \<le> unat hi" "unat hi < unat v + unat d + unat b + 4096"
    unfolding uhi by linarith+
  then show "lo \<le> hi" using \<open>unat lo \<le> unat v\<close> by (simp add: word_le_nat_alt)
qed

text \<open>The addresses of an aligned range whose whole page is outside every live region:\<close>

definition page_block :: "u64 \<Rightarrow> u64 set" where
  "page_block x = {page_of x..<page_of x + 0x1000}"

definition fresh :: "(u64, vma) btree \<Rightarrow> u64 \<Rightarrow> u64 \<Rightarrow> u64 set" where
  "fresh al lo hi = {x \<in> {lo..<hi}. page_block x \<inter> backed al = {}}"

lemma dvd_step: "n dvd a \<Longrightarrow> n dvd b \<Longrightarrow> a < b \<Longrightarrow> a + n \<le> b" for a b n :: nat
  by (auto elim!: dvdE) (metis Suc_leI mult_Suc_right mult_le_mono2 nat_mult_less_cancel_disj add.commute)

lemma page_below:
  assumes "x < hi" and "4096 dvd unat hi"
  shows "unat (page_of x) + 4096 \<le> unat hi" and "unat (page_of x + 0x1000) = unat (page_of x) + 4096"
    and "page_of x \<le> x" and "x < page_of x + 0x1000"
proof -
  have "unat (page_of x) \<le> unat x" "unat x < unat (page_of x) + 4096" unfolding page_of_unat by linarith+
  moreover show le: "unat (page_of x) + 4096 \<le> unat hi"
    by (rule dvd_step) (use assms \<open>unat (page_of x) \<le> unat x\<close> in \<open>auto simp: page_of_unat word_less_nat_alt\<close>)
  moreover show "unat (page_of x + 0x1000) = unat (page_of x) + 4096"
    using le u64_bound[of hi] by (simp add: unat_add_nowrap)
  ultimately show "page_of x \<le> x" "x < page_of x + 0x1000"
    by (simp_all add: word_le_nat_alt word_less_nat_alt)
qed

lemma page_above:
  assumes "lo \<le> x" and "4096 dvd unat lo"
  shows "lo \<le> page_of x"
proof -
  obtain k where k: "unat lo = 4096 * k" using assms(2) by (elim dvdE)
  then have "k \<le> unat x div 4096" using assms(1) by (simp add: word_le_nat_alt less_eq_div_iff_mult_less_eq mult.commute)
  then show ?thesis using k by (simp add: word_le_nat_alt page_of_unat)
qed

lemma page_of_self: "4096 dvd unat x \<Longrightarrow> page_of x = x"
  by (simp add: word_unat_eq_iff page_of_unat)

lemma page_of_within: "4096 dvd unat a \<Longrightarrow> a \<le> x \<Longrightarrow> unat x < unat a + 4096 \<Longrightarrow> page_of x = a"
  by (auto simp: word_unat_eq_iff page_of_unat word_le_nat_alt elim!: dvdE)

lemma free_page_iff:
  assumes inv: "vmm_inv s" and "x < hi" and "4096 dvd unat hi"
  shows "is_memory_free (allocations s) (page_of x) (SEGMENT_PAGE_MASK + 1) \<longleftrightarrow> page_block x \<inter> backed (allocations s) = {}"
proof -
  have "unat (page_of x) + unat (0x1000 :: u64) < 2 ^ 64"
    using page_below(1)[OF assms(2,3)] u64_bound[of hi] by simp
  then show ?thesis
    using is_memory_free_iff[of "allocations s" "vmm_span s" "0x1000" "page_of x"] vmm_invD(2)[OF inv]
    by (auto simp: page_block_def SEGMENT_PAGE_MASK_def)
qed

lemma page_step:
  assumes "addr < e" and "4096 dvd unat addr" and "4096 dvd unat e"
  shows "unat (addr + (SEGMENT_PAGE_MASK + 1)) = unat addr + 4096" and "addr + (SEGMENT_PAGE_MASK + 1) \<le> e"
    and "4096 dvd unat (addr + (SEGMENT_PAGE_MASK + 1))" and "addr < addr + (SEGMENT_PAGE_MASK + 1)"
proof -
  have le: "unat addr + 4096 \<le> unat e"
    by (rule dvd_step) (use assms in \<open>auto simp: word_less_nat_alt\<close>)
  show u: "unat (addr + (SEGMENT_PAGE_MASK + 1)) = unat addr + 4096"
    using le u64_bound[of e] by (simp add: unat_add_nowrap SEGMENT_PAGE_MASK_def)
  show "addr + (SEGMENT_PAGE_MASK + 1) \<le> e" "addr < addr + (SEGMENT_PAGE_MASK + 1)"
    using le by (simp_all only: word_le_nat_alt word_less_nat_alt u)
  show "4096 dvd unat (addr + (SEGMENT_PAGE_MASK + 1))"
    using assms(2) by (simp only: u) simp
qed

lemma free_run_stops:
  assumes "4096 dvd unat addr" and "4096 dvd unat e" and "addr \<le> e"
  shows "\<exists>stop. free_run al addr e = Some stop \<and> addr \<le> stop \<and> stop \<le> e \<and> 4096 dvd unat stop \<and>
    (\<forall>x \<in> {addr..<stop}. is_memory_free al (page_of x) (SEGMENT_PAGE_MASK + 1)) \<and>
    (addr < e \<and> is_memory_free al addr (SEGMENT_PAGE_MASK + 1) \<longrightarrow> addr < stop)"
  using assms
proof (induction "unat e - unat addr" arbitrary: addr rule: less_induct)
  case less
  let ?p = "SEGMENT_PAGE_MASK + 1"
  show ?case
  proof (cases "addr < e \<and> is_memory_free al addr ?p")
    case False
    then show ?thesis using less.prems by (subst free_run.simps) auto
  next
    case True
    note step = page_step[OF conjunct1[OF True] less.prems(1,2)]
    have "unat e - unat (addr + ?p) < unat e - unat addr"
      using step(1) conjunct1[OF True] by (simp add: word_less_nat_alt diff_less_mono2)
    then obtain stop where stop: "free_run al (addr + ?p) e = Some stop" "addr + ?p \<le> stop" "stop \<le> e"
      "4096 dvd unat stop" "\<forall>x \<in> {addr + ?p..<stop}. is_memory_free al (page_of x) ?p"
      using less.hyps[OF _ step(3) less.prems(2) step(2)] by blast
    have "is_memory_free al (page_of x) ?p" if "x \<in> {addr..<stop}" for x
    proof (cases "addr + ?p \<le> x")
      case False
      then have "unat x < unat addr + 4096" using step(1) by (simp add: word_le_nat_alt not_le)
      then have "page_of x = addr" using that less.prems(1) by (intro page_of_within) auto
      then show ?thesis using True by simp
    qed (use that stop(5) in auto)
    moreover have "free_run al addr e = Some stop" using True stop(1) by (subst free_run.simps) simp
    ultimately show ?thesis using stop(2-4) step(4) by (intro exI[of _ stop]) auto
  qed
qed

lemma fresh_split:
  assumes "addr \<le> stop" and "stop \<le> e" and "4096 dvd unat stop" and "4096 dvd unat e"
    and "{addr..<stop} \<subseteq> fresh al addr stop" and "backed al' = backed al \<union> {addr..<stop}"
  shows "fresh al addr e = {addr..<stop} \<union> fresh al' stop e"
proof -
  have "page_block x \<inter> backed al' = page_block x \<inter> backed al" if "stop \<le> x" for x
  proof -
    have "page_block x \<inter> {addr..<stop} = {}"
      using page_above[OF that assms(3)] by (force simp: page_block_def)
    then show ?thesis by (simp add: assms(6) Int_Un_distrib)
  qed
  then have "fresh al' stop e = fresh al stop e"
    by (auto simp: fresh_def)
  moreover have "fresh al addr e = {addr..<stop} \<union> fresh al stop e"
    using assms(1,2,5) unfolding fresh_def by (force simp: subset_iff)
  ultimately show ?thesis by simp
qed

lemma fresh_skip:
  assumes "addr < e" and "4096 dvd unat addr" and "4096 dvd unat e" and "page_block addr \<inter> backed al \<noteq> {}"
  shows "fresh al addr e = fresh al (addr + (SEGMENT_PAGE_MASK + 1)) e"
proof -
  note step = page_step[OF assms(1-3)]
  have "page_block x \<inter> backed al \<noteq> {}" if "addr \<le> x" "x < addr + (SEGMENT_PAGE_MASK + 1)" for x
  proof -
    have "page_of x = addr" using that step(1) by (intro page_of_within assms(2)) (auto simp: word_less_nat_alt)
    then show ?thesis using assms(4) page_of_self[OF assms(2)] by (simp add: page_block_def)
  qed
  then have "\<not> x < addr + (SEGMENT_PAGE_MASK + 1)" if "x \<in> fresh al addr e" for x
    using that by (auto simp: fresh_def)
  then show ?thesis using step(4) by (auto simp: fresh_def not_less)
qed

lemma vmm_map_ok:
  assumes ram: "guest_ram ops byte (vmm_span s)" and inv: "vmm_inv s" and virgin: "virgin_zero byte s"
    and "GUEST_BASE \<le> addr" and "addr < stop" and "stop \<le> vmm_span s"
    and "{addr..<stop} \<inter> backed (allocations s) = {}"
  shows "\<exists>s'. vmm_map ops s addr (stop - addr) prot name = Some (s', Ok addr) \<and> vmm_inv s' \<and>
    virgin_zero byte s' \<and> vmm_span s' = vmm_span s \<and>
    backed (allocations s') = backed (allocations s) \<union> {addr..<stop} \<and>
    (\<forall>x. byte (vmm_ram s') x = (if x \<in> {addr..<stop} then 0 else byte (vmm_ram s) x))"
proof -
  have stop: "addr + (stop - addr) = stop" by simp
  have "unat (stop - addr) = unat stop - unat addr" using assms(5) by (simp add: unat_sub_le)
  then have fits: "unat addr + unat (stop - addr) < 2 ^ 64" and nz: "stop - addr \<noteq> 0"
    using assms(5) u64_bound[of stop] by (auto simp: word_less_nat_alt)
  have a0: "addr \<noteq> 0" "\<not> addr < GUEST_BASE" using assms(4) by (auto simp: GUEST_BASE_def)
  have free: "is_memory_free (allocations s) addr (stop - addr)"
    using is_memory_free_iff[of "allocations s" "vmm_span s" "stop - addr" addr] vmm_invD(2)[OF inv] nz fits assms(7)
    by auto
  have ca: "checked_add addr (stop - addr) = Some stop" using fits by simp
  from guest_ram.map_commit_bytes[OF ram inv refl virgin, of addr "stop - addr" prot name] assms(4-6)
  obtain s' where com: "map_commit ops s addr (stop - addr) prot name = (s', Ok addr)" unfolding stop by blast
  have m: "map_aligned ops s addr (stop - addr) 0 prot name = Some (s', Ok addr)"
    unfolding map_aligned_def ca using nz a0 free com assms(6) by simp
  note eff = map_aligned_effect[OF ram inv virgin _ m, unfolded stop]
  have "vmm_inv s'" using map_aligned_inv[OF inv, of addr "stop - addr" 0 _ ops prot name] a0 m by auto
  moreover have "vmm_span s' = vmm_span s"
    using com by (auto simp: map_commit_def Let_def split: prod.splits sum.splits)
  ultimately show ?thesis using m eff a0 by (simp add: vmm_map_def)
qed

lemma map_free_pages_ok:
  assumes ram: "guest_ram ops byte (vmm_span s)" and "vmm_inv s" and "virgin_zero byte s"
    and "GUEST_BASE \<le> addr" and "addr \<le> e" and "e \<le> vmm_span s" and "4096 dvd unat addr" and "4096 dvd unat e"
  shows "\<exists>s'. map_free_pages ops s addr e prot name = Some (s', Inr ()) \<and> vmm_inv s' \<and>
    virgin_zero byte s' \<and> vmm_span s' = vmm_span s \<and>
    backed (allocations s') = backed (allocations s) \<union> fresh (allocations s) addr e \<and>
    (\<forall>x. byte (vmm_ram s') x = (if x \<in> fresh (allocations s) addr e then 0 else byte (vmm_ram s) x))"
  using assms
proof (induction "unat e - unat addr" arbitrary: s addr rule: less_induct)
  case less
  let ?p = "SEGMENT_PAGE_MASK + 1" and ?al = "allocations s"
  note al = less.prems(7,8)
  show ?case
  proof (cases "addr < e")
    case False
    then have "fresh ?al addr e = {}" using less.prems(5) by (auto simp: fresh_def)
    then show ?thesis using False less.prems by (subst map_free_pages.simps) auto
  next
    case lt: True
    note step = page_step[OF lt al]
    show ?thesis
    proof (cases "is_memory_free ?al addr ?p")
      case False
      have "page_block addr \<inter> backed ?al \<noteq> {}"
        using False free_page_iff[OF less.prems(2) lt al(2)] page_of_self[OF al(1)] by simp
      note sk = fresh_skip[OF lt al this]
      have lt': "unat e - unat (addr + ?p) < unat e - unat addr"
        using step(1) lt by (simp add: word_less_nat_alt diff_less_mono2)
      have g: "GUEST_BASE \<le> addr + ?p" using step(4) less.prems(4) by simp
      show ?thesis
        using less.hyps[OF lt' less.prems(1-3) g step(2) less.prems(6) step(3) al(2)] False lt
        by (subst map_free_pages.simps) (simp add: sk)
    next
      case True
      obtain stop where stop: "free_run ?al addr e = Some stop" "addr < stop" "stop \<le> e" "4096 dvd unat stop"
        "\<forall>x \<in> {addr..<stop}. is_memory_free ?al (page_of x) ?p"
        using free_run_stops[OF al less.prems(5), of ?al] lt True by blast
      have fr: "{addr..<stop} \<subseteq> fresh ?al addr stop"
        using stop(5) free_page_iff[OF less.prems(2) _ stop(4)] by (auto simp: fresh_def)
      then have free: "{addr..<stop} \<inter> backed ?al = {}"
        using page_below(3,4)[OF _ stop(4)] by (fastforce simp: fresh_def page_block_def)
      have top: "stop \<le> vmm_span s" using stop(3) less.prems(6) by simp
      obtain s1 where s1: "vmm_map ops s addr (stop - addr) prot (Some name) = Some (s1, Ok addr)" "vmm_inv s1"
        "virgin_zero byte s1" "vmm_span s1 = vmm_span s" "backed (allocations s1) = backed ?al \<union> {addr..<stop}"
        "\<forall>x. byte (vmm_ram s1) x = (if x \<in> {addr..<stop} then 0 else byte (vmm_ram s) x)"
        using vmm_map_ok[OF less.prems(1-4) stop(2) top free] by blast
      have sp: "fresh ?al addr e = {addr..<stop} \<union> fresh (allocations s1) stop e"
        by (rule fresh_split[OF _ stop(3,4) al(2) fr s1(5)]) (use stop(2) in simp)
      have lt': "unat e - unat stop < unat e - unat addr" using stop(2) lt by (simp add: word_less_nat_alt)
      have g: "GUEST_BASE \<le> stop" using stop(2) less.prems(4) by (meson le_less_trans less_imp_le)
      obtain s' where "map_free_pages ops s1 stop e prot name = Some (s', Inr ())" "vmm_inv s'"
        "virgin_zero byte s'" "vmm_span s' = vmm_span s1"
        "backed (allocations s') = backed (allocations s1) \<union> fresh (allocations s1) stop e"
        "\<forall>x. byte (vmm_ram s') x = (if x \<in> fresh (allocations s1) stop e then 0 else byte (vmm_ram s1) x)"
        using less.hyps[OF lt' _ s1(2,3) g stop(3) _ stop(4) al(2)] less.prems(1,6) s1(4) by auto
      then show ?thesis
        using s1 stop(1) True lt by (subst map_free_pages.simps) (simp add: sp Un_assoc)
    qed
  qed
qed

section \<open>A segment in memory\<close>

text \<open>Live regions that cover whole pages; then a span is fresh exactly where nothing is mapped.\<close>

definition whole_pages :: "(u64, vma) btree \<Rightarrow> bool" where
  "whole_pages al \<longleftrightarrow> (\<forall>x \<in> backed al. page_block x \<subseteq> backed al)"

lemma page_block_refl: "x < hi \<Longrightarrow> 4096 dvd unat hi \<Longrightarrow> x \<in> page_block x"
  using page_below(3,4)[of x hi] by (simp add: page_block_def)

lemma page_block_eq:
  assumes "y \<in> page_block x" and "x < hi" and "4096 dvd unat hi"
  shows "page_block y = page_block x"
proof -
  have "page_of y = page_of x"
    by (rule page_of_within) (use assms page_below(2)[OF assms(2,3)] in \<open>auto simp: page_block_def word_less_nat_alt page_of_unat\<close>)
  then show ?thesis by (simp add: page_block_def)
qed

lemma fresh_whole:
  assumes "whole_pages al" and "4096 dvd unat hi"
  shows "fresh al lo hi = {lo..<hi} - backed al"
proof -
  have "page_block x \<inter> backed al \<noteq> {} \<longleftrightarrow> x \<in> backed al" if "x < hi" for x
    using page_block_eq[OF _ that assms(2)] page_block_refl[OF that assms(2)] assms(1) unfolding whole_pages_def by blast
  then have "page_block x \<inter> backed al = {} \<longleftrightarrow> x \<notin> backed al" if "x \<in> {lo..<hi}" for x
    using that by (metis atLeastLessThan_iff)
  then show ?thesis unfolding fresh_def by blast
qed

lemma whole_pages_union:
  assumes "whole_pages al" and "backed al' = backed al \<union> {lo..<hi}" and "4096 dvd unat lo" and "4096 dvd unat hi"
  shows "whole_pages al'"
proof -
  have "page_block x \<subseteq> {lo..<hi}" if "lo \<le> x" "x < hi" for x
    using page_above[OF that(1) assms(3)] page_below(1,2)[OF that(2) assms(4)]
    by (auto simp: page_block_def word_le_nat_alt word_less_nat_alt)
  then show ?thesis using assms(1,2) unfolding whole_pages_def by fastforce
qed

definition seg_byte :: "u64 \<Rightarrow> loadable_segment \<Rightarrow> u64 \<Rightarrow> u8 option" where
  "seg_byte base seg x =
     (let v = unat base + unat (ls_offset seg); n = length (ls_data seg) in
      if v \<le> unat x \<and> unat x < v + n then Some (ls_data seg ! (unat x - v))
      else if v + n \<le> unat x \<and> unat x < v + n + unat (ls_bss_size seg) then Some 0 else None)"

text \<open>The last segment that covers an address decides:\<close>

fun image_byte :: "u64 \<Rightarrow> loadable_segment list \<Rightarrow> u64 \<Rightarrow> u8 option" where
  "image_byte base [] x = None"
| "image_byte base (seg # segs) x =
     (case image_byte base segs x of Some b \<Rightarrow> Some b | None \<Rightarrow> seg_byte base seg x)"

definition seg_pages :: "u64 \<Rightarrow> loadable_segment \<Rightarrow> u64 set" where
  "seg_pages base seg =
     (case segment_span (base + ls_offset seg) (seg_len seg) (ls_bss_size seg) of
        Some (lo, hi) \<Rightarrow> {lo..<hi} | None \<Rightarrow> {})"

definition seg_fits :: "u64 \<Rightarrow> u64 \<Rightarrow> loadable_segment \<Rightarrow> bool" where
  "seg_fits span base seg \<longleftrightarrow>
     GUEST_BASE \<le> base + ls_offset seg \<and>
     unat base + unat (ls_offset seg) + length (ls_data seg) + unat (ls_bss_size seg) \<le> unat span"

definition ram_state :: "'ram ram_ops \<Rightarrow> ('ram \<Rightarrow> u64 \<Rightarrow> u8) \<Rightarrow> u64 \<Rightarrow> 'ram vmm \<Rightarrow> bool" where
  "ram_state ops byte span s \<longleftrightarrow>
     guest_ram ops byte span \<and> vmm_span s = span \<and> 4096 dvd unat span \<and>
     vmm_inv s \<and> virgin_zero byte s \<and> whole_pages (allocations s)"

lemma seg_span_in_arena:
  assumes "seg_fits span base seg" and "4096 dvd unat span"
  obtains lo hi where "segment_span (base + ls_offset seg) (seg_len seg) (ls_bss_size seg) = Some (lo, hi)"
    and "GUEST_BASE \<le> lo" and "lo \<le> hi" and "hi \<le> span" and "4096 dvd unat lo" and "4096 dvd unat hi"
    and "unat (base + ls_offset seg) = unat base + unat (ls_offset seg)" and "unat (seg_len seg) = length (ls_data seg)"
    and "\<And>x. seg_byte base seg x \<noteq> None \<Longrightarrow> x \<in> {lo..<hi}"
proof -
  let ?v = "unat base + unat (ls_offset seg)" and ?n = "length (ls_data seg)" and ?b = "unat (ls_bss_size seg)"
  have fits: "?v + ?n + ?b \<le> unat span" "GUEST_BASE \<le> base + ls_offset seg" using assms(1) by (auto simp: seg_fits_def)
  have top: "unat span + 4096 \<le> 2 ^ 64" by (rule dvd_step) (use assms(2) u64_bound[of span] in auto)
  have v: "unat (base + ls_offset seg) = ?v" and n: "unat (seg_len seg) = ?n"
    using fits(1) top by (simp_all add: unat_add_nowrap unat_of_nat_small)
  have ok: "unat (base + ls_offset seg) + unat (seg_len seg) + ?b + 4095 < 2 ^ 64"
    using fits(1) top by (simp add: v n)
  then obtain lo hi where sp: "segment_span (base + ls_offset seg) (seg_len seg) (ls_bss_size seg) = Some (lo, hi)"
    by (simp add: segment_span_eq)
  note S = segment_span_Some[OF sp, unfolded v n]
  have "GUEST_BASE \<le> lo"
    using sp page_above[OF fits(2)] by (simp add: segment_span_eq GUEST_BASE_def split: if_splits)
  moreover have "hi \<le> span"
  proof (rule ccontr)
    assume "\<not> hi \<le> span"
    then have "unat span + 4096 \<le> unat hi" by (intro dvd_step assms(2) S(2)) (simp add: word_le_nat_alt not_le)
    then show False using S(5) fits(1) by linarith
  qed
  moreover have "x \<in> {lo..<hi}" if "seg_byte base seg x \<noteq> None" for x
    using that S(3,4) by (auto simp: seg_byte_def Let_def word_le_nat_alt word_less_nat_alt split: if_splits)
  ultimately show ?thesis by (intro that[OF sp]) (use S v n in simp_all)
qed

lemma write_in_arena:
  assumes "ram_state ops byte span s" and "GUEST_BASE \<le> a" and "unat a + length bs \<le> unat span"
  shows "\<exists>r. ram_write ops (vmm_ram s) a bs = Some r \<and>
    (\<forall>x. byte r x = (if unat a \<le> unat x \<and> unat x < unat a + length bs then bs ! (unat x - unat a) else byte (vmm_ram s) x))"
proof -
  have ram: "guest_ram ops byte span" using assms(1) by (simp add: ram_state_def)
  show ?thesis
    using guest_ram.write_ok[OF ram assms(2,3)] guest_ram.write_byte[OF ram] by blast
qed

lemma obind_simps [simp]:
  "obind None f = None" "obind (Some (s, Inl e)) f = Some (s, Inl e)" "obind (Some (s, Inr x)) f = f s x"
  by (simp_all add: obind_def)

lemma map_err_simps [simp]: "map_err f (s, Inl e) = Some (s, Inl (f e))" "map_err f (s, Inr x) = Some (s, Inr x)"
  by (simp_all add: map_err_def)

lemma ram_state_set_ram:
  assumes "ram_state ops byte span s" and "\<And>x. x \<notin> backed (allocations s) \<Longrightarrow> byte r x = byte (vmm_ram s) x"
  shows "ram_state ops byte span (set_ram r s)"
proof -
  have "x \<notin> backed (allocations s)" if "x \<notin> cov (ever_mapped s)" for x
    using that assms(1) vmm_invD(6)[of s] by (auto simp: ram_state_def)
  then show ?thesis using assms by (auto simp: ram_state_def virgin_zero_def)
qed

lemma map_segment_ok:
  assumes st: "ram_state ops byte span s" and fits: "seg_fits span base seg"
  shows "\<exists>s'. map_segment ops base name seg s = Some (s', Inr ()) \<and> ram_state ops byte span s' \<and>
    backed (allocations s') = backed (allocations s) \<union> seg_pages base seg \<and>
    (\<forall>x. byte (vmm_ram s') x = (case seg_byte base seg x of Some b \<Rightarrow> b
       | None \<Rightarrow> if x \<in> seg_pages base seg - backed (allocations s) then 0 else byte (vmm_ram s) x))"
proof -
  let ?v = "base + ls_offset seg" and ?prot = "ls_protection seg OR PROT_WRITE"
  have dv: "4096 dvd unat span" using st by (simp add: ram_state_def)
  obtain lo hi where sp: "segment_span ?v (seg_len seg) (ls_bss_size seg) = Some (lo, hi)"
    and lo: "GUEST_BASE \<le> lo" "lo \<le> hi" "hi \<le> span" "4096 dvd unat lo" "4096 dvd unat hi"
    and v: "unat ?v = unat base + unat (ls_offset seg)" and n: "unat (seg_len seg) = length (ls_data seg)"
    and cover: "\<And>x. seg_byte base seg x \<noteq> None \<Longrightarrow> x \<in> {lo..<hi}"
    using seg_span_in_arena[OF fits dv] by metis
  have pages: "seg_pages base seg = {lo..<hi}" by (simp add: seg_pages_def sp)
  have room: "unat ?v + length (ls_data seg) + unat (ls_bss_size seg) \<le> unat span" "GUEST_BASE \<le> ?v"
    using fits v by (simp_all add: seg_fits_def)
  have ca: "checked_add base (ls_offset seg) = Some ?v"
    using fits u64_bound[of span] by (simp add: seg_fits_def)
  obtain s1 where s1: "map_free_pages ops s lo hi ?prot name = Some (s1, Inr ())" "vmm_inv s1" "virgin_zero byte s1"
    "vmm_span s1 = vmm_span s" "backed (allocations s1) = backed (allocations s) \<union> fresh (allocations s) lo hi"
    "\<forall>x. byte (vmm_ram s1) x = (if x \<in> fresh (allocations s) lo hi then 0 else byte (vmm_ram s) x)"
    using map_free_pages_ok[OF _ _ _ lo(1,2) _ lo(4,5), of ops byte s ?prot name] st lo(3) by (auto simp: ram_state_def)
  have fr: "fresh (allocations s) lo hi = {lo..<hi} - backed (allocations s)"
    using fresh_whole[OF _ lo(5)] st by (simp add: ram_state_def)
  then have b1: "backed (allocations s1) = backed (allocations s) \<union> {lo..<hi}" using s1(5) by auto
  have st1: "ram_state ops byte span s1"
    using st s1 whole_pages_union[OF _ b1 lo(4,5)] by (simp add: ram_state_def)
  obtain r where r: "ram_write ops (vmm_ram s1) ?v (ls_data seg) = Some r"
    "\<forall>x. byte r x = (if unat ?v \<le> unat x \<and> unat x < unat ?v + length (ls_data seg)
       then ls_data seg ! (unat x - unat ?v) else byte (vmm_ram s1) x)"
    using write_in_arena[OF st1 room(2), of "ls_data seg"] room(1) by auto
  define s2 where "s2 = (if ls_data seg \<noteq> [] then set_ram r s1 else s1)"
  have w2: "(if ls_data seg \<noteq> [] then map_err MemoryErr (write_bytes ops s1 ?v (ls_data seg)) else Some (s1, Inr ()))
      = Some (s2, Inr ())"
    by (simp add: s2_def write_bytes_def r(1))
  have byte2: "\<forall>x. byte (vmm_ram s2) x = (if unat ?v \<le> unat x \<and> unat x < unat ?v + length (ls_data seg)
       then ls_data seg ! (unat x - unat ?v) else byte (vmm_ram s1) x)" and al2: "allocations s2 = allocations s1"
    using r(2) by (auto simp: s2_def)
  have inside: "x \<in> {lo..<hi}" if "unat ?v \<le> unat x" "unat x < unat ?v + length (ls_data seg) + unat (ls_bss_size seg)" for x
    by (rule cover) (use that v in \<open>auto simp: seg_byte_def Let_def\<close>)
  have st2: "ram_state ops byte span s2"
    unfolding s2_def using st1 ram_state_set_ram[OF st1, of r] r(2) inside b1 by fastforce
  let ?a = "?v + seg_len seg"
  have a: "unat ?a = unat ?v + length (ls_data seg)" "GUEST_BASE \<le> ?a"
    using room u64_bound[of span] n by (simp_all add: unat_add_nowrap word_le_nat_alt)
  have "unat ?a + length (replicate (unat (ls_bss_size seg)) (0 :: u8)) \<le> unat span" using room(1) a(1) by simp
  from write_in_arena[OF st2 a(2) this]
  obtain q where q: "ram_write ops (vmm_ram s2) ?a (replicate (unat (ls_bss_size seg)) 0) = Some q"
    "\<forall>x. byte q x = (if unat ?a \<le> unat x \<and> unat x < unat ?a + unat (ls_bss_size seg) then 0 else byte (vmm_ram s2) x)"
    by (metis (no_types, lifting) length_replicate nth_replicate add_diff_inverse_nat nat_add_left_cancel_less not_less)
  define s3 where "s3 = (if 0 < ls_bss_size seg then set_ram q s2 else s2)"
  have w3: "(if 0 < ls_bss_size seg then map_err MemoryErr (zero_memory ops s2 ?a (ls_bss_size seg)) else Some (s2, Inr ()))
      = Some (s3, Inr ())"
    by (simp add: s3_def zero_memory_def q(1))
  have bss: "ls_bss_size seg = 0 \<or> 0 < ls_bss_size seg" by (simp add: word_less_nat_alt word_unat_eq_iff) linarith
  have byte3: "\<forall>x. byte (vmm_ram s3) x = (if unat ?a \<le> unat x \<and> unat x < unat ?a + unat (ls_bss_size seg) then 0
       else byte (vmm_ram s2) x)" and al3: "allocations s3 = allocations s1"
    using q(2) bss al2 by (auto simp: s3_def)
  have st3: "ram_state ops byte span s3"
    unfolding s3_def using st2 ram_state_set_ram[OF st2, of q] q(2) inside b1 a(1) al2 by fastforce
  have "map_segment ops base name seg s = Some (s3, Inr ())"
    unfolding map_segment_def ca by (simp add: sp s1(1) w2 w3)
  moreover have "byte (vmm_ram s3) x = (case seg_byte base seg x of Some b \<Rightarrow> b
       | None \<Rightarrow> if x \<in> seg_pages base seg - backed (allocations s) then 0 else byte (vmm_ram s) x)" for x
    using byte3 byte2 s1(6) a(1) by (simp add: seg_byte_def Let_def pages fr v[symmetric])
  ultimately show ?thesis using st3 al3 b1 by (intro exI[of _ s3]) (auto simp: pages)
qed

lemma map_segments_ok:
  assumes "ram_state ops byte span s" and "list_all (seg_fits span base) segs"
  shows "\<exists>s'. map_segments ops base name segs s = Some (s', Inr ()) \<and> ram_state ops byte span s' \<and>
    backed (allocations s') = backed (allocations s) \<union> (\<Union>seg \<in> set segs. seg_pages base seg) \<and>
    (\<forall>x. byte (vmm_ram s') x = (case image_byte base segs x of Some b \<Rightarrow> b
       | None \<Rightarrow> if x \<in> (\<Union>seg \<in> set segs. seg_pages base seg) - backed (allocations s) then 0 else byte (vmm_ram s) x))"
  using assms
proof (induction segs arbitrary: s)
  case (Cons seg segs)
  have fits: "seg_fits span base seg" using Cons.prems(2) by simp
  obtain s1 where s1: "map_segment ops base name seg s = Some (s1, Inr ())" "ram_state ops byte span s1"
    "backed (allocations s1) = backed (allocations s) \<union> seg_pages base seg"
    "\<forall>x. byte (vmm_ram s1) x = (case seg_byte base seg x of Some b \<Rightarrow> b
       | None \<Rightarrow> if x \<in> seg_pages base seg - backed (allocations s) then 0 else byte (vmm_ram s) x)"
    using map_segment_ok[OF Cons.prems(1) fits] by blast
  have cover: "x \<in> seg_pages base seg" if "seg_byte base seg x \<noteq> None" for x
  proof -
    have dv: "4096 dvd unat span" using Cons.prems(1) by (simp add: ram_state_def)
    obtain lo hi where "segment_span (base + ls_offset seg) (seg_len seg) (ls_bss_size seg) = Some (lo, hi)"
      "\<And>x. seg_byte base seg x \<noteq> None \<Longrightarrow> x \<in> {lo..<hi}"
      using seg_span_in_arena[OF fits dv] by metis
    then show ?thesis using that by (simp add: seg_pages_def)
  qed
  obtain s' where s': "map_segments ops base name segs s1 = Some (s', Inr ())" "ram_state ops byte span s'"
    "backed (allocations s') = backed (allocations s1) \<union> (\<Union>seg \<in> set segs. seg_pages base seg)"
    "\<forall>x. byte (vmm_ram s') x = (case image_byte base segs x of Some b \<Rightarrow> b
       | None \<Rightarrow> if x \<in> (\<Union>seg \<in> set segs. seg_pages base seg) - backed (allocations s1) then 0 else byte (vmm_ram s1) x)"
    using Cons.IH[OF s1(2)] Cons.prems(2) by auto
  have "byte (vmm_ram s') x = (case image_byte base (seg # segs) x of Some b \<Rightarrow> b
       | None \<Rightarrow> if x \<in> (\<Union>seg \<in> set (seg # segs). seg_pages base seg) - backed (allocations s) then 0 else byte (vmm_ram s) x)" for x
    using s'(4) s1(3,4) cover[of x] by (cases "image_byte base segs x"; cases "seg_byte base seg x") auto
  then show ?case using s1(1,3) s'(1-3) by (intro exI[of _ s']) auto
qed simp

section \<open>The module table\<close>

definition occupied :: "loaded_module \<Rightarrow> nat set" where
  "occupied md = {unat (m_base_addr md)..<unat (m_base_addr md) + unat (m_memory_size md)}"

text \<open>
  Handles are distinct and below the next one, the modules' address ranges lie below the allocator's
  cursor and do not meet.
\<close>

definition manager_inv :: "module_manager \<Rightarrow> bool" where
  "manager_inv m \<longleftrightarrow>
     distinct (map fst (modules m)) \<and> alloc_align (allocator m) = 0x4000 \<and> 0x4000 dvd unat (current_addr (allocator m)) \<and>
     GUEST_BASE \<le> current_addr (allocator m) \<and>
     (\<forall>(k, md) \<in> set (modules m). m_id md = k \<and> unat k < unat (next_id m) \<and>
        (\<forall>x \<in> occupied md. x < unat (current_addr (allocator m)))) \<and>
     (\<forall>(k, md) \<in> set (modules m). \<forall>(k', md') \<in> set (modules m). k \<noteq> k' \<longrightarrow> occupied md \<inter> occupied md' = {})"

lemma manager_new_inv: "manager_inv manager_new"
  by (simp add: manager_inv_def manager_new_def allocator_new_def GUEST_BASE_def)

lemma allocate_spec:
  assumes "alloc_align a = 0x4000" and "unat (current_addr a) + unat sz + 0x4000 \<le> 2 ^ 64" and "0x4000 dvd unat (current_addr a)"
  shows "snd (allocate a sz) = current_addr a" and "alloc_align (fst (allocate a sz)) = 0x4000"
    and "unat (current_addr a) + unat sz \<le> unat (current_addr (fst (allocate a sz)))"
    and "0x4000 dvd unat (current_addr (fst (allocate a sz)))"
proof -
  have "unat (sz + 0x4000 - 1) = unat sz + 0x3FFF"
  proof -
    have "sz + 0x4000 - 1 = sz + 0x3FFF" by simp
    then show ?thesis using assms(2) by (simp add: unat_add_nowrap)
  qed
  then have r: "unat ((sz + 0x4000 - 1) AND NOT (0x4000 - 1)) = (unat sz + 0x3FFF) div 0x4000 * 0x4000"
    using and_not_mask_unat[of "sz + 0x4000 - 1" 14] by (simp add: mask_eq_exp_minus_1)
  have lo: "unat sz \<le> (unat sz + 0x3FFF) div 0x4000 * 0x4000" by linarith
  have hi: "unat (current_addr a) + (unat sz + 0x3FFF) div 0x4000 * 0x4000 < 2 ^ 64"
    using assms(2) by linarith
  show "snd (allocate a sz) = current_addr a" "alloc_align (fst (allocate a sz)) = 0x4000"
    using assms(1) by (simp_all add: allocate_def Let_def)
  have c: "unat (current_addr (fst (allocate a sz))) = unat (current_addr a) + (unat sz + 0x3FFF) div 0x4000 * 0x4000"
    using hi r by (simp add: allocate_def Let_def assms(1) unat_add_nowrap)
  show "unat (current_addr a) + unat sz \<le> unat (current_addr (fst (allocate a sz)))" unfolding c using lo by simp
  show "0x4000 dvd unat (current_addr (fst (allocate a sz)))" unfolding c using assms(3) by simp
qed

lemma image_segments_fit:
  assumes "seg \<in> set segs" and "length (ls_data seg) < 2 ^ 64" and "GUEST_BASE \<le> base"
    and "unat base + unat (image_memory_size segs) \<le> unat span"
  shows "seg_fits span base seg"
proof -
  have "unat (segment_end seg) \<le> unat (image_memory_size segs)"
    using segment_end_le_memory_size[OF assms(1)] by (simp add: word_le_nat_alt)
  moreover have "unat (image_memory_size segs) < 2 ^ 64 - 1"
    using assms(3,4) u64_bound[of span] by (simp add: word_le_nat_alt GUEST_BASE_def)
  ultimately have "unat (ls_offset seg) + length (ls_data seg) + unat (ls_bss_size seg) \<le> unat (image_memory_size segs)"
    unfolding segment_end_saturates[OF assms(2)] by simp
  moreover from this have "unat (base + ls_offset seg) = unat base + unat (ls_offset seg)"
    using assms(4) u64_bound[of span] by (simp add: unat_add_nowrap)
  ultimately show ?thesis using assms(3,4) by (simp add: seg_fits_def word_le_nat_alt)
qed

lemma manager_invD:
  assumes "manager_inv m"
  shows "distinct (map fst (modules m))" and "alloc_align (allocator m) = 0x4000"
    and "0x4000 dvd unat (current_addr (allocator m))" and "GUEST_BASE \<le> current_addr (allocator m)"
    and "(k, md) \<in> set (modules m) \<Longrightarrow> m_id md = k"
    and "(k, md) \<in> set (modules m) \<Longrightarrow> unat k < unat (next_id m)"
    and "(k, md) \<in> set (modules m) \<Longrightarrow> x \<in> occupied md \<Longrightarrow> x < unat (current_addr (allocator m))"
    and "(k, md) \<in> set (modules m) \<Longrightarrow> (k', md') \<in> set (modules m) \<Longrightarrow> k \<noteq> k' \<Longrightarrow> occupied md \<inter> occupied md' = {}"
  using assms unfolding manager_inv_def by fast+

lemma update_new: "k \<notin> fst ` set al \<Longrightarrow> AList.update k v al = al @ [(k, v)]"
  by (induction al) auto

lemma map_image_ok:
  assumes st: "ram_state ops byte span s" and inv: "manager_inv m" and id: "unat (next_id m) < 2 ^ 31 - 1"
    and sz: "pi_memory_size img = image_memory_size (pi_segments img)" "0 < pi_memory_size img"
    and data: "list_all (\<lambda>seg. length (ls_data seg) < 2 ^ 64) (pi_segments img)"
    and room: "unat (current_addr (allocator m)) + unat (pi_memory_size img) \<le> unat span" and top: "unat span < 2 ^ 63"
  defines "base \<equiv> current_addr (allocator m)"
  shows "\<exists>m' s'. map_image ops img name (m, s) = Some ((m', s'), Inr (next_id m)) \<and>
    manager_inv m' \<and> ram_state ops byte span s' \<and> next_id m' = next_id m + 1 \<and>
    modules m' = modules m @ [(next_id m, image_module img (next_id m) base name)] \<and>
    backed (allocations s') = backed (allocations s) \<union> (\<Union>seg \<in> set (pi_segments img). seg_pages base seg) \<and>
    (\<forall>x. byte (vmm_ram s') x = (case image_byte base (pi_segments img) x of Some b \<Rightarrow> b
       | None \<Rightarrow> if x \<in> (\<Union>seg \<in> set (pi_segments img). seg_pages base seg) - backed (allocations s) then 0
                 else byte (vmm_ram s) x))"
proof -
  note I = manager_invD[OF inv]
  let ?md = "image_module img (next_id m) base name" and ?a = "fst (allocate (allocator m) (pi_memory_size img))"
  note A = allocate_spec[OF I(2) _ I(3), of "pi_memory_size img"]
  have fit: "unat base + unat (pi_memory_size img) + 0x4000 \<le> 2 ^ 64" using room top by (simp add: base_def)
  have "seg_fits span base seg" if "seg \<in> set (pi_segments img)" for seg
    by (rule image_segments_fit[OF that]) (use that data room I(4) sz(1) in \<open>auto simp: list_all_iff base_def\<close>)
  then have "list_all (seg_fits span base) (pi_segments img)" by (simp add: list_all_iff)
  from map_segments_ok[OF st this] obtain s' where
    s': "map_segments ops base name (pi_segments img) s = Some (s', Inr ())" "ram_state ops byte span s'"
    "backed (allocations s') = backed (allocations s) \<union> (\<Union>seg \<in> set (pi_segments img). seg_pages base seg)"
    "\<forall>x. byte (vmm_ram s') x = (case image_byte base (pi_segments img) x of Some b \<Rightarrow> b
       | None \<Rightarrow> if x \<in> (\<Union>seg \<in> set (pi_segments img). seg_pages base seg) - backed (allocations s) then 0
                 else byte (vmm_ram s) x)"
    by blast
  define m' where "m' = register_module ?md (m\<lparr>next_id := next_id m + 1, allocator := ?a\<rparr>)"
  have fresh_id: "next_id m \<notin> fst ` set (modules m)" using I(6) by force
  have mods: "modules m' = modules m @ [(next_id m, ?md)]"
    using fresh_id by (simp add: m'_def register_module_def image_module_def update_new)
  have f: "allocator m' = ?a" "next_id m' = next_id m + 1" "unat (next_id m + 1) = unat (next_id m) + 1"
    using id by (simp_all add: m'_def register_module_def unat_add_nowrap)
  have occ: "occupied ?md = {unat base..<unat base + unat (pi_memory_size img)}"
    by (simp add: occupied_def image_module_def)
  have cur: "unat base + unat (pi_memory_size img) \<le> unat (current_addr ?a)" using A(3) fit by (simp add: base_def)
  have below: "x < unat base" if "(k, md) \<in> set (modules m)" "x \<in> occupied md" for k md x
    using I(7)[OF that] by (simp add: base_def)
  have "manager_inv m'"
    unfolding manager_inv_def mods f(1,2)
  proof (intro conjI)
    show "distinct (map fst (modules m @ [(next_id m, ?md)]))" using I(1) fresh_id by simp
    show "alloc_align ?a = 0x4000" "0x4000 dvd unat (current_addr ?a)" using A(2,4) fit by (auto simp: base_def)
    show "GUEST_BASE \<le> current_addr ?a" using I(4) cur by (simp add: word_le_nat_alt base_def)
    have "m_id md = k \<and> unat k < unat (next_id m + 1) \<and> (\<forall>x \<in> occupied md. x < unat (current_addr ?a))"
      if kmd: "(k, md) \<in> set (modules m @ [(next_id m, ?md)])" for k md
    proof (cases "(k, md) \<in> set (modules m)")
      case True
      then show ?thesis using I(5,6)[OF True] below[OF True] cur unfolding f(3) by fastforce
    next
      case False
      then have "k = next_id m" "md = ?md" using kmd by auto
      then show ?thesis using cur unfolding f(3) by (simp add: occ) (simp add: image_module_def)
    qed
    then show "\<forall>(k, md) \<in> set (modules m @ [(next_id m, ?md)]). m_id md = k \<and> unat k < unat (next_id m + 1) \<and>
        (\<forall>x \<in> occupied md. x < unat (current_addr ?a))" by blast
    have "occupied md \<inter> occupied ?md = {}" if "(k, md) \<in> set (modules m)" for k md
      using below[OF that] by (force simp: occ)
    then have "occupied md \<inter> occupied md' = {}" if "(k, md) \<in> set (modules m @ [(next_id m, ?md)])"
      "(k', md') \<in> set (modules m @ [(next_id m, ?md)])" "k \<noteq> k'" for k md k' md'
      using that I(8)[of k md k' md'] by (cases "(k, md) \<in> set (modules m)"; cases "(k', md') \<in> set (modules m)")
        (auto simp: Int_commute)
    then show "\<forall>(k, md) \<in> set (modules m @ [(next_id m, ?md)]). \<forall>(k', md') \<in> set (modules m @ [(next_id m, ?md)]).
        k \<noteq> k' \<longrightarrow> occupied md \<inter> occupied md' = {}" by blast
  qed
  moreover have "map_image ops img name (m, s) = Some ((m', s'), Inr (next_id m))"
  proof -
    obtain a where "allocate (allocator m) (pi_memory_size img) = (a, base)"
      using A(1) fit by (cases "allocate (allocator m) (pi_memory_size img)") (simp add: base_def)
    then show ?thesis
      using sz(2) s'(1) by (simp add: map_image_def get_next_handle_def Let_def m'_def)
  qed
  ultimately show ?thesis using s' mods f(2) by blast
qed

section \<open>Relocation as a sequence of writes\<close>

definition unresolved :: "module_manager \<Rightarrow> relocation \<Rightarrow> bool" where
  "unresolved m r \<longleftrightarrow> (case rel_symbol_name r of None \<Rightarrow> False | Some n \<Rightarrow> resolve_symbol m n = None)"

definition needs_stub :: "module_manager \<Rightarrow> relocation \<Rightarrow> bool" where
  "needs_stub m r \<longleftrightarrow> unresolved m r \<and>
     (rel_kind r = JumpSlot \<or> rel_kind r = GlobDat \<or> (rel_kind r = Absolute64 \<and> rel_symbol_value r = None))"

definition symbol_address :: "module_manager \<Rightarrow> u64 \<Rightarrow> rstr \<Rightarrow> u64" where
  "symbol_address m stub n = (case resolve_symbol m n of Some a \<Rightarrow> a | None \<Rightarrow> stub)"

text \<open>The value a relocation stores, given the address of its stub, should it need one:\<close>

definition reloc_value :: "module_manager \<Rightarrow> module_handle \<Rightarrow> u64 \<Rightarrow> u64 \<Rightarrow> relocation \<Rightarrow> u64 option" where
  "reloc_value m i base stub r =
     (if rel_kind r = Relative then Some (base + rel_addend r)
      else if rel_kind r = Absolute64 then
        Some ((case rel_symbol_value r of
                 Some v \<Rightarrow> base + v
               | None \<Rightarrow> (case rel_symbol_name r of None \<Rightarrow> 0 | Some n \<Rightarrow> symbol_address m stub n)) + rel_addend r)
      else if rel_kind r = JumpSlot \<or> rel_kind r = GlobDat then map_option (symbol_address m stub) (rel_symbol_name r)
      else if rel_kind r = DtpMod64 \<or> rel_kind r = DtpOff64 then Some (scast i)
      else if rel_kind r = TpOff64 then Some (rel_addend r)
      else None)"

definition reloc_target :: "u64 \<Rightarrow> relocation \<Rightarrow> u64" where
  "reloc_target base r = base + rel_offset r"

definition stub_at :: "nat \<Rightarrow> u8 list" where
  "stub_at n = stub_code (ucast (MAGIC_MASK OR of_nat n))"

fun reloc_writes ::
  "module_manager \<Rightarrow> module_handle \<Rightarrow> u64 \<Rightarrow> u64 \<Rightarrow> nat \<Rightarrow> relocation list \<Rightarrow> (u64 \<times> u8 list) list" where
  "reloc_writes m i base stub n [] = []"
| "reloc_writes m i base stub n (r # rs) =
     (if needs_stub m r then [(stub, stub_at n)] else []) @
     (case reloc_value m i base stub r of Some v \<Rightarrow> [(reloc_target base r, u64_bytes v)] | None \<Rightarrow> []) @
     (if needs_stub m r then reloc_writes m i base (stub + LAZY_STUB_SIZE) (Suc n) rs
      else reloc_writes m i base stub n rs)"

definition written :: "u64 \<times> u8 list \<Rightarrow> u64 \<Rightarrow> bool" where
  "written = (\<lambda>(a, bs) x. unat a \<le> unat x \<and> unat x < unat a + length bs)"

fun after_writes :: "(u64 \<times> u8 list) list \<Rightarrow> (u64 \<Rightarrow> u8) \<Rightarrow> u64 \<Rightarrow> u8" where
  "after_writes [] f x = f x"
| "after_writes ((a, bs) # ws) f x = after_writes ws (\<lambda>x. if written (a, bs) x then bs ! (unat x - unat a) else f x) x"

definition target_ok :: "(u64, vma) btree \<Rightarrow> u64 \<Rightarrow> bool" where
  "target_ok al t \<longleftrightarrow> unat t + 8 \<le> 2 ^ 64 \<and> (\<forall>x. unat t \<le> unat x \<and> unat x < unat t + 8 \<longrightarrow> x \<in> backed al)"

definition stubs_ok :: "(u64, vma) btree \<Rightarrow> u64 \<Rightarrow> bool" where
  "stubs_ok al base \<longleftrightarrow> base \<noteq> 0 \<and> unat base + 0x10000 \<le> 2 ^ 64 \<and>
     (\<forall>x. unat base \<le> unat x \<and> unat x < unat base + 0x10000 \<longrightarrow> x \<in> backed al)"

definition link_ok :: "'ram ram_ops \<Rightarrow> ('ram \<Rightarrow> u64 \<Rightarrow> u8) \<Rightarrow> u64 \<Rightarrow> 'ram link_state \<Rightarrow> bool" where
  "link_ok ops byte span st \<longleftrightarrow> ram_state ops byte span (lk_mem st) \<and> stubs_ok (allocations (lk_mem st)) (stubs_base st)"

lemma length_stub_code [simp]: "length (stub_code i) = 11"
  by (simp add: stub_code_def u32_bytes_def)

lemma write_backed:
  assumes st: "ram_state ops byte span s" and "bs \<noteq> []" and "unat a + length bs \<le> 2 ^ 64"
    and bk: "\<And>x. written (a, bs) x \<Longrightarrow> x \<in> backed (allocations s)"
  shows "\<exists>r. ram_write ops (vmm_ram s) a bs = Some r \<and> ram_state ops byte span (set_ram r s) \<and>
    byte r = (\<lambda>x. if written (a, bs) x then bs ! (unat x - unat a) else byte (vmm_ram s) x) \<and>
    GUEST_BASE \<le> a \<and> a < span"
proof -
  have inv: "vmm_inv s" "vmm_span s = span" using st by (simp_all add: ram_state_def)
  obtain k where k: "length bs = Suc k" using assms(2) by (cases bs) auto
  let ?l = "a + of_nat k"
  have l: "unat ?l = unat a + k"
    using assms(3) k by (simp add: unat_add_nowrap unat_of_nat_small)
  have "written (a, bs) a" "written (a, bs) ?l" using l k by (simp_all add: written_def)
  then have "a \<in> backed (allocations s)" "?l \<in> backed (allocations s)" using bk by auto
  then have in_a: "GUEST_BASE \<le> a" "a < span" "unat ?l < unat span"
    using backed_in_arena[OF inv(1)] inv(2) by (auto simp: word_less_nat_alt)
  then obtain r where r: "ram_write ops (vmm_ram s) a bs = Some r"
    "\<forall>x. byte r x = (if unat a \<le> unat x \<and> unat x < unat a + length bs then bs ! (unat x - unat a) else byte (vmm_ram s) x)"
    using write_in_arena[OF st in_a(1), of bs] l k by auto
  then have "byte r x = byte (vmm_ram s) x" if "x \<notin> backed (allocations s)" for x
    using bk[of x] that by (auto simp: written_def)
  then show ?thesis
    using r in_a ram_state_set_ram[OF st] by (intro exI[of _ r]) (auto simp: written_def fun_eq_iff)
qed

lemma put_usize_ok:
  assumes st: "link_ok ops byte span st" and t: "target_ok (allocations (lk_mem st)) t"
  shows "\<exists>st'. put_usize ops f t v st = Some (st', Inr ()) \<and> link_ok ops byte span st' \<and>
    allocations (lk_mem st') = allocations (lk_mem st) \<and> stubs_base st' = stubs_base st \<and>
    stubs_cursor st' = stubs_cursor st \<and> missing_symbols st' = missing_symbols st \<and>
    byte (vmm_ram (lk_mem st')) = after_writes [(t, u64_bytes v)] (byte (vmm_ram (lk_mem st)))"
proof -
  have rs: "ram_state ops byte span (lk_mem st)" "vmm_span (lk_mem st) = span"
    using st by (simp_all add: link_ok_def ram_state_def)
  obtain r where r: "ram_write ops (vmm_ram (lk_mem st)) t (u64_bytes v) = Some r"
    "ram_state ops byte span (set_ram r (lk_mem st))"
    "byte r = (\<lambda>x. if written (t, u64_bytes v) x then u64_bytes v ! (unat x - unat t) else byte (vmm_ram (lk_mem st)) x)"
    "GUEST_BASE \<le> t" "t < span"
    using write_backed[OF rs(1), of "u64_bytes v" t] t by (auto simp: target_ok_def written_def simp flip: length_0_conv)
  then have "write_usize ops t v (lk_mem st) = Some (set_ram r (lk_mem st), Ok ())"
    by (simp add: write_usize_def get_host_ptr_def rs(2))
  then show ?thesis
    using r st by (auto simp: put_usize_def link_ok_def)
qed

lemma alloc_missing_stub_ok:
  assumes st: "link_ok ops byte span st" and cur: "unat (stubs_cursor st) + 32 \<le> 0x10000"
  shows "\<exists>st'. alloc_missing_stub ops nm st = Some (st', Inr (stubs_base st + stubs_cursor st)) \<and>
    link_ok ops byte span st' \<and> allocations (lk_mem st') = allocations (lk_mem st) \<and> stubs_base st' = stubs_base st \<and>
    stubs_cursor st' = stubs_cursor st + LAZY_STUB_SIZE \<and> missing_symbols st' = missing_symbols st @ [nm] \<and>
    byte (vmm_ram (lk_mem st')) =
      after_writes [(stubs_base st + stubs_cursor st, stub_at (length (missing_symbols st)))] (byte (vmm_ram (lk_mem st)))"
proof -
  let ?a = "stubs_base st + stubs_cursor st" and ?c = "stub_at (length (missing_symbols st))"
  have rs: "ram_state ops byte span (lk_mem st)" and sb: "stubs_ok (allocations (lk_mem st)) (stubs_base st)"
    using st by (simp_all add: link_ok_def)
  have a: "unat ?a = unat (stubs_base st) + unat (stubs_cursor st)"
    using sb cur by (simp add: stubs_ok_def unat_add_nowrap)
  have "x \<in> backed (allocations (lk_mem st))" if "written (?a, ?c) x" for x
    using that sb cur by (auto simp: written_def a stub_at_def stubs_ok_def)
  then obtain r where r: "ram_write ops (vmm_ram (lk_mem st)) ?a ?c = Some r" "ram_state ops byte span (set_ram r (lk_mem st))"
    "byte r = (\<lambda>x. if written (?a, ?c) x then ?c ! (unat x - unat ?a) else byte (vmm_ram (lk_mem st)) x)"
    using write_backed[OF rs, of ?c ?a] sb cur a by (auto simp: stub_at_def stubs_ok_def simp flip: length_0_conv)
  have "\<not> LAZY_STUBS_SIZE < stubs_cursor st + LAZY_STUB_SIZE"
    using cur by (simp add: LAZY_STUBS_SIZE_def LAZY_STUB_SIZE_def word_less_nat_alt unat_add_nowrap)
  then have "alloc_missing_stub ops nm st = Some (st\<lparr>missing_symbols := missing_symbols st @ [nm],
      stubs_cursor := stubs_cursor st + LAZY_STUB_SIZE, lk_mem := set_ram r (lk_mem st)\<rparr>, Inr ?a)"
    using r(1) sb by (simp add: alloc_missing_stub_def register_missing_symbol_def write_bytes_def stub_at_def stubs_ok_def)
  then show ?thesis using r sb by (auto simp: link_ok_def)
qed

lemma after_writes_Nil [simp]: "after_writes [] f = f"
  by (simp add: fun_eq_iff)

lemma after_writes_append: "after_writes (ws @ ws') f = after_writes ws' (after_writes ws f)"
proof (induction ws arbitrary: f)
  case (Cons w ws)
  then show ?case by (cases w) (auto simp: fun_eq_iff)
qed (simp add: fun_eq_iff)

text \<open>What one relocation does to the state, in terms of the writes above:\<close>

definition relocated ::
  "'ram ram_ops \<Rightarrow> ('ram \<Rightarrow> u64 \<Rightarrow> u8) \<Rightarrow> u64 \<Rightarrow> (u64 \<times> u8 list) list \<Rightarrow> rstr list \<Rightarrow> 'ram link_state \<Rightarrow> 'ram link_state \<Rightarrow> bool" where
  "relocated ops byte span ws names st st' \<longleftrightarrow>
     link_ok ops byte span st' \<and> allocations (lk_mem st') = allocations (lk_mem st) \<and> stubs_base st' = stubs_base st \<and>
     stubs_cursor st' = stubs_cursor st + of_nat (length names) * LAZY_STUB_SIZE \<and>
     missing_symbols st' = missing_symbols st @ names \<and>
     byte (vmm_ram (lk_mem st')) = after_writes ws (byte (vmm_ram (lk_mem st)))"

lemma relocated_refl: "link_ok ops byte span st \<Longrightarrow> relocated ops byte span [] [] st st"
  by (simp add: relocated_def fun_eq_iff)

lemma relocated_trans:
  "relocated ops byte span ws ns st st1 \<Longrightarrow> relocated ops byte span ws' ns' st1 st2 \<Longrightarrow>
   relocated ops byte span (ws @ ws') (ns @ ns') st st2"
  by (auto simp: relocated_def after_writes_append algebra_simps)

lemma put_usize_relocated:
  assumes "link_ok ops byte span st" and "target_ok (allocations (lk_mem st)) t"
  shows "\<exists>st'. put_usize ops f t v st = Some (st', Inr ()) \<and> relocated ops byte span [(t, u64_bytes v)] [] st st'"
  using put_usize_ok[OF assms, of f v] by (auto simp: relocated_def)

lemma stub_relocated:
  assumes "link_ok ops byte span st" and "unat (stubs_cursor st) + 32 \<le> 0x10000"
  shows "\<exists>st'. alloc_missing_stub ops nm st = Some (st', Inr (stubs_base st + stubs_cursor st)) \<and>
    relocated ops byte span [(stubs_base st + stubs_cursor st, stub_at (length (missing_symbols st)))] [nm] st st'"
  using alloc_missing_stub_ok[OF assms, of nm] by (auto simp: relocated_def)

lemma stub_then_put:
  assumes st: "link_ok ops byte span st" and cur: "unat (stubs_cursor st) + 32 \<le> 0x10000"
    and t: "target_ok (allocations (lk_mem st)) t"
  shows "\<exists>st'. obind (alloc_missing_stub ops nm st) (\<lambda>st a. put_usize ops f t (g a) st) = Some (st', Inr ()) \<and>
    relocated ops byte span [(stubs_base st + stubs_cursor st, stub_at (length (missing_symbols st))),
      (t, u64_bytes (g (stubs_base st + stubs_cursor st)))] [nm] st st'"
proof -
  let ?a = "stubs_base st + stubs_cursor st"
  obtain st1 where s1: "alloc_missing_stub ops nm st = Some (st1, Inr ?a)"
    "relocated ops byte span [(?a, stub_at (length (missing_symbols st)))] [nm] st st1"
    using stub_relocated[OF st cur] by blast
  obtain st2 where s2: "put_usize ops f t (g ?a) st1 = Some (st2, Inr ())"
    "relocated ops byte span [(t, u64_bytes (g ?a))] [] st1 st2"
    using put_usize_relocated[of ops byte span st1 t f "g ?a"] s1(2) t by (auto simp: relocated_def)
  show ?thesis using s1(1) s2(1) relocated_trans[OF s1(2) s2(2)] by simp
qed

definition stub_names :: "(rstr \<Rightarrow> rstr) \<Rightarrow> module_manager \<Rightarrow> relocation list \<Rightarrow> rstr list" where
  "stub_names display m rs = List.map_filter (\<lambda>r. if needs_stub m r then map_option display (rel_symbol_name r) else None) rs"

lemma apply_reloc_ok:
  assumes st: "link_ok ops byte span st"
    and t: "reloc_value m i base stub r \<noteq> None \<Longrightarrow> target_ok (allocations (lk_mem st)) (reloc_target base r)"
    and cur: "needs_stub m r \<Longrightarrow> unat (stubs_cursor st) + 32 \<le> 0x10000"
    and stub: "stub = stubs_base st + stubs_cursor st"
  shows "\<exists>st'. apply_reloc ops display m i base r st = Some (st', Inr ()) \<and>
    relocated ops byte span (reloc_writes m i base stub (length (missing_symbols st)) [r]) (stub_names display m [r]) st st'"
proof (cases "needs_stub m r")
  case True
  then obtain n where n: "rel_symbol_name r = Some n" "resolve_symbol m n = None"
    by (auto simp: needs_stub_def unresolved_def split: option.splits)
  let ?v = "if rel_kind r = Absolute64 then stub + rel_addend r else stub"
  have v: "reloc_value m i base stub r = Some ?v"
    using True n by (auto simp: needs_stub_def reloc_value_def symbol_address_def)
  let ?g = "\<lambda>a. if rel_kind r = Absolute64 then a + rel_addend r else a"
    and ?f = "if rel_kind r = Absolute64 then RelocationErr else MemoryErr"
  have "apply_reloc ops display m i base r st =
      obind (alloc_missing_stub ops (display n) st) (\<lambda>st a. put_usize ops ?f (reloc_target base r) (?g a) st)"
    using True n by (auto simp: needs_stub_def apply_reloc_def absolute_symbol_def reloc_target_def Let_def)
  moreover have "reloc_writes m i base stub k [r] = [(stub, stub_at k), (reloc_target base r, u64_bytes ?v)]" for k
    using True v by simp
  moreover have "stub_names display m [r] = [display n]" using True n by (simp add: stub_names_def List.map_filter_simps)
  ultimately show ?thesis
    using stub_then_put[OF st cur[OF True], of "reloc_target base r" "display n" ?f ?g] t v stub by auto
next
  case False
  have ns: "stub_names display m [r] = []" using False by (simp add: stub_names_def List.map_filter_simps)
  show ?thesis
  proof (cases "reloc_value m i base stub r")
    case None
    then have "apply_reloc ops display m i base r st = Some (st, Inr ())"
      by (cases "rel_kind r") (auto simp: apply_reloc_def reloc_value_def Let_def)
    then show ?thesis using None False ns relocated_refl[OF st] by simp
  next
    case (Some v)
    have "\<exists>f. apply_reloc ops display m i base r st = put_usize ops f (reloc_target base r) v st"
      using Some False
      by (cases "rel_kind r")
        (auto simp: apply_reloc_def reloc_value_def absolute_symbol_def reloc_target_def symbol_address_def needs_stub_def
          unresolved_def Let_def split: option.splits)
    then obtain f where f: "apply_reloc ops display m i base r st = put_usize ops f (reloc_target base r) v st" by blast
    have "reloc_writes m i base stub k [r] = [(reloc_target base r, u64_bytes v)]" for k using Some False by simp
    then show ?thesis using put_usize_relocated[OF st t, of f v] Some ns f by simp
  qed
qed

lemma apply_relocs_ok:
  assumes "link_ok ops byte span st"
    and "\<And>r stub. r \<in> set rs \<Longrightarrow> reloc_value m i base stub r \<noteq> None \<Longrightarrow> target_ok (allocations (lk_mem st)) (reloc_target base r)"
    and "unat (stubs_cursor st) + 32 * length (filter (needs_stub m) rs) \<le> 0x10000"
  shows "\<exists>st'. apply_relocs ops display m i base rs st = Some (st', Inr ()) \<and>
    relocated ops byte span (reloc_writes m i base (stubs_base st + stubs_cursor st) (length (missing_symbols st)) rs)
      (stub_names display m rs) st st'"
  using assms
proof (induction rs arbitrary: st)
  case Nil
  then show ?case using relocated_refl by (simp add: stub_names_def List.map_filter_simps)
next
  case (Cons r rs)
  let ?stub = "stubs_base st + stubs_cursor st"
  have "\<exists>st1. apply_reloc ops display m i base r st = Some (st1, Inr ()) \<and>
    relocated ops byte span (reloc_writes m i base ?stub (length (missing_symbols st)) [r]) (stub_names display m [r]) st st1"
    by (rule apply_reloc_ok[OF Cons.prems(1)]) (use Cons.prems(2)[of r] Cons.prems(3) in auto)
  then obtain st1 where s1: "apply_reloc ops display m i base r st = Some (st1, Inr ())"
    "relocated ops byte span (reloc_writes m i base ?stub (length (missing_symbols st)) [r]) (stub_names display m [r]) st st1"
    by blast
  have len: "length (stub_names display m [r]) = (if needs_stub m r then 1 else 0)"
    by (auto simp: stub_names_def List.map_filter_simps needs_stub_def unresolved_def split: option.splits)
  then have c1: "stubs_cursor st1 = stubs_cursor st + (if needs_stub m r then LAZY_STUB_SIZE else 0)"
    "length (missing_symbols st1) = length (missing_symbols st) + (if needs_stub m r then 1 else 0)"
    "stubs_base st1 = stubs_base st" "allocations (lk_mem st1) = allocations (lk_mem st)" "link_ok ops byte span st1"
    using s1(2) by (auto simp: relocated_def)
  have u: "unat (stubs_cursor st1) + 32 * length (filter (needs_stub m) rs) \<le> 0x10000"
    using Cons.prems(3) c1(1) by (auto simp: LAZY_STUB_SIZE_def unat_add_nowrap)
  have "\<exists>st2. apply_relocs ops display m i base rs st1 = Some (st2, Inr ()) \<and>
    relocated ops byte span (reloc_writes m i base (stubs_base st1 + stubs_cursor st1) (length (missing_symbols st1)) rs)
      (stub_names display m rs) st1 st2"
    by (rule Cons.IH[OF c1(5) _ u]) (use Cons.prems(2) c1(4) in auto)
  then obtain st2 where s2: "apply_relocs ops display m i base rs st1 = Some (st2, Inr ())"
    "relocated ops byte span (reloc_writes m i base (stubs_base st1 + stubs_cursor st1) (length (missing_symbols st1)) rs)
      (stub_names display m rs) st1 st2" by blast
  have "reloc_writes m i base ?stub (length (missing_symbols st)) (r # rs) =
      reloc_writes m i base ?stub (length (missing_symbols st)) [r] @
      reloc_writes m i base (stubs_base st1 + stubs_cursor st1) (length (missing_symbols st1)) rs"
    using c1 by (simp add: add.assoc)
  moreover have "stub_names display m (r # rs) = stub_names display m [r] @ stub_names display m rs"
    by (simp add: stub_names_def List.map_filter_simps split: option.splits)
  ultimately show ?case using s1(1) s2(1) relocated_trans[OF s1(2) s2(2)] by simp
qed

section \<open>Reading the writes back\<close>

definition apart_writes :: "u64 \<times> u8 list \<Rightarrow> u64 \<times> u8 list \<Rightarrow> bool" where
  "apart_writes w w' \<longleftrightarrow> unat (fst w) + length (snd w) \<le> unat (fst w') \<or> unat (fst w') + length (snd w') \<le> unat (fst w)"

lemma after_writes_untouched: "(\<And>w. w \<in> set ws \<Longrightarrow> \<not> written w x) \<Longrightarrow> after_writes ws f x = f x"
proof (induction ws arbitrary: f)
  case (Cons w ws)
  then show ?case by (cases w) simp
qed simp

lemma after_writes_hit:
  assumes "sorted_wrt apart_writes ws" and "(a, bs) \<in> set ws" and "written (a, bs) x"
  shows "after_writes ws f x = bs ! (unat x - unat a)"
  using assms
proof (induction ws arbitrary: f)
  case (Cons w ws)
  show ?case
  proof (cases "(a, bs) = w")
    case True
    have "after_writes ws g x = g x" for g
      by (rule after_writes_untouched) (use Cons.prems True in \<open>auto simp: apart_writes_def written_def split: prod.splits\<close>)
    then show ?thesis using Cons.prems(3) by (simp add: True[symmetric])
  next
    case False
    then show ?thesis using Cons by (cases w) auto
  qed
qed simp

definition mem_bytes :: "(u64 \<Rightarrow> u8) \<Rightarrow> u64 \<Rightarrow> nat \<Rightarrow> u8 list" where
  "mem_bytes f a n = map (\<lambda>j. f (a + of_nat j)) [0..<n]"

lemma mem_bytes_hit:
  assumes "sorted_wrt apart_writes ws" and "(a, bs) \<in> set ws" and "unat a + length bs \<le> 2 ^ 64" and "length bs < 2 ^ 64"
  shows "mem_bytes (after_writes ws f) a (length bs) = bs"
proof (rule nth_equalityI)
  fix j assume "j < length (mem_bytes (after_writes ws f) a (length bs))"
  then have j: "j < length bs" by (simp add: mem_bytes_def)
  then have u: "unat (a + of_nat j) = unat a + j"
    using assms(3,4) by (simp add: unat_add_nowrap unat_of_nat_small)
  have "after_writes ws f (a + of_nat j) = bs ! (unat (a + of_nat j) - unat a)"
    by (rule after_writes_hit[OF assms(1,2)]) (use u j in \<open>simp add: written_def\<close>)
  then show "mem_bytes (after_writes ws f) a (length bs) ! j = bs ! j" using j u by (simp add: mem_bytes_def)
qed (simp add: mem_bytes_def)

text \<open>The relocations that store something:\<close>

definition patches :: "relocation \<Rightarrow> bool" where
  "patches r \<longleftrightarrow> rel_kind r \<in> {Relative, Absolute64, DtpMod64, DtpOff64, TpOff64} \<or>
     (rel_kind r \<in> {JumpSlot, GlobDat} \<and> rel_symbol_name r \<noteq> None)"

lemma reloc_value_iff: "reloc_value m i base stub r \<noteq> None \<longleftrightarrow> patches r"
  by (auto simp: reloc_value_def patches_def)

lemma needs_stub_patches: "needs_stub m r \<Longrightarrow> patches r"
  by (auto simp: needs_stub_def patches_def unresolved_def split: option.splits)

definition stub_slot :: "u64 \<Rightarrow> nat \<Rightarrow> u64" where
  "stub_slot stub k = stub + of_nat k * LAZY_STUB_SIZE"

lemma stub_slot_simps: "stub_slot stub 0 = stub" "stub_slot (stub + LAZY_STUB_SIZE) k = stub_slot stub (Suc k)"
  by (simp_all add: stub_slot_def algebra_simps)

lemma reloc_writes_cases:
  assumes "w \<in> set (reloc_writes m i base stub n rs)"
  shows "(\<exists>k < length (filter (needs_stub m) rs). w = (stub_slot stub k, stub_at (n + k))) \<or>
    (\<exists>r \<in> set (filter patches rs). \<exists>v. w = (reloc_target base r, u64_bytes v))"
  using assms
proof (induction rs arbitrary: stub n)
  case (Cons r rs)
  let ?ws = "if needs_stub m r then reloc_writes m i base (stub + LAZY_STUB_SIZE) (Suc n) rs else reloc_writes m i base stub n rs"
  consider (stub) "needs_stub m r" "w = (stub, stub_at n)" | (target) v where "patches r" "w = (reloc_target base r, u64_bytes v)"
    | (rest) "w \<in> set ?ws"
    using Cons.prems reloc_value_iff[of m i base stub r] by (auto split: option.splits if_splits)
  then show ?case
  proof cases
    case stub
    then have "0 < length (filter (needs_stub m) (r # rs)) \<and> w = (stub_slot stub 0, stub_at (n + 0))"
      by (simp add: stub_slot_simps)
    then show ?thesis by blast
  next
    case target
    then show ?thesis by auto
  next
    case rest
    show ?thesis
    proof (cases "needs_stub m r")
      case True
      then have "w \<in> set (reloc_writes m i base (stub + LAZY_STUB_SIZE) (Suc n) rs)" using rest by simp
      from Cons.IH[OF this] consider (a) k where "k < length (filter (needs_stub m) rs)"
        "w = (stub_slot (stub + LAZY_STUB_SIZE) k, stub_at (Suc n + k))"
        | (b) "\<exists>r \<in> set (filter patches rs). \<exists>v. w = (reloc_target base r, u64_bytes v)" by blast
      then show ?thesis
      proof cases
        case a
        then have "Suc k < length (filter (needs_stub m) (r # rs)) \<and> w = (stub_slot stub (Suc k), stub_at (n + Suc k))"
          using True by (simp add: stub_slot_simps)
        then show ?thesis by blast
      qed auto
    next
      case False
      then show ?thesis using Cons.IH[of stub n] rest by auto
    qed
  qed
qed simp

lemma reloc_writes_mem:
  assumes "r \<in> set rs"
  shows "\<exists>k. (needs_stub m r \<longrightarrow> k < length (stub_names display m rs) \<and>
      (stub_slot stub k, stub_at (n + k)) \<in> set (reloc_writes m i base stub n rs) \<and>
      map_option display (rel_symbol_name r) = Some (stub_names display m rs ! k)) \<and>
    (\<forall>v. reloc_value m i base (stub_slot stub k) r = Some v \<longrightarrow>
      (reloc_target base r, u64_bytes v) \<in> set (reloc_writes m i base stub n rs))"
  using assms
proof (induction rs arbitrary: stub n)
  case (Cons r' rs)
  have names: "stub_names display m (r' # rs) =
      (if needs_stub m r' then the (map_option display (rel_symbol_name r')) # stub_names display m rs else stub_names display m rs)"
    by (auto simp: stub_names_def List.map_filter_simps needs_stub_def unresolved_def split: option.splits)
  show ?case
  proof (cases "r = r'")
    case True
    have "rel_symbol_name r' \<noteq> None" if "needs_stub m r'"
      using that by (auto simp: needs_stub_def unresolved_def split: option.splits)
    then show ?thesis
      by (intro exI[of _ 0]) (auto simp: True names stub_slot_simps)
  next
    case False
    then have r: "r \<in> set rs" using Cons.prems by simp
    show ?thesis
    proof (cases "needs_stub m r'")
      case True
      from Cons.IH[OF r, of "stub + LAZY_STUB_SIZE" "Suc n"] obtain k where
        "needs_stub m r \<longrightarrow> k < length (stub_names display m rs) \<and>
          (stub_slot stub (Suc k), stub_at (n + Suc k)) \<in> set (reloc_writes m i base (stub + LAZY_STUB_SIZE) (Suc n) rs) \<and>
          map_option display (rel_symbol_name r) = Some (stub_names display m rs ! k)"
        "\<forall>v. reloc_value m i base (stub_slot stub (Suc k)) r = Some v \<longrightarrow>
          (reloc_target base r, u64_bytes v) \<in> set (reloc_writes m i base (stub + LAZY_STUB_SIZE) (Suc n) rs)"
        by (auto simp: stub_slot_simps)
      then show ?thesis by (intro exI[of _ "Suc k"]) (auto simp: names True)
    next
      case False
      then show ?thesis using Cons.IH[OF r, of stub n] by (auto simp: names)
    qed
  qed
qed simp

lemma length_stub_names: "length (stub_names display m rs) = length (filter (needs_stub m) rs)"
  by (induction rs) (auto simp: stub_names_def List.map_filter_simps needs_stub_def unresolved_def split: option.splits)

definition apart_targets :: "u64 \<Rightarrow> relocation \<Rightarrow> relocation \<Rightarrow> bool" where
  "apart_targets base r r' \<longleftrightarrow> unat (reloc_target base r) + 8 \<le> unat (reloc_target base r') \<or>
     unat (reloc_target base r') + 8 \<le> unat (reloc_target base r)"

definition outside :: "nat \<Rightarrow> nat \<Rightarrow> u64 \<Rightarrow> bool" where
  "outside lo hi t \<longleftrightarrow> unat t + 8 \<le> lo \<or> hi \<le> unat t"

lemma unat_stub_slot: "unat stub + 32 * k < 2 ^ 64 \<Longrightarrow> unat (stub_slot stub k) = unat stub + 32 * k"
proof -
  assume a: "unat stub + 32 * k < 2 ^ 64"
  have "stub_slot stub k = stub + of_nat (32 * k)" by (simp add: stub_slot_def LAZY_STUB_SIZE_def)
  moreover have "unat (of_nat (32 * k) :: u64) = 32 * k" by (rule unat_of_nat_small) (use a in simp)
  ultimately show ?thesis using a unat_add_nowrap[of stub "of_nat (32 * k)"] by simp
qed

lemma length_stub_at [simp]: "length (stub_at n) = 11"
  by (simp add: stub_at_def)

lemma reloc_writes_apart:
  assumes "sorted_wrt (apart_targets base) (filter patches rs)"
    and "unat stub + 32 * length (filter (needs_stub m) rs) \<le> hi" and "hi < 2 ^ 64" and "lo \<le> unat stub"
    and "\<And>r. r \<in> set (filter patches rs) \<Longrightarrow> outside lo hi (reloc_target base r)"
  shows "sorted_wrt apart_writes (reloc_writes m i base stub n rs)"
  using assms(1,2,4,5)
proof (induction rs arbitrary: stub n)
  case (Cons r rs)
  let ?stub = "if needs_stub m r then stub + LAZY_STUB_SIZE else stub" and ?n = "if needs_stub m r then Suc n else n"
  let ?ws = "reloc_writes m i base ?stub ?n rs"
  let ?c = "length (filter (needs_stub m) rs)"
  have out: "outside lo hi (reloc_target base r')" if "r' \<in> set (filter patches rs) \<or> (r' = r \<and> patches r)" for r'
    by (rule Cons.prems(4)) (use that in auto)
  have u: "unat ?stub = unat stub + (if needs_stub m r then 32 else 0)"
    using Cons.prems(2) assms(3) by (auto simp: LAZY_STUB_SIZE_def unat_add_nowrap)
  have room: "unat ?stub + 32 * ?c \<le> hi" using Cons.prems(2) u by auto
  have "sorted_wrt apart_writes ?ws"
    by (rule Cons.IH) (use Cons.prems room u in \<open>auto split: if_splits\<close>)
  moreover have slot: "unat (stub_slot ?stub k) = unat ?stub + 32 * k" if "k < ?c" for k
    by (rule unat_stub_slot) (use that room assms(3) in linarith)
  moreover have "apart_writes (stub, stub_at n) w" if "w \<in> set ?ws" "needs_stub m r" for w
    using reloc_writes_cases[OF that(1)]
  proof (elim disjE exE conjE bexE)
    fix k assume "k < ?c" "w = (stub_slot ?stub k, stub_at (?n + k))"
    then show ?thesis using slot[of k] u that(2) by (simp add: apart_writes_def)
  next
    fix r' v assume "r' \<in> set (filter patches rs)" "w = (reloc_target base r', u64_bytes v)"
    then show ?thesis
      using Cons.prems(2,3) out[of r'] that(2) by (auto simp: apart_writes_def outside_def)
  qed
  moreover have "apart_writes (reloc_target base r, u64_bytes v) w" if "w \<in> set ?ws" "patches r" for w v
    using reloc_writes_cases[OF that(1)]
  proof (elim disjE exE conjE bexE)
    fix k assume k: "k < ?c" "w = (stub_slot ?stub k, stub_at (?n + k))"
    then have "unat ?stub + 32 * k + 32 \<le> hi" using room by linarith
    then show ?thesis
      using slot[OF k(1)] k(2) u Cons.prems(3) out[of r] that(2) by (auto simp: apart_writes_def outside_def)
  next
    fix r' v' assume "r' \<in> set (filter patches rs)" "w = (reloc_target base r', u64_bytes v')"
    then show ?thesis using Cons.prems(1) that(2) by (auto simp: apart_writes_def apart_targets_def)
  qed
  moreover have "apart_writes (stub, stub_at n) (reloc_target base r, u64_bytes v)" if "needs_stub m r" for v
    using Cons.prems(2,3) out[of r] that needs_stub_patches[OF that] by (auto simp: apart_writes_def outside_def)
  ultimately show ?case
    using reloc_value_iff[of m i base stub r] by (auto simp: sorted_wrt_append split: option.splits)
qed simp

lemma magic_fields:
  assumes "n < 2 ^ 30"
  shows "(MAGIC_MASK OR of_nat n) AND MAGIC_MASK = MAGIC_MASK" and "unat ((MAGIC_MASK OR of_nat n) AND NOT MAGIC_MASK) = n"
    and "ucast (ucast (MAGIC_MASK OR of_nat n) :: u32) = (MAGIC_MASK OR of_nat n :: u64)"
proof -
  have hi: "\<not> bit (of_nat n :: u64) j" if "30 \<le> j" for j
  proof -
    have "take_bit 30 (of_nat n :: u64) = of_nat n" using assms by (simp add: take_bit_of_nat take_bit_nat_eq_self)
    then show ?thesis using that by (metis bit_take_bit_iff not_less)
  qed
  have m: "bit MAGIC_MASK j \<longleftrightarrow> j = 30 \<or> j = 31" for j
  proof -
    have "bit (push_bit 30 (mask 2) :: u64) j \<longleftrightarrow> j = 30 \<or> j = 31"
      by (auto simp: bit_simps simp del: push_bit_of_Suc_0 push_bit_numeral mask_numeral)
    moreover have "MAGIC_MASK = push_bit 30 (mask 2)" by (simp add: MAGIC_MASK_def mask_eq_exp_minus_1)
    ultimately show ?thesis by metis
  qed
  show "(MAGIC_MASK OR of_nat n) AND MAGIC_MASK = MAGIC_MASK"
    by (rule bit_word_eqI) (auto simp: bit_simps)
  have "(MAGIC_MASK OR of_nat n) AND NOT MAGIC_MASK = of_nat n"
    by (rule bit_word_eqI) (use m hi in \<open>auto simp: bit_simps\<close>)
  then show "unat ((MAGIC_MASK OR of_nat n) AND NOT MAGIC_MASK) = n"
    using assms by (simp add: unat_of_nat_small)
  show "ucast (ucast (MAGIC_MASK OR of_nat n) :: u32) = (MAGIC_MASK OR of_nat n :: u64)"
  proof (rule bit_word_eqI)
    fix j assume "j < LENGTH(64)"
    then show "bit (ucast (ucast (MAGIC_MASK OR of_nat n) :: u32) :: u64) j = bit (MAGIC_MASK OR of_nat n :: u64) j"
      using hi[of j] by (cases "30 \<le> j") (auto simp: bit_simps m)
  qed
qed

section \<open>Protection after relocation\<close>

lemma backed_map_prot:
  "backed (map (\<lambda>(k, w). if k = a then (k, w\<lparr>vma_protection := p\<rparr>) else (k, w)) al) = backed al"
proof (induction al)
  case (Cons kv al)
  then show ?case by (cases kv) (simp add: backed_def)
qed simp

lemma protect_keeps:
  assumes "ram_state ops byte span s" and "protect s a sz p = (s', res)"
  shows "res = Ok ()" and "ram_state ops byte span s'" and "vmm_ram s' = vmm_ram s"
    and "backed (allocations s') = backed (allocations s)"
proof -
  let ?f = "\<lambda>(k, w). if k = a then (k, w\<lparr>vma_protection := p\<rparr>) else (k, w)"
  have s': "s' = s \<or> s' = s\<lparr>allocations := map ?f (allocations s)\<rparr>" and "res = Ok ()"
    using assms(2) by (auto simp: protect_def split: option.splits if_splits)
  then show "res = Ok ()" "vmm_ram s' = vmm_ram s" by auto
  show b: "backed (allocations s') = backed (allocations s)" using s' by (auto simp: backed_map_prot)
  have "vmm_inv s'" using protect_inv[of s a sz p] assms by (simp add: ram_state_def)
  moreover have "virgin_zero byte s'" "vmm_span s' = vmm_span s" "whole_pages (allocations s')"
    using assms(1) s' b unfolding whole_pages_def by (auto simp: ram_state_def virgin_zero_def whole_pages_def)
  ultimately show "ram_state ops byte span s'" using assms(1) by (simp add: ram_state_def)
qed

lemma protect_segments_keeps:
  assumes "ram_state ops byte span s"
  shows "\<exists>s'. protect_segments base segs s = Some (s', Inr ()) \<and> ram_state ops byte span s' \<and>
    vmm_ram s' = vmm_ram s \<and> backed (allocations s') = backed (allocations s)"
  using assms
proof (induction segs arbitrary: s)
  case (Cons seg segs)
  obtain s1 res where p: "protect_segment base seg s = (s1, res)" by fastforce
  have k: "res = Ok () \<and> ram_state ops byte span s1 \<and> vmm_ram s1 = vmm_ram s \<and> backed (allocations s1) = backed (allocations s)"
    using p Cons.prems protect_keeps[OF Cons.prems]
    by (auto simp: protect_segment_def split: option.splits prod.splits if_splits)
  then obtain s' where "protect_segments base segs s1 = Some (s', Inr ())" "ram_state ops byte span s'"
    "vmm_ram s' = vmm_ram s1" "backed (allocations s') = backed (allocations s1)"
    using Cons.IH by blast
  then show ?case using p k by auto
qed simp

lemma relocate_image_writes:
  fixes from_nid :: "rstr \<Rightarrow> rstr option"
  assumes st: "link_ok ops byte span st" and md: "map_of (modules m) h = Some md"
    and t: "\<And>r. r \<in> set (pi_relocations img) \<Longrightarrow> patches r \<Longrightarrow>
      target_ok (allocations (lk_mem st)) (reloc_target (m_base_addr md) r)"
    and room: "unat (stubs_cursor st) + 32 * length (filter (needs_stub m) (pi_relocations img)) \<le> 0x10000"
  defines "display \<equiv> \<lambda>n. missing_symbol_display_name from_nid n (import_libs img)"
  shows "\<exists>st'. relocate_image ops from_nid m img h st = Some (st', Inr ()) \<and> link_ok ops byte span st' \<and>
    backed (allocations (lk_mem st')) = backed (allocations (lk_mem st)) \<and> stubs_base st' = stubs_base st \<and>
    stubs_cursor st' = stubs_cursor st + of_nat (length (filter (needs_stub m) (pi_relocations img))) * LAZY_STUB_SIZE \<and>
    missing_symbols st' = missing_symbols st @ stub_names display m (pi_relocations img) \<and>
    byte (vmm_ram (lk_mem st')) = after_writes (reloc_writes m h (m_base_addr md) (stubs_base st + stubs_cursor st)
      (length (missing_symbols st)) (pi_relocations img)) (byte (vmm_ram (lk_mem st)))"
proof -
  let ?rs = "pi_relocations img"
  obtain st1 where s1: "apply_relocs ops display m h (m_base_addr md) ?rs st = Some (st1, Inr ())"
    "relocated ops byte span (reloc_writes m h (m_base_addr md) (stubs_base st + stubs_cursor st)
      (length (missing_symbols st)) ?rs) (stub_names display m ?rs) st st1"
    using apply_relocs_ok[OF st _ room, of h "m_base_addr md" display] t reloc_value_iff by blast
  obtain s2 where s2: "protect_segments (m_base_addr md) (pi_segments img) (lk_mem st1) = Some (s2, Inr ())"
    "ram_state ops byte span s2" "vmm_ram s2 = vmm_ram (lk_mem st1)" "backed (allocations s2) = backed (allocations (lk_mem st1))"
    using protect_segments_keeps[of ops byte span "lk_mem st1" "m_base_addr md" "pi_segments img"] s1(2)
    unfolding relocated_def link_ok_def by blast
  have "relocate_image ops from_nid m img h st = Some (st1\<lparr>lk_mem := s2\<rparr>, Inr ())"
    using s1(1) s2(1) by (simp add: relocate_image_def md display_def)
  moreover have "stubs_ok (allocations (lk_mem st1)) (stubs_base st1)"
    using s1(2) unfolding relocated_def link_ok_def by blast
  then have "stubs_ok (allocations s2) (stubs_base st1)" unfolding stubs_ok_def s2(4) .
  ultimately show ?thesis
    using s1(2) s2 by (auto simp: relocated_def link_ok_def length_stub_names)
qed

section \<open>Symbols\<close>

lemma resolve_in_append:
  "resolve_in (ms @ ms') n = (case resolve_in ms n of Some a \<Rightarrow> Some a | None \<Rightarrow> resolve_in ms' n)"
  by (induction ms n rule: resolve_in.induct) (auto split: option.splits)

lemma resolve_in_None: "resolve_in ms n = None \<longleftrightarrow> (\<forall>(k, md) \<in> set ms. m_exports md n = None)"
  by (induction ms n rule: resolve_in.induct) (auto split: option.splits)

lemma resolve_in_unique:
  "(k, md) \<in> set ms \<Longrightarrow> m_exports md n = Some a \<Longrightarrow>
   (\<And>k' md'. (k', md') \<in> set ms \<Longrightarrow> m_exports md' n \<noteq> None \<Longrightarrow> m_exports md' n = Some a) \<Longrightarrow> resolve_in ms n = Some a"
proof (induction ms n rule: resolve_in.induct)
  case (2 k' md' ms n)
  show ?case
  proof (cases "m_exports md' n")
    case None
    have "(k, md) \<in> set ms" using "2.prems"(1,2) None by auto
    moreover have "m_exports md'' n = Some a" if "(k'', md'') \<in> set ms" "m_exports md'' n \<noteq> None" for k'' md''
      using "2.prems"(3)[of k'' md''] that by simp
    ultimately have "resolve_in ms n = Some a" using "2.IH"[OF None] "2.prems"(2) by blast
    then show ?thesis using None by simp
  next
    case (Some b)
    then show ?thesis using "2.prems"(3)[of k' md'] by simp
  qed
qed simp

text \<open>
  With two exporters the answer is that of whichever module the table's walk meets first, and the walk of
  a \<^verbatim>\<open>HashMap\<close> has no fixed order:
\<close>

lemma resolve_order_matters:
  "resolve_in [(1, module_new 1 a [n \<mapsto> x]), (2, module_new 2 b [n \<mapsto> y])] n = Some x"
  "resolve_in [(2, module_new 2 b [n \<mapsto> y]), (1, module_new 1 a [n \<mapsto> x])] n = Some y"
  by (simp_all add: module_new_def)

text \<open>
  A segment whose first page belongs to an earlier region: no region starts at its span, so the
  restore of its protection finds nothing to change.
\<close>

lemma shared_page_keeps_write:
  assumes "vmm_inv s" and "checked_add base (ls_offset seg) = Some v"
    and "segment_span v (seg_len seg) (ls_bss_size seg) = Some (lo, hi)"
    and "(k, w) \<in> set (allocations s)" and "k < lo" and "lo < vma_end w"
  shows "protect_segment base seg s = (s, Ok ())"
proof -
  have "bt_get (allocations s) lo = None"
  proof (rule ccontr)
    assume "bt_get (allocations s) lo \<noteq> None"
    then obtain w' where "(lo, w') \<in> set (allocations s)" by (auto dest: map_of_SomeD)
    then show False using vmm_invD(3)[OF assms(1) assms(4)] assms(5,6) by fastforce
  qed
  then have "protect s lo (hi - lo) (ls_protection seg) = (s, Ok ())" by (simp add: protect_def)
  then show ?thesis unfolding protect_segment_def assms(2) option.case assms(3) prod.case by simp
qed

text \<open>
  A relocation whose target starts in the last bytes of the arena passes the address check and stores
  outside it:
\<close>

lemma write_usize_past_arena:
  "GUEST_BASE \<le> span - 1 \<Longrightarrow> span \<noteq> 0 \<Longrightarrow> write_usize (flat_ops span) (span - 1) v (vmm_new \<lparr>gv_ram = f, gv_span = span\<rparr>) = None"
proof -
  assume a: "GUEST_BASE \<le> span - 1" "span \<noteq> 0"
  have "unat (span - 1) = unat span - 1" using a(2) by (simp add: unat_minus_one)
  moreover have "0 < unat span" using a(2) by (simp add: unat_gt_0)
  ultimately show ?thesis
    using a by (simp add: write_usize_def get_host_ptr_def vmm_new_def flat_ops_def word_less_nat_alt)
qed

section \<open>A small instance\<close>

lemma small_vm_ram_state: "ram_state (flat_ops 0x500000000) (\<lambda>r x. r x) 0x500000000 small_vm"
proof -
  have b: "backed (allocations small_vm) = {0x30000..<0x31000}"
    by (simp add: small_vm_simps backed_def GADGET_ADDR_def)
  have "page_block x \<subseteq> {0x30000..<0x31000}" if "x \<in> {0x30000..<0x31000}" for x
    using that page_above[of "0x30000" x] page_below(1,2)[of x "0x31000"]
    by (auto simp: page_block_def word_le_nat_alt word_less_nat_alt)
  then have "whole_pages (allocations small_vm)" by (simp add: whole_pages_def b)
  then show ?thesis using small_vm_ok flat.guest_ram_axioms[of "0x500000000"] by (simp add: ram_state_def)
qed

definition small_image :: parsed_image where
  "small_image = \<lparr>pi_entry = 0, pi_memory_size = 8,
     pi_segments = [\<lparr>ls_offset = 0, ls_data = [1, 2, 3], ls_protection = 1, ls_bss_size = 5\<rparr>], pi_tls = None,
     pi_libraries = [], pi_needed_modules = [], pi_imports = [], pi_exports = [[0x66] \<mapsto> 2],
     pi_relocations =
       [\<lparr>rel_offset = 0x100, rel_kind = Relative, rel_symbol_index = None, rel_addend = 0x23, rel_symbol_name = None,
         rel_symbol_value = None\<rparr>,
        \<lparr>rel_offset = 0x108, rel_kind = JumpSlot, rel_symbol_index = Some 1, rel_addend = 0, rel_symbol_name = Some [0x67],
         rel_symbol_value = None\<rparr>], pi_proc_param_vaddr = None\<rparr>"

definition small_manager :: module_manager where
  "small_manager = register_module ((module_new 1 ''a'' Map.empty)\<lparr>m_base_addr := 0x410000\<rparr>) manager_new"

lemma small_link_state:
  "\<exists>s. link_ok (flat_ops 0x500000000) (\<lambda>r x. r x) 0x500000000
     \<lparr>lk_mem = s, stubs_base = 0x400000, stubs_cursor = 0, missing_symbols = []\<rparr> \<and>
   target_ok (allocations s) 0x410100 \<and> target_ok (allocations s) 0x410108"
proof -
  have ram: "guest_ram (flat_ops 0x500000000) (\<lambda>r x. r x) (vmm_span small_vm)"
    using flat.guest_ram_axioms small_vm_ok(3) by metis
  have free: "{0x400000..<0x420000} \<inter> backed (allocations small_vm) = {}"
    by (force simp: small_vm_simps backed_def GADGET_ADDR_def dest: le_less_trans)
  obtain s where s: "vmm_inv s" "virgin_zero (\<lambda>r x. r x) s" "vmm_span s = vmm_span small_vm"
    "backed (allocations s) = backed (allocations small_vm) \<union> {0x400000..<0x420000}"
    using vmm_map_ok[OF ram small_vm_ok(1,2) _ _ _ free, of 3 None] by (auto simp: GUEST_BASE_def small_vm_ok(3))
  have "whole_pages (allocations s)"
    by (rule whole_pages_union[OF _ s(4)]) (use small_vm_ram_state in \<open>simp_all add: ram_state_def\<close>)
  then have "ram_state (flat_ops 0x500000000) (\<lambda>r x. r x) 0x500000000 s"
    using s small_vm_ok(3) flat.guest_ram_axioms[of "0x500000000"] by (simp add: ram_state_def)
  moreover have "x \<in> backed (allocations s)" if "0x400000 \<le> unat x" "unat x < 0x420000" for x
    using that unfolding s(4) by (simp add: word_le_nat_alt word_less_nat_alt)
  ultimately show ?thesis by (intro exI[of _ s]) (simp add: link_ok_def stubs_ok_def target_ok_def)
qed

section \<open>Properties\<close>





end
