(* ===== verification/Module_Loading.thy ===== *)
theory Module_Loading
  imports Linker File_System
begin

text \<open>
  Loading a program: the module graph and the two loading passes of \<^verbatim>\<open>crates/kernel/src/process.rs\<close>
  (\<^verbatim>\<open>load_executable\<close>, \<^verbatim>\<open>collect_module_graph\<close>, \<^verbatim>\<open>load_module_set\<close>, \<^verbatim>\<open>load_start_module\<close>, \<^verbatim>\<open>module_dlsym\<close>),
  over the linker, the container and the image parser. Host paths are their text, since the loader keys
  its tables by it. What the host's files hold, the ELF library and the generated symbol tables are the
  record \<open>module_env\<close>. The recursion of the walk is bounded by fuel; the walk is shown to end.
\<close>

section \<open>Files\<close>

record module_env =
  me_exists :: "string \<Rightarrow> bool"
  me_read :: "string \<Rightarrow> u8 list option"
  me_can_alloc :: "nat \<Rightarrow> bool"
  me_elf_parse :: "u8 list \<Rightarrow> elf_view option"
  me_from_nid :: "rstr \<Rightarrow> rstr option"
  me_nid_of_name :: "rstr \<Rightarrow> rstr option"

text \<open>\<^verbatim>\<open>Path::join\<close> on the text of a path:\<close>

definition push_path :: "string \<Rightarrow> string \<Rightarrow> string" where
  "push_path d s =
     (if s \<noteq> [] \<and> hd s = CHR ''/'' then s
      else if d = [] \<or> last d = CHR ''/'' then d @ s else d @ CHR ''/'' # s)"

fun comp_text :: "path_comp \<Rightarrow> string" where
  "comp_text RootDir = []"
| "comp_text ParentDir = ''..''"
| "comp_text (Normal s) = s"

definition path_text :: "path \<Rightarrow> string" where
  "path_text p = (if p = [RootDir] then ''/'' else join_slash (map comp_text p))"

definition to_text :: "rstr \<Rightarrow> string" where
  "to_text s = map (\<lambda>b. char_of (unat b)) s"

definition module_file_aliases :: "string \<Rightarrow> string list" where
  "module_file_aliases lib = (if lib = ''libSceLibcInternal'' then [''libc''] else [])"

definition module_candidates :: "string \<Rightarrow> string \<Rightarrow> string list" where
  "module_candidates game_dir lib =
     concat (map (\<lambda>stem. [push_path game_dir (stem @ ''.prx''),
                          push_path (push_path game_dir ''sce_module'') (stem @ ''.prx'')])
       (lib # module_file_aliases lib))"

definition find_module_file :: "module_env \<Rightarrow> string \<Rightarrow> string \<Rightarrow> string option" where
  "find_module_file env game_dir lib = find (me_exists env) (module_candidates game_dir lib)"

text \<open>Read, unwrap and parse; the error is the number \<^verbatim>\<open>load_start_module\<close> answers with.\<close>

definition open_module :: "module_env \<Rightarrow> string \<Rightarrow> (nat + parsed_image) option" where
  "open_module env p =
     (case me_read env p of
        None \<Rightarrow> Some (Inl 2)
      | Some raw \<Rightarrow>
          (case container_open (me_can_alloc env) raw of
             None \<Rightarrow> None
           | Some (Inl _) \<Rightarrow> Some (Inl 22)
           | Some (Inr c) \<Rightarrow>
               (case parsed_image_parse (me_elf_parse env) (c_elf_bytes c) of
                  None \<Rightarrow> None
                | Some (Inl _) \<Rightarrow> Some (Inl 22)
                | Some (Inr img) \<Rightarrow> Some (Inr img))))"

section \<open>The module graph\<close>

type_synonym module_set = "(string \<times> string \<times> parsed_image) list"
type_synonym walk = "module_set \<times> string set \<times> string set"

definition needed :: "parsed_image \<Rightarrow> string list" where
  "needed img = map to_text (pi_needed_modules img)"

definition walk_done :: "string \<Rightarrow> string \<Rightarrow> walk \<Rightarrow> walk" where
  "walk_done lib path_key = (\<lambda>(out, loaded, loading).
     (out, insert lib (if path_key \<noteq> [] then insert path_key loaded else loaded),
      if path_key \<noteq> [] then loading - {lib} - {path_key} else loading - {lib}))"

fun collect_module_graph :: "nat \<Rightarrow> module_env \<Rightarrow> string set \<Rightarrow> string \<Rightarrow> string \<Rightarrow> walk \<Rightarrow> walk option"
  and collect_each :: "nat \<Rightarrow> module_env \<Rightarrow> string set \<Rightarrow> string \<Rightarrow> string list \<Rightarrow> walk \<Rightarrow> walk option" where
  "collect_module_graph 0 env mapped game_dir lib w = None"
| "collect_module_graph (Suc fuel) env mapped game_dir lib w =
     (case w of (out, loaded, loading) \<Rightarrow>
        if lib \<in> loaded \<or> lib \<in> loading then Some w
        else
          (let path_key = (case find_module_file env game_dir lib of Some p \<Rightarrow> p | None \<Rightarrow> []) in
           if path_key \<noteq> [] \<and> (path_key \<in> loading \<or> path_key \<in> loaded \<or> path_key \<in> mapped)
           then Some (out, insert lib loaded, loading)
           else
             (case find_module_file env game_dir lib of
                None \<Rightarrow> Some (out, insert lib loaded, loading)
              | Some path \<Rightarrow>
                  (let loading' = (if path_key \<noteq> [] then insert path_key (insert lib loading) else insert lib loading) in
                   case open_module env path of
                     None \<Rightarrow> None
                   | Some (Inl _) \<Rightarrow> Some (walk_done lib path_key (out, loaded, loading'))
                   | Some (Inr img) \<Rightarrow>
                       (case collect_each fuel env mapped game_dir (needed img) (out, loaded, loading') of
                          None \<Rightarrow> None
                        | Some (out', loaded', loading'') \<Rightarrow>
                            Some (walk_done lib path_key (out' @ [(lib, path, img)], loaded', loading'')))))))"
| "collect_each fuel env mapped game_dir [] w = Some w"
| "collect_each fuel env mapped game_dir (lib # libs) w =
     (case collect_module_graph fuel env mapped game_dir lib w of
        None \<Rightarrow> None
      | Some w' \<Rightarrow> collect_each fuel env mapped game_dir libs w')"

section \<open>The two passes\<close>

record 'ram process =
  pr_modules :: module_manager
  pr_link :: "'ram link_state"
  pr_tls_template :: "tls_info option"
  pr_module_inits :: "u64 list"
  pr_main_pthread :: u64
  pr_proc_param :: "u64 option"
  pr_loaded_by_path :: "(string \<times> module_handle) list"
  pr_loaded_module_paths :: "(string \<times> module_handle) list"

text \<open>\<^verbatim>\<open>map_image\<close> on the memory of the link state:\<close>

definition link_map ::
  "'ram ram_ops \<Rightarrow> parsed_image \<Rightarrow> string \<Rightarrow> 'ram process \<Rightarrow> ('ram process, module_handle) outcome" where
  "link_map ops img name p =
     (case map_image ops img name (pr_modules p, lk_mem (pr_link p)) of
        None \<Rightarrow> None
      | Some ((m, s), r) \<Rightarrow> Some (p\<lparr>pr_modules := m, pr_link := (pr_link p)\<lparr>lk_mem := s\<rparr>\<rparr>, r))"

fun map_pass ::
  "'ram ram_ops \<Rightarrow> module_set \<Rightarrow> 'ram process \<Rightarrow> ('ram process \<times> (module_handle \<times> parsed_image) list) option" where
  "map_pass ops [] p = Some (p, [])"
| "map_pass ops ((lib, path, img) # mods) p =
     (case link_map ops img lib p of
        None \<Rightarrow> None
      | Some (p', Inl _) \<Rightarrow> map_pass ops mods p'
      | Some (p', Inr i) \<Rightarrow>
          (case map_pass ops mods (p'\<lparr>pr_loaded_module_paths := AList.update path i (pr_loaded_module_paths p')\<rparr>) of
             None \<Rightarrow> None
           | Some (p'', mapped) \<Rightarrow> Some (p'', (i, img) # mapped)))"

definition relocate_mapped ::
  "'ram ram_ops \<Rightarrow> (rstr \<Rightarrow> rstr option) \<Rightarrow> module_handle \<Rightarrow> parsed_image \<Rightarrow> 'ram process \<Rightarrow> 'ram process option" where
  "relocate_mapped ops from_nid i img p =
     (case relocate_image ops from_nid (pr_modules p) img i (pr_link p) of
        None \<Rightarrow> None
      | Some (st, _) \<Rightarrow>
          (case map_of (modules (pr_modules p)) i of
             None \<Rightarrow> Some (p\<lparr>pr_link := st\<rparr>)
           | Some md \<Rightarrow> Some (p\<lparr>pr_link := st, pr_module_inits := pr_module_inits p @ [m_entry_point md]\<rparr>)))"

fun relocate_pass ::
  "'ram ram_ops \<Rightarrow> (rstr \<Rightarrow> rstr option) \<Rightarrow> (module_handle \<times> parsed_image) list \<Rightarrow> 'ram process \<Rightarrow> 'ram process option" where
  "relocate_pass ops from_nid [] p = Some p"
| "relocate_pass ops from_nid ((i, img) # mapped) p =
     (case relocate_mapped ops from_nid i img p of
        None \<Rightarrow> None
      | Some p' \<Rightarrow> relocate_pass ops from_nid mapped p')"

definition load_module_set :: "'ram ram_ops \<Rightarrow> (rstr \<Rightarrow> rstr option) \<Rightarrow> module_set \<Rightarrow> 'ram process \<Rightarrow> 'ram process option" where
  "load_module_set ops from_nid mods p =
     (case map_pass ops mods p of
        None \<Rightarrow> None
      | Some (p', mapped) \<Rightarrow> relocate_pass ops from_nid mapped p')"

definition linker_load_image ::
  "'ram ram_ops \<Rightarrow> (rstr \<Rightarrow> rstr option) \<Rightarrow> parsed_image \<Rightarrow> string \<Rightarrow> 'ram process \<Rightarrow> ('ram process, module_handle) outcome" where
  "linker_load_image ops from_nid img name p =
     (case load_image ops from_nid img name (pr_modules p, pr_link p) of
        None \<Rightarrow> None
      | Some ((m, st), r) \<Rightarrow> Some (p\<lparr>pr_modules := m, pr_link := st\<rparr>, r))"

definition linker_load_executable ::
  "'ram ram_ops \<Rightarrow> (rstr \<Rightarrow> rstr option) \<Rightarrow> parsed_image \<Rightarrow> string \<Rightarrow> 'ram process \<Rightarrow> ('ram process, u64) outcome" where
  "linker_load_executable ops from_nid img name p =
     (case load_executable ops from_nid img name (pr_modules p, pr_link p) of
        None \<Rightarrow> None
      | Some ((m, st), r) \<Rightarrow> Some (p\<lparr>pr_modules := m, pr_link := st\<rparr>, r))"

section \<open>Loading the executable\<close>

definition PTHREAD_SIZE :: u64 where "PTHREAD_SIZE = 0x4000"

text \<open>The main thread's block, when some module has a start routine:\<close>

definition alloc_main_pthread :: "'ram ram_ops \<Rightarrow> 'ram process \<Rightarrow> ('ram process, unit) outcome" where
  "alloc_main_pthread ops p =
     (if pr_module_inits p = [] then Some (p, Inr ())
      else case vmm_map ops (lk_mem (pr_link p)) 0 PTHREAD_SIZE (PROT_READ OR PROT_WRITE) (Some ''main_pthread'') of
             None \<Rightarrow> None
           | Some (s, Inl e) \<Rightarrow> Some (p\<lparr>pr_link := (pr_link p)\<lparr>lk_mem := s\<rparr>\<rparr>, Inl (MemoryErr e))
           | Some (s, Inr pthread) \<Rightarrow>
               (case zero_memory ops s pthread PTHREAD_SIZE of
                  (s', Inl e) \<Rightarrow> Some (p\<lparr>pr_link := (pr_link p)\<lparr>lk_mem := s'\<rparr>\<rparr>, Inl (MemoryErr e))
                | (s', Inr _) \<Rightarrow>
                    Some (p\<lparr>pr_link := (pr_link p)\<lparr>lk_mem := s'\<rparr>, pr_main_pthread := pthread\<rparr>, Inr ())))"

definition set_proc_param :: "parsed_image \<Rightarrow> 'ram process \<Rightarrow> 'ram process" where
  "set_proc_param img p =
     (case (pi_proc_param_vaddr img, get_by_name (pr_modules p) ''eboot.bin'') of
        (Some pp, Some eboot) \<Rightarrow> p\<lparr>pr_proc_param := Some (m_base_addr eboot + pp)\<rparr>
      | _ \<Rightarrow> p)"

definition proc_load_executable ::
  "nat \<Rightarrow> 'ram ram_ops \<Rightarrow> module_env \<Rightarrow> path \<Rightarrow> 'ram process \<Rightarrow> ('ram process, u64) outcome" where
  "proc_load_executable fuel ops env filename p =
     (case open_module env (path_text filename) of
        None \<Rightarrow> None
      | Some (Inl _) \<Rightarrow> Some (p, Inl IoError)
      | Some (Inr img) \<Rightarrow>
          (let p1 = (case pi_tls img of Some info \<Rightarrow> p\<lparr>pr_tls_template := Some info\<rparr> | None \<Rightarrow> p);
               game_dir = (case path_parent filename of Some d \<Rightarrow> path_text d | None \<Rightarrow> ''.'')
           in case collect_each fuel env (fst ` set (pr_loaded_module_paths p1)) game_dir (needed img) ([], {}, {}) of
                None \<Rightarrow> None
              | Some (mods, _, _) \<Rightarrow>
                  (case load_module_set ops (me_from_nid env) mods p1 of
                     None \<Rightarrow> None
                   | Some p2 \<Rightarrow>
                       obind (linker_load_executable ops (me_from_nid env) img ''eboot.bin'' p2) (\<lambda>p3 entry_point.
                         obind (alloc_main_pthread ops (set_proc_param img p3)) (\<lambda>p4 _.
                           Some (p4, Inr entry_point))))))"

section \<open>Modules loaded at run time\<close>

definition stem_of :: "string \<Rightarrow> string" where
  "stem_of name =
     (let r = dropWhile (\<lambda>c. c \<noteq> CHR ''.'') (rev name) in if r = [] \<or> tl r = [] then name else rev (tl r))"

definition game_dir_of :: "path \<Rightarrow> string" where
  "game_dir_of host_of =
     (let dir = (case path_parent host_of of Some d \<Rightarrow> d | None \<Rightarrow> []) in
      if path_parent host_of = None then ''.''
      else if path_file_name dir = Some ''sce_module''
      then path_text (case path_parent dir of Some d \<Rightarrow> d | None \<Rightarrow> dir) else path_text dir)"

text \<open>The load itself, once no table knows the module: dependencies first, then the target.\<close>

definition runtime_load ::
  "nat \<Rightarrow> 'ram ram_ops \<Rightarrow> module_env \<Rightarrow> path \<Rightarrow> string \<Rightarrow> 'ram process \<Rightarrow>
   ('ram process \<times> (nat + (module_handle \<times> u64 list))) option" where
  "runtime_load fuel ops env host lib_name p =
     (case open_module env (path_text host) of
        None \<Rightarrow> None
      | Some (Inl e) \<Rightarrow> Some (p, Inl e)
      | Some (Inr img) \<Rightarrow>
          (case collect_each fuel env (fst ` set (pr_loaded_module_paths p)) (game_dir_of host) (needed img) ([], {lib_name}, {}) of
             None \<Rightarrow> None
           | Some (deps, _, _) \<Rightarrow>
               (case load_module_set ops (me_from_nid env) deps p of
                  None \<Rightarrow> None
                | Some p1 \<Rightarrow>
                    (let dep_starts = drop (length (pr_module_inits p)) (pr_module_inits p1);
                         p2 = p1\<lparr>pr_module_inits := take (length (pr_module_inits p)) (pr_module_inits p1)\<rparr>
                     in case linker_load_image ops (me_from_nid env) img lib_name p2 of
                          None \<Rightarrow> None
                        | Some (p3, Inl _) \<Rightarrow> Some (p3, Inl 22)
                        | Some (p3, Inr handle) \<Rightarrow>
                            (let target = (case map_of (modules (pr_modules p3)) handle of
                                   Some md \<Rightarrow> if m_entry_point md \<noteq> 0 then [m_entry_point md] else []
                                 | None \<Rightarrow> [])
                             in Some (p3, Inr (handle, dep_starts @ target)))))))"

definition cache_path :: "string \<Rightarrow> module_handle \<Rightarrow> 'ram process \<Rightarrow> 'ram process" where
  "cache_path guest_path handle p = p\<lparr>pr_loaded_by_path := AList.update guest_path handle (pr_loaded_by_path p)\<rparr>"

definition load_start_module ::
  "nat \<Rightarrow> 'ram ram_ops \<Rightarrow> module_env \<Rightarrow> (string \<Rightarrow> path option) \<Rightarrow> string \<Rightarrow> 'ram process \<Rightarrow>
   ('ram process \<times> (nat + (module_handle \<times> u64 list))) option" where
  "load_start_module fuel ops env host_of guest_path p =
     (case map_of (pr_loaded_by_path p) guest_path of
        Some handle \<Rightarrow> Some (p, Inr (handle, []))
      | None \<Rightarrow>
          (let lib_name = (case path_file_name (path_join [] guest_path) of Some n \<Rightarrow> stem_of n | None \<Rightarrow> ''module'')
           in case get_by_name (pr_modules p) lib_name of
                Some existing \<Rightarrow> Some (cache_path guest_path (m_id existing) p, Inr (m_id existing, []))
              | None \<Rightarrow>
                  (case host_of guest_path of
                     None \<Rightarrow> Some (p, Inl 2)
                   | Some host \<Rightarrow>
                       (case map_of (pr_loaded_module_paths p) (path_text host) of
                          Some handle \<Rightarrow> Some (cache_path guest_path handle p, Inr (handle, []))
                        | None \<Rightarrow>
                            (case runtime_load fuel ops env host lib_name p of
                               None \<Rightarrow> None
                             | Some (p', Inl e) \<Rightarrow> Some (p', Inl e)
                             | Some (p', Inr (handle, starts)) \<Rightarrow>
                                 Some (cache_path guest_path handle p', Inr (handle, starts)))))))"

definition module_dlsym :: "module_env \<Rightarrow> module_manager \<Rightarrow> module_handle \<Rightarrow> rstr \<Rightarrow> u64 option" where
  "module_dlsym env m handle name =
     (case map_of (modules m) handle of
        None \<Rightarrow> None
      | Some md \<Rightarrow>
          (case m_exports md name of
             Some addr \<Rightarrow> Some addr
           | None \<Rightarrow> (case me_nid_of_name env name of None \<Rightarrow> None | Some nid \<Rightarrow> m_exports md nid)))"

section \<open>The walk ends, and visits each file once\<close>

lemma find_Some_in: "find P xs = Some x \<Longrightarrow> x \<in> set xs \<and> P x"
  by (induction xs) (auto split: if_splits)

lemma push_path_nonempty: "s \<noteq> [] \<Longrightarrow> push_path d s \<noteq> []"
  by (auto simp: push_path_def)

definition prx :: "string \<Rightarrow> bool" where
  "prx s \<longleftrightarrow> suffix ''.prx'' s"

lemma push_path_prx: "prx (push_path d (stem @ ''.prx''))"
  by (auto simp: push_path_def prx_def suffix_def)

lemma find_module_file_prx: "find_module_file env d lib = Some p \<Longrightarrow> p \<noteq> [] \<and> me_exists env p \<and> prx p"
proof -
  assume "find_module_file env d lib = Some p"
  then have p: "p \<in> set (module_candidates d lib)" "me_exists env p"
    using find_Some_in unfolding find_module_file_def by fast+
  from p(1) obtain d' stem where "p = push_path d' (stem @ ''.prx'')"
    by (auto simp: module_candidates_def)
  then show ?thesis using p(2) push_path_prx push_path_nonempty[of "stem @ ''.prx''" d'] by simp
qed

lemma open_module_total: "open_module env p \<noteq> None"
  using container_open_not_None parsed_image_parse_not_None
  by (auto simp: open_module_def split: option.splits sum.splits simp del: not_None_eq)

definition files_of :: "module_set \<Rightarrow> string list" where
  "files_of out = map (\<lambda>(lib, path, img). path) out"

definition unreadable :: "module_env \<Rightarrow> string \<Rightarrow> bool" where
  "unreadable env p \<longleftrightarrow> (\<exists>e. open_module env p = Some (Inl e))"

text \<open>
  What the walk keeps (\<open>seeds\<close> are the names it starts out as done): a file is collected at most once
  and never when it is mapped already; every name a collected module needs is done or in progress;
  and a name that is done has no file, or its file is collected, mapped, in progress or unreadable.
\<close>

definition walk_ok :: "module_env \<Rightarrow> string set \<Rightarrow> string \<Rightarrow> string set \<Rightarrow> walk \<Rightarrow> bool" where
  "walk_ok env mapped d seeds = (\<lambda>(out, loaded, loading).
     loaded \<inter> loading = {} \<and> distinct (files_of out) \<and> set (files_of out) \<subseteq> loaded \<and> set (files_of out) \<inter> mapped = {} \<and>
     (\<forall>(lib, path, img) \<in> set out. open_module env path = Some (Inr img) \<and> set (needed img) \<subseteq> loaded \<union> loading) \<and>
     (\<forall>q \<in> loaded. prx q \<longrightarrow> q \<in> set (files_of out) \<or> unreadable env q) \<and>
     (\<forall>l \<in> loaded - seeds. \<not> prx l \<longrightarrow> (\<forall>p. find_module_file env d l = Some p \<longrightarrow>
        p \<in> set (files_of out) \<union> mapped \<union> loading \<or> unreadable env p)))"

lemma walk_okD:
  assumes "walk_ok env mapped d seeds (out, loaded, loading)"
  shows "loaded \<inter> loading = {}" and "distinct (files_of out)" and "set (files_of out) \<subseteq> loaded"
    and "set (files_of out) \<inter> mapped = {}"
    and "(lib, path, img) \<in> set out \<Longrightarrow> open_module env path = Some (Inr img)"
    and "(lib, path, img) \<in> set out \<Longrightarrow> set (needed img) \<subseteq> loaded \<union> loading"
    and "q \<in> loaded \<Longrightarrow> prx q \<Longrightarrow> q \<in> set (files_of out) \<or> unreadable env q"
    and "l \<in> loaded \<Longrightarrow> l \<notin> seeds \<Longrightarrow> \<not> prx l \<Longrightarrow> find_module_file env d l = Some p \<Longrightarrow>
      p \<in> set (files_of out) \<union> mapped \<union> loading \<or> unreadable env p"
  using assms by (auto simp: walk_ok_def)

lemma walk_okI:
  assumes "loaded \<inter> loading = {}" and "distinct (files_of out)" and "set (files_of out) \<subseteq> loaded"
    and "set (files_of out) \<inter> mapped = {}"
    and "\<And>lib path img. (lib, path, img) \<in> set out \<Longrightarrow> open_module env path = Some (Inr img) \<and> set (needed img) \<subseteq> loaded \<union> loading"
    and "\<And>q. q \<in> loaded \<Longrightarrow> prx q \<Longrightarrow> q \<in> set (files_of out) \<or> unreadable env q"
    and "\<And>l p. l \<in> loaded \<Longrightarrow> l \<notin> seeds \<Longrightarrow> \<not> prx l \<Longrightarrow> find_module_file env d l = Some p \<Longrightarrow>
      p \<in> set (files_of out) \<union> mapped \<union> loading \<or> unreadable env p"
  shows "walk_ok env mapped d seeds (out, loaded, loading)"
  unfolding walk_ok_def prod.case using assms by blast

lemma walk_ok_enter:
  assumes ok: "walk_ok env mapped d seeds (out, loaded, loading)" and "K \<inter> loaded = {}"
  shows "walk_ok env mapped d seeds (out, loaded, loading \<union> K)"
proof (rule walk_okI)
  note D = walk_okD[OF ok]
  show "loaded \<inter> (loading \<union> K) = {}" using D(1) assms(2) by blast
  show "open_module env path = Some (Inr img) \<and> set (needed img) \<subseteq> loaded \<union> (loading \<union> K)"
    if "(lib, path, img) \<in> set out" for lib path img using D(5,6)[OF that] by blast
  show "p \<in> set (files_of out) \<union> mapped \<union> (loading \<union> K) \<or> unreadable env p"
    if "l \<in> loaded" "l \<notin> seeds" "\<not> prx l" "find_module_file env d l = Some p" for l p using D(8)[OF that] by blast
qed (use walk_okD(2-4,7)[OF ok] in auto)

lemma walk_ok_skip:
  assumes ok: "walk_ok env mapped d seeds (out, loaded, loading)" and "lib \<notin> loading" and "\<not> prx lib"
    and "\<And>p. find_module_file env d lib = Some p \<Longrightarrow> p \<in> set (files_of out) \<union> mapped \<union> loading \<or> unreadable env p"
  shows "walk_ok env mapped d seeds (out, insert lib loaded, loading)"
proof (rule walk_okI)
  note D = walk_okD[OF ok]
  show "insert lib loaded \<inter> loading = {}" using D(1) assms(2) by blast
  show "open_module env path = Some (Inr img) \<and> set (needed img) \<subseteq> insert lib loaded \<union> loading"
    if "(lib', path, img) \<in> set out" for lib' path img using D(5,6)[OF that] by blast
  show "q \<in> set (files_of out) \<or> unreadable env q" if "q \<in> insert lib loaded" "prx q" for q
    using D(7)[of q] that assms(3) by blast
  show "p \<in> set (files_of out) \<union> mapped \<union> loading \<or> unreadable env p"
    if "l \<in> insert lib loaded" "l \<notin> seeds" "\<not> prx l" "find_module_file env d l = Some p" for l p
    using D(8)[of l p] that assms(4) by blast
qed (use walk_okD(2-4)[OF ok] in auto)

text \<open>A file leaves the walk: collected, or unreadable.\<close>

lemma walk_ok_leave:
  assumes ok: "walk_ok env mapped d seeds (out, loaded, loading \<union> {lib, path})"
    and "lib \<notin> loading" "path \<notin> loading" and "\<not> prx lib" and "path \<notin> mapped"
    and new: "new = [] \<and> unreadable env path \<or> new = [(lib, path, img)] \<and> open_module env path = Some (Inr img) \<and>
      set (needed img) \<subseteq> loaded \<union> (loading \<union> {lib, path})"
    and found: "find_module_file env d lib = Some path"
  shows "walk_ok env mapped d seeds (out @ new, insert lib (insert path loaded), loading)"
proof (rule walk_okI)
  note D = walk_okD[OF ok]
  have fresh: "path \<notin> set (files_of out)" using D(1,3) by blast
  have fset: "set (files_of (out @ new)) = set (files_of out) \<union> (if new = [] then {} else {path})"
    using new by (auto simp: files_of_def)
  have settled: "path \<in> set (files_of (out @ new)) \<or> unreadable env path" using new fset by auto
  show "insert lib (insert path loaded) \<inter> loading = {}" using D(1) assms(2,3) by blast
  show "distinct (files_of (out @ new))" 
    using D(2) fresh new unfolding files_of_def by (elim disjE) simp_all
  show "set (files_of (out @ new)) \<subseteq> insert lib (insert path loaded)" using D(3) fset by auto
  show "set (files_of (out @ new)) \<inter> mapped = {}" using D(4) fset assms(5) by auto
  show "open_module env path' = Some (Inr img') \<and> set (needed img') \<subseteq> insert lib (insert path loaded) \<union> loading"
    if m: "(lib', path', img') \<in> set (out @ new)" for lib' path' img'
  proof (cases "(lib', path', img') \<in> set out")
    case True
    then show ?thesis using D(5,6)[OF True] by blast
  next
    case False
    then show ?thesis using m new by auto
  qed
  show "q \<in> set (files_of (out @ new)) \<or> unreadable env q" if "q \<in> insert lib (insert path loaded)" "prx q" for q
    using that D(7)[of q] assms(4) settled fset by blast
  show "p \<in> set (files_of (out @ new)) \<union> mapped \<union> loading \<or> unreadable env p"
    if l: "l \<in> insert lib (insert path loaded)" "l \<notin> seeds" "\<not> prx l" "find_module_file env d l = Some p" for l p
  proof -
    have pp: "prx p" "prx path" using find_module_file_prx l(4) found by blast+
    consider "l = lib" | "l \<in> loaded" using l(1,3) pp(2) by blast
    then show ?thesis
    proof cases
      case 1
      then show ?thesis using l(4) found settled by auto
    next
      case 2
      have "p \<in> set (files_of out) \<union> mapped \<union> (loading \<union> {lib, path}) \<or> unreadable env p" using D(8)[OF 2 l(2-4)] .
      then show ?thesis using fset settled pp(1) assms(4) by blast
    qed
  qed
qed

definition covers :: "module_env \<Rightarrow> string \<Rightarrow> string set \<Rightarrow> bool" where
  "covers env d fset \<longleftrightarrow> finite fset \<and> (\<forall>lib p. find_module_file env d lib = Some p \<longrightarrow> p \<in> fset)"

definition plain_names :: "module_env \<Rightarrow> bool" where
  "plain_names env \<longleftrightarrow> (\<forall>p img. open_module env p = Some (Inr img) \<longrightarrow> list_all (\<lambda>l. \<not> prx l) (needed img))"

definition walk_step :: "module_env \<Rightarrow> string set \<Rightarrow> string \<Rightarrow> string set \<Rightarrow> string list \<Rightarrow> walk \<Rightarrow> walk option \<Rightarrow> bool" where
  "walk_step env mapped d seeds libs w res \<longleftrightarrow>
     (\<exists>w'. res = Some w' \<and> walk_ok env mapped d seeds w' \<and> snd (snd w') = snd (snd w) \<and>
        fst (snd w) \<subseteq> fst (snd w') \<and> set libs \<subseteq> fst (snd w') \<union> snd (snd w'))"

lemma collect_each_step:
  assumes step: "\<And>lib w. walk_ok env mapped d seeds w \<Longrightarrow> \<not> prx lib \<Longrightarrow> card (fset - snd (snd w)) < fuel \<Longrightarrow>
      walk_step env mapped d seeds [lib] w (collect_module_graph fuel env mapped d lib w)"
  shows "walk_ok env mapped d seeds w \<Longrightarrow> list_all (\<lambda>l. \<not> prx l) libs \<Longrightarrow> card (fset - snd (snd w)) < fuel \<Longrightarrow>
      walk_step env mapped d seeds libs w (collect_each fuel env mapped d libs w)"
proof (induction libs arbitrary: w)
  case (Cons lib libs)
  obtain w1 where w1: "collect_module_graph fuel env mapped d lib w = Some w1" "walk_ok env mapped d seeds w1"
    "snd (snd w1) = snd (snd w)" "fst (snd w) \<subseteq> fst (snd w1)" "lib \<in> fst (snd w1) \<union> snd (snd w1)"
    using step[OF Cons.prems(1) _ Cons.prems(3), of lib] Cons.prems(2) by (auto simp: walk_step_def)
  have "walk_step env mapped d seeds libs w1 (collect_each fuel env mapped d libs w1)"
    by (rule Cons.IH[OF w1(2)]) (use Cons.prems w1(3) in auto)
  then obtain w2 where "collect_each fuel env mapped d libs w1 = Some w2" "walk_ok env mapped d seeds w2"
    "snd (snd w2) = snd (snd w1)" "fst (snd w1) \<subseteq> fst (snd w2)" "set libs \<subseteq> fst (snd w2) \<union> snd (snd w2)"
    by (auto simp: walk_step_def)
  moreover from this have "set (lib # libs) \<subseteq> fst (snd w2) \<union> snd (snd w2)" using w1(3,5) by auto
  ultimately show ?case using w1 unfolding walk_step_def
    by (intro exI[of _ w2]) (simp add: order_trans[of "fst (snd w)" "fst (snd w1)"])
qed (simp add: walk_step_def)

lemma collect_graph_step:
  assumes cov: "covers env d fset" and plain: "plain_names env"
  shows "walk_ok env mapped d seeds w \<Longrightarrow> \<not> prx lib \<Longrightarrow> card (fset - snd (snd w)) < fuel \<Longrightarrow>
      walk_step env mapped d seeds [lib] w (collect_module_graph fuel env mapped d lib w)"
proof (induction fuel arbitrary: lib w)
  case (Suc fuel)
  obtain out loaded loading where w: "w = (out, loaded, loading)" by (metis prod_cases3)
  note ok = Suc.prems(1)[unfolded w] and np = Suc.prems(2)
  show ?case
  proof (cases "lib \<in> loaded \<or> lib \<in> loading")
    case True
    then show ?thesis using Suc.prems(1) by (auto simp: w walk_step_def)
  next
    case out_of: False
    show ?thesis
    proof (cases "find_module_file env d lib")
      case None
      have "walk_ok env mapped d seeds (out, insert lib loaded, loading)"
        by (rule walk_ok_skip[OF ok _ np]) (use out_of None in auto)
      then show ?thesis using out_of None by (auto simp: w walk_step_def)
    next
      case (Some path)
      note found = find_module_file_prx[OF Some]
      show ?thesis
      proof (cases "path \<in> loading \<or> path \<in> loaded \<or> path \<in> mapped")
        case True
        have "walk_ok env mapped d seeds (out, insert lib loaded, loading)"
          by (rule walk_ok_skip[OF ok _ np]) (use out_of Some True walk_okD(7)[OF ok, of path] found in auto)
        then show ?thesis using out_of Some True found by (auto simp: w walk_step_def)
      next
        case False
        have dl: "path \<noteq> lib" using found np by auto
        have enter: "walk_ok env mapped d seeds (out, loaded, loading \<union> {lib, path})"
          by (rule walk_ok_enter[OF ok]) (use out_of False in auto)
        have ins: "insert path (insert lib loading) = loading \<union> {lib, path}" by blast
        have leave: "loading \<union> {lib, path} - {lib} - {path} = loading" using out_of False by blast
        have leave': "walk_ok env mapped d seeds (out' @ new, insert lib (insert path loaded'), loading)"
          if "walk_ok env mapped d seeds (out', loaded', loading \<union> {lib, path})"
            "new = [] \<and> unreadable env path \<or> new = [(lib, path, img)] \<and> open_module env path = Some (Inr img) \<and>
              set (needed img) \<subseteq> loaded' \<union> (loading \<union> {lib, path})" for out' loaded' new img
          by (rule walk_ok_leave[OF that(1) _ _ np _ that(2) Some]) (use out_of False in auto)
        obtain r where r: "open_module env path = Some r" using open_module_total[of env path] by auto
        show ?thesis
        proof (cases r)
          case (Inl e)
          then have "walk_ok env mapped d seeds (out @ [], insert lib (insert path loaded), loading)"
            using leave'[OF enter, of "[]"] r by (auto simp: unreadable_def)
          moreover have "collect_module_graph (Suc fuel) env mapped d lib w = Some (out, insert lib (insert path loaded), loading)"
            using out_of Some False found r Inl by (simp add: w walk_done_def) blast
          ultimately show ?thesis by (auto simp: w walk_step_def)
        next
          case (Inr img)
          have "fset - (loading \<union> {lib, path}) \<subset> fset - loading" using cov Some False unfolding covers_def by blast
          then have "card (fset - (loading \<union> {lib, path})) < card (fset - loading)"
            using cov by (intro psubset_card_mono) (simp_all add: covers_def)
          then have fuel: "card (fset - (loading \<union> {lib, path})) < fuel" using Suc.prems(3) by (simp add: w)
          have "list_all (\<lambda>l. \<not> prx l) (needed img)" using plain r Inr by (simp add: plain_names_def)
          then have "walk_step env mapped d seeds (needed img) (out, loaded, loading \<union> {lib, path})
              (collect_each fuel env mapped d (needed img) (out, loaded, loading \<union> {lib, path}))"
            using collect_each_step[of env mapped d seeds fset fuel, OF Suc.IH enter] fuel by simp
          then obtain out' loaded' where c: "collect_each fuel env mapped d (needed img) (out, loaded, loading \<union> {lib, path}) =
              Some (out', loaded', loading \<union> {lib, path})"
            "walk_ok env mapped d seeds (out', loaded', loading \<union> {lib, path})" "loaded \<subseteq> loaded'"
            "set (needed img) \<subseteq> loaded' \<union> (loading \<union> {lib, path})"
            by (auto simp: walk_step_def)
          have "walk_ok env mapped d seeds (out' @ [(lib, path, img)], insert lib (insert path loaded'), loading)"
            using leave'[OF c(2), of "[(lib, path, img)]" img] r Inr c(4) by simp
          moreover have "collect_module_graph (Suc fuel) env mapped d lib w =
              Some (out' @ [(lib, path, img)], insert lib (insert path loaded'), loading)"
            using out_of Some False found r Inr c(1) by (simp add: w walk_done_def ins leave del: Un_insert_right)
          ultimately show ?thesis using c(3) by (auto simp: w walk_step_def)
        qed
      qed
    qed
  qed
qed simp

section \<open>Mapping registers, relocation does not\<close>

definition handles_below :: "module_manager \<Rightarrow> bool" where
  "handles_below m \<longleftrightarrow> (\<forall>k \<in> fst ` set (modules m). unat k < unat (next_id m))"

lemma map_image_modules:
  assumes "map_image ops img name (m, s) = Some ((m', s'), r)" and "handles_below m" and "unat (next_id m) < 2 ^ 32 - 1"
  shows "handles_below m'" and "unat (next_id m') = unat (next_id m) + 1"
    and "r = Inr i \<Longrightarrow> \<exists>base. modules m' = modules m @ [(i, image_module img i base name)]"
    and "r = Inl e \<Longrightarrow> modules m' = modules m"
proof -
  have new: "next_id m \<notin> fst ` set (modules m)" using assms(2) by (auto simp: handles_below_def)
  have u: "unat (next_id m + 1) = unat (next_id m) + 1" using assms(3) by (simp add: unat_add_nowrap)
  obtain al base where ab: "(if 0 < pi_memory_size img then allocate (allocator m) (pi_memory_size img) else (allocator m, 0)) = (al, base)"
    by fastforce
  let ?md = "image_module img (next_id m) base name" and ?m2 = "m\<lparr>next_id := next_id m + 1, allocator := al\<rparr>"
  have eq: "map_image ops img name (m, s) = (case map_segments ops base name (pi_segments img) s of
      None \<Rightarrow> None | Some (s', Inl e) \<Rightarrow> Some ((?m2, s'), Inl e)
    | Some (s', Inr _) \<Rightarrow> Some ((register_module ?md ?m2, s'), Inr (next_id m)))"
    using ab by (cases "0 < pi_memory_size img") (auto simp: map_image_def get_next_handle_def Let_def)
  have reg: "modules (register_module ?md ?m2) = modules m @ [(next_id m, ?md)]"
    using new by (simp add: register_module_def image_module_def update_new)
  have "r = Inr (next_id m) \<and> m' = register_module ?md ?m2 \<or> (\<exists>e. r = Inl e) \<and> m' = ?m2"
    using assms(1) unfolding eq by (auto split: option.splits prod.splits sum.splits)
  then have m': "r = Inr (next_id m) \<and> modules m' = modules m @ [(next_id m, ?md)] \<or> (\<exists>e. r = Inl e) \<and> modules m' = modules m"
    and n: "next_id m' = next_id m + 1"
    using reg by (auto simp: register_module_def)
  have "fst ` set (modules m') \<subseteq> insert (next_id m) (fst ` set (modules m))" using m' by auto
  moreover have "unat k < unat (next_id m) + 1" if "k \<in> insert (next_id m) (fst ` set (modules m))" for k
    using that assms(2) by (auto simp: handles_below_def)
  ultimately show "handles_below m'" unfolding handles_below_def n u by blast
  show "unat (next_id m') = unat (next_id m) + 1" using n u by simp
  show "r = Inr i \<Longrightarrow> \<exists>base. modules m' = modules m @ [(i, image_module img i base name)]" using m' by auto
  show "r = Inl e \<Longrightarrow> modules m' = modules m" using m' by auto
qed

lemma map_pass_spec:
  assumes "map_pass ops mods p = Some (p', mapped)" and "handles_below (pr_modules p)"
    and "unat (next_id (pr_modules p)) + length mods < 2 ^ 32"
  shows "(\<exists>new. modules (pr_modules p') = modules (pr_modules p) @ new) \<and>
    missing_symbols (pr_link p') = missing_symbols (pr_link p) \<and>
    (\<forall>(i, img) \<in> set mapped. \<exists>lib path. (lib, path, img) \<in> set mods) \<and>
    (\<forall>path i. map_of (pr_loaded_module_paths p') path = Some i \<and> map_of (pr_loaded_module_paths p) path \<noteq> Some i \<longrightarrow>
       (\<exists>lib img base. (lib, path, img) \<in> set mods \<and> (i, image_module img i base lib) \<in> set (modules (pr_modules p'))))"
  using assms
proof (induction mods arbitrary: p mapped)
  case (Cons x mods)
  obtain lib path img where x: "x = (lib, path, img)" by (metis prod_cases3)
  obtain p1 r where l: "link_map ops img lib p = Some (p1, r)"
    using Cons.prems(1) by (auto simp: x split: option.splits)
  then have m: "map_image ops img lib (pr_modules p, lk_mem (pr_link p)) = Some ((pr_modules p1, lk_mem (pr_link p1)), r)"
    and keep: "missing_symbols (pr_link p1) = missing_symbols (pr_link p)" "pr_loaded_module_paths p1 = pr_loaded_module_paths p"
    by (auto simp: link_map_def split: option.splits prod.splits)
  have lt: "unat (next_id (pr_modules p)) < 2 ^ 32 - 1" using Cons.prems(3) by simp
  note M = map_image_modules[OF m Cons.prems(2) lt]
  have room: "unat (next_id (pr_modules p1)) + length mods < 2 ^ 32" using Cons.prems(3) M(2) by simp
  show ?case
  proof (cases r)
    case (Inl e)
    then have "map_pass ops mods p1 = Some (p', mapped)" using Cons.prems(1) l by (simp add: x)
    note IH = Cons.IH[OF this M(1) room]
    have "\<exists>lib' img' base. (lib', q, img') \<in> set (x # mods) \<and> (j, image_module img' j base lib') \<in> set (modules (pr_modules p'))"
      if "map_of (pr_loaded_module_paths p') q = Some j" "map_of (pr_loaded_module_paths p) q \<noteq> Some j" for q j
    proof -
      have "\<exists>lib' img' base. (lib', q, img') \<in> set mods \<and> (j, image_module img' j base lib') \<in> set (modules (pr_modules p'))"
        using IH[THEN conjunct2, THEN conjunct2, THEN conjunct2, rule_format, of q j] that unfolding keep by blast
      then show ?thesis by auto
    qed
    moreover have "\<forall>(i, img) \<in> set mapped. \<exists>lib path. (lib, path, img) \<in> set (x # mods)" using IH by fastforce
    ultimately show ?thesis using IH unfolding M(4)[OF Inl] keep by blast
  next
    case (Inr i)
    let ?p2 = "p1\<lparr>pr_loaded_module_paths := AList.update path i (pr_loaded_module_paths p1)\<rparr>"
    obtain mapped' where mp: "map_pass ops mods ?p2 = Some (p', mapped')" "mapped = (i, img) # mapped'"
      using Cons.prems(1) l Inr by (auto simp: x split: option.splits)
    obtain base where b: "modules (pr_modules p1) = modules (pr_modules p) @ [(i, image_module img i base lib)]"
      using M(3)[OF Inr] by blast
    note IH = Cons.IH[OF mp(1)]
    have IH1: "\<exists>new. modules (pr_modules p') = modules (pr_modules p1) @ new" "missing_symbols (pr_link p') = missing_symbols (pr_link p1)"
      "\<forall>(i, img) \<in> set mapped'. \<exists>lib path. (lib, path, img) \<in> set mods"
      "\<And>q j. map_of (pr_loaded_module_paths p') q = Some j \<Longrightarrow> map_of (pr_loaded_module_paths ?p2) q \<noteq> Some j \<Longrightarrow>
       (\<exists>lib img base. (lib, q, img) \<in> set mods \<and> (j, image_module img j base lib) \<in> set (modules (pr_modules p')))"
      using IH M(1) room by simp_all
    have "\<exists>lib' img' base. (lib', q, img') \<in> set (x # mods) \<and> (j, image_module img' j base lib') \<in> set (modules (pr_modules p'))"
      if q: "map_of (pr_loaded_module_paths p') q = Some j" "map_of (pr_loaded_module_paths p) q \<noteq> Some j" for q j
    proof (cases "map_of (pr_loaded_module_paths ?p2) q = Some j")
      case True
      then have "q = path" "j = i" using q(2) keep(2) by (auto simp: update_conv' split: if_splits)
      moreover have "(i, image_module img i base lib) \<in> set (modules (pr_modules p'))" using IH1(1) b by auto
      moreover have "(lib, path, img) \<in> set (x # mods)" by (simp add: x)
      ultimately show ?thesis by blast
    next
      case False
      then show ?thesis using IH1(4)[OF q(1)] by auto
    qed
    moreover have "\<forall>(i, img) \<in> set mapped. \<exists>lib path. (lib, path, img) \<in> set (x # mods)"
    proof -
      have "\<exists>lib path. (lib, path, img') \<in> set (x # mods)" if "(i', img') \<in> set mapped'" for i' img'
        using IH1(3) that by fastforce
      moreover have "(lib, path, img) \<in> set (x # mods)" by (simp add: x)
      ultimately show ?thesis unfolding mp(2) by auto
    qed
    moreover have "\<exists>new. modules (pr_modules p') = modules (pr_modules p) @ new" using IH1(1) b by auto
    ultimately show ?thesis using IH1(2) keep(1) by simp
  qed
qed auto

definition names_missing :: "(rstr \<Rightarrow> rstr) \<Rightarrow> module_manager \<Rightarrow> 'ram link_state \<Rightarrow> 'ram link_state \<Rightarrow> bool" where
  "names_missing display m st st' \<longleftrightarrow> (\<exists>ns. missing_symbols st' = missing_symbols st @ map display ns \<and>
     (\<forall>n \<in> set ns. resolve_symbol m n = None))"

lemma names_missing_refl: "missing_symbols st' = missing_symbols st \<Longrightarrow> names_missing display m st st'"
  by (auto simp: names_missing_def intro: exI[of _ "[]"])

lemma names_missing_trans:
  assumes "names_missing display m st st1" and "names_missing display m st1 st2"
  shows "names_missing display m st st2"
proof -
  obtain ns1 ns2 where "missing_symbols st1 = missing_symbols st @ map display ns1" "\<forall>n \<in> set ns1. resolve_symbol m n = None"
    "missing_symbols st2 = missing_symbols st1 @ map display ns2" "\<forall>n \<in> set ns2. resolve_symbol m n = None"
    using assms by (auto simp: names_missing_def)
  then show ?thesis unfolding names_missing_def by (intro exI[of _ "ns1 @ ns2"]) auto
qed

lemma put_usize_missing: "put_usize ops f t v st = Some (st', r) \<Longrightarrow> missing_symbols st' = missing_symbols st"
  by (auto simp: put_usize_def map_err_def split: option.splits prod.splits)

lemma alloc_missing_stub_missing:
  "alloc_missing_stub ops (display n) st = Some (st', r) \<Longrightarrow> resolve_symbol m n = None \<Longrightarrow> names_missing display m st st'"
  unfolding names_missing_def
  by (rule exI[of _ "if missing_symbols st' = missing_symbols st then [] else [n]"])
    (auto simp: alloc_missing_stub_def register_missing_symbol_def obind_def map_err_def Let_def
      split: if_splits prod.splits sum.splits)

lemma obind_Some:
  "obind x f = Some (s, r) \<Longrightarrow> (\<exists>e. x = Some (s, Inl e) \<and> r = Inl e) \<or> (\<exists>s1 y. x = Some (s1, Inr y) \<and> f s1 y = Some (s, r))"
  by (auto simp: obind_def split: option.splits prod.splits sum.splits)

lemma apply_reloc_missing:
  assumes "apply_reloc ops display m i base r st = Some (st', res)"
  shows "names_missing display m st st'"
proof -
  have stub: "names_missing display m st st'"
    if "obind (alloc_missing_stub ops (display n) st) (\<lambda>st a. put_usize ops f t (g a) st) = Some (st', res)"
      "resolve_symbol m n = None" for f t g n
    using obind_Some[OF that(1)]
  proof (elim disjE exE conjE)
    fix e assume "alloc_missing_stub ops (display n) st = Some (st', Inl e)"
    then show ?thesis by (rule alloc_missing_stub_missing[OF _ that(2)])
  next
    fix s1 y assume a: "alloc_missing_stub ops (display n) st = Some (s1, Inr y)" "put_usize ops f t (g y) s1 = Some (st', res)"
    show ?thesis
      using alloc_missing_stub_missing[of ops display n st s1 "Inr y" m, OF a(1) that(2)]
        names_missing_refl[OF put_usize_missing[OF a(2)]] by (rule names_missing_trans)
  qed
  have put: "names_missing display m st st'" if "put_usize ops f t v st = Some (st', res)" for f t v
    by (rule names_missing_refl[OF put_usize_missing[OF that]])
  have idle: "names_missing display m st st'" if "Some (st, Inr ()) = Some (st', res)"
    using that by (intro names_missing_refl) simp
  show ?thesis
    using assms stub put idle
    by (cases "rel_kind r")
      (auto simp: apply_reloc_def absolute_symbol_def Let_def split: option.splits if_splits)
qed

lemma apply_relocs_missing:
  "apply_relocs ops display m i base rs st = Some (st', res) \<Longrightarrow> names_missing display m st st'"
proof (induction rs arbitrary: st)
  case (Cons r rs)
  from obind_Some[OF Cons.prems[unfolded apply_relocs.simps]] show ?case
  proof (elim disjE exE conjE)
    fix e assume "apply_reloc ops display m i base r st = Some (st', Inl e)"
    then show ?thesis by (rule apply_reloc_missing)
  next
    fix s1 y assume a: "apply_reloc ops display m i base r st = Some (s1, Inr y)"
      "apply_relocs ops display m i base rs s1 = Some (st', res)"
    show ?thesis by (rule names_missing_trans[OF apply_reloc_missing[OF a(1)] Cons.IH[OF a(2)]])
  qed
qed (simp add: names_missing_refl)

lemma relocate_image_missing:
  assumes "relocate_image ops from_nid m img i st = Some (st', res)"
  shows "names_missing (\<lambda>n. missing_symbol_display_name from_nid n (import_libs img)) m st st'"
proof (cases "map_of (modules m) i")
  case None
  then show ?thesis using assms by (intro names_missing_refl) (simp add: relocate_image_def)
next
  case (Some md)
  let ?d = "\<lambda>n. missing_symbol_display_name from_nid n (import_libs img)"
  from obind_Some[OF assms[unfolded relocate_image_def Some option.case]] show ?thesis
  proof (elim disjE exE conjE)
    fix e assume "apply_relocs ops ?d m i (m_base_addr md) (pi_relocations img) st = Some (st', Inl e)"
    then show ?thesis by (rule apply_relocs_missing)
  next
    fix s1 y assume a: "apply_relocs ops ?d m i (m_base_addr md) (pi_relocations img) st = Some (s1, Inr y)"
      and b: "(case protect_segments (m_base_addr md) (pi_segments img) (lk_mem s1) of None \<Rightarrow> None
        | Some (s, r) \<Rightarrow> Some (s1\<lparr>lk_mem := s\<rparr>, r)) = Some (st', res)"
    from b have "missing_symbols st' = missing_symbols s1" by (auto split: option.splits prod.splits)
    then show ?thesis by (rule names_missing_trans[OF apply_relocs_missing[OF a] names_missing_refl])
  qed
qed

text \<open>The names a pass over several images leaves: each comes from one of them.\<close>

definition missing_of :: "(rstr \<Rightarrow> rstr option) \<Rightarrow> module_manager \<Rightarrow> parsed_image set \<Rightarrow> rstr \<Rightarrow> bool" where
  "missing_of from_nid m imgs x \<longleftrightarrow> (\<exists>img \<in> imgs. \<exists>n. x = missing_symbol_display_name from_nid n (import_libs img) \<and>
     resolve_symbol m n = None)"

lemma relocate_pass_spec:
  assumes "relocate_pass ops from_nid mapped p = Some p'"
  shows "pr_modules p' = pr_modules p \<and> pr_loaded_module_paths p' = pr_loaded_module_paths p \<and>
    (\<exists>names. missing_symbols (pr_link p') = missing_symbols (pr_link p) @ names \<and>
       (\<forall>x \<in> set names. missing_of from_nid (pr_modules p) (snd ` set mapped) x))"
  using assms
proof (induction mapped arbitrary: p)
  case (Cons x mapped)
  obtain i img where x: "x = (i, img)" by fastforce
  obtain p1 where p1: "relocate_mapped ops from_nid i img p = Some p1" "relocate_pass ops from_nid mapped p1 = Some p'"
    using Cons.prems by (auto simp: x split: option.splits)
  obtain st r where r: "relocate_image ops from_nid (pr_modules p) img i (pr_link p) = Some (st, r)"
    "pr_link p1 = st" "pr_modules p1 = pr_modules p" "pr_loaded_module_paths p1 = pr_loaded_module_paths p"
    using p1(1) by (auto simp: relocate_mapped_def split: option.splits prod.splits)
  obtain ns where ns: "missing_symbols st = missing_symbols (pr_link p) @
      map (\<lambda>n. missing_symbol_display_name from_nid n (import_libs img)) ns" "\<forall>n \<in> set ns. resolve_symbol (pr_modules p) n = None"
    using relocate_image_missing[OF r(1)] by (auto simp: names_missing_def)
  obtain names where names: "missing_symbols (pr_link p') = missing_symbols (pr_link p1) @ names"
    "\<forall>x \<in> set names. missing_of from_nid (pr_modules p1) (snd ` set mapped) x"
    using Cons.IH[OF p1(2)] by blast
  let ?names = "map (\<lambda>n. missing_symbol_display_name from_nid n (import_libs img)) ns @ names"
  have "missing_symbols (pr_link p') = missing_symbols (pr_link p) @ ?names" using ns(1) names(1) r(2) by simp
  moreover have "\<forall>y \<in> set ?names. missing_of from_nid (pr_modules p) (snd ` set (x # mapped)) y"
    using ns(2) names(2) r(3) by (auto simp: missing_of_def x)
  ultimately show ?case using Cons.IH[OF p1(2)] r(3,4) by auto
qed simp

text \<open>The path of a module loaded at run time is not recorded, only those of its dependencies:\<close>

lemma runtime_target_unrecorded:
  "linker_load_image ops from_nid img name p = Some (p', r) \<Longrightarrow> pr_loaded_module_paths p' = pr_loaded_module_paths p"
  by (auto simp: linker_load_image_def split: option.splits prod.splits)

section \<open>A small instance\<close>

definition small_view :: "rstr list \<Rightarrow> elf_view" where
  "small_view libs = \<lparr>ev_e_type = 3, ev_entry = 0, ev_phdrs = [], ev_dynsyms = [], ev_dynrelas = [], ev_pltrelocs = [],
     ev_libraries = libs, ev_str_at = (\<lambda>_. None)\<rparr>"

text \<open>Two files that need each other.\<close>

definition small_env :: module_env where
  "small_env = \<lparr>me_exists = (\<lambda>p. p = ''g/a.prx'' \<or> p = ''g/b.prx''),
     me_read = (\<lambda>p. if p = ''g/a.prx'' then Some [0x7f, 0x45, 0x4c, 0x46, 0x62]
                   else if p = ''g/b.prx'' then Some [0x7f, 0x45, 0x4c, 0x46, 0x61] else None),
     me_can_alloc = (\<lambda>_. True), me_elf_parse = (\<lambda>raw. Some (small_view [drop 4 raw])),
     me_from_nid = (\<lambda>_. None), me_nid_of_name = (\<lambda>_. None)\<rparr>"

lemma small_env_ok: "covers small_env ''g'' {''g/a.prx'', ''g/b.prx''}" "plain_names small_env"
proof -
  show "covers small_env ''g'' {''g/a.prx'', ''g/b.prx''}"
    using find_module_file_prx[of small_env "''g''"] by (auto simp: covers_def small_env_def)
  have o: "container_open (\<lambda>_. True) [0x7f, 0x45, 0x4c, 0x46, b] =
      return \<lparr>c_kind = RawElf, c_elf_bytes = [0x7f, 0x45, 0x4c, 0x46, b], c_meta = container_meta_default\<rparr>" for b
    by (simp add: container_open_def le_u32_def ELF_MAGIC_def SELF_MAGIC_def)
  have p: "parsed_image_parse (\<lambda>raw. Some (small_view [drop 4 raw])) [0x7f, 0x45, 0x4c, 0x46, b] = lok img \<Longrightarrow>
      pi_needed_modules img = [[b]]" for b img
    by (auto simp: parsed_image_parse_def sanitize_out_of_bounds_section_table_def small_view_def is_sce_image_def
        extract_tls_def ET_SCE_DYNEXEC_def ET_SCE_DYNAMIC_def)
  have c: "char_of (97 :: nat) = CHR ''a''" "char_of (98 :: nat) = CHR ''b''" by (simp_all add: char_of_def bit_0)
  have "needed img = [''a''] \<or> needed img = [''b'']" if "open_module small_env q = Some (Inr img)" for q img
    using that p[of _ img]
    by (auto simp: open_module_def small_env_def o c needed_def to_text_def split: if_splits option.splits sum.splits)
  then show "plain_names small_env" by (fastforce simp: plain_names_def prx_def suffix_def)
qed

definition small_process :: "(u64 \<Rightarrow> u8) process" where
  "small_process = \<lparr>pr_modules = manager_new,
     pr_link = \<lparr>lk_mem = small_vm, stubs_base = 0, stubs_cursor = 0, missing_symbols = []\<rparr>, pr_tls_template = None,
     pr_module_inits = [], pr_main_pthread = 0, pr_proc_param = None, pr_loaded_by_path = [], pr_loaded_module_paths = []\<rparr>"

section \<open>Properties\<close>

text \<open>
  C39. The walk over a program's modules ends on every dependency graph, cycles and aliases included,
  with enough steps for the files there are; it leaves nothing in progress, collects each file at most
  once and none that is mapped already, and is complete: every module the program or a collected
  module needs, and for which there is a file, is collected, mapped already, or unreadable.
\<close>

theorem module_graph_complete:
  assumes "covers env d fset" and "plain_names env" and "list_all (\<lambda>l. \<not> prx l) libs" and "card fset < fuel"
    and seeds: "\<forall>l \<in> seeds. \<not> prx l"
  shows "\<exists>out loaded. collect_each fuel env mapped d libs ([], seeds, {}) = Some (out, loaded, {}) \<and>
    distinct (files_of out) \<and> set (files_of out) \<inter> mapped = {} \<and>
    (\<forall>(lib, path, img) \<in> set out. open_module env path = Some (Inr img)) \<and>
    (\<forall>l p. l \<in> set libs \<union> (\<Union>(lib, path, img) \<in> set out. set (needed img)) \<and> l \<notin> seeds \<and>
       find_module_file env d l = Some p \<longrightarrow> p \<in> set (files_of out) \<union> mapped \<or> unreadable env p)"
proof -
  have "walk_ok env mapped d seeds ([], seeds, {})" using seeds by (auto simp: walk_ok_def files_of_def)
  then have "walk_step env mapped d seeds libs ([], seeds, {}) (collect_each fuel env mapped d libs ([], seeds, {}))"
    using collect_each_step[of env mapped d seeds fset fuel, OF collect_graph_step[OF assms(1,2)]] assms(3,4) by simp
  then obtain out loaded where w: "collect_each fuel env mapped d libs ([], seeds, {}) = Some (out, loaded, {})"
    "walk_ok env mapped d seeds (out, loaded, {})" "set libs \<subseteq> loaded"
    by (auto simp: walk_step_def)
  note D = walk_okD[OF w(2)]
  have "\<not> prx l \<and> l \<in> loaded" if l: "l \<in> set libs \<union> (\<Union>(lib, path, img) \<in> set out. set (needed img))" for l
  proof (cases "l \<in> set libs")
    case True
    then show ?thesis using assms(3) w(3) by (auto simp: list_all_iff)
  next
    case False
    then obtain lib path img where i: "(lib, path, img) \<in> set out" "l \<in> set (needed img)" using l by auto
    then show ?thesis using D(5,6)[OF i(1)] assms(2) by (auto simp: plain_names_def list_all_iff)
  qed
  then have "p \<in> set (files_of out) \<union> mapped \<or> unreadable env p"
    if "l \<in> set libs \<union> (\<Union>(lib, path, img) \<in> set out. set (needed img))" "l \<notin> seeds" "find_module_file env d l = Some p" for l p
    using D(8)[of l p] that by blast
  then show ?thesis using w(1) D(2,4,5) by blast
qed

theorem module_graph_complete_witness:
  "\<exists>out loaded. collect_each 3 small_env {} ''g'' [''a''] ([], {}, {}) = Some (out, loaded, {}) \<and> distinct (files_of out) \<and>
     (''g/a.prx'' \<in> set (files_of out) \<or> unreadable small_env ''g/a.prx'')"
proof -
  have "list_all (\<lambda>l. \<not> prx l) [''a'']" by (simp add: prx_def suffix_def)
  moreover have "find_module_file small_env ''g'' ''a'' = Some ''g/a.prx''"
    by (simp add: find_module_file_def module_candidates_def module_file_aliases_def push_path_def small_env_def)
  ultimately show ?thesis
    using module_graph_complete[OF small_env_ok, of "[''a'']" 3 "{}" "{}"] by fastforce
qed



text \<open>
  Loading a module at run time is idempotent: once a guest path has been loaded, loading it again
  gives the same handle, no start routine to run, and changes nothing.
\<close>

theorem runtime_load_once:
  assumes "load_start_module fuel ops env host_of guest_path p = Some (p', Inr (handle, starts))"
  shows "load_start_module fuel' ops env host_of guest_path p' = Some (p', Inr (handle, []))"
proof -
  have "map_of (pr_loaded_by_path p') guest_path = Some handle"
    using assms
    by (auto simp: load_start_module_def cache_path_def Let_def update_conv' split: option.splits sum.splits prod.splits)
  then show ?thesis by (simp add: load_start_module_def)
qed

theorem runtime_load_once_witness:
  "let p = small_process\<lparr>pr_modules := small_manager\<rparr>; p' = cache_path ''/app0/a.prx'' 1 p
   in load_start_module 0 (flat_ops 0x500000000) small_env (\<lambda>_. None) ''/app0/a.prx'' p = Some (p', Inr (1, [])) \<and>
      load_start_module 5 (flat_ops 0x500000000) small_env (\<lambda>_. None) ''/app0/a.prx'' p' = Some (p', Inr (1, []))"
proof -
  let ?p = "small_process\<lparr>pr_modules := small_manager\<rparr>" and ?ops = "flat_ops 0x500000000"
  have "get_by_name small_manager ''a'' = Some ((module_new 1 ''a'' Map.empty)\<lparr>m_base_addr := 0x410000\<rparr>)"
    by (simp add: get_by_name_def small_manager_def register_module_def manager_new_def module_new_def)
  then have f: "load_start_module 0 ?ops small_env (\<lambda>_. None) ''/app0/a.prx'' ?p = Some (cache_path ''/app0/a.prx'' 1 ?p, Inr (1, []))"
    by (simp add: load_start_module_def small_process_def path_file_name_def path_join_def stem_of_def module_new_def)
  show ?thesis using f runtime_load_once[OF f, of 5] by (simp add: Let_def)
qed

end
