(* ===== verification/Resource_Cache.thy ===== *)
theory Resource_Cache
  imports Surface_Tiling Guest_Memory "HOL-Library.Multiset"
begin

text \<open>
  The resource cache of the guest side of the GPU (\<^verbatim>\<open>crates/gnm/src/cache/mod.rs\<close>), the conservative
  dirty source of \<^verbatim>\<open>crates/core/src/dirty.rs\<close> and the bridge that evicts freed memory
  (\<^verbatim>\<open>free_sink.rs\<close>, \<^verbatim>\<open>driver.rs\<close>). A \<^verbatim>\<open>HashMap\<close> is the list of its entries in iteration order; a
  step of the system may permute it. An operation returns the new cache, the commands it appends, the
  calls it makes on the dirty source and the resource id; \<open>None\<close> is the panic of an exhausted id space
  or of a slice out of range. The ranged guest read is a parameter, and so are the flip counter and
  the import policy. The profiler counters and the staleness probe are left out: they change nothing
  the cache returns.

  Commands are replayed on an abstract display side that refuses a create on an id it has ever seen and
  an upload to or a free of an id it does not hold. The invariant \<open>cache_ok\<close> ties the table of the cache
  to that side and to guest memory, and every operation is shown to keep it.
\<close>

section \<open>Keys, entries and commands\<close>

record surface_format =
  dfmt :: u8
  nfmt :: u8

datatype res_layout = VertexBuf | IndexBuf | ConstBuf
  | Texture surface_format surface_layout
  | RenderTarget surface_format surface_layout

definition BUFFER_BUDGET_BYTES :: u64 where "BUFFER_BUDGET_BYTES = 64 * 1024 * 1024"

definition is_linear_buffer :: "res_layout \<Rightarrow> bool" where
  "is_linear_buffer l = (case l of VertexBuf \<Rightarrow> True | IndexBuf \<Rightarrow> True | ConstBuf \<Rightarrow> True | _ \<Rightarrow> False)"

definition watch_pays :: "res_layout \<Rightarrow> bool" where
  "watch_pays l = (\<not> (case l of VertexBuf \<Rightarrow> True | ConstBuf \<Rightarrow> True | _ \<Rightarrow> False))"

record resource_key =
  rk_addr :: u64
  rk_size :: u64
  rk_layout :: res_layout

datatype coherence = CopySide | ZeroCopyCandidate

record cache_policy =
  pol_coherence :: "u64 \<Rightarrow> u64 \<Rightarrow> coherence"
  can_import :: "u64 \<Rightarrow> u64 \<Rightarrow> coherence \<Rightarrow> bool"

definition copy_side :: cache_policy where
  "copy_side = \<lparr>pol_coherence = (\<lambda>_ _. CopySide), can_import = (\<lambda>_ _ _. False)\<rparr>"

record cache_entry =
  en_id :: u32
  en_imported :: bool
  en_is_rt :: bool
  en_dirty :: bool
  en_last_used :: u64

datatype sampler_filter = Nearest | Linear

datatype sampler_address_mode = Repeat | MirrorRepeat | ClampToEdge

record sampler_desc =
  mag_filter :: sampler_filter
  min_filter :: sampler_filter
  address_mode_u :: sampler_address_mode
  address_mode_v :: sampler_address_mode

datatype texture_format = TexR8G8B8A8Unorm | TexR8G8B8A8Srgb

datatype color_format = ColB8G8R8A8Unorm | ColR8G8B8A8Unorm | ColUnsupported

datatype backend_cmd =
    CreateBuffer u32 u64
  | UploadBuffer u32 u64 "u8 list"
  | ImportBuffer u32 u64 u64
  | FreeResource u32
  | CreateImage u32 u32 u32 texture_format
  | UploadImage u32 "u8 list"
  | CreateSampler u32 sampler_desc
  | CreateRenderTarget u32 u32 u32 color_format

datatype dirty_call = Watch u64 u64 | Unwatch u64 u64

record resource_cache =
  rc_entries :: "(resource_key \<times> cache_entry) list"
  rc_samplers :: "(sampler_desc \<times> u32) list"
  rc_next_id :: u32
  rc_white_dummy :: "u32 option"
  rc_policy :: cache_policy
  rc_trimmed_flip :: u64
  rc_buffer_bytes :: u64

type_synonym guest_read = "u64 \<Rightarrow> u64 \<Rightarrow> u8 list result"

definition with_policy :: "cache_policy \<Rightarrow> resource_cache" where
  "with_policy p = \<lparr>rc_entries = [], rc_samplers = [], rc_next_id = 1, rc_white_dummy = None,
     rc_policy = p, rc_trimmed_flip = 0, rc_buffer_bytes = 0\<rparr>"

section \<open>The operations of the cache\<close>

text \<open>\<^verbatim>\<open>HashMap::get\<close> is \<open>map_of\<close>, \<^verbatim>\<open>remove\<close> is \<open>bt_remove\<close>; \<^verbatim>\<open>insert\<close> and an update in place:\<close>

definition hm_insert :: "'k \<Rightarrow> 'v \<Rightarrow> ('k \<times> 'v) list \<Rightarrow> ('k \<times> 'v) list" where
  "hm_insert k v m = (k, v) # bt_remove k m"

definition hm_modify :: "'k \<Rightarrow> ('v \<Rightarrow> 'v) \<Rightarrow> ('k \<times> 'v) list \<Rightarrow> ('k \<times> 'v) list" where
  "hm_modify k f m = map (\<lambda>(k', v). (k', if k' = k then f v else v)) m"

definition trim_candidates :: "(resource_key \<times> cache_entry) list \<Rightarrow> (u64 \<times> u64 \<times> resource_key) list" where
  "trim_candidates es =
     map (\<lambda>(k, e). (en_last_used e, rk_size k, k))
       (filter (\<lambda>(k, e). is_linear_buffer (rk_layout k) \<and> \<not> en_imported e) es)"

fun evict :: "(u64 \<times> u64 \<times> resource_key) list \<Rightarrow> resource_cache \<Rightarrow> resource_cache \<times> backend_cmd list" where
  "evict [] c = (c, [])"
| "evict ((_, sz, k) # ks) c =
     (if rc_buffer_bytes c \<le> BUFFER_BUDGET_BYTES then (c, [])
      else case map_of (rc_entries c) k of
             None \<Rightarrow> evict ks c
           | Some e \<Rightarrow>
               (let (c', out) = evict ks
                      (c\<lparr>rc_entries := bt_remove k (rc_entries c),
                         rc_buffer_bytes := saturating_sub (rc_buffer_bytes c) sz\<rparr>)
                in (c', FreeResource (en_id e) # out)))"

definition trim :: "u64 \<Rightarrow> resource_cache \<Rightarrow> resource_cache \<times> backend_cmd list" where
  "trim now c =
     (if now = rc_trimmed_flip c then (c, [])
      else
        let c = c\<lparr>rc_trimmed_flip := now\<rparr>
        in if rc_buffer_bytes c \<le> BUFFER_BUDGET_BYTES then (c, [])
           else evict (sort_key fst (trim_candidates (rc_entries c))) c)"

definition mint_id :: "resource_cache \<Rightarrow> (u32 \<times> resource_cache) option" where
  "mint_id c =
     (case checked_add (rc_next_id c) 1 of
        None \<Rightarrow> None
      | Some n \<Rightarrow> Some (rc_next_id c, c\<lparr>rc_next_id := n\<rparr>))"

definition get_white_dummy :: "resource_cache \<Rightarrow> (resource_cache \<times> backend_cmd list \<times> u32) option" where
  "get_white_dummy c =
     (case rc_white_dummy c of
        Some i \<Rightarrow> Some (c, [], i)
      | None \<Rightarrow>
          (case mint_id c of
             None \<Rightarrow> None
           | Some (i, c) \<Rightarrow>
               Some (c\<lparr>rc_white_dummy := Some i\<rparr>,
                 [CreateImage i 1 1 TexR8G8B8A8Unorm, UploadImage i [0xFF, 0xFF, 0xFF, 0xFF]], i)))"

definition get_sampler :: "sampler_desc \<Rightarrow> resource_cache \<Rightarrow> (resource_cache \<times> backend_cmd list \<times> u32) option" where
  "get_sampler desc c =
     (case map_of (rc_samplers c) desc of
        Some i \<Rightarrow> Some (c, [], i)
      | None \<Rightarrow>
          (case mint_id c of
             None \<Rightarrow> None
           | Some (i, c) \<Rightarrow>
               Some (c\<lparr>rc_samplers := hm_insert desc i (rc_samplers c)\<rparr>, [CreateSampler i desc], i)))"

definition emit_upload :: "u32 \<Rightarrow> resource_key \<Rightarrow> guest_read \<Rightarrow> backend_cmd list \<times> bool" where
  "emit_upload i k mem =
     (case mem (rk_addr k) (rk_size k) of
        Inr bytes \<Rightarrow> ([UploadBuffer i 0 bytes], True)
      | Inl _ \<Rightarrow> ([], False))"

definition emit_image_upload ::
  "u32 \<Rightarrow> resource_key \<Rightarrow> surface_layout \<Rightarrow> guest_read \<Rightarrow> (backend_cmd list \<times> bool) option" where
  "emit_image_upload i k surface mem =
     (case mem (rk_addr k) (rk_size k) of
        Inl _ \<Rightarrow> Some ([], False)
      | Inr bytes \<Rightarrow>
          (case detile bytes surface of
             None \<Rightarrow> None
           | Some (Inr linear) \<Rightarrow> Some ([UploadImage i linear], True)
           | Some (Inl _) \<Rightarrow> Some ([], False)))"

definition touch :: "resource_key \<Rightarrow> resource_cache \<Rightarrow> resource_cache" where
  "touch k c = c\<lparr>rc_entries :=
     hm_modify k (\<lambda>e. e\<lparr>en_last_used := rc_trimmed_flip c\<rparr>) (rc_entries c)\<rparr>"

definition clear_dirty :: "resource_key \<Rightarrow> bool \<Rightarrow> resource_cache \<Rightarrow> resource_cache" where
  "clear_dirty k uploaded c =
     (if uploaded then c\<lparr>rc_entries := hm_modify k (\<lambda>e. e\<lparr>en_dirty := False\<rparr>) (rc_entries c)\<rparr> else c)"

type_synonym cache_result = "(resource_cache \<times> backend_cmd list \<times> dirty_call list \<times> u32) option"

definition wants_import :: "resource_key \<Rightarrow> resource_cache \<Rightarrow> bool" where
  "wants_import k c =
     (let coh = pol_coherence (rc_policy c) (rk_addr k) (rk_size k)
      in coh = ZeroCopyCandidate \<and> can_import (rc_policy c) (rk_addr k) (rk_size k) coh)"

definition get_miss :: "resource_key \<Rightarrow> guest_read \<Rightarrow> resource_cache \<Rightarrow> cache_result" where
  "get_miss k mem c =
     (case mint_id c of
        None \<Rightarrow> None
      | Some (i, c) \<Rightarrow>
          (let imported = wants_import k c;
               (up, uploaded) =
                 (if imported then ([ImportBuffer i (rk_addr k) (rk_size k)], True)
                  else let (up, uploaded) = emit_upload i k mem
                       in (CreateBuffer i (rk_size k) # up, uploaded));
               calls = (if watch_pays (rk_layout k) then [Watch (rk_addr k) (rk_size k)] else []);
               bytes = (if is_linear_buffer (rk_layout k) \<and> \<not> imported
                        then saturating_add (rc_buffer_bytes c) (rk_size k) else rc_buffer_bytes c);
               e = \<lparr>en_id = i, en_imported = imported, en_is_rt = False, en_dirty = \<not> uploaded,
                    en_last_used = rc_trimmed_flip c\<rparr>
           in Some (c\<lparr>rc_buffer_bytes := bytes, rc_entries := hm_insert k e (rc_entries c)\<rparr>,
                    up, calls, i)))"

definition cache_get :: "u64 \<Rightarrow> resource_key \<Rightarrow> guest_read \<Rightarrow> resource_cache \<Rightarrow> cache_result" where
  "cache_get now k mem c0 =
     (let (c, out) = trim now c0
      in case map_of (rc_entries c) k of
           Some e \<Rightarrow>
             (let c = touch k c
              in if en_imported e \<or> (\<not> en_dirty e \<and> watch_pays (rk_layout k)) then Some (c, out, [], en_id e)
                 else
                   let (up, uploaded) = emit_upload (en_id e) k mem
                   in Some (clear_dirty k uploaded c, out @ up, [], en_id e))
         | None \<Rightarrow>
             (case get_miss k mem c of
                None \<Rightarrow> None
              | Some (c, up, calls, i) \<Rightarrow> Some (c, out @ up, calls, i)))"

definition texture_miss ::
  "resource_key \<Rightarrow> surface_layout \<Rightarrow> texture_format \<Rightarrow> guest_read \<Rightarrow> resource_cache \<Rightarrow> cache_result" where
  "texture_miss k surface format mem c =
     (case mint_id c of
        None \<Rightarrow> None
      | Some (i, c) \<Rightarrow>
          (case emit_image_upload i k surface mem of
             None \<Rightarrow> None
           | Some (up, uploaded) \<Rightarrow>
               (let e = \<lparr>en_id = i, en_imported = False, en_is_rt = False, en_dirty = \<not> uploaded,
                         en_last_used = rc_trimmed_flip c\<rparr>
                in Some (c\<lparr>rc_entries := hm_insert k e (rc_entries c)\<rparr>,
                     CreateImage i (width (sl_extent surface)) (height (sl_extent surface)) format # up,
                     [Watch (rk_addr k) (rk_size k)], i))))"

definition get_texture ::
  "u64 \<Rightarrow> resource_key \<Rightarrow> surface_layout \<Rightarrow> texture_format \<Rightarrow> guest_read \<Rightarrow> resource_cache \<Rightarrow> cache_result" where
  "get_texture now k surface format mem c0 =
     (let (c, out) = trim now c0
      in case map_of (rc_entries c) k of
           Some e \<Rightarrow>
             (let c = touch k c
              in if \<not> en_dirty e then Some (c, out, [], en_id e)
                 else case emit_image_upload (en_id e) k surface mem of
                        None \<Rightarrow> None
                      | Some (up, uploaded) \<Rightarrow> Some (clear_dirty k uploaded c, out @ up, [], en_id e))
         | None \<Rightarrow>
             (case texture_miss k surface format mem c of
                None \<Rightarrow> None
              | Some (c, up, calls, i) \<Rightarrow> Some (c, out @ up, calls, i)))"

definition get_render_target ::
  "resource_key \<Rightarrow> surface_layout \<Rightarrow> color_format \<Rightarrow> resource_cache \<Rightarrow>
   (resource_cache \<times> backend_cmd list \<times> u32) option" where
  "get_render_target k surface format c =
     (case map_of (rc_entries c) k of
        Some e \<Rightarrow> Some (touch k c, [], en_id e)
      | None \<Rightarrow>
          (case mint_id c of
             None \<Rightarrow> None
           | Some (i, c) \<Rightarrow>
               (let e = \<lparr>en_id = i, en_imported = False, en_is_rt = True, en_dirty = False,
                         en_last_used = rc_trimmed_flip c\<rparr>
                in Some (c\<lparr>rc_entries := hm_insert k e (rc_entries c)\<rparr>,
                     [CreateRenderTarget i (width (sl_extent surface)) (height (sl_extent surface)) format], i))))"

definition ranges_overlap :: "u64 \<Rightarrow> u64 \<Rightarrow> u64 \<Rightarrow> u64 \<Rightarrow> bool" where
  "ranges_overlap a_start a_len b_start b_len =
     (if a_len = 0 \<or> b_len = 0 then False
      else let a_end = saturating_add a_start a_len; b_end = saturating_add b_start b_len
           in a_start < b_end \<and> b_start < a_end)"

definition apply_dirty :: "(u64 \<times> u64) list \<Rightarrow> resource_cache \<Rightarrow> resource_cache" where
  "apply_dirty dirtied c =
     (if dirtied = [] then c
      else c\<lparr>rc_entries := map (\<lambda>(k, e).
             if en_imported e \<or> en_is_rt e then (k, e)
             else if list_ex (\<lambda>(a, n). ranges_overlap (rk_addr k) (rk_size k) a n) dirtied
                  then (k, e\<lparr>en_dirty := True\<rparr>) else (k, e)) (rc_entries c)\<rparr>)"

definition invalidate_range :: "u64 \<Rightarrow> u64 \<Rightarrow> resource_cache \<Rightarrow> resource_cache" where
  "invalidate_range a n c = c\<lparr>rc_entries := map (\<lambda>(k, e).
     if \<not> en_imported e \<and> \<not> en_is_rt e \<and> ranges_overlap (rk_addr k) (rk_size k) a n
     then (k, e\<lparr>en_dirty := True\<rparr>) else (k, e)) (rc_entries c)\<rparr>"

fun free_keys :: "resource_key list \<Rightarrow> resource_cache \<Rightarrow> resource_cache \<times> backend_cmd list \<times> dirty_call list" where
  "free_keys [] c = (c, [], [])"
| "free_keys (k # ks) c =
     (case map_of (rc_entries c) k of
        None \<Rightarrow> free_keys ks c
      | Some e \<Rightarrow>
          (let bytes = (if is_linear_buffer (rk_layout k) \<and> \<not> en_imported e
                        then saturating_sub (rc_buffer_bytes c) (rk_size k) else rc_buffer_bytes c);
               calls = (if watch_pays (rk_layout k) \<and> \<not> en_is_rt e then [Unwatch (rk_addr k) (rk_size k)] else []);
               (c', out, calls') =
                 free_keys ks (c\<lparr>rc_entries := bt_remove k (rc_entries c), rc_buffer_bytes := bytes\<rparr>)
           in (c', FreeResource (en_id e) # out, calls @ calls')))"

definition free_range ::
  "u64 \<Rightarrow> u64 \<Rightarrow> resource_cache \<Rightarrow> resource_cache \<times> backend_cmd list \<times> dirty_call list" where
  "free_range a n c =
     free_keys (filter (\<lambda>k. ranges_overlap (rk_addr k) (rk_size k) a n) (map fst (rc_entries c))) c"

text \<open>\<^verbatim>\<open>GnmMemoryFreeSink::notify_free\<close> and the driver's \<^verbatim>\<open>free_resource_range\<close> it reaches:\<close>

definition notify_free ::
  "u64 \<Rightarrow> u64 \<Rightarrow> resource_cache \<Rightarrow> resource_cache \<times> backend_cmd list \<times> dirty_call list" where
  "notify_free a n c = (if n = 0 then (c, [], []) else free_range a n c)"

section \<open>The conservative dirty source\<close>

type_synonym always_dirty = "(u64 \<times> u64) list"

definition ad_watch :: "u64 \<Rightarrow> u64 \<Rightarrow> always_dirty \<Rightarrow> always_dirty" where
  "ad_watch a n w = (if (a, n) \<in> set w then w else w @ [(a, n)])"

definition ad_unwatch :: "u64 \<Rightarrow> u64 \<Rightarrow> always_dirty \<Rightarrow> always_dirty" where
  "ad_unwatch a n w = filter (\<lambda>r. r \<noteq> (a, n)) w"

definition ad_take_dirty :: "always_dirty \<Rightarrow> (u64 \<times> u64) list \<times> always_dirty" where
  "ad_take_dirty w = (w, w)"

record 'd dirty_source =
  ds_watch :: "u64 \<Rightarrow> u64 \<Rightarrow> 'd \<Rightarrow> 'd"
  ds_unwatch :: "u64 \<Rightarrow> u64 \<Rightarrow> 'd \<Rightarrow> 'd"
  ds_take_dirty :: "'d \<Rightarrow> (u64 \<times> u64) list \<times> 'd"

definition AlwaysDirty :: "always_dirty dirty_source" where
  "AlwaysDirty = \<lparr>ds_watch = ad_watch, ds_unwatch = ad_unwatch, ds_take_dirty = ad_take_dirty\<rparr>"

definition drain_dirty :: "'d dirty_source \<Rightarrow> 'd \<Rightarrow> resource_cache \<Rightarrow> resource_cache \<times> 'd" where
  "drain_dirty src d c =
     (let (dirtied, d) = ds_take_dirty src d in (apply_dirty dirtied c, d))"

fun make_call :: "'d dirty_source \<Rightarrow> dirty_call \<Rightarrow> 'd \<Rightarrow> 'd" where
  "make_call src (Watch a n) d = ds_watch src a n d"
| "make_call src (Unwatch a n) d = ds_unwatch src a n d"

definition make_calls :: "'d dirty_source \<Rightarrow> dirty_call list \<Rightarrow> 'd \<Rightarrow> 'd" where
  "make_calls src calls d = fold (make_call src) calls d"

section \<open>The display side and the invariant\<close>

text \<open>
  What the commands mean on the display side: ids name resources, a create takes an id never seen
  before, an upload fills a resource that is live, a free drops one. Everything else is refused.
\<close>

datatype bk_res = BkBuffer u64 "u8 list option" | BkImport u64 u64 | BkImage "u8 list option"
  | BkSampler sampler_desc | BkTarget

record display_side =
  bk_live :: "u32 \<Rightarrow> bk_res option"
  bk_seen :: "u32 set"

definition bk_create :: "u32 \<Rightarrow> bk_res \<Rightarrow> display_side \<Rightarrow> display_side option" where
  "bk_create i r b =
     (if i \<in> bk_seen b then None
      else Some (b\<lparr>bk_live := (bk_live b)(i \<mapsto> r), bk_seen := insert i (bk_seen b)\<rparr>))"

definition bk_update :: "u32 \<Rightarrow> bk_res \<Rightarrow> display_side \<Rightarrow> display_side" where
  "bk_update i r b = b\<lparr>bk_live := (bk_live b)(i \<mapsto> r)\<rparr>"

fun replay_cmd :: "backend_cmd \<Rightarrow> display_side \<Rightarrow> display_side option" where
  "replay_cmd (CreateBuffer i n) b = bk_create i (BkBuffer n None) b"
| "replay_cmd (UploadBuffer i off data) b =
     (case bk_live b i of
        Some (BkBuffer n _) \<Rightarrow>
          if off = 0 \<and> length data = unat n then Some (bk_update i (BkBuffer n (Some data)) b) else None
      | _ \<Rightarrow> None)"
| "replay_cmd (ImportBuffer i a n) b = bk_create i (BkImport a n) b"
| "replay_cmd (FreeResource i) b =
     (case bk_live b i of None \<Rightarrow> None | Some _ \<Rightarrow> Some (b\<lparr>bk_live := (bk_live b)(i := None)\<rparr>))"
| "replay_cmd (CreateImage i w h f) b = bk_create i (BkImage None) b"
| "replay_cmd (UploadImage i data) b =
     (case bk_live b i of Some (BkImage _) \<Rightarrow> Some (bk_update i (BkImage (Some data)) b) | _ \<Rightarrow> None)"
| "replay_cmd (CreateSampler i d) b = bk_create i (BkSampler d) b"
| "replay_cmd (CreateRenderTarget i w h f) b = bk_create i BkTarget b"

fun replay :: "backend_cmd list \<Rightarrow> display_side \<Rightarrow> display_side option" where
  "replay [] b = Some b"
| "replay (cmd # cmds) b = (case replay_cmd cmd b of None \<Rightarrow> None | Some b \<Rightarrow> replay cmds b)"

text \<open>The bytes the GPU reads through a resource, and the bytes the guest means by a key:\<close>

fun gpu_sees :: "guest_read \<Rightarrow> bk_res \<Rightarrow> u8 list option" where
  "gpu_sees mem (BkBuffer _ data) = data"
| "gpu_sees mem (BkImport a n) = (case mem a n of Inr bs \<Rightarrow> Some bs | Inl _ \<Rightarrow> None)"
| "gpu_sees mem (BkImage data) = data"
| "gpu_sees mem _ = None"

definition guest_means :: "guest_read \<Rightarrow> resource_key \<Rightarrow> u8 list option" where
  "guest_means mem k =
     (case mem (rk_addr k) (rk_size k) of
        Inl _ \<Rightarrow> None
      | Inr bs \<Rightarrow>
          (case rk_layout k of
             Texture _ surface \<Rightarrow> (case detile bs surface of Some (Inr linear) \<Rightarrow> Some linear | _ \<Rightarrow> None)
           | RenderTarget _ _ \<Rightarrow> None
           | _ \<Rightarrow> Some bs))"

fun is_target :: "res_layout \<Rightarrow> bool" where
  "is_target (RenderTarget _ _) = True"
| "is_target _ = False"

definition right_kind :: "resource_key \<Rightarrow> cache_entry \<Rightarrow> bk_res \<Rightarrow> bool" where
  "right_kind k e r =
     (if en_is_rt e then r = BkTarget
      else if en_imported e then r = BkImport (rk_addr k) (rk_size k)
      else case r of
             BkBuffer n _ \<Rightarrow> is_linear_buffer (rk_layout k) \<and> n = rk_size k
           | BkImage _ \<Rightarrow> \<not> is_linear_buffer (rk_layout k)
           | _ \<Rightarrow> False)"

text \<open>
  \<open>trk a n\<close>: the dirty source tracks the range; \<open>pend a n\<close>: it holds a write to it not yet reported.
\<close>

definition entry_ok ::
  "(u64 \<Rightarrow> u64 \<Rightarrow> bool) \<Rightarrow> (u64 \<Rightarrow> u64 \<Rightarrow> bool) \<Rightarrow> (u32 \<Rightarrow> bk_res option) \<Rightarrow> guest_read \<Rightarrow>
   resource_key \<Rightarrow> cache_entry \<Rightarrow> bool" where
  "entry_ok trk pend live mem k e \<longleftrightarrow>
     en_is_rt e = is_target (rk_layout k) \<and>
     (en_imported e \<longrightarrow> is_linear_buffer (rk_layout k)) \<and>
     (\<exists>r. live (en_id e) = Some r \<and> right_kind k e r \<and>
        (\<not> en_is_rt e \<and> \<not> en_imported e \<and> watch_pays (rk_layout k) \<longrightarrow>
           trk (rk_addr k) (rk_size k) \<and>
           (\<not> en_dirty e \<longrightarrow>
              pend (rk_addr k) (rk_size k) \<or>
              (\<exists>bs. gpu_sees mem r = Some bs \<and> guest_means mem k = Some bs))))"

definition entry_ids :: "(resource_key \<times> cache_entry) list \<Rightarrow> u32 list" where
  "entry_ids es = map (\<lambda>(k, e). en_id e) es"

definition fixed_ids :: "resource_cache \<Rightarrow> u32 list" where
  "fixed_ids c = map snd (rc_samplers c) @ (case rc_white_dummy c of None \<Rightarrow> [] | Some i \<Rightarrow> [i])"

definition live_ids :: "resource_cache \<Rightarrow> u32 list" where
  "live_ids c = entry_ids (rc_entries c) @ fixed_ids c"

definition linked :: "resource_cache \<Rightarrow> display_side \<Rightarrow> bool" where
  "linked c b \<longleftrightarrow>
     distinct (live_ids c) \<and> dom (bk_live b) = set (live_ids c) \<and>
     set (live_ids c) \<subseteq> bk_seen b \<and> (\<forall>i \<in> bk_seen b. i < rc_next_id c)"

definition covered_bytes :: "(resource_key \<times> cache_entry) list \<Rightarrow> nat" where
  "covered_bytes es = sum_list (map (\<lambda>(k, e).
     if is_linear_buffer (rk_layout k) \<and> \<not> en_imported e then unat (rk_size k) else 0) es)"

definition cache_ok ::
  "(u64 \<Rightarrow> u64 \<Rightarrow> bool) \<Rightarrow> (u64 \<Rightarrow> u64 \<Rightarrow> bool) \<Rightarrow> resource_cache \<Rightarrow> display_side \<Rightarrow> guest_read \<Rightarrow> bool" where
  "cache_ok trk pend c b mem \<longleftrightarrow>
     distinct (map fst (rc_entries c)) \<and> linked c b \<and>
     (\<forall>(k, e) \<in> set (rc_entries c). entry_ok trk pend (bk_live b) mem k e) \<and>
     unat (rc_buffer_bytes c) \<le> covered_bytes (rc_entries c)"

section \<open>How the operations change the table\<close>

lemma hm_modify_keys [simp]: "map fst (hm_modify k f m) = map fst m"
  by (simp add: hm_modify_def case_prod_beta comp_def)

lemma hm_modify_get: "map_of (hm_modify k f m) k' = (if k' = k then map_option f (map_of m k) else map_of m k')"
  by (induction m) (auto simp: hm_modify_def)

lemma hm_modify_set:
  "set (hm_modify k f m) = (\<lambda>(k', v). (k', if k' = k then f v else v)) ` set m"
  by (simp add: hm_modify_def)

lemma bt_remove_notin: "k \<notin> fst ` set m \<Longrightarrow> bt_remove k m = m"
  by (force simp: bt_remove_def filter_id_conv)

lemma hm_insert_new: "map_of m k = None \<Longrightarrow> hm_insert k v m = (k, v) # m"
  by (simp add: hm_insert_def bt_remove_notin map_of_eq_None_iff)

lemma distinct_bt_remove: "distinct (map fst m) \<Longrightarrow> distinct (map fst (bt_remove k m))"
  by (simp add: bt_remove_def distinct_map_filter)

lemma distinct_map_removed:
  assumes "distinct (map f m)" and "(k, v) \<in> set m"
  shows "f (k, v) \<notin> f ` set (bt_remove k m)"
  using assms by (auto simp: bt_remove_def distinct_map inj_on_def)

lemma sum_bt_remove:
  fixes f :: "'k \<times> 'v \<Rightarrow> nat"
  assumes "distinct (map fst m)" and "map_of m k = Some v"
  shows "sum_list (map f m) = f (k, v) + sum_list (map f (bt_remove k m))"
  using assms
proof (induction m)
  case (Cons p m)
  obtain k' v' where p: "p = (k', v')" by (cases p)
  show ?case
  proof (cases "k' = k")
    case True
    then have "bt_remove k (p # m) = m"
      using Cons.prems bt_remove_notin[of k m] by (auto simp: p bt_remove_def)
    then show ?thesis using Cons.prems True p by simp
  next
    case False
    then show ?thesis using Cons p by (simp add: bt_remove_def)
  qed
qed simp

lemma covered_bytes_remove:
  "distinct (map fst es) \<Longrightarrow> map_of es k = Some e \<Longrightarrow>
   covered_bytes es = (if is_linear_buffer (rk_layout k) \<and> \<not> en_imported e then unat (rk_size k) else 0)
     + covered_bytes (bt_remove k es)"
  unfolding covered_bytes_def by (subst sum_bt_remove) auto

lemma unat_saturating_sub: "unat (saturating_sub a b) = unat a - unat b"
  by (simp add: saturating_sub_def unat_sub_le word_le_nat_alt)

lemma replay_append:
  "replay (xs @ ys) b = (case replay xs b of None \<Rightarrow> None | Some b \<Rightarrow> replay ys b)"
  by (induction xs arbitrary: b) (auto split: option.splits)

lemma entry_id_in: "(k, e) \<in> set es \<Longrightarrow> en_id e \<in> set (entry_ids es)"
  by (force simp: entry_ids_def)

lemma entry_ok_mono:
  assumes "entry_ok trk pend live mem k e" and "trk (rk_addr k) (rk_size k) \<Longrightarrow> trk' (rk_addr k) (rk_size k)"
    and "live' (en_id e) = live (en_id e)"
  shows "entry_ok trk' pend live' mem k e"
  using assms by (auto simp: entry_ok_def)

text \<open>Dropping one entry together with its resource:\<close>

lemma cache_ok_remove:
  assumes ok: "cache_ok trk pend c b mem" and k: "map_of (rc_entries c) k = Some e"
    and bytes: "unat bb \<le> covered_bytes (bt_remove k (rc_entries c))"
  obtains b' where "replay_cmd (FreeResource (en_id e)) b = Some b'" and "bk_seen b' = bk_seen b"
    and "cache_ok trk pend (c\<lparr>rc_entries := bt_remove k (rc_entries c), rc_buffer_bytes := bb\<rparr>) b' mem"
proof -
  let ?es = "rc_entries c" and ?b = "b\<lparr>bk_live := (bk_live b)(en_id e := None)\<rparr>"
  have mem: "(k, e) \<in> set ?es" using k by (rule map_of_SomeD)
  have d: "distinct (entry_ids ?es)" "set (entry_ids ?es) \<inter> set (fixed_ids c) = {}"
    "distinct (fixed_ids c)" and dm: "dom (bk_live b) = set (live_ids c)"
    and seen: "set (live_ids c) \<subseteq> bk_seen b" "\<forall>i \<in> bk_seen b. i < rc_next_id c"
    using ok by (auto simp: cache_ok_def linked_def live_ids_def)
  have gone: "en_id e \<notin> set (entry_ids (bt_remove k ?es))"
    using distinct_map_removed[OF d(1)[unfolded entry_ids_def] mem] by (simp add: entry_ids_def)
  have split: "set (entry_ids ?es) = insert (en_id e) (set (entry_ids (bt_remove k ?es)))"
  proof -
    have uniq: "v = e" if "(k, v) \<in> set ?es" for v
      using that k ok by (auto simp: cache_ok_def)
    have "set ?es = insert (k, e) (set (bt_remove k ?es))"
      unfolding bt_remove_set using mem uniq by blast
    then show ?thesis unfolding entry_ids_def set_map by (metis case_prod_conv image_insert)
  qed
  have fx: "en_id e \<notin> set (fixed_ids c)" using d(2) split by auto
  have ids: "set (live_ids (c\<lparr>rc_entries := bt_remove k ?es, rc_buffer_bytes := bb\<rparr>))
      = set (live_ids c) - {en_id e}"
    using gone fx split by (auto simp: live_ids_def fixed_ids_def)
  have dist: "distinct (live_ids (c\<lparr>rc_entries := bt_remove k ?es, rc_buffer_bytes := bb\<rparr>))"
  proof -
    have "distinct (entry_ids (bt_remove k ?es))"
      using d(1) by (simp add: entry_ids_def bt_remove_def distinct_map_filter)
    moreover have "set (entry_ids (bt_remove k ?es)) \<inter> set (fixed_ids c) = {}"
      using d(2) unfolding split by blast
    ultimately show ?thesis using d(3) by (simp add: live_ids_def fixed_ids_def)
  qed
  have "linked (c\<lparr>rc_entries := bt_remove k ?es, rc_buffer_bytes := bb\<rparr>) ?b"
    unfolding linked_def ids using dist dm seen by auto
  moreover have "\<forall>(k', e') \<in> set (bt_remove k ?es). entry_ok trk pend (bk_live ?b) mem k' e'"
  proof safe
    fix k' e' assume m': "(k', e') \<in> set (bt_remove k ?es)"
    then have "en_id e' \<noteq> en_id e" using gone entry_id_in by metis
    moreover have "entry_ok trk pend (bk_live b) mem k' e'"
      using ok m' by (auto simp: cache_ok_def bt_remove_set)
    ultimately show "entry_ok trk pend (bk_live ?b) mem k' e'" by (auto elim: entry_ok_mono)
  qed
  moreover have "replay_cmd (FreeResource (en_id e)) b = Some ?b"
    using dm split by (auto simp: live_ids_def dom_def split: option.splits)
  ultimately show thesis
    using that[of ?b] ok bytes by (simp add: cache_ok_def distinct_bt_remove)
qed

text \<open>Adding one entry under the id just minted:\<close>

lemma cache_ok_fresh: "cache_ok trk pend c b mem \<Longrightarrow> rc_next_id c \<notin> bk_seen b"
  by (auto simp: cache_ok_def linked_def)

lemma word_lt_succ: "unat n + 1 < 2 ^ LENGTH('a) \<Longrightarrow> i \<le> n \<Longrightarrow> i < n + 1" for i n :: "'a::len word"
  using unat_add_nowrap[of n 1] by (simp add: word_less_nat_alt word_le_nat_alt)

lemma mint_id_Some:
  "mint_id c = Some (i, c') \<longleftrightarrow>
     unat (rc_next_id c) + 1 < 2 ^ 32 \<and> i = rc_next_id c \<and> c' = c\<lparr>rc_next_id := rc_next_id c + 1\<rparr>"
  by (auto simp: mint_id_def split: option.splits)

lemma linked_create:
  assumes l: "linked c b" and n: "unat (rc_next_id c) + 1 < 2 ^ 32"
    and ids: "mset (live_ids c') = add_mset (rc_next_id c) (mset (live_ids c))"
    and nx: "rc_next_id c' = rc_next_id c + 1"
  shows "linked c' (b\<lparr>bk_live := (bk_live b)(rc_next_id c \<mapsto> r), bk_seen := insert (rc_next_id c) (bk_seen b)\<rparr>)"
proof -
  have fresh: "rc_next_id c \<notin> bk_seen b" using l by (auto simp: linked_def)
  have lt: "i < rc_next_id c + 1" if "i \<le> rc_next_id c" for i
    using word_lt_succ[OF _ that] n by simp
  have set: "set (live_ids c') = insert (rc_next_id c) (set (live_ids c))"
    using arg_cong[OF ids, of set_mset] by simp
  have "distinct (rc_next_id c # live_ids c)"
    using l fresh by (auto simp: linked_def)
  then have "distinct (live_ids c')"
    using ids by (metis mset.simps(2) mset_eq_imp_distinct_iff)
  then show ?thesis
    using l lt by (auto simp: linked_def set nx less_imp_le)
qed

lemma cache_ok_add:
  assumes ok: "cache_ok trk pend c b mem" and k: "map_of (rc_entries c) k = None"
    and n: "unat (rc_next_id c) + 1 < 2 ^ 32" and e: "en_id e = rc_next_id c"
    and new: "entry_ok trk' pend ((bk_live b)(rc_next_id c \<mapsto> r)) mem k e"
    and mono: "\<And>a n. trk a n \<Longrightarrow> trk' a n"
    and bytes: "unat bb \<le> covered_bytes ((k, e) # rc_entries c)"
  shows "cache_ok trk' pend
    (c\<lparr>rc_next_id := rc_next_id c + 1, rc_buffer_bytes := bb, rc_entries := (k, e) # rc_entries c\<rparr>)
    (b\<lparr>bk_live := (bk_live b)(rc_next_id c \<mapsto> r), bk_seen := insert (rc_next_id c) (bk_seen b)\<rparr>) mem"
    (is "cache_ok _ _ ?c ?b _")
proof -
  have l: "linked c b" using ok by (simp add: cache_ok_def)
  have "linked ?c ?b"
    by (rule linked_create[OF l n]) (simp_all add: live_ids_def fixed_ids_def entry_ids_def e)
  moreover have "entry_ok trk' pend (bk_live ?b) mem k' e'" if m: "(k', e') \<in> set (rc_entries c)" for k' e'
  proof (rule entry_ok_mono)
    show "entry_ok trk pend (bk_live b) mem k' e'" using ok m by (auto simp: cache_ok_def)
    have "en_id e' \<in> bk_seen b"
      using entry_id_in[OF m] l by (auto simp: linked_def live_ids_def)
    then have "en_id e' \<noteq> rc_next_id c" using l by (auto simp: linked_def)
    then show "bk_live ?b (en_id e') = bk_live b (en_id e')" by simp
  qed (rule mono)
  ultimately show ?thesis
    using ok k new bytes by (auto simp: cache_ok_def map_of_eq_None_iff)
qed

lemma cache_ok_fixed:
  assumes ok: "cache_ok trk pend c b mem" and n: "unat (rc_next_id c) + 1 < 2 ^ 32"
    and ids: "mset (live_ids c') = add_mset (rc_next_id c) (mset (live_ids c))"
    and c': "rc_next_id c' = rc_next_id c + 1" "rc_entries c' = rc_entries c" "rc_buffer_bytes c' = rc_buffer_bytes c"
  shows "cache_ok trk pend c'
    (b\<lparr>bk_live := (bk_live b)(rc_next_id c \<mapsto> r), bk_seen := insert (rc_next_id c) (bk_seen b)\<rparr>) mem"
    (is "cache_ok _ _ _ ?b _")
proof -
  have l: "linked c b" using ok by (simp add: cache_ok_def)
  have "entry_ok trk pend (bk_live ?b) mem k' e'" if m: "(k', e') \<in> set (rc_entries c)" for k' e'
  proof (rule entry_ok_mono)
    show "entry_ok trk pend (bk_live b) mem k' e'" using ok m by (auto simp: cache_ok_def)
    have "en_id e' \<in> bk_seen b"
      using entry_id_in[OF m] l by (auto simp: linked_def live_ids_def)
    then have "en_id e' \<noteq> rc_next_id c" using l by (auto simp: linked_def)
    then show "bk_live ?b (en_id e') = bk_live b (en_id e')" by simp
  qed
  then show ?thesis
    using ok c' linked_create[OF l n ids c'(1)] by (auto simp: cache_ok_def)
qed

lemma entry_ids_modify:
  "(\<And>e. en_id (f e) = en_id e) \<Longrightarrow> entry_ids (hm_modify k f es) = entry_ids es"
  by (auto simp: entry_ids_def hm_modify_def)

lemma covered_bytes_modify:
  "(\<And>e. en_imported (f e) = en_imported e) \<Longrightarrow> covered_bytes (hm_modify k f es) = covered_bytes es"
  by (auto simp: covered_bytes_def hm_modify_def comp_def case_prod_beta intro!: arg_cong[where f = sum_list])

lemma cache_ok_modify:
  assumes ok: "cache_ok trk pend c b mem" and k: "map_of (rc_entries c) k = Some e"
    and f: "\<And>e. en_id (f e) = en_id e" "\<And>e. en_imported (f e) = en_imported e"
    and b': "bk_live b' = bk_live b \<or> (\<exists>r. bk_live b' = (bk_live b)(en_id e \<mapsto> r))" "bk_seen b' = bk_seen b"
    and new: "entry_ok trk pend (bk_live b') mem k (f e)"
  shows "cache_ok trk pend (c\<lparr>rc_entries := hm_modify k f (rc_entries c)\<rparr>) b' mem"
proof -
  let ?es = "rc_entries c"
  have m: "(k, e) \<in> set ?es" using k by (rule map_of_SomeD)
  have d: "distinct (map fst ?es)" and l: "linked c b" using ok by (simp_all add: cache_ok_def)
  have dm: "dom (bk_live b') = dom (bk_live b)"
  proof -
    have "en_id e \<in> dom (bk_live b)" using l entry_id_in[OF m] by (simp add: linked_def live_ids_def)
    then show ?thesis using b'(1) by (metis dom_fun_upd insert_absorb option.distinct(1))
  qed
  have "entry_ok trk pend (bk_live b') mem k' (if k' = k then f e' else e')" if m': "(k', e') \<in> set ?es" for k' e'
  proof (cases "k' = k")
    case True
    then show ?thesis using new m' k d by auto
  next
    case False
    have "distinct (entry_ids ?es)" using l by (auto simp: linked_def live_ids_def)
    then have "inj_on (\<lambda>(k, e). en_id e) (set ?es)" by (simp add: entry_ids_def distinct_map)
    then have "en_id e' \<noteq> en_id e" using inj_onD[of _ _ "(k', e')" "(k, e)"] m m' False by fastforce
    then have "bk_live b' (en_id e') = bk_live b (en_id e')" using b'(1) by auto
    then show ?thesis using False ok m' entry_ok_mono[of trk pend "bk_live b" mem k' e' trk "bk_live b'"]
      by (auto simp: cache_ok_def)
  qed
  then have "\<forall>(k', e') \<in> set (hm_modify k f ?es). entry_ok trk pend (bk_live b') mem k' e'"
    by (auto simp: hm_modify_set)
  moreover have "linked (c\<lparr>rc_entries := hm_modify k f ?es\<rparr>) b'"
    using l dm b'(2) entry_ids_modify[OF f(1)] by (simp add: linked_def live_ids_def fixed_ids_def)
  ultimately show ?thesis
    using ok d covered_bytes_modify[OF f(2)] by (simp add: cache_ok_def)
qed

section \<open>The operations keep cache and display side in step\<close>

definition same_rest :: "resource_cache \<Rightarrow> resource_cache \<Rightarrow> bool" where
  "same_rest c c' \<longleftrightarrow> rc_next_id c' = rc_next_id c \<and> rc_samplers c' = rc_samplers c \<and>
     rc_white_dummy c' = rc_white_dummy c \<and> rc_policy c' = rc_policy c"

definition candidate_in :: "resource_cache \<Rightarrow> u64 \<times> u64 \<times> resource_key \<Rightarrow> bool" where
  "candidate_in c = (\<lambda>(l, sz, k). sz = rk_size k \<and> is_linear_buffer (rk_layout k) \<and>
     (\<forall>e. map_of (rc_entries c) k = Some e \<longrightarrow> \<not> en_imported e \<and> en_last_used e = l))"

lemma bt_remove_lookup: "map_of (bt_remove k m) k' = (if k' = k then None else map_of m k')"
  by (simp add: bt_remove_get)

lemma candidate_in_remove:
  "candidate_in c x \<Longrightarrow> candidate_in (c\<lparr>rc_entries := bt_remove k (rc_entries c), rc_buffer_bytes := bb\<rparr>) x"
  by (auto simp: candidate_in_def bt_remove_lookup split: if_splits)

lemma evict_ok:
  assumes "cache_ok trk pend c b mem" and "list_all (candidate_in c) ks" and "evict ks c = (c', out)"
  shows "\<exists>b'. replay out b = Some b' \<and> cache_ok trk pend c' b' mem \<and> same_rest c c' \<and>
    rc_trimmed_flip c' = rc_trimmed_flip c \<and> set (rc_entries c') \<subseteq> set (rc_entries c)"
  using assms
proof (induction ks c arbitrary: b c' out rule: evict.induct)
  case (1 c)
  then show ?case by (simp add: same_rest_def)
next
  case (2 l sz k ks c)
  show ?case
  proof (cases "rc_buffer_bytes c \<le> BUFFER_BUDGET_BYTES")
    case True
    then show ?thesis using "2.prems" by (simp add: same_rest_def)
  next
    case over: False
    show ?thesis
    proof (cases "map_of (rc_entries c) k")
      case None
      then show ?thesis using 2 over by simp
    next
      case (Some e)
      let ?c = "c\<lparr>rc_entries := bt_remove k (rc_entries c), rc_buffer_bytes := saturating_sub (rc_buffer_bytes c) sz\<rparr>"
      have d: "distinct (map fst (rc_entries c))" and bb: "unat (rc_buffer_bytes c) \<le> covered_bytes (rc_entries c)"
        using "2.prems"(1) by (simp_all add: cache_ok_def)
      have cand: "sz = rk_size k" "is_linear_buffer (rk_layout k)" "\<not> en_imported e"
        using "2.prems"(2) Some by (auto simp: candidate_in_def)
      have "unat (saturating_sub (rc_buffer_bytes c) sz) \<le> covered_bytes (bt_remove k (rc_entries c))"
        using bb covered_bytes_remove[OF d Some] cand by (simp add: unat_saturating_sub)
      then obtain b1 where b1: "replay_cmd (FreeResource (en_id e)) b = Some b1" "cache_ok trk pend ?c b1 mem"
        by (rule cache_ok_remove[OF "2.prems"(1) Some])
      obtain out' where ev: "evict ks ?c = (c', out')" "out = FreeResource (en_id e) # out'"
        using "2.prems"(3) over Some by (auto split: prod.splits)
      have "list_all (candidate_in ?c) ks"
        using "2.prems"(2) candidate_in_remove by (auto simp: list_all_iff)
      from "2.IH"(2)[OF over Some b1(2) this ev(1)] obtain b' where
        "replay out' b1 = Some b'" "cache_ok trk pend c' b' mem" "same_rest ?c c'"
        "rc_trimmed_flip c' = rc_trimmed_flip ?c" "set (rc_entries c') \<subseteq> set (rc_entries ?c)"
        by blast
      then show ?thesis
        using b1(1) ev(2) by (auto simp: same_rest_def bt_remove_set simp del: replay_cmd.simps)
    qed
  qed
qed

lemma trim_candidates_in:
  assumes "distinct (map fst (rc_entries c))"
  shows "list_all (candidate_in c) (sort_key fst (trim_candidates (rc_entries c)))"
  using assms by (auto simp: list_all_iff trim_candidates_def candidate_in_def dest: eq_key_imp_eq_value)

lemma trim_ok:
  assumes ok: "cache_ok trk pend c b mem" and t: "trim now c = (c', out)"
  obtains b' where "replay out b = Some b'" and "cache_ok trk pend c' b' mem" and "same_rest c c'"
    and "set (rc_entries c') \<subseteq> set (rc_entries c)" and "rc_trimmed_flip c' = now"
proof (cases "now = rc_trimmed_flip c \<or> rc_buffer_bytes c \<le> BUFFER_BUDGET_BYTES")
  case True
  then have "replay out b = Some b" "c' = c\<lparr>rc_trimmed_flip := now\<rparr>"
    using t by (auto simp: trim_def Let_def split: if_splits)
  then show ?thesis
    using that[of b] ok by (auto simp: same_rest_def cache_ok_def linked_def live_ids_def fixed_ids_def)
next
  case False
  let ?c = "c\<lparr>rc_trimmed_flip := now\<rparr>"
  have ev: "evict (sort_key fst (trim_candidates (rc_entries ?c))) ?c = (c', out)"
    using t False by (simp add: trim_def)
  have ok': "cache_ok trk pend ?c b mem"
    using ok by (simp add: cache_ok_def linked_def live_ids_def fixed_ids_def)
  have "distinct (map fst (rc_entries ?c))" using ok by (simp add: cache_ok_def)
  from evict_ok[OF ok' trim_candidates_in[OF this] ev] show ?thesis
    using that by (auto simp: same_rest_def)
qed

lemma is_linear_buffer_kinds: "is_linear_buffer l \<longleftrightarrow> l = VertexBuf \<or> l = IndexBuf \<or> l = ConstBuf"
  by (cases l) (simp_all add: is_linear_buffer_def)

lemma watch_pays_kinds: "watch_pays l \<longleftrightarrow> l \<noteq> VertexBuf \<and> l \<noteq> ConstBuf"
  by (cases l) (simp_all add: watch_pays_def)

lemma guest_means_linear:
  "is_linear_buffer (rk_layout k) \<Longrightarrow>
   guest_means mem k = (case mem (rk_addr k) (rk_size k) of Inr bs \<Rightarrow> Some bs | Inl _ \<Rightarrow> None)"
  by (auto simp: guest_means_def is_linear_buffer_kinds split: sum.splits)

definition reads_exact :: "guest_read \<Rightarrow> bool" where
  "reads_exact mem \<longleftrightarrow> (\<forall>a n bs. mem a n = Inr bs \<longrightarrow> length bs = unat n)"

lemma right_kind_frame [simp]:
  "right_kind k (e\<lparr>en_last_used := t\<rparr>) r = right_kind k e r"
  "right_kind k (e\<lparr>en_dirty := x\<rparr>) r = right_kind k e r"
  by (simp_all add: right_kind_def)

lemma entry_ok_last_used [simp]:
  "entry_ok trk pend live mem k (e\<lparr>en_last_used := t\<rparr>) = entry_ok trk pend live mem k e"
  by (simp add: entry_ok_def)

lemma entry_ok_dirty:
  "entry_ok trk pend live mem k e \<Longrightarrow> entry_ok trk pend live mem k (e\<lparr>en_dirty := True\<rparr>)"
  by (auto simp: entry_ok_def)

text \<open>What an operation owes: the commands replay, the invariant is kept, the id is current.\<close>

definition op_post ::
  "(u64 \<Rightarrow> u64 \<Rightarrow> bool) \<Rightarrow> (u64 \<Rightarrow> u64 \<Rightarrow> bool) \<Rightarrow> guest_read \<Rightarrow> resource_key \<Rightarrow> display_side \<Rightarrow>
   resource_cache \<Rightarrow> backend_cmd list \<Rightarrow> u32 \<Rightarrow> bool" where
  "op_post trk pend mem k b c cmds i \<longleftrightarrow>
     (\<exists>b'. replay cmds b = Some b' \<and> cache_ok trk pend c b' mem \<and> bk_live b' i \<noteq> None \<and>
        (\<not> pend (rk_addr k) (rk_size k) \<longrightarrow>
           (\<forall>bs. guest_means mem k = Some bs \<longrightarrow> (\<exists>r. bk_live b' i = Some r \<and> gpu_sees mem r = Some bs))))"

lemma op_postI:
  assumes "replay xs b = Some b1" and "op_post trk pend mem k b1 c ys i"
  shows "op_post trk pend mem k b c (xs @ ys) i"
  using assms by (simp add: op_post_def replay_append)

lemma cache_ok_entry:
  "cache_ok trk pend c b mem \<Longrightarrow> map_of (rc_entries c) k = Some e \<Longrightarrow> entry_ok trk pend (bk_live b) mem k e"
  by (auto simp: cache_ok_def dest: map_of_SomeD)

lemma touch_ok:
  assumes ok: "cache_ok trk pend c b mem" and k: "map_of (rc_entries c) k = Some e"
  shows "cache_ok trk pend (touch k c) b mem"
    and "map_of (rc_entries (touch k c)) k = Some (e\<lparr>en_last_used := rc_trimmed_flip c\<rparr>)"
proof -
  have "entry_ok trk pend (bk_live b) mem k e" using ok k by (rule cache_ok_entry)
  then show "cache_ok trk pend (touch k c) b mem"
    unfolding touch_def by (intro cache_ok_modify[OF ok k]) simp_all
  show "map_of (rc_entries (touch k c)) k = Some (e\<lparr>en_last_used := rc_trimmed_flip c\<rparr>)"
    using k by (simp add: touch_def hm_modify_get)
qed

text \<open>An upload to a live copy entry makes it current and clean.\<close>

lemma upload_ok:
  assumes ok: "cache_ok trk pend c b mem" and k: "map_of (rc_entries c) k = Some e"
    and e: "\<not> en_imported e" "\<not> en_is_rt e"
    and live: "bk_live b (en_id e) = Some r0" and r: "right_kind k e r" "gpu_sees mem r = Some bs" "guest_means mem k = Some bs"
    and up: "replay_cmd cmd b = Some (bk_update (en_id e) r b)"
  shows "op_post trk pend mem k b (clear_dirty k True c) [cmd] (en_id e)"
proof -
  let ?b = "bk_update (en_id e) r b"
  have "entry_ok trk pend (bk_live b) mem k e" using ok k by (rule cache_ok_entry)
  then have "entry_ok trk pend (bk_live ?b) mem k (e\<lparr>en_dirty := False\<rparr>)"
    using r e by (auto simp: entry_ok_def bk_update_def)
  then have "cache_ok trk pend (clear_dirty k True c) ?b mem"
    unfolding clear_dirty_def using cache_ok_modify[OF ok k, of "\<lambda>e. e\<lparr>en_dirty := False\<rparr>" ?b]
    by (auto simp: bk_update_def)
  then show ?thesis
    unfolding op_post_def using up r by (simp add: bk_update_def)
qed

lemma no_upload_ok:
  assumes "cache_ok trk pend c b mem" and "guest_means mem k = None" and "bk_live b i = Some r"
  shows "op_post trk pend mem k b (clear_dirty k False c) [] i"
  using assms by (simp add: op_post_def clear_dirty_def)

lemma clean_hit_ok:
  assumes ok: "cache_ok trk pend c b mem" and k: "map_of (rc_entries c) k = Some e"
    and clean: "en_imported e \<or> \<not> en_dirty e \<and> watch_pays (rk_layout k)"
  shows "op_post trk pend mem k b (touch k c) [] (en_id e)"
proof -
  obtain r where r: "en_is_rt e = is_target (rk_layout k)" "en_imported e \<longrightarrow> is_linear_buffer (rk_layout k)"
    "bk_live b (en_id e) = Some r" "right_kind k e r"
    "\<not> en_is_rt e \<and> \<not> en_imported e \<and> watch_pays (rk_layout k) \<longrightarrow> \<not> en_dirty e \<longrightarrow>
       pend (rk_addr k) (rk_size k) \<or> (\<exists>bs. gpu_sees mem r = Some bs \<and> guest_means mem k = Some bs)"
    using cache_ok_entry[OF ok k] unfolding entry_ok_def by blast
  have "gpu_sees mem r = Some bs" if "guest_means mem k = Some bs" "\<not> pend (rk_addr k) (rk_size k)" for bs
  proof (cases "en_imported e")
    case True
    then have l: "is_linear_buffer (rk_layout k)" using r by simp
    then have "\<not> en_is_rt e" using r(1) by (auto simp: is_linear_buffer_kinds)
    then have "r = BkImport (rk_addr k) (rk_size k)" using r(4) True by (simp add: right_kind_def)
    then show ?thesis using that guest_means_linear[OF l] by simp
  next
    case False
    have "\<not> is_target (rk_layout k)" using that(1) by (cases "rk_layout k") (auto simp: guest_means_def split: sum.splits)
    then show ?thesis using r(1,5) clean False that by auto
  qed
  then show ?thesis
    unfolding op_post_def using touch_ok(1)[OF ok k] r(3) by auto
qed

lemma covered_bytes_Cons [simp]:
  "covered_bytes ((k, e) # es) =
     (if is_linear_buffer (rk_layout k) \<and> \<not> en_imported e then unat (rk_size k) else 0) + covered_bytes es"
  by (simp add: covered_bytes_def)

lemma unat_saturating_add_le: "unat (saturating_add a b) \<le> unat a + unat b"
  by (simp add: unat_saturating_add)

text \<open>A first use: the create, perhaps the upload, and the entry.\<close>

lemma create_ok:
  assumes ok: "cache_ok trk pend c b mem" and k: "map_of (rc_entries c) k = None"
    and n: "unat (rc_next_id c) + 1 < 2 ^ 32"
    and e: "en_id e = rc_next_id c" "en_is_rt e = is_target (rk_layout k)" "en_imported e \<longrightarrow> is_linear_buffer (rk_layout k)"
    and create: "replay_cmd create b = bk_create (rc_next_id c) r0 b" and r0: "right_kind k e r0"
    and up: "replay ups (b\<lparr>bk_live := (bk_live b)(rc_next_id c \<mapsto> r0), bk_seen := insert (rc_next_id c) (bk_seen b)\<rparr>)
               = Some (b\<lparr>bk_live := (bk_live b)(rc_next_id c \<mapsto> r), bk_seen := insert (rc_next_id c) (bk_seen b)\<rparr>)"
    and r: "right_kind k e r"
    and now: "if guest_means mem k = None then \<not> en_imported e \<and> \<not> en_is_rt e \<longrightarrow> en_dirty e
              else gpu_sees mem r = guest_means mem k"
    and trk: "\<not> en_is_rt e \<and> \<not> en_imported e \<and> watch_pays (rk_layout k) \<Longrightarrow> trk' (rk_addr k) (rk_size k)"
    and mono: "\<And>a n. trk a n \<Longrightarrow> trk' a n"
    and bytes: "unat bb \<le> covered_bytes ((k, e) # rc_entries c)"
  shows "op_post trk' pend mem k b
    (c\<lparr>rc_next_id := rc_next_id c + 1, rc_buffer_bytes := bb, rc_entries := (k, e) # rc_entries c\<rparr>)
    (create # ups) (rc_next_id c)"
proof -
  have fresh: "rc_next_id c \<notin> bk_seen b" by (rule cache_ok_fresh[OF ok])
  have "entry_ok trk' pend ((bk_live b)(rc_next_id c \<mapsto> r)) mem k e"
    using e r now trk by (auto simp: entry_ok_def split: if_splits)
  from cache_ok_add[OF ok k n e(1) this mono bytes] show ?thesis
    unfolding op_post_def using create up now fresh
    by (auto simp: bk_create_def split: if_splits)
qed

lemma emit_upload_ok:
  assumes mem: "reads_exact mem" and l: "is_linear_buffer (rk_layout k)"
    and em: "emit_upload i k mem = (ups, uploaded)" and live: "bk_live b i = Some (BkBuffer (rk_size k) x)"
  shows "(\<not> uploaded \<and> ups = [] \<and> guest_means mem k = None) \<or>
    (\<exists>bs. uploaded \<and> ups = [UploadBuffer i 0 bs] \<and> guest_means mem k = Some bs \<and>
       replay_cmd (UploadBuffer i 0 bs) b = Some (bk_update i (BkBuffer (rk_size k) (Some bs)) b))"
  using em mem live guest_means_linear[OF l, of mem]
  by (auto simp: emit_upload_def reads_exact_def split: sum.splits)

lemma emit_image_upload_ok:
  assumes l: "rk_layout k = Texture f surface"
    and em: "emit_image_upload i k surface mem = Some (ups, uploaded)" and live: "bk_live b i = Some (BkImage x)"
  shows "(\<not> uploaded \<and> ups = [] \<and> guest_means mem k = None) \<or>
    (\<exists>bs. uploaded \<and> ups = [UploadImage i bs] \<and> guest_means mem k = Some bs \<and>
       replay_cmd (UploadImage i bs) b = Some (bk_update i (BkImage (Some bs)) b))"
  using em live by (auto simp: emit_image_upload_def guest_means_def l split: sum.splits option.splits)

lemma copy_entry_buffer:
  assumes "entry_ok trk pend live mem k e" and "is_linear_buffer (rk_layout k)" and "\<not> en_imported e"
  obtains x where "live (en_id e) = Some (BkBuffer (rk_size k) x)" and "\<not> en_is_rt e"
proof -
  have rt: "\<not> en_is_rt e" using assms(1,2) by (auto simp: entry_ok_def is_linear_buffer_kinds)
  obtain r where "live (en_id e) = Some r" "right_kind k e r" using assms(1) by (auto simp: entry_ok_def)
  then show thesis using that rt assms(2,3) by (cases r) (auto simp: right_kind_def)
qed

lemma texture_entry_image:
  assumes "entry_ok trk pend live mem k e" and "rk_layout k = Texture f surface"
  obtains x where "live (en_id e) = Some (BkImage x)" and "\<not> en_is_rt e" and "\<not> en_imported e"
proof -
  have rt: "\<not> en_is_rt e" "\<not> en_imported e" using assms by (auto simp: entry_ok_def is_linear_buffer_kinds)
  obtain r where "live (en_id e) = Some r" "right_kind k e r" using assms(1) by (auto simp: entry_ok_def)
  then show thesis using that rt assms(2) by (cases r) (auto simp: right_kind_def is_linear_buffer_kinds)
qed

definition after_calls :: "(u64 \<Rightarrow> u64 \<Rightarrow> bool) \<Rightarrow> dirty_call list \<Rightarrow> u64 \<Rightarrow> u64 \<Rightarrow> bool" where
  "after_calls trk calls a n \<longleftrightarrow> trk a n \<or> Watch a n \<in> set calls"

lemma after_calls_Nil [simp]: "after_calls trk [] = trk"
  by (simp add: after_calls_def fun_eq_iff)

lemma get_miss_ok:
  assumes ok: "cache_ok trk pend c b mem" and mem: "reads_exact mem" and l: "is_linear_buffer (rk_layout k)"
    and k: "map_of (rc_entries c) k = None" and g: "get_miss k mem c = Some (c', cmds, calls, i)"
  shows "op_post (after_calls trk calls) pend mem k b c' cmds i"
proof -
  define imp where "imp = wants_import k (c\<lparr>rc_next_id := rc_next_id c + 1\<rparr>)"
  obtain ups u where em: "emit_upload (rc_next_id c) k mem = (ups, u)" by force
  define e where "e = \<lparr>en_id = rc_next_id c, en_imported = imp, en_is_rt = False, en_dirty = \<not> (imp \<or> u),
    en_last_used = rc_trimmed_flip c\<rparr>"
  define bb where "bb = (if imp then rc_buffer_bytes c else saturating_add (rc_buffer_bytes c) (rk_size k))"
  define cmd where "cmd = (if imp then ImportBuffer (rc_next_id c) (rk_addr k) (rk_size k)
    else CreateBuffer (rc_next_id c) (rk_size k))"
  define r0 where "r0 = (if imp then BkImport (rk_addr k) (rk_size k) else BkBuffer (rk_size k) None)"
  have res: "unat (rc_next_id c) + 1 < 2 ^ 32" "i = rc_next_id c" "cmds = cmd # (if imp then [] else ups)"
    "calls = (if watch_pays (rk_layout k) then [Watch (rk_addr k) (rk_size k)] else [])"
    "c' = c\<lparr>rc_next_id := rc_next_id c + 1, rc_buffer_bytes := bb, rc_entries := (k, e) # rc_entries c\<rparr>"
    using g em l k
    by (auto simp: get_miss_def mint_id_Some hm_insert_new imp_def e_def bb_def cmd_def Let_def
        split: option.splits if_splits)
  let ?live = "\<lambda>r. b\<lparr>bk_live := (bk_live b)(rc_next_id c \<mapsto> r), bk_seen := insert (rc_next_id c) (bk_seen b)\<rparr>"
  have bytes: "unat bb \<le> covered_bytes ((k, e) # rc_entries c)"
    using ok l unat_saturating_add_le[of "rc_buffer_bytes c" "rk_size k"]
    by (auto simp: bb_def e_def cache_ok_def)
  have nt: "\<not> is_target (rk_layout k)" using l by (auto simp: is_linear_buffer_kinds)
  have "\<exists>r. replay (if imp then [] else ups) (?live r0) = Some (?live r) \<and> right_kind k e r \<and>
      (if guest_means mem k = None then \<not> en_imported e \<and> \<not> en_is_rt e \<longrightarrow> en_dirty e
       else gpu_sees mem r = guest_means mem k)"
  proof (cases imp)
    case True
    then show ?thesis
      by (intro exI[of _ r0]) (auto simp: r0_def e_def right_kind_def guest_means_linear[OF l] split: sum.splits)
  next
    case False
    have "bk_live (?live r0) (rc_next_id c) = Some (BkBuffer (rk_size k) None)" using False by (simp add: r0_def)
    from emit_upload_ok[OF mem l em this] show ?thesis
    proof
      assume "\<not> u \<and> ups = [] \<and> guest_means mem k = None"
      then show ?thesis using False l by (intro exI[of _ r0]) (simp add: r0_def e_def right_kind_def)
    next
      assume "\<exists>bs. u \<and> ups = [UploadBuffer (rc_next_id c) 0 bs] \<and> guest_means mem k = Some bs \<and>
         replay_cmd (UploadBuffer (rc_next_id c) 0 bs) (?live r0)
           = Some (bk_update (rc_next_id c) (BkBuffer (rk_size k) (Some bs)) (?live r0))"
      then obtain bs where "u" "ups = [UploadBuffer (rc_next_id c) 0 bs]" "guest_means mem k = Some bs"
        "replay_cmd (UploadBuffer (rc_next_id c) 0 bs) (?live r0)
           = Some (bk_update (rc_next_id c) (BkBuffer (rk_size k) (Some bs)) (?live r0))"
        by blast
      then show ?thesis using False l
        by (intro exI[of _ "BkBuffer (rk_size k) (Some bs)"])
          (simp add: e_def right_kind_def bk_update_def del: replay_cmd.simps)
    qed
  qed
  then obtain r where r: "replay (if imp then [] else ups) (?live r0) = Some (?live r)" "right_kind k e r"
      "if guest_means mem k = None then \<not> en_imported e \<and> \<not> en_is_rt e \<longrightarrow> en_dirty e
       else gpu_sees mem r = guest_means mem k"
    by blast
  show ?thesis
    unfolding res(2-5)
    by (rule create_ok[OF ok k res(1) _ _ _ _ _ r(1,2,3) _ _ bytes])
      (use l nt in \<open>auto simp: e_def cmd_def r0_def right_kind_def after_calls_def\<close>)
qed

lemma cache_get_ok:
  assumes ok: "cache_ok trk pend c b mem" and mem: "reads_exact mem" and l: "is_linear_buffer (rk_layout k)"
    and g: "cache_get now k mem c = Some (c', cmds, calls, i)"
  shows "op_post (after_calls trk calls) pend mem k b c' cmds i"
proof -
  obtain c1 out where t: "trim now c = (c1, out)" by force
  obtain b1 where b1: "replay out b = Some b1" "cache_ok trk pend c1 b1 mem"
    by (rule trim_ok[OF ok t])
  show ?thesis
  proof (cases "map_of (rc_entries c1) k")
    case (Some e)
    note entry = cache_ok_entry[OF b1(2) Some] and touched = touch_ok[OF b1(2) Some]
    show ?thesis
    proof (cases "en_imported e \<or> \<not> en_dirty e \<and> watch_pays (rk_layout k)")
      case True
      then show ?thesis
        using g t Some op_postI[OF b1(1) clean_hit_ok[OF b1(2) Some True]]
        by (auto simp: cache_get_def after_calls_def)
    next
      case False
      then have ni: "\<not> en_imported e" by simp
      obtain x where x: "bk_live b1 (en_id e) = Some (BkBuffer (rk_size k) x)" "\<not> en_is_rt e"
        by (rule copy_entry_buffer[OF entry l ni])
      obtain ups u where em: "emit_upload (en_id e) k mem = (ups, u)" by force
      have res: "c' = clear_dirty k u (touch k c1)" "cmds = out @ ups" "calls = []" "i = en_id e"
        using g t Some False em by (auto simp: cache_get_def Let_def)
      have "op_post trk pend mem k b1 (clear_dirty k u (touch k c1)) ups (en_id e)"
        using emit_upload_ok[OF mem l em x(1)]
      proof
        assume "\<not> u \<and> ups = [] \<and> guest_means mem k = None"
        then show ?thesis using no_upload_ok[OF touched(1) _ x(1)] by simp
      next
        assume "\<exists>bs. u \<and> ups = [UploadBuffer (en_id e) 0 bs] \<and> guest_means mem k = Some bs \<and>
           replay_cmd (UploadBuffer (en_id e) 0 bs) b1 = Some (bk_update (en_id e) (BkBuffer (rk_size k) (Some bs)) b1)"
        then show ?thesis
          using upload_ok[OF touched, of _ "BkBuffer (rk_size k) (Some bs)" bs for bs] x ni l
          by (fastforce simp: right_kind_def)
      qed
      then show ?thesis unfolding res by (auto simp: after_calls_def intro: op_postI[OF b1(1)])
    qed
  next
    case None
    then obtain ups where "get_miss k mem c1 = Some (c', ups, calls, i)" "cmds = out @ ups"
      using g t by (auto simp: cache_get_def split: option.splits)
    then show ?thesis
      using op_postI[OF b1(1) get_miss_ok[OF b1(2) mem l None]] by simp
  qed
qed

lemma texture_miss_ok:
  assumes ok: "cache_ok trk pend c b mem" and l: "rk_layout k = Texture f surface"
    and k: "map_of (rc_entries c) k = None" and g: "texture_miss k surface fmt mem c = Some (c', cmds, calls, i)"
  shows "op_post (after_calls trk calls) pend mem k b c' cmds i"
proof -
  obtain ups u where em: "emit_image_upload (rc_next_id c) k surface mem = Some (ups, u)"
    using g by (auto simp: texture_miss_def mint_id_Some split: option.splits)
  define e where "e = \<lparr>en_id = rc_next_id c, en_imported = False, en_is_rt = False, en_dirty = \<not> u,
    en_last_used = rc_trimmed_flip c\<rparr>"
  have res: "unat (rc_next_id c) + 1 < 2 ^ 32" "i = rc_next_id c"
    "cmds = CreateImage i (width (sl_extent surface)) (height (sl_extent surface)) fmt # ups"
    "calls = [Watch (rk_addr k) (rk_size k)]"
    "c' = c\<lparr>rc_next_id := rc_next_id c + 1, rc_buffer_bytes := rc_buffer_bytes c, rc_entries := (k, e) # rc_entries c\<rparr>"
    using g em k
    by (auto simp: texture_miss_def mint_id_Some hm_insert_new e_def Let_def split: option.splits)
  let ?live = "\<lambda>r. b\<lparr>bk_live := (bk_live b)(rc_next_id c \<mapsto> r), bk_seen := insert (rc_next_id c) (bk_seen b)\<rparr>"
  have kind: "right_kind k e (BkImage x)" for x by (simp add: e_def right_kind_def l is_linear_buffer_kinds)
  have "bk_live (?live (BkImage None)) (rc_next_id c) = Some (BkImage None)" by simp
  from emit_image_upload_ok[OF l em this] obtain x where
    r: "replay ups (?live (BkImage None)) = Some (?live (BkImage x))"
      "if guest_means mem k = None then \<not> en_imported e \<and> \<not> en_is_rt e \<longrightarrow> en_dirty e
       else gpu_sees mem (BkImage x) = guest_means mem k"
  proof
    assume "\<not> u \<and> ups = [] \<and> guest_means mem k = None"
    then show thesis using that[of None] by (simp add: e_def)
  next
    assume "\<exists>bs. u \<and> ups = [UploadImage (rc_next_id c) bs] \<and> guest_means mem k = Some bs \<and>
       replay_cmd (UploadImage (rc_next_id c) bs) (?live (BkImage None))
         = Some (bk_update (rc_next_id c) (BkImage (Some bs)) (?live (BkImage None)))"
    then show thesis using that by (auto simp: bk_update_def)
  qed
  show ?thesis
    unfolding res(2-5)
    by (rule create_ok[OF ok k res(1) _ _ _ _ kind r(1) kind r(2)])
      (use ok l in \<open>auto simp: e_def after_calls_def is_linear_buffer_kinds cache_ok_def\<close>)
qed

lemma get_texture_ok:
  assumes ok: "cache_ok trk pend c b mem" and l: "rk_layout k = Texture f surface"
    and g: "get_texture now k surface fmt mem c = Some (c', cmds, calls, i)"
  shows "op_post (after_calls trk calls) pend mem k b c' cmds i"
proof -
  obtain c1 out where t: "trim now c = (c1, out)" by force
  obtain b1 where b1: "replay out b = Some b1" "cache_ok trk pend c1 b1 mem"
    by (rule trim_ok[OF ok t])
  show ?thesis
  proof (cases "map_of (rc_entries c1) k")
    case (Some e)
    note entry = cache_ok_entry[OF b1(2) Some] and touched = touch_ok[OF b1(2) Some]
    show ?thesis
    proof (cases "en_dirty e")
      case False
      have "op_post trk pend mem k b1 (touch k c1) [] (en_id e)"
        using clean_hit_ok[OF b1(2) Some] False l by (simp add: watch_pays_kinds)
      from op_postI[OF b1(1) this] show ?thesis
        using g t Some False by (auto simp: get_texture_def)
    next
      case True
      obtain x where x: "bk_live b1 (en_id e) = Some (BkImage x)" "\<not> en_is_rt e" "\<not> en_imported e"
        by (rule texture_entry_image[OF entry l])
      obtain ups u where em: "emit_image_upload (en_id e) k surface mem = Some (ups, u)"
        and res: "c' = clear_dirty k u (touch k c1)" "cmds = out @ ups" "calls = []" "i = en_id e"
        using g t Some True by (auto simp: get_texture_def Let_def split: option.splits)
      have "op_post trk pend mem k b1 (clear_dirty k u (touch k c1)) ups (en_id e)"
        using emit_image_upload_ok[OF l em x(1)]
      proof
        assume "\<not> u \<and> ups = [] \<and> guest_means mem k = None"
        then show ?thesis using no_upload_ok[OF touched(1) _ x(1)] by simp
      next
        assume "\<exists>bs. u \<and> ups = [UploadImage (en_id e) bs] \<and> guest_means mem k = Some bs \<and>
           replay_cmd (UploadImage (en_id e) bs) b1 = Some (bk_update (en_id e) (BkImage (Some bs)) b1)"
        then show ?thesis
          using upload_ok[OF touched, of _ "BkImage (Some bs)" bs for bs] x l
          by (fastforce simp: right_kind_def is_linear_buffer_kinds)
      qed
      then show ?thesis unfolding res by (auto intro: op_postI[OF b1(1)])
    qed
  next
    case None
    then obtain ups where "texture_miss k surface fmt mem c1 = Some (c', ups, calls, i)" "cmds = out @ ups"
      using g t by (auto simp: get_texture_def split: option.splits)
    then show ?thesis
      using op_postI[OF b1(1) texture_miss_ok[OF b1(2) l None]] by simp
  qed
qed

lemma get_render_target_ok:
  assumes ok: "cache_ok trk pend c b mem" and l: "rk_layout k = RenderTarget f surface"
    and g: "get_render_target k surface fmt c = Some (c', cmds, i)"
  shows "op_post trk pend mem k b c' cmds i"
proof (cases "map_of (rc_entries c) k")
  case (Some e)
  have "guest_means mem k = None" by (simp add: guest_means_def l split: sum.splits)
  then show ?thesis
    using g Some touch_ok(1)[OF ok Some] cache_ok_entry[OF ok Some]
    by (auto simp: get_render_target_def op_post_def entry_ok_def)
next
  case None
  define e where "e = \<lparr>en_id = rc_next_id c, en_imported = False, en_is_rt = True, en_dirty = False,
    en_last_used = rc_trimmed_flip c\<rparr>"
  have res: "unat (rc_next_id c) + 1 < 2 ^ 32" "i = rc_next_id c"
    "cmds = [CreateRenderTarget i (width (sl_extent surface)) (height (sl_extent surface)) fmt]"
    "c' = c\<lparr>rc_next_id := rc_next_id c + 1, rc_buffer_bytes := rc_buffer_bytes c, rc_entries := (k, e) # rc_entries c\<rparr>"
    using g None
    by (auto simp: get_render_target_def mint_id_Some hm_insert_new e_def Let_def split: option.splits)
  have gm: "guest_means mem k = None" by (simp add: guest_means_def l split: sum.splits)
  show ?thesis
    unfolding res(2-4)
    by (rule create_ok[OF ok None res(1), where ?r0.0 = BkTarget and r = BkTarget])
      (use ok l gm in \<open>auto simp: e_def right_kind_def is_linear_buffer_kinds cache_ok_def\<close>)
qed

lemma bk_commute: "b\<lparr>bk_seen := s, bk_live := l\<rparr> = b\<lparr>bk_live := l, bk_seen := s\<rparr>" for b :: display_side
  by simp

lemma get_sampler_ok:
  assumes ok: "cache_ok trk pend c b mem" and g: "get_sampler desc c = Some (c', cmds, i)"
  shows "\<exists>b'. replay cmds b = Some b' \<and> cache_ok trk pend c' b' mem \<and> bk_live b' i \<noteq> None"
proof (cases "map_of (rc_samplers c) desc")
  case (Some j)
  then have "j \<in> set (live_ids c)" by (force simp: live_ids_def fixed_ids_def dest: map_of_SomeD)
  then show ?thesis
    using g ok Some by (auto simp: get_sampler_def cache_ok_def linked_def dom_def)
next
  case None
  then have res: "unat (rc_next_id c) + 1 < 2 ^ 32" "i = rc_next_id c" "cmds = [CreateSampler i desc]"
    "c' = c\<lparr>rc_next_id := rc_next_id c + 1, rc_samplers := (desc, i) # rc_samplers c\<rparr>"
    using g by (auto simp: get_sampler_def mint_id_Some hm_insert_new split: option.splits)
  have "cache_ok trk pend c' (b\<lparr>bk_live := (bk_live b)(rc_next_id c \<mapsto> BkSampler desc),
      bk_seen := insert (rc_next_id c) (bk_seen b)\<rparr>) mem"
    by (rule cache_ok_fixed[OF ok res(1)]) (simp_all add: res live_ids_def fixed_ids_def)
  then show ?thesis using cache_ok_fresh[OF ok] by (auto simp: res bk_create_def)
qed

lemma get_white_dummy_ok:
  assumes ok: "cache_ok trk pend c b mem" and g: "get_white_dummy c = Some (c', cmds, i)"
  shows "\<exists>b'. replay cmds b = Some b' \<and> cache_ok trk pend c' b' mem \<and> bk_live b' i \<noteq> None"
proof (cases "rc_white_dummy c")
  case (Some j)
  then have "j \<in> set (live_ids c)" by (simp add: live_ids_def fixed_ids_def)
  then show ?thesis
    using g ok Some by (auto simp: get_white_dummy_def cache_ok_def linked_def dom_def)
next
  case None
  then have res: "unat (rc_next_id c) + 1 < 2 ^ 32" "i = rc_next_id c"
    "cmds = [CreateImage i 1 1 TexR8G8B8A8Unorm, UploadImage i [0xFF, 0xFF, 0xFF, 0xFF]]"
    "c' = c\<lparr>rc_next_id := rc_next_id c + 1, rc_white_dummy := Some i\<rparr>"
    using g by (auto simp: get_white_dummy_def mint_id_Some split: option.splits)
  have "cache_ok trk pend c' (b\<lparr>bk_live := (bk_live b)(rc_next_id c \<mapsto> BkImage (Some [0xFF, 0xFF, 0xFF, 0xFF])),
      bk_seen := insert (rc_next_id c) (bk_seen b)\<rparr>) mem"
    by (rule cache_ok_fixed[OF ok res(1)]) (simp_all add: res live_ids_def fixed_ids_def None)
  then show ?thesis using cache_ok_fresh[OF ok] by (auto simp: res bk_create_def bk_update_def bk_commute)
qed

text \<open>Freeing keys: the entries go, one free per entry, and only their ranges are unwatched.\<close>

lemma free_keys_ok:
  assumes "cache_ok trk pend c b mem" and "free_keys ks c = (c', out, calls)"
  shows "\<exists>b'. replay out b = Some b' \<and> cache_ok trk pend c' b' mem \<and> same_rest c c' \<and>
    rc_entries c' = filter (\<lambda>(k, e). k \<notin> set ks) (rc_entries c) \<and>
    set calls \<subseteq> (\<lambda>k. Unwatch (rk_addr k) (rk_size k)) ` set ks"
  using assms
proof (induction ks c arbitrary: b c' out calls rule: free_keys.induct)
  case (1 c)
  then show ?case by (simp add: same_rest_def)
next
  case (2 k ks c)
  show ?case
  proof (cases "map_of (rc_entries c) k")
    case None
    then have "k' \<noteq> k" if "(k', e) \<in> set (rc_entries c)" for k' e
      using that by (force simp: map_of_eq_None_iff)
    then have "filter (\<lambda>(k', e). k' \<notin> set (k # ks)) (rc_entries c) = filter (\<lambda>(k', e). k' \<notin> set ks) (rc_entries c)"
      by (intro filter_cong) auto
    then show ?thesis using 2 None by fastforce
  next
    case (Some e)
    define bb where "bb = (if is_linear_buffer (rk_layout k) \<and> \<not> en_imported e
      then saturating_sub (rc_buffer_bytes c) (rk_size k) else rc_buffer_bytes c)"
    let ?c = "c\<lparr>rc_entries := bt_remove k (rc_entries c), rc_buffer_bytes := bb\<rparr>"
    have d: "distinct (map fst (rc_entries c))" and le: "unat (rc_buffer_bytes c) \<le> covered_bytes (rc_entries c)"
      using "2.prems"(1) by (simp_all add: cache_ok_def)
    have "unat bb \<le> covered_bytes (bt_remove k (rc_entries c))"
      using le covered_bytes_remove[OF d Some] by (auto simp: bb_def unat_saturating_sub)
    then obtain b1 where b1: "replay_cmd (FreeResource (en_id e)) b = Some b1" "cache_ok trk pend ?c b1 mem"
      by (rule cache_ok_remove[OF "2.prems"(1) Some])
    obtain out' calls' where ev: "free_keys ks ?c = (c', out', calls')" "out = FreeResource (en_id e) # out'"
      "set calls \<subseteq> insert (Unwatch (rk_addr k) (rk_size k)) (set calls')"
      using "2.prems"(2) Some by (auto simp: bb_def Let_def split: prod.splits if_splits)
    have "\<exists>b'. replay out' b1 = Some b' \<and> cache_ok trk pend c' b' mem \<and> same_rest ?c c' \<and>
      rc_entries c' = filter (\<lambda>(k, e). k \<notin> set ks) (rc_entries ?c) \<and>
      set calls' \<subseteq> (\<lambda>k. Unwatch (rk_addr k) (rk_size k)) ` set ks"
      by (rule "2.IH"(2)[OF Some refl refl, folded bb_def, OF b1(2) ev(1)])
    moreover have "filter (\<lambda>(k, e). k \<notin> set ks) (bt_remove k (rc_entries c))
        = filter (\<lambda>(k', e). k' \<notin> set (k # ks)) (rc_entries c)"
      unfolding bt_remove_def filter_filter by (intro filter_cong) auto
    ultimately show ?thesis
      using b1(1) ev(2,3) by (auto simp: same_rest_def simp del: replay_cmd.simps)
  qed
qed

lemma free_range_ok:
  assumes ok: "cache_ok trk pend c b mem" and f: "free_range a n c = (c', out, calls)"
  obtains b' where "replay out b = Some b'" and "cache_ok trk pend c' b' mem" and "same_rest c c'"
    and "rc_entries c' = filter (\<lambda>(k, e). \<not> ranges_overlap (rk_addr k) (rk_size k) a n) (rc_entries c)"
    and "\<And>x. x \<in> set calls \<Longrightarrow> \<exists>a' n'. x = Unwatch a' n' \<and> ranges_overlap a' n' a n"
proof -
  let ?ks = "filter (\<lambda>k. ranges_overlap (rk_addr k) (rk_size k) a n) (map fst (rc_entries c))"
  have f': "free_keys ?ks c = (c', out, calls)" using f by (simp add: free_range_def)
  have "filter (\<lambda>(k, e). k \<notin> set ?ks) (rc_entries c)
      = filter (\<lambda>(k, e). \<not> ranges_overlap (rk_addr k) (rk_size k) a n) (rc_entries c)"
    by (rule filter_cong) force+
  then show thesis
    using that free_keys_ok[OF ok f'] by fastforce
qed

text \<open>The world around the cache moves: tracking, pending writes, guest memory.\<close>

lemma cache_ok_world:
  assumes ok: "cache_ok trk pend c b mem"
    and world: "\<And>k e. (k, e) \<in> set (rc_entries c) \<Longrightarrow> trk (rk_addr k) (rk_size k) \<Longrightarrow>
      trk' (rk_addr k) (rk_size k) \<and> (pend (rk_addr k) (rk_size k) \<longrightarrow> pend' (rk_addr k) (rk_size k)) \<and>
      (pend' (rk_addr k) (rk_size k) \<or>
       (\<forall>bs. mem (rk_addr k) (rk_size k) = Inr bs \<longrightarrow> mem' (rk_addr k) (rk_size k) = Inr bs))"
  shows "cache_ok trk' pend' c b mem'"
proof -
  have keep: "guest_means mem' k = Some bs"
    if "guest_means mem k = Some bs" "\<forall>bs. mem (rk_addr k) (rk_size k) = Inr bs \<longrightarrow> mem' (rk_addr k) (rk_size k) = Inr bs"
    for k bs
    using that by (auto simp: guest_means_def split: sum.splits)
  have "entry_ok trk' pend' (bk_live b) mem' k e" if m: "(k, e) \<in> set (rc_entries c)" for k e
  proof -
    obtain r where r: "en_is_rt e = is_target (rk_layout k)" "en_imported e \<longrightarrow> is_linear_buffer (rk_layout k)"
      "bk_live b (en_id e) = Some r" "right_kind k e r"
      "\<not> en_is_rt e \<and> \<not> en_imported e \<and> watch_pays (rk_layout k) \<longrightarrow> trk (rk_addr k) (rk_size k) \<and>
        (\<not> en_dirty e \<longrightarrow> pend (rk_addr k) (rk_size k) \<or>
          (\<exists>bs. gpu_sees mem r = Some bs \<and> guest_means mem k = Some bs))"
      using ok m unfolding cache_ok_def entry_ok_def by blast
    have same: "gpu_sees mem' r = gpu_sees mem r" if "\<not> en_is_rt e" "\<not> en_imported e"
      using r(4) that by (cases r) (auto simp: right_kind_def)
    have "trk' (rk_addr k) (rk_size k) \<and> (\<not> en_dirty e \<longrightarrow> pend' (rk_addr k) (rk_size k) \<or>
        (\<exists>bs. gpu_sees mem' r = Some bs \<and> guest_means mem' k = Some bs))"
      if c: "\<not> en_is_rt e \<and> \<not> en_imported e \<and> watch_pays (rk_layout k)"
      using world[OF m] r(5) c same keep[of k] by metis
    then show ?thesis unfolding entry_ok_def using r(1-4) by blast
  qed
  then show ?thesis using ok by (auto simp: cache_ok_def)
qed

text \<open>Marking entries dirty, by a report or by hand:\<close>

definition mark_dirty :: "(resource_key \<Rightarrow> bool) \<Rightarrow> resource_cache \<Rightarrow> resource_cache" where
  "mark_dirty P c = c\<lparr>rc_entries := map (\<lambda>(k, e).
     (k, if \<not> en_imported e \<and> \<not> en_is_rt e \<and> P k then e\<lparr>en_dirty := True\<rparr> else e)) (rc_entries c)\<rparr>"

lemma map_entries_cong:
  "(\<And>k e. f (k, e) = g (k, e)) \<Longrightarrow> c\<lparr>rc_entries := map f es\<rparr> = c\<lparr>rc_entries := map g es\<rparr>"
  for c :: resource_cache
  by (metis surj_pair map_eq_conv)

lemma invalidate_range_marks:
  "invalidate_range a n c = mark_dirty (\<lambda>k. ranges_overlap (rk_addr k) (rk_size k) a n) c"
  unfolding invalidate_range_def mark_dirty_def by (rule map_entries_cong) simp

lemma mark_dirty_none: "mark_dirty (\<lambda>k. False) c = c"
  by (simp add: mark_dirty_def case_prod_beta)

lemma apply_dirty_marks:
  "apply_dirty dirtied c =
     mark_dirty (\<lambda>k. \<exists>(a, n) \<in> set dirtied. ranges_overlap (rk_addr k) (rk_size k) a n) c"
proof (cases "dirtied = []")
  case True
  then show ?thesis using mark_dirty_none by (simp add: apply_dirty_def)
next
  case False
  then show ?thesis
    unfolding apply_dirty_def mark_dirty_def
    by (simp only: if_False) (rule map_entries_cong, auto simp: list_ex_iff)
qed

lemma mark_dirty_ok:
  assumes ok: "cache_ok trk pend c b mem"
    and seen: "\<And>k e. (k, e) \<in> set (rc_entries c) \<Longrightarrow> trk (rk_addr k) (rk_size k) \<Longrightarrow>
      pend (rk_addr k) (rk_size k) \<Longrightarrow> P k \<or> pend' (rk_addr k) (rk_size k)"
  shows "cache_ok trk pend' (mark_dirty P c) b mem"
proof -
  let ?mark = "\<lambda>(k, e). (k, if \<not> en_imported e \<and> \<not> en_is_rt e \<and> P k then e\<lparr>en_dirty := True\<rparr> else e)"
  have "entry_ok trk pend' (bk_live b) mem k (if \<not> en_imported e \<and> \<not> en_is_rt e \<and> P k then e\<lparr>en_dirty := True\<rparr> else e)"
    if m: "(k, e) \<in> set (rc_entries c)" for k e
  proof -
    have "entry_ok trk pend (bk_live b) mem k e" using ok m by (auto simp: cache_ok_def)
    then show ?thesis using seen[OF m] by (cases "en_imported e \<or> en_is_rt e"; cases "P k") (auto simp: entry_ok_def)
  qed
  then have "\<forall>(k, e) \<in> set (rc_entries (mark_dirty P c)). entry_ok trk pend' (bk_live b) mem k e"
    by (auto simp: mark_dirty_def)
  moreover have "entry_ids (rc_entries (mark_dirty P c)) = entry_ids (rc_entries c)"
    by (auto simp: mark_dirty_def entry_ids_def)
  moreover have "covered_bytes (rc_entries (mark_dirty P c)) = covered_bytes (rc_entries c)"
    by (auto simp: mark_dirty_def covered_bytes_def comp_def case_prod_beta intro!: arg_cong[where f = sum_list])
  moreover have "map fst (rc_entries (mark_dirty P c)) = map fst (rc_entries c)"
    by (simp add: mark_dirty_def case_prod_beta comp_def)
  ultimately show ?thesis
    using ok by (simp add: cache_ok_def linked_def live_ids_def fixed_ids_def)
      (simp add: mark_dirty_def)
qed

section \<open>The byte budget\<close>

definition evictable :: "resource_key \<times> cache_entry \<Rightarrow> bool" where
  "evictable = (\<lambda>(k, e). is_linear_buffer (rk_layout k) \<and> \<not> en_imported e)"

definition keeps_budget :: "resource_cache \<Rightarrow> resource_cache \<Rightarrow> resource_key set \<Rightarrow> bool" where
  "keeps_budget c c' ev \<longleftrightarrow>
     rc_entries c' = filter (\<lambda>(k, e). k \<notin> ev) (rc_entries c) \<and>
     unat (rc_buffer_bytes c') = covered_bytes (rc_entries c') \<and>
     rc_buffer_bytes c' \<le> BUFFER_BUDGET_BYTES \<and>
     (\<forall>(k, e) \<in> set (rc_entries c). k \<in> ev \<longrightarrow> evictable (k, e) \<and>
        (\<forall>(k', e') \<in> set (rc_entries c'). evictable (k', e') \<longrightarrow> en_last_used e \<le> en_last_used e'))"

lemma covered_bytes_none: "\<forall>x \<in> set es. \<not> evictable x \<Longrightarrow> covered_bytes es = 0"
  by (auto simp: covered_bytes_def evictable_def sum_list_eq_0_iff)

lemma evict_keeps_budget:
  assumes "distinct (map fst (rc_entries c))" and "unat (rc_buffer_bytes c) = covered_bytes (rc_entries c)"
    and "list_all (candidate_in c) ks" and "sorted (map fst ks)"
    and "\<And>k e. (k, e) \<in> set (rc_entries c) \<Longrightarrow> evictable (k, e) \<Longrightarrow> (en_last_used e, rk_size k, k) \<in> set ks"
  shows "\<exists>ev. keeps_budget c (fst (evict ks c)) ev"
  using assms
proof (induction ks c rule: evict.induct)
  case (1 c)
  have "covered_bytes (rc_entries c) = 0" by (rule covered_bytes_none) (use "1.prems"(5) in auto)
  then show ?case using "1.prems"(2)
    by (intro exI[of _ "{}"]) (simp add: keeps_budget_def word_le_nat_alt)
next
  case (2 l sz k ks c)
  show ?case
  proof (cases "rc_buffer_bytes c \<le> BUFFER_BUDGET_BYTES")
    case True
    then show ?thesis using "2.prems"(2) by (intro exI[of _ "{}"]) (simp add: keeps_budget_def)
  next
    case over: False
    show ?thesis
    proof (cases "map_of (rc_entries c) k")
      case None
      have "\<exists>ev. keeps_budget c (fst (evict ks c)) ev"
        by (rule "2.IH"(1)[OF over None "2.prems"(1,2)])
          (use "2.prems"(3-5) None in \<open>force simp: map_of_eq_None_iff\<close>)+
      then show ?thesis using over None by simp
    next
      case (Some e)
      let ?c = "c\<lparr>rc_entries := bt_remove k (rc_entries c), rc_buffer_bytes := saturating_sub (rc_buffer_bytes c) sz\<rparr>"
      have cand: "sz = rk_size k" "is_linear_buffer (rk_layout k)" "\<not> en_imported e" "en_last_used e = l"
        using "2.prems"(3) Some by (auto simp: candidate_in_def)
      have ev: "fst (evict ((l, sz, k) # ks) c) = fst (evict ks ?c)"
        using over Some by (simp split: prod.splits)
      have "\<exists>ev. keeps_budget ?c (fst (evict ks ?c)) ev"
      proof (rule "2.IH"(2)[OF over Some])
        show "distinct (map fst (rc_entries ?c))" using "2.prems"(1) by (simp add: distinct_bt_remove)
        show "unat (rc_buffer_bytes ?c) = covered_bytes (rc_entries ?c)"
          using "2.prems"(2) covered_bytes_remove[OF "2.prems"(1) Some] cand by (simp add: unat_saturating_sub)
        show "list_all (candidate_in ?c) ks" using "2.prems"(3) candidate_in_remove by (auto simp: list_all_iff)
        show "sorted (map fst ks)" using "2.prems"(4) by simp
        show "(en_last_used e', rk_size k', k') \<in> set ks" if "(k', e') \<in> set (rc_entries ?c)" "evictable (k', e')" for k' e'
          using that "2.prems"(5)[of k' e'] by (auto simp: bt_remove_set)
      qed
      then obtain ev' where ev': "keeps_budget ?c (fst (evict ks ?c)) ev'" by blast
      let ?c' = "fst (evict ks ?c)"
      have es: "rc_entries ?c' = filter (\<lambda>(k', e). k' \<notin> insert k ev') (rc_entries c)"
        using ev' by (auto simp: keeps_budget_def bt_remove_def filter_filter intro!: filter_cong)
      have old: "l \<le> en_last_used e'" if "(k', e') \<in> set (rc_entries ?c')" "evictable (k', e')" for k' e'
      proof -
        have "(en_last_used e', rk_size k', k') \<in> set ((l, sz, k) # ks)" "k' \<noteq> k"
          using that "2.prems"(5)[of k' e'] unfolding es by auto
        then show ?thesis using "2.prems"(4) by auto
      qed
      have lru: "evictable (k1, e1) \<and>
          (\<forall>(k', e') \<in> set (rc_entries ?c'). evictable (k', e') \<longrightarrow> en_last_used e1 \<le> en_last_used e')"
        if "(k1, e1) \<in> set (rc_entries c)" "k1 \<in> insert k ev'" for k1 e1
      proof (cases "k1 = k")
        case True
        then have "e1 = e" using that(1) Some "2.prems"(1) by auto
        then show ?thesis using True cand old by (auto simp: evictable_def)
      next
        case False
        then have "(k1, e1) \<in> set (rc_entries ?c)" "k1 \<in> ev'" using that by (auto simp: bt_remove_set)
        then show ?thesis using ev' unfolding keeps_budget_def by blast
      qed
      have "keeps_budget c ?c' (insert k ev')"
        unfolding keeps_budget_def
        using es lru ev'[unfolded keeps_budget_def] by blast
      then show ?thesis unfolding ev by blast
    qed
  qed
qed

text \<open>
  On the first use after a flip the copied buffers are brought down to the budget: the byte count
  is exact, least recently used buffers go first, and textures, targets and imports are never evicted.
  Under budget, or a second time in a flip, nothing is evicted.
\<close>

theorem trim_keeps_budget:
  assumes "distinct (map fst (rc_entries c))" and "unat (rc_buffer_bytes c) = covered_bytes (rc_entries c)"
    and "now \<noteq> rc_trimmed_flip c"
  shows "\<exists>ev. keeps_budget c (fst (trim now c)) ev \<and>
    (rc_buffer_bytes c \<le> BUFFER_BUDGET_BYTES \<longrightarrow> trim now c = (c\<lparr>rc_trimmed_flip := now\<rparr>, [])) \<and>
    trim now (fst (trim now c)) = (fst (trim now c), [])"
proof -
  let ?c = "c\<lparr>rc_trimmed_flip := now\<rparr>"
  have flip: "rc_trimmed_flip (fst (evict ks c)) = rc_trimmed_flip c" for ks c
    by (induction ks c rule: evict.induct) (auto simp: Let_def split: option.splits prod.splits)
  have again: "trim now (fst (trim now c)) = (fst (trim now c), [])"
    using flip by (simp add: trim_def Let_def)
  show ?thesis
  proof (cases "rc_buffer_bytes c \<le> BUFFER_BUDGET_BYTES")
    case True
    then show ?thesis
      using assms again by (intro exI[of _ "{}"]) (simp add: trim_def keeps_budget_def)
  next
    case False
    let ?ks = "sort_key fst (trim_candidates (rc_entries c))"
    have "\<exists>ev. keeps_budget ?c (fst (evict ?ks ?c)) ev"
    proof (rule evict_keeps_budget)
      show "list_all (candidate_in ?c) ?ks" using trim_candidates_in[of ?c] assms(1) by simp
      show "sorted (map fst ?ks)" by simp
      show "(en_last_used e, rk_size k, k) \<in> set ?ks" if "(k, e) \<in> set (rc_entries ?c)" "evictable (k, e)" for k e
        using that by (force simp: trim_candidates_def evictable_def)
    qed (use assms in auto)
    then show ?thesis using assms(3) False again by (auto simp: trim_def keeps_budget_def)
  qed
qed

definition big_vertex :: resource_key where
  "big_vertex = \<lparr>rk_addr = 0x1000, rk_size = 0x5000000, rk_layout = VertexBuf\<rparr>"

definition over_budget :: resource_cache where
  "over_budget = (with_policy copy_side)\<lparr>rc_entries :=
     [(big_vertex, \<lparr>en_id = 1, en_imported = False, en_is_rt = False, en_dirty = False, en_last_used = 0\<rparr>)],
     rc_buffer_bytes := 0x5000000\<rparr>"

theorem trim_keeps_budget_witness: "\<exists>ev. keeps_budget over_budget (fst (trim 1 over_budget)) ev"
  using trim_keeps_budget[of over_budget 1]
  by (auto simp: over_budget_def with_policy_def covered_bytes_def big_vertex_def is_linear_buffer_def)

text \<open>
  Freeing a range unwatches the whole range of every entry it evicts, although a texture that shares
  bytes with such an entry, but none with the freed range, stays in the table and clean.
\<close>

definition texture_key :: resource_key where
  "texture_key = \<lparr>rk_addr = 0x1080, rk_size = 0x100, rk_layout = Texture \<lparr>dfmt = 10, nfmt = 0\<rparr>
     \<lparr>texel = Bpp32, sl_extent = \<lparr>width = 8, height = 8\<rparr>, sl_tiling = LinearGeneral, sl_compression = Off, sl_pitch = 0\<rparr>\<rparr>"

definition shared_bytes :: resource_cache where
  "shared_bytes = (with_policy copy_side)\<lparr>rc_entries :=
     [(texture_key, \<lparr>en_id = 2, en_imported = False, en_is_rt = False, en_dirty = False, en_last_used = 0\<rparr>),
      (\<lparr>rk_addr = 0x1000, rk_size = 0x100, rk_layout = IndexBuf\<rparr>,
       \<lparr>en_id = 1, en_imported = False, en_is_rt = False, en_dirty = False, en_last_used = 0\<rparr>)],
     rc_buffer_bytes := 0x100, rc_next_id := 3\<rparr>"

lemma free_unwatches_live_bytes:
  "case free_range 0x1000 0x10 shared_bytes of (c, cmds, calls) \<Rightarrow>
     map fst (rc_entries c) = [texture_key] \<and> cmds = [FreeResource 1] \<and> calls = [Unwatch 0x1000 0x100] \<and>
     ranges_overlap 0x1000 0x100 (rk_addr texture_key) (rk_size texture_key)"
  by (simp add: free_range_def shared_bytes_def with_policy_def texture_key_def ranges_overlap_def
      saturating_add_def bt_remove_def is_linear_buffer_def watch_pays_def)

end
