(* ===== verification/Cache_System.thy ===== *)
theory Cache_System
  imports Resource_Cache
begin

text \<open>
  The resource cache composed with guest memory, a dirty source and the display side. The dirty source
  is an interface (locale \<open>dirty_contract\<close>), kept by the conservative source of
  \<^verbatim>\<open>crates/core/src/dirty.rs\<close>; the real one calls the CPU emulator's library. Over any run of uses,
  drains, guest writes, frees and mappings, the protocol with the display side is never violated and
  what the GPU reads after a drain is what the guest wrote.
\<close>

section \<open>The composed system\<close>

datatype cache_op =
    UseBuffer u64 resource_key
  | UseTexture u64 u64 u64 surface_format surface_layout texture_format
  | UseTarget u64 u64 surface_format surface_layout color_format
  | UseSampler sampler_desc
  | UseWhite

fun run_op :: "cache_op \<Rightarrow> guest_read \<Rightarrow> resource_cache \<Rightarrow> cache_result" where
  "run_op (UseBuffer now k) mem c = cache_get now k mem c"
| "run_op (UseTexture now a n f surface fmt) mem c =
     get_texture now \<lparr>rk_addr = a, rk_size = n, rk_layout = Texture f surface\<rparr> surface fmt mem c"
| "run_op (UseTarget a n f surface fmt) mem c =
     map_option (\<lambda>(c, cmds, i). (c, cmds, [], i))
       (get_render_target \<lparr>rk_addr = a, rk_size = n, rk_layout = RenderTarget f surface\<rparr> surface fmt c)"
| "run_op (UseSampler desc) mem c = map_option (\<lambda>(c, cmds, i). (c, cmds, [], i)) (get_sampler desc c)"
| "run_op UseWhite mem c = map_option (\<lambda>(c, cmds, i). (c, cmds, [], i)) (get_white_dummy c)"

fun op_wf :: "cache_op \<Rightarrow> bool" where
  "op_wf (UseBuffer now k) = is_linear_buffer (rk_layout k)"
| "op_wf _ = True"

text \<open>The bytes the guest means by what it asked for, where it asked for bytes:\<close>

fun op_means :: "cache_op \<Rightarrow> guest_read \<Rightarrow> u8 list option" where
  "op_means (UseBuffer now k) mem = guest_means mem k"
| "op_means (UseTexture now a n f surface fmt) mem =
     guest_means mem \<lparr>rk_addr = a, rk_size = n, rk_layout = Texture f surface\<rparr>"
| "op_means _ mem = None"

record 'd gpu_system =
  sy_cache :: resource_cache
  sy_dirty :: 'd
  sy_display :: "display_side option"
  sy_mem :: guest_read

definition sys_op :: "'d dirty_source \<Rightarrow> cache_op \<Rightarrow> 'd gpu_system \<Rightarrow> ('d gpu_system \<times> u32) option" where
  "sys_op src op s =
     (case run_op op (sy_mem s) (sy_cache s) of
        None \<Rightarrow> None
      | Some (c, cmds, calls, i) \<Rightarrow>
          Some (s\<lparr>sy_cache := c, sy_dirty := make_calls src calls (sy_dirty s),
                  sy_display := Option.bind (sy_display s) (replay cmds)\<rparr>, i))"

definition sys_drain :: "'d dirty_source \<Rightarrow> 'd gpu_system \<Rightarrow> 'd gpu_system" where
  "sys_drain src s =
     (let (c, d) = drain_dirty src (sy_dirty s) (sy_cache s) in s\<lparr>sy_cache := c, sy_dirty := d\<rparr>)"

definition sys_free :: "'d dirty_source \<Rightarrow> u64 \<Rightarrow> u64 \<Rightarrow> 'd gpu_system \<Rightarrow> 'd gpu_system" where
  "sys_free src a n s =
     (let (c, cmds, calls) = notify_free a n (sy_cache s)
      in s\<lparr>sy_cache := c, sy_dirty := make_calls src calls (sy_dirty s),
           sy_display := Option.bind (sy_display s) (replay cmds)\<rparr>)"

text \<open>A change of guest memory inside one range, and one that only maps more:\<close>

definition only_changes :: "u64 \<Rightarrow> u64 \<Rightarrow> guest_read \<Rightarrow> guest_read \<Rightarrow> bool" where
  "only_changes a n mem mem' \<longleftrightarrow> (\<forall>a' n'. \<not> ranges_overlap a' n' a n \<longrightarrow> mem' a' n' = mem a' n')"

definition maps_more :: "guest_read \<Rightarrow> guest_read \<Rightarrow> bool" where
  "maps_more mem mem' \<longleftrightarrow> (\<forall>a n bs. mem a n = Inr bs \<longrightarrow> mem' a n = Inr bs)"

inductive quiet_step :: "'d dirty_source \<Rightarrow> 'd gpu_system \<Rightarrow> 'd gpu_system \<Rightarrow> bool" for src where
  use: "op_wf op \<Longrightarrow> sys_op src op s = Some (s', i) \<Longrightarrow> quiet_step src s s'"
| invalidate: "quiet_step src s (s\<lparr>sy_cache := invalidate_range a n (sy_cache s)\<rparr>)"
| rehash: "mset es = mset (rc_entries (sy_cache s)) \<Longrightarrow>
     quiet_step src s (s\<lparr>sy_cache := sy_cache s\<lparr>rc_entries := es\<rparr>\<rparr>)"

inductive gpu_step ::
  "'d dirty_source \<Rightarrow> (u64 \<Rightarrow> u64 \<Rightarrow> 'd \<Rightarrow> 'd) \<Rightarrow> 'd gpu_system \<Rightarrow> 'd gpu_system \<Rightarrow> bool"
  for src wrote where
  quiet: "quiet_step src s s' \<Longrightarrow> gpu_step src wrote s s'"
| drain: "gpu_step src wrote s (sys_drain src s)"
| guest_write: "only_changes a n (sy_mem s) mem \<Longrightarrow> reads_exact mem \<Longrightarrow>
     gpu_step src wrote s (s\<lparr>sy_mem := mem, sy_dirty := wrote a n (sy_dirty s)\<rparr>)"
| release: "only_changes a n (sy_mem s) mem \<Longrightarrow> reads_exact mem \<Longrightarrow>
     gpu_step src wrote s ((sys_free src a n s)\<lparr>sy_mem := mem\<rparr>)"
| map_in: "maps_more (sy_mem s) mem \<Longrightarrow> reads_exact mem \<Longrightarrow> gpu_step src wrote s (s\<lparr>sy_mem := mem\<rparr>)"

definition gpu_start :: "'d gpu_system \<Rightarrow> bool" where
  "gpu_start s \<longleftrightarrow> (\<exists>p. sy_cache s = with_policy p) \<and>
     sy_display s = Some \<lparr>bk_live = (\<lambda>_. None), bk_seen = {}\<rparr> \<and> reads_exact (sy_mem s)"

definition sys_ok ::
  "('d \<Rightarrow> u64 \<Rightarrow> u64 \<Rightarrow> bool) \<Rightarrow> ('d \<Rightarrow> u64 \<Rightarrow> u64 \<Rightarrow> bool) \<Rightarrow> 'd gpu_system \<Rightarrow> bool" where
  "sys_ok trk pend s \<longleftrightarrow> reads_exact (sy_mem s) \<and>
     (\<exists>b. sy_display s = Some b \<and> cache_ok (trk (sy_dirty s)) (pend (sy_dirty s)) (sy_cache s) b (sy_mem s))"

lemma run_op_calls:
  "run_op op mem c = Some (c', cmds, calls, i) \<Longrightarrow> \<forall>x \<in> set calls. \<exists>a n. x = Watch a n"
  by (cases op)
    (auto simp: cache_get_def get_texture_def get_miss_def texture_miss_def Let_def
      split: prod.splits option.splits if_splits)

lemma run_op_ok:
  assumes ok: "cache_ok trk pend c b mem" and mem: "reads_exact mem" and op: "op_wf op"
    and run: "run_op op mem c = Some (c', cmds, calls, i)"
  obtains b' where "replay cmds b = Some b'" and "cache_ok (after_calls trk calls) pend c' b' mem"
    and "bk_live b' i \<noteq> None"
    and "\<And>bs. (\<forall>a n. \<not> pend a n) \<Longrightarrow> op_means op mem = Some bs \<Longrightarrow>
      \<exists>r. bk_live b' i = Some r \<and> gpu_sees mem r = Some bs"
proof (cases op)
  case (UseBuffer now k)
  then show ?thesis
    using cache_get_ok[OF ok mem] op run that unfolding op_post_def by (simp del: not_None_eq) blast
next
  case (UseTexture now a n f surface fmt)
  let ?k = "\<lparr>rk_addr = a, rk_size = n, rk_layout = Texture f surface\<rparr>"
  have "op_post (after_calls trk calls) pend mem ?k b c' cmds i"
    by (rule get_texture_ok[OF ok]) (use run UseTexture in auto)
  then show ?thesis
    using that UseTexture unfolding op_post_def by (simp del: not_None_eq) blast
next
  case (UseTarget a n f surface fmt)
  let ?k = "\<lparr>rk_addr = a, rk_size = n, rk_layout = RenderTarget f surface\<rparr>"
  have "get_render_target ?k surface fmt c = Some (c', cmds, i)" "calls = []"
    using run UseTarget by auto
  then have "op_post trk pend mem ?k b c' cmds i" "calls = []"
    using get_render_target_ok[OF ok] by auto
  then show ?thesis
    using that UseTarget unfolding op_post_def by (simp del: not_None_eq) blast
next
  case (UseSampler desc)
  then have "get_sampler desc c = Some (c', cmds, i)" "calls = []" using run by auto
  then show ?thesis using get_sampler_ok[OF ok] that UseSampler by (simp del: not_None_eq) blast
next
  case UseWhite
  then have "get_white_dummy c = Some (c', cmds, i)" "calls = []" using run by auto
  then show ?thesis using get_white_dummy_ok[OF ok] that UseWhite by (simp del: not_None_eq) blast
qed

text \<open>
  What the cache relies on: a watched range stays tracked until that very range is unwatched, a guest
  write to a tracked range is pending until the next drain, and the drain reports every pending one.
\<close>

locale dirty_contract =
  fixes src :: "'d dirty_source" and wrote :: "u64 \<Rightarrow> u64 \<Rightarrow> 'd \<Rightarrow> 'd"
    and tracked :: "'d \<Rightarrow> u64 \<Rightarrow> u64 \<Rightarrow> bool" and pending :: "'d \<Rightarrow> u64 \<Rightarrow> u64 \<Rightarrow> bool"
  assumes watch_tracks: "tracked (ds_watch src a n d) a n"
    and watch_keeps: "tracked d a' n' \<Longrightarrow> tracked (ds_watch src a n d) a' n'"
    and watch_pending: "pending d a' n' \<Longrightarrow> pending (ds_watch src a n d) a' n'"
    and unwatch_keeps: "tracked d a' n' \<Longrightarrow> (a', n') \<noteq> (a, n) \<Longrightarrow> tracked (ds_unwatch src a n d) a' n'"
    and unwatch_pending: "pending d a' n' \<Longrightarrow> (a', n') \<noteq> (a, n) \<Longrightarrow> pending (ds_unwatch src a n d) a' n'"
    and wrote_tracks: "tracked d a' n' \<Longrightarrow> tracked (wrote a n d) a' n'"
    and wrote_keeps: "pending d a' n' \<Longrightarrow> pending (wrote a n d) a' n'"
    and wrote_pending: "tracked d a' n' \<Longrightarrow> ranges_overlap a' n' a n \<Longrightarrow> pending (wrote a n d) a' n'"
    and take_tracks: "ds_take_dirty src d = (rs, d') \<Longrightarrow> tracked d a n \<Longrightarrow> tracked d' a n"
    and take_reports: "ds_take_dirty src d = (rs, d') \<Longrightarrow> tracked d a n \<Longrightarrow> pending d a n \<Longrightarrow>
      \<exists>(a', n') \<in> set rs. ranges_overlap a n a' n'"
begin

lemma make_calls_Cons [simp]: "make_calls src (x # xs) d = make_calls src xs (make_call src x d)"
  by (simp add: make_calls_def)

lemma watch_calls:
  "\<forall>x \<in> set calls. \<exists>a n. x = Watch a n \<Longrightarrow>
   (after_calls (tracked d) calls a n \<longrightarrow> tracked (make_calls src calls d) a n) \<and>
   (pending d a n \<longrightarrow> pending (make_calls src calls d) a n)"
proof (induction calls arbitrary: d)
  case (Cons x xs)
  obtain a' n' where x: "x = Watch a' n'" using Cons.prems by auto
  have "after_calls (tracked d) (x # xs) a n \<Longrightarrow> after_calls (tracked (make_call src x d)) xs a n"
    by (auto simp: after_calls_def x watch_tracks watch_keeps)
  then show ?case using Cons.IH[of "make_call src x d"] Cons.prems by (auto simp: x watch_pending)
qed (simp add: make_calls_def)

lemma unwatch_calls:
  "\<forall>x \<in> set calls. \<exists>a' n'. x = Unwatch a' n' \<and> (a, n) \<noteq> (a', n') \<Longrightarrow>
   (tracked d a n \<longrightarrow> tracked (make_calls src calls d) a n) \<and>
   (pending d a n \<longrightarrow> pending (make_calls src calls d) a n)"
proof (induction calls arbitrary: d)
  case (Cons x xs)
  obtain a' n' where x: "x = Unwatch a' n'" "(a, n) \<noteq> (a', n')" using Cons.prems by auto
  then show ?case
    using Cons.IH[of "make_call src x d"] Cons.prems by (auto simp: unwatch_keeps unwatch_pending)
qed (simp add: make_calls_def)

text \<open>An operation: the commands replay, the invariant is kept, the id it returns is live and current.\<close>

lemma sys_op_ok:
  assumes s: "sys_ok tracked pend s" and op: "op_wf op" "sys_op src op s = Some (s', i)"
    and pend: "\<And>calls d a n. \<forall>x \<in> set calls. \<exists>a n. x = Watch a n \<Longrightarrow> pend d a n \<Longrightarrow> pend (make_calls src calls d) a n"
  shows "sys_ok tracked pend s'"
    and "(\<forall>a n. \<not> pend (sy_dirty s) a n) \<Longrightarrow> op_means op (sy_mem s) = Some bs \<Longrightarrow>
      \<exists>b r. sy_display s' = Some b \<and> bk_live b i = Some r \<and> gpu_sees (sy_mem s') r = Some bs"
proof -
  obtain b where b: "sy_display s = Some b" "reads_exact (sy_mem s)"
    "cache_ok (tracked (sy_dirty s)) (pend (sy_dirty s)) (sy_cache s) b (sy_mem s)"
    using s by (auto simp: sys_ok_def)
  obtain c cmds calls where run: "run_op op (sy_mem s) (sy_cache s) = Some (c, cmds, calls, i)"
    and s': "s' = s\<lparr>sy_cache := c, sy_dirty := make_calls src calls (sy_dirty s),
      sy_display := Option.bind (sy_display s) (replay cmds)\<rparr>"
    using op(2) by (auto simp: sys_op_def split: option.splits)
  obtain b' where b': "replay cmds b = Some b'"
      "cache_ok (after_calls (tracked (sy_dirty s)) calls) (pend (sy_dirty s)) c b' (sy_mem s)"
      "\<And>bs. (\<forall>a n. \<not> pend (sy_dirty s) a n) \<Longrightarrow> op_means op (sy_mem s) = Some bs \<Longrightarrow>
        \<exists>r. bk_live b' i = Some r \<and> gpu_sees (sy_mem s) r = Some bs"
    by (rule run_op_ok[OF b(3,2) op(1) run]) blast
  have w: "\<forall>x \<in> set calls. \<exists>a n. x = Watch a n" using run by (rule run_op_calls)
  have "cache_ok (tracked (sy_dirty s')) (pend (sy_dirty s')) c b' (sy_mem s)"
    by (rule cache_ok_world[OF b'(2)]) (use watch_calls[OF w] pend[OF w] in \<open>auto simp: s'\<close>)
  then show "sys_ok tracked pend s'" using b b'(1) by (simp add: sys_ok_def s')
  show "(\<forall>a n. \<not> pend (sy_dirty s) a n) \<Longrightarrow> op_means op (sy_mem s) = Some bs \<Longrightarrow>
      \<exists>b r. sy_display s' = Some b \<and> bk_live b i = Some r \<and> gpu_sees (sy_mem s') r = Some bs"
    using b'(1,3) b(1) by (simp add: s')
qed

lemma quiet_step_ok:
  assumes q: "quiet_step src s s'" and s: "sys_ok tracked pend s"
    and pend: "\<And>calls d a n. \<forall>x \<in> set calls. \<exists>a n. x = Watch a n \<Longrightarrow> pend d a n \<Longrightarrow> pend (make_calls src calls d) a n"
  shows "sys_ok tracked pend s' \<and> sy_mem s' = sy_mem s"
  using q
proof cases
  case (use op i)
  then show ?thesis using sys_op_ok(1)[OF s use pend] by (auto simp: sys_op_def split: option.splits)
next
  case (invalidate a n)
  then show ?thesis
    using s mark_dirty_ok[where pend = "pend (sy_dirty s)" and pend' = "pend (sy_dirty s)"]
    by (auto simp: sys_ok_def invalidate_range_marks)
next
  case (rehash es)
  have "cache_ok trk pnd (c\<lparr>rc_entries := es\<rparr>) b mem"
    if that: "cache_ok trk pnd c b mem" "mset es = mset (rc_entries c)" for trk pnd c b mem
  proof -
    have st: "set es = set (rc_entries c)" using that(2) by (rule mset_eq_setD)
    have "mset (live_ids (c\<lparr>rc_entries := es\<rparr>)) = mset (live_ids c)"
      using that(2) by (simp add: live_ids_def fixed_ids_def entry_ids_def)
    then have "distinct (live_ids (c\<lparr>rc_entries := es\<rparr>)) = distinct (live_ids c)"
      "set (live_ids (c\<lparr>rc_entries := es\<rparr>)) = set (live_ids c)"
      by (rule mset_eq_imp_distinct_iff, rule mset_eq_setD)
    moreover have "distinct (map fst es) = distinct (map fst (rc_entries c))"
      using that(2) by (metis mset_eq_imp_distinct_iff mset_map)
    moreover have "covered_bytes es = covered_bytes (rc_entries c)"
    proof -
      have "sum_mset (mset (map f es)) = sum_mset (mset (map f (rc_entries c)))" for f :: "_ \<Rightarrow> nat"
        using that(2) by (simp only: mset_map)
      then show ?thesis unfolding covered_bytes_def by (simp only: sum_mset_sum_list)
    qed
    ultimately show ?thesis using that(1) st by (simp add: cache_ok_def linked_def)
  qed
  then show ?thesis using s rehash by (auto simp: sys_ok_def)
qed

lemma drain_ok:
  assumes s: "sys_ok tracked pending s"
  shows "sys_ok tracked (\<lambda>_ _ _. False) (sys_drain src s)"
proof -
  obtain rs d where t: "ds_take_dirty src (sy_dirty s) = (rs, d)" by force
  obtain b where b: "sy_display s = Some b" "reads_exact (sy_mem s)"
    "cache_ok (tracked (sy_dirty s)) (pending (sy_dirty s)) (sy_cache s) b (sy_mem s)"
    using s by (auto simp: sys_ok_def)
  have "cache_ok (tracked (sy_dirty s)) (\<lambda>_ _. False) (apply_dirty rs (sy_cache s)) b (sy_mem s)"
    unfolding apply_dirty_marks by (rule mark_dirty_ok[OF b(3)]) (use take_reports[OF t] in blast)
  then have "cache_ok (tracked d) (\<lambda>_ _. False) (apply_dirty rs (sy_cache s)) b (sy_mem s)"
    by (rule cache_ok_world) (use take_tracks[OF t] in auto)
  then show ?thesis using b by (simp add: sys_ok_def sys_drain_def drain_dirty_def t)
qed

lemma sys_ok_weaken: "sys_ok tracked (\<lambda>_ _ _. False) s \<Longrightarrow> sys_ok tracked pend s"
  by (auto simp: sys_ok_def intro: cache_ok_world)

lemma release_ok:
  assumes s: "sys_ok tracked pending s" and mem: "only_changes a n (sy_mem s) mem" "reads_exact mem"
  shows "sys_ok tracked pending ((sys_free src a n s)\<lparr>sy_mem := mem\<rparr>)"
proof (cases "n = 0")
  case True
  then have "mem = sy_mem s" using mem(1) by (auto simp: only_changes_def ranges_overlap_def fun_eq_iff)
  then show ?thesis using s True by (auto simp: sys_free_def notify_free_def make_calls_def sys_ok_def)
next
  case False
  obtain b where b: "sy_display s = Some b"
    "cache_ok (tracked (sy_dirty s)) (pending (sy_dirty s)) (sy_cache s) b (sy_mem s)"
    using s by (auto simp: sys_ok_def)
  obtain c cmds calls where f: "free_range a n (sy_cache s) = (c, cmds, calls)" by (metis prod_cases3)
  obtain b' where b': "replay cmds b = Some b'"
    "cache_ok (tracked (sy_dirty s)) (pending (sy_dirty s)) c b' (sy_mem s)"
    "rc_entries c = filter (\<lambda>(k, e). \<not> ranges_overlap (rk_addr k) (rk_size k) a n) (rc_entries (sy_cache s))"
    "\<And>x. x \<in> set calls \<Longrightarrow> \<exists>a' n'. x = Unwatch a' n' \<and> ranges_overlap a' n' a n"
    by (rule free_range_ok[OF b(2) f]) blast
  let ?d = "make_calls src calls (sy_dirty s)"
  have "cache_ok (tracked ?d) (pending ?d) c b' mem"
  proof (rule cache_ok_world[OF b'(2)])
    fix k e assume "(k, e) \<in> set (rc_entries c)" and t: "tracked (sy_dirty s) (rk_addr k) (rk_size k)"
    then have no: "\<not> ranges_overlap (rk_addr k) (rk_size k) a n" using b'(3) by auto
    then have "\<forall>x \<in> set calls. \<exists>a' n'. x = Unwatch a' n' \<and> (rk_addr k, rk_size k) \<noteq> (a', n')"
      using b'(4) by fastforce
    then show "tracked ?d (rk_addr k) (rk_size k) \<and>
        (pending (sy_dirty s) (rk_addr k) (rk_size k) \<longrightarrow> pending ?d (rk_addr k) (rk_size k)) \<and>
        (pending ?d (rk_addr k) (rk_size k) \<or>
         (\<forall>bs. sy_mem s (rk_addr k) (rk_size k) = Inr bs \<longrightarrow> mem (rk_addr k) (rk_size k) = Inr bs))"
      using unwatch_calls[of calls "rk_addr k" "rk_size k" "sy_dirty s"] t no mem(1)
      by (auto simp: only_changes_def)
  qed
  then show ?thesis using b(1) b'(1) mem(2) False by (simp add: sys_ok_def sys_free_def notify_free_def f)
qed

lemma gpu_step_ok:
  assumes "gpu_step src wrote s s'" and s: "sys_ok tracked pending s"
  shows "sys_ok tracked pending s'"
  using assms(1)
proof cases
  case quiet
  then show ?thesis using quiet_step_ok[OF _ s] watch_calls by blast
next
  case drain
  then show ?thesis using drain_ok[OF s] sys_ok_weaken by auto
next
  case (guest_write a n mem)
  obtain b where b: "sy_display s = Some b"
    "cache_ok (tracked (sy_dirty s)) (pending (sy_dirty s)) (sy_cache s) b (sy_mem s)"
    using s by (auto simp: sys_ok_def)
  have "cache_ok (tracked (wrote a n (sy_dirty s))) (pending (wrote a n (sy_dirty s))) (sy_cache s) b mem"
    by (rule cache_ok_world[OF b(2)])
      (use guest_write(2) wrote_tracks wrote_keeps wrote_pending in \<open>unfold only_changes_def, metis\<close>)
  then show ?thesis using b guest_write by (simp add: sys_ok_def)
next
  case (release a n mem)
  then show ?thesis using release_ok[OF s] by simp
next
  case (map_in mem)
  then show ?thesis
    using s unfolding sys_ok_def maps_more_def by (auto elim!: cache_ok_world)
qed

lemma gpu_start_ok: "gpu_start s \<Longrightarrow> sys_ok tracked pending s"
  by (auto simp: gpu_start_def sys_ok_def with_policy_def cache_ok_def linked_def live_ids_def
      fixed_ids_def entry_ids_def covered_bytes_def)

lemma gpu_reachable_ok:
  assumes "gpu_start s0" and "(gpu_step src wrote)\<^sup>*\<^sup>* s0 s"
  shows "sys_ok tracked pending s"
  using assms(2) by induction (auto intro: gpu_start_ok[OF assms(1)] gpu_step_ok)

lemma quiet_run_ok:
  assumes "(quiet_step src)\<^sup>*\<^sup>* s s'" and "sys_ok tracked (\<lambda>_ _ _. False) s"
  shows "sys_ok tracked (\<lambda>_ _ _. False) s' \<and> sy_mem s' = sy_mem s"
  using assms
proof induction
  case (step y z)
  have "sys_ok tracked (\<lambda>_ _ _. False) z \<and> sy_mem z = sy_mem y"
    by (rule quiet_step_ok) (use step in auto)
  then show ?case using step by simp
qed simp

end

text \<open>The conservative source keeps the contract.\<close>

lemma overlap_self: "ranges_overlap a n a' n' \<Longrightarrow> ranges_overlap a n a n"
proof -
  assume o: "ranges_overlap a n a' n'"
  then have n: "n \<noteq> 0" and lt: "a < saturating_add a' n'" "a' < saturating_add a n"
    by (auto simp: ranges_overlap_def Let_def split: if_splits)
  have "unat a < 2 ^ 64 - 1" using lt(1) by (simp add: word_less_nat_alt unat_saturating_add)
  moreover have "0 < unat n" using n by (simp add: unat_gt_0)
  ultimately have "a < saturating_add a n" by (simp add: word_less_nat_alt unat_saturating_add)
  then show ?thesis using n by (simp add: ranges_overlap_def)
qed

interpretation always: dirty_contract AlwaysDirty "\<lambda>a n d. d" "\<lambda>d a n. (a, n) \<in> set d"
    "\<lambda>d a n. (a, n) \<in> set d \<and> ranges_overlap a n a n"
  by unfold_locales
    (auto simp: AlwaysDirty_def ad_watch_def ad_unwatch_def ad_take_dirty_def intro: overlap_self)

section \<open>Freed ranges\<close>

fun op_key :: "cache_op \<Rightarrow> resource_key option" where
  "op_key (UseBuffer now k) = Some k"
| "op_key (UseTexture now a n f surface fmt) = Some \<lparr>rk_addr = a, rk_size = n, rk_layout = Texture f surface\<rparr>"
| "op_key (UseTarget a n f surface fmt) = Some \<lparr>rk_addr = a, rk_size = n, rk_layout = RenderTarget f surface\<rparr>"
| "op_key _ = None"

lemma run_op_miss:
  assumes ok: "cache_ok trk pend c b mem" and k: "op_key op = Some k" "map_of (rc_entries c) k = None"
    and run: "run_op op mem' c = Some (c', cmds, calls, i)"
  shows "i = rc_next_id c"
proof -
  have gone: "map_of (rc_entries c1) k = None \<and> rc_next_id c1 = rc_next_id c" if t: "trim now c = (c1, out)" for now c1 out
    by (rule trim_ok[OF ok t]) (use k(2) in \<open>auto simp: map_of_eq_None_iff same_rest_def\<close>)
  show ?thesis
  proof (cases op)
    case (UseBuffer now k')
    obtain c1 out where t: "trim now c = (c1, out)" by force
    show ?thesis
      using run k(1) UseBuffer t gone[OF t]
      by (auto simp: cache_get_def get_miss_def mint_id_Some Let_def split: option.splits prod.splits if_splits)
  next
    case (UseTexture now a n f surface fmt)
    obtain c1 out where t: "trim now c = (c1, out)" by force
    show ?thesis
      using run k(1) UseTexture t gone[OF t]
      by (auto simp: get_texture_def texture_miss_def mint_id_Some Let_def split: option.splits)
  next
    case (UseTarget a n f surface fmt)
    then show ?thesis
      using run k by (auto simp: get_render_target_def mint_id_Some Let_def split: option.splits)
  qed (use k in auto)
qed

section \<open>The guest memory manager as the reader\<close>

lemma range_bytes:
  fixes a n :: u64
  assumes "unat a + unat n < 2 ^ 64"
  shows "{a..<a + n} = {x. unat a \<le> unat x \<and> unat x < unat a + unat n}"
  using unat_add_nowrap[of a n] assms by (auto simp: word_le_nat_alt word_less_nat_alt)

lemma read_ranged_cases:
  assumes ram: "guest_ram ops byte_at (vmm_span v)" and inv: "vmm_inv v"
  shows "read_bytes_ranged ops v a n =
     (if n = 0 then Ok []
      else if 2 ^ 64 \<le> unat a + unat n then Err ''read range overflows the address space''
      else if {a..<a + n} \<subseteq> backed (allocations v)
      then Ok (map (\<lambda>i. byte_at (vmm_ram v) (a + of_nat i)) [0..<unat n])
      else Err ''read range enters unmapped memory (gap or past the last mapping)'')"
  using read_bytes_ranged_Ok[OF ram inv, of n a]
  by (auto simp: read_bytes_ranged_def checked_add_def ranged_walk_iff[OF inv] split: option.splits)

lemma not_overlapping_apart:
  assumes "\<not> ranges_overlap a n a' n'" and "n \<noteq> 0" and "n' \<noteq> 0"
    and "unat a + unat n < 2 ^ 64" and "unat a' + unat n' < 2 ^ 64"
  shows "unat a' + unat n' \<le> unat a \<or> unat a + unat n \<le> unat a'"
  using assms by (auto simp: ranges_overlap_def Let_def saturating_add_def word_less_nat_alt unat_add_nowrap)

lemma reads_exact_manager:
  assumes "guest_ram ops byte_at (vmm_span v)" and "vmm_inv v"
  shows "reads_exact (read_bytes_ranged ops v)"
  unfolding reads_exact_def read_ranged_cases[OF assms] by (auto split: if_splits)

lemma manager_write:
  assumes ram: "guest_ram ops byte_at (vmm_span v)" and inv: "vmm_inv v"
    and data: "data \<noteq> []" "length data < 2 ^ 64"
    and w: "write_bytes_ranged ops v a data = (v', Ok ())"
  shows "only_changes a (of_nat (length data)) (read_bytes_ranged ops v) (read_bytes_ranged ops v')"
    and "reads_exact (read_bytes_ranged ops v')"
    and "read_bytes_ranged ops v' a (of_nat (length data)) = Ok data"
proof -
  note eff = write_bytes_ranged_effect(1)[OF ram inv data(2) w]
  obtain r where v': "v' = set_ram r v" using eff by blast
  have bytes: "byte_at r x = (if unat a \<le> unat x \<and> unat x < unat a + length data
      then data ! (unat x - unat a) else byte_at (vmm_ram v) x)" for x
    using eff by (simp add: v')
  have ram': "guest_ram ops byte_at (vmm_span v')" and inv': "vmm_inv v'" using ram inv by (simp_all add: v')
  let ?n = "of_nat (length data) :: u64"
  have n: "unat ?n = length data" using data(2) by (simp add: unat_of_nat_small)
  have n0: "?n \<noteq> 0" using n data(1) by (metis length_0_conv unat_0)
  have fits: "unat a + unat ?n < 2 ^ 64"
    using w data(1) by (auto simp: write_bytes_ranged_def checked_add_def split: option.splits if_splits)
  show "reads_exact (read_bytes_ranged ops v')" by (rule reads_exact_manager[OF ram' inv'])
  show "read_bytes_ranged ops v' a ?n = Ok data"
  proof -
    have "{a..<a + ?n} \<subseteq> backed (allocations v')"
      unfolding range_bytes[OF fits] using eff by (simp add: v' n)
    moreover have "map (\<lambda>i. byte_at r (a + of_nat i)) [0..<length data] = data"
    proof (rule nth_equalityI)
      fix i assume "i < length (map (\<lambda>i. byte_at r (a + of_nat i)) [0..<length data])"
      then have i: "i < length data" by simp
      then have "unat (a + of_nat i) = unat a + i"
        using fits n by (subst unat_add_nowrap) (auto simp: unat_of_nat_small)
      then show "map (\<lambda>i. byte_at r (a + of_nat i)) [0..<length data] ! i = data ! i"
        using i by (simp add: bytes)
    qed simp
    ultimately show ?thesis
      using fits n n0 by (subst read_ranged_cases[OF ram' inv']) (simp add: v')
  qed
  show "only_changes a ?n (read_bytes_ranged ops v) (read_bytes_ranged ops v')"
    unfolding only_changes_def
  proof (intro allI impI)
    fix a' n' assume no: "\<not> ranges_overlap a' n' a ?n"
    have "map (\<lambda>i. byte_at r (a' + of_nat i)) [0..<unat n'] = map (\<lambda>i. byte_at (vmm_ram v) (a' + of_nat i)) [0..<unat n']"
      if n': "n' \<noteq> 0" and fits': "unat a' + unat n' < 2 ^ 64"
    proof (rule map_cong[OF refl])
      fix i assume "i \<in> set [0..<unat n']"
      then have "unat (a' + of_nat i) = unat a' + i" "i < unat n'"
        using fits' by (subst unat_add_nowrap, auto simp: unat_of_nat_small)
      then show "byte_at r (a' + of_nat i) = byte_at (vmm_ram v) (a' + of_nat i)"
        using not_overlapping_apart[OF no n' n0 fits' fits] by (auto simp: bytes n)
    qed
    then show "read_bytes_ranged ops v' a' n' = read_bytes_ranged ops v a' n'"
      unfolding read_ranged_cases[OF ram inv] read_ranged_cases[OF ram' inv'] by (simp add: v')
  qed
qed

section \<open>Properties\<close>

text \<open>
  C30. Whatever the guest does - uses, drains, writes, frees, mappings, in any order - the display side
  accepts every command: no create on an id it has seen, no upload to or free of an id it does not
  hold. It holds exactly the ids of the live cache entries, samplers and the dummy, each once.
\<close>

theorem cache_commands_replay:
  assumes "dirty_contract src wrote tracked pending" and "gpu_start s0" and "(gpu_step src wrote)\<^sup>*\<^sup>* s0 s"
  shows "\<exists>b. sy_display s = Some b \<and> distinct (live_ids (sy_cache s)) \<and>
    dom (bk_live b) = set (live_ids (sy_cache s)) \<and> distinct (map fst (rc_entries (sy_cache s)))"
  using dirty_contract.gpu_reachable_ok[OF assms]
  by (auto simp: sys_ok_def cache_ok_def linked_def)


text \<open>
  C32. When the guest frees a range, no entry that overlaps it survives, every other entry does, and a
  later use of an overlapping key - even of the very key freed - never returns an id the display side
  has seen before.
\<close>

theorem freed_ids_never_return:
  assumes "dirty_contract src wrote tracked pending" and "gpu_start s0" and "(gpu_step src wrote)\<^sup>*\<^sup>* s0 s"
    and "sy_display s = Some b" and "op_key op = Some k" and "ranges_overlap (rk_addr k) (rk_size k) a n"
    and "sys_op src op ((sys_free src a n s)\<lparr>sy_mem := mem\<rparr>) = Some (s', i)"
  shows "i \<notin> bk_seen b \<and> rc_entries (sy_cache (sys_free src a n s)) =
    filter (\<lambda>(k, e). \<not> ranges_overlap (rk_addr k) (rk_size k) a n) (rc_entries (sy_cache s))"
proof -
  have ok: "cache_ok (tracked (sy_dirty s)) (pending (sy_dirty s)) (sy_cache s) b (sy_mem s)"
    using dirty_contract.gpu_reachable_ok[OF assms(1-3)] assms(4) by (auto simp: sys_ok_def)
  have n: "n \<noteq> 0" using assms(6) by (auto simp: ranges_overlap_def)
  obtain c cmds calls where f: "free_range a n (sy_cache s) = (c, cmds, calls)" by (metis prod_cases3)
  obtain b' where b': "cache_ok (tracked (sy_dirty s)) (pending (sy_dirty s)) c b' (sy_mem s)"
    "same_rest (sy_cache s) c"
    "rc_entries c = filter (\<lambda>(k, e). \<not> ranges_overlap (rk_addr k) (rk_size k) a n) (rc_entries (sy_cache s))"
    by (rule free_range_ok[OF ok f]) blast
  have c: "sy_cache (sys_free src a n s) = c" using n f by (simp add: sys_free_def notify_free_def)
  have none: "map_of (rc_entries c) k = None"
    using assms(6) by (auto simp: b'(3) map_of_eq_None_iff)
  obtain c2 cmds2 calls2 where "run_op op mem c = Some (c2, cmds2, calls2, i)"
    using assms(7) by (auto simp: sys_op_def c split: option.splits)
  then have "i = rc_next_id (sy_cache s)"
    using run_op_miss[OF b'(1) assms(5) none] b'(2) by (auto simp: same_rest_def)
  then show ?thesis using cache_ok_fresh[OF ok] b'(3) c by simp
qed


section \<open>Small systems\<close>

text \<open>Two bytes of readable guest memory at every address, and a system that starts on it:\<close>

definition two_bytes :: guest_read where
  "two_bytes a n = (if n = 2 then Ok [7, 9] else Err ''unmapped'')"

definition small_sys :: "always_dirty gpu_system" where
  "small_sys = \<lparr>sy_cache = with_policy copy_side, sy_dirty = [],
     sy_display = Some \<lparr>bk_live = (\<lambda>_. None), bk_seen = {}\<rparr>, sy_mem = two_bytes\<rparr>"

definition index_key :: resource_key where
  "index_key = \<lparr>rk_addr = 0x1000, rk_size = 2, rk_layout = IndexBuf\<rparr>"

lemma small_sys_start: "gpu_start small_sys"
  by (auto simp: gpu_start_def small_sys_def reads_exact_def two_bytes_def split: if_splits)

lemma drain_small_sys: "sys_drain AlwaysDirty small_sys = small_sys"
  by (simp add: sys_drain_def small_sys_def drain_dirty_def AlwaysDirty_def ad_take_dirty_def apply_dirty_def)

lemmas cache_eval = sys_op_def small_sys_def index_key_def cache_get_def trim_def with_policy_def
  get_miss_def mint_id_def checked_add_def wants_import_def copy_side_def emit_upload_def two_bytes_def
  watch_pays_def is_linear_buffer_def hm_insert_def bt_remove_def make_calls_def bk_create_def bk_update_def

theorem cache_commands_replay_witness:
  "\<exists>b. sy_display small_sys = Some b \<and> distinct (live_ids (sy_cache small_sys)) \<and>
    dom (bk_live b) = set (live_ids (sy_cache small_sys)) \<and> distinct (map fst (rc_entries (sy_cache small_sys)))"
  by (rule cache_commands_replay[OF always.dirty_contract_axioms small_sys_start rtranclp.rtrancl_refl])


theorem freed_ids_never_return_witness:
  "\<exists>s i. sys_op AlwaysDirty (UseBuffer 0 index_key) ((sys_free AlwaysDirty 0x1001 1 small_sys)\<lparr>sy_mem := two_bytes\<rparr>)
     = Some (s, i) \<and> i \<notin> bk_seen \<lparr>bk_live = (\<lambda>_. None), bk_seen = {}\<rparr>"
proof -
  have "sys_free AlwaysDirty 0x1001 1 small_sys = small_sys"
    by (simp add: sys_free_def notify_free_def free_range_def small_sys_def with_policy_def make_calls_def)
  then have "sys_op AlwaysDirty (UseBuffer 0 index_key) ((sys_free AlwaysDirty 0x1001 1 small_sys)\<lparr>sy_mem := two_bytes\<rparr>) \<noteq> None"
    by (simp add: cache_eval)
  then obtain s i where op: "sys_op AlwaysDirty (UseBuffer 0 index_key)
      ((sys_free AlwaysDirty 0x1001 1 small_sys)\<lparr>sy_mem := two_bytes\<rparr>) = Some (s, i)" by auto
  have "ranges_overlap (rk_addr index_key) (rk_size index_key) 0x1001 1"
    by (simp add: ranges_overlap_def index_key_def saturating_add_def)
  from freed_ids_never_return[OF always.dirty_contract_axioms small_sys_start rtranclp.rtrancl_refl _ _ this op]
  show ?thesis using op by (auto simp: small_sys_def)
qed

definition vm_sys :: "always_dirty gpu_system" where
  "vm_sys = small_sys\<lparr>sy_mem := read_bytes_ranged (flat_ops 0x500000000) small_vm\<rparr>"


end
