(* ===== verification/Spec2Isabelle.thy ===== *)
theory Spec2Isabelle
  imports Guest_Memory Sync_Manager Gpu_State Gcn_Cfg Gcn_Interp Direct_Memory File_System Module_Loading Surface_Tiling Self_Container Linker Cache_System
begin

text \<open>
  \<^bold>\<open>A verification development for the unemups4 emulator.\<close>

  unemups4 runs PlayStation 4 programs on a host: it unwraps and links the guest's executables,
  runs their x86 code in an identity-mapped arena, answers their system calls, and translates
  their command streams and shaders for a host GPU. This development models the parts of the
  Rust workspace that carry that logic, and proves what makes them correct. Names in the theories
  are those of the source, with a suffix or prefix where HOL has the name already.

  \<^bold>\<open>The parts and their theories.\<close> Paths are below \<^verbatim>\<open>crates/\<close>.

  \<^item> \<open>Rust_Prelude\<close>: machine integers, checked and saturating arithmetic, rounding, ordered maps
    (with the locale of their contract), little-endian bytes. Words wrap, as the release profile
    does.

  \<^item> \<open>Guest_Memory\<close> (\<^verbatim>\<open>memory/src/vm_backend.rs\<close>, \<^verbatim>\<open>core/src/memory.rs\<close>): the table of mapped regions
    over the arena: placing, mapping, unmapping, protecting, reading and writing, zeroing. The
    record \<open>vmm\<close> is \<^verbatim>\<open>VmMemoryManager\<close>. The bytes of the arena belong to the x86 engine, a
    dependency: they are the parameter \<open>ram_ops\<close>, and the locale \<open>guest_ram\<close> says what the manager
    relies on. Shown: the region-table invariant in every reachable state, that a map returns
    fresh zeroed memory, exactly what an unmap drops and discards, and that ranged accesses
    touch only mapped bytes.

  \<^item> \<open>Direct_Memory\<close> (\<^verbatim>\<open>kernel/src/process.rs\<close>): the pool of physical offsets, the process's \<open>mmap\<close> and
    \<open>munmap\<close> on top of \<open>Guest_Memory\<close>, and the per-thread TLS arenas. Shown: no offset is handed out
    twice, live reservations stay disjoint, what a release frees, and that the largest-run query
    is exact for the allocator.

  \<^item> \<open>File_System\<close> (\<^verbatim>\<open>kernel/src/fs.rs\<close>, the save-data mounts of \<^verbatim>\<open>process.rs\<close>): mounts, the
    resolution of guest paths, descriptors, directory reading, save slots. The host's file system
    is the parameter \<open>host_ops\<close>, one field for each call of the standard library. Shown: no
    mutating call leaves the mounts' roots, what the lexical collapse of a path does, that a
    directory is read completely and each entry once, and that save slots never collide.

  \<^item> \<open>Sync_Manager\<close> (\<^verbatim>\<open>kernel/src/sync.rs\<close>): mutexes and condition variables. Each critical section is
    one function and the interleavings of all threads are an inductive step relation. Shown:
    mutual exclusion, no lost wakeup, and the return codes by type.

  \<^item> \<open>Self_Container\<close> (\<^verbatim>\<open>loader/src/container.rs\<close>, \<^verbatim>\<open>nid.rs\<close>): unwrapping an executable. Shown: it never
    panics on any input, and the unwrapped image is byte for byte the described one.

  \<^item> \<open>Pm4\<close> (\<^verbatim>\<open>gnm/src/pm4\<close>): the command stream, its decoder and its builders. Shown: the decoder
    splits every buffer exactly and inverts the packet format; what the builders emit.

  \<^item> \<open>Gpu_State\<close> (\<^verbatim>\<open>gnm/src/state.rs\<close>, part of \<^verbatim>\<open>exec.rs\<close>): the register banks, the bound shaders derived
    from them, the render-target registry, and the walk that executes packets on them. Shown: a
    shader-set call, built, decoded and executed, programs exactly its registers and binds its
    code.

  \<^item> \<open>Gcn_Decode\<close> (\<^verbatim>\<open>gcn/src/operand.rs\<close>, \<^verbatim>\<open>inst.rs\<close>, \<^verbatim>\<open>opcodes.rs\<close>, \<^verbatim>\<open>decoder.rs\<close>): shader machine code to
    instructions. Shown: the instructions tile the stream, and the decoder is a left inverse of
    the encoding in all formats (locale \<open>tiled_walk\<close>).

  \<^item> \<open>Gcn_Cfg\<close> (\<^verbatim>\<open>gcn/src/cfg.rs\<close>): instructions to basic blocks and loops. Shown: the graph has exactly
    the control flow of the stream, what is accepted and what the errors mean, and that decoding
    and building never panic together.

  \<^item> \<open>Surface_Tiling\<close> (\<^verbatim>\<open>core/src/tiling.rs\<close>, \<^verbatim>\<open>gnm/src/cache/tile.rs\<close>, the image descriptors of
    \<^verbatim>\<open>gnm/src/vbuf.rs\<close> and \<^verbatim>\<open>gcn/src/interp.rs\<close>): detiling and tiling surfaces. The locale
    \<open>surface_order\<close> is a layout as a placement of chunks; it is interpreted on the micro-tiled and
    the linear-aligned orders. Shown: tiling and detiling are inverse, and the upload path reads
    exactly the bytes the sampler reads.

  \<^bold>\<open>How the parts interact.\<close> The container gives the loader an ELF; the loader and the guest's
  calls map memory through \<open>Guest_Memory\<close>; \<open>mmap\<close> of a file reads through \<open>File_System\<close>; the guest
  submits command buffers, which \<open>Pm4\<close> decodes and \<open>Gpu_State\<close> executes; a draw takes the bound
  shader's code through \<open>Gcn_Decode\<close> and \<open>Gcn_Cfg\<close>, and its textures through \<open>Surface_Tiling\<close>.

  \<^bold>\<open>Conventions.\<close> A \<^verbatim>\<open>struct\<close> is a record, an \<^verbatim>\<open>enum\<close> a datatype, an integer a word of its width
  (a \<^verbatim>\<open>usize\<close> is a 64-bit word, or a natural where the source has checked it). A fallible call
  returns a sum with the error on the left. A panic, or a search that does not end, is an outer
  \<open>None\<close>; that it does not happen is then proved (\<open>container_open_total\<close>, \<open>front_end_total\<close>, the
  searches of \<open>Guest_Memory\<close> and of the save slots). Loops are structural recursion, a function with
  a measure, or fuel: the scan for a free save slot has one step more than there are slots, which
  the pigeonhole principle shows is enough; a directory is read in at most one call more than
  it has entries.

  \<^bold>\<open>Not modelled\<close>, and why: the x86 engine, the host's file system, allocator and page discard (outside
  the repository; parameters here); the Vulkan back end and the window, audio and pad code (calls of
  libraries); the recompiler's SPIR-V output and the interpreter's floating point (no semantics of
  either here); the snapshot and trace output; the generated system-call tables and the guest
  libraries' stubs.

  \<^bold>\<open>Plan\<close>: the resource cache (keys, dirty ranges, uploads over \<open>Surface_Tiling\<close>), the dynamic section
  and relocations of the linker over \<open>Self_Container\<close>, the module graph of the process, checked
  guest-memory access over \<open>Guest_Memory\<close>, the draw arms of the executor over \<open>Gpu_State\<close>, and the
  integer instructions of the interpreter over \<open>Gcn_Cfg\<close>.
\<close>

end
